(* ===== verification/Prelude.thy ===== *)
theory Prelude
  imports Main "HOL-Library.Word" "HOL-Library.Monad_Syntax"
begin

unbundle bit_operations_syntax

text \<open>
  Shared vocabulary of the development: the machine integer types of \<^verbatim>\<open>kernel.h\<close>, the
  lemma collections, the linked-list abstraction that the page free list, the slab free
  lists and the ready queue use, and generic facts on words, options and lists.

  Result convention: an operation of type \<open>... \<Rightarrow> 'a option\<close> returns \<open>None\<close> when the C function
  does not return to its caller: an access outside an array, a shift by a negative amount, a
  loop that never ends, or a halt (\<^verbatim>\<open>while (1) wfe\<close>). Ordinary error codes of the C code
  (NULL, 0, -1) are values, never \<open>None\<close> of this outer option.
\<close>

section \<open>Machine integers\<close>

type_synonym u8 = "8 word"
type_synonym u32 = "32 word"
type_synonym u64 = "64 word"

named_theorems mem_simps \<open>loads after stores, and stores outside a range\<close>
named_theorems pmm_simps \<open>field projections of page-allocator states\<close>
named_theorems sched_simps \<open>field projections of scheduler states\<close>

lemma unat_u64_lt [simp]: "unat (x :: u64) < 18446744073709551616"
  using unsigned_less [of x, where ?'a = nat] by simp

lemma unat_u32_lt [simp]: "unat (x :: u32) < 4294967296"
  using unsigned_less [of x, where ?'a = nat] by simp

lemma unat_add_no_wrap:
  fixes x y :: u64
  assumes "unat x + unat y < 2 ^ 64"
  shows "unat (x + y) = unat x + unat y"
  using assms by (simp add: unat_word_ariths)

lemma unat_sub_no_wrap:
  fixes x y :: u64
  assumes "unat y \<le> unat x"
  shows "unat (x - y) = unat x - unat y"
  using assms by (simp add: unat_sub_if')

lemma unat_of_nat_small:
  assumes "n < 2 ^ 64"
  shows "unat (of_nat n :: u64) = n"
  using assms by (simp add: unat_of_nat)

lemma unat_ucast_u32 [simp]: "unat (ucast (x :: u32) :: u64) = unat x"
proof -
  have "unat x < 2 ^ 64" by (rule less_trans [OF unat_u32_lt]) simp
  then show ?thesis by (simp add: unsigned_ucast_eq take_bit_nat_eq_self_iff)
qed

lemma unat_of_nat_u32: "n < 2 ^ 32 \<Longrightarrow> unat (of_nat n :: u32) = n"
  by (simp add: unat_of_nat)

text \<open>The masks the code uses, as truncations.\<close>

lemma and_0xF: "(x :: u64) AND 0xF = take_bit 4 x"
  by (simp add: take_bit_eq_mask mask_eq_exp_minus_1)

lemma and_0x1FF: "(x :: u64) AND 0x1FF = take_bit 9 x"
  by (simp add: take_bit_eq_mask mask_eq_exp_minus_1)

lemma and_0xFFF: "(x :: u64) AND 0xFFF = take_bit 12 x"
  by (simp add: take_bit_eq_mask mask_eq_exp_minus_1)

section \<open>Linked lists in a store\<close>

text \<open>
  \<open>seg nx p xs q\<close>: following \<open>nx\<close> from the pointer \<open>p\<close> visits exactly \<open>xs\<close> and arrives at
  \<open>q\<close>; \<open>chain nx p xs\<close>: the list headed by \<open>p\<close> is \<open>xs\<close> and ends in the null pointer
  \<open>None\<close>. Both are bool-valued and executable.
\<close>

primrec seg :: "('a \<Rightarrow> 'a option) \<Rightarrow> 'a option \<Rightarrow> 'a list \<Rightarrow> 'a option \<Rightarrow> bool" where
  "seg nx p [] q = (p = q)"
| "seg nx p (x # xs) q = (p = Some x \<and> seg nx (nx x) xs q)"

abbreviation chain :: "('a \<Rightarrow> 'a option) \<Rightarrow> 'a option \<Rightarrow> 'a list \<Rightarrow> bool" where
  "chain nx p xs \<equiv> seg nx p xs None"

lemma seg_append [simp]:
  "seg nx p (xs @ ys) q \<longleftrightarrow> (\<exists>r. seg nx p xs r \<and> seg nx r ys q)"
  by (induction xs arbitrary: p) auto

lemma chain_None [simp]: "chain nx None xs \<longleftrightarrow> xs = []"
  by (cases xs) auto

lemma chain_Some:
  "chain nx (Some x) xs \<longleftrightarrow> (\<exists>ys. xs = x # ys \<and> chain nx (nx x) ys)"
  by (cases xs) auto

lemma seg_cong:
  "(\<And>x. x \<in> set xs \<Longrightarrow> f x = g x) \<Longrightarrow> seg f p xs q = seg g p xs q"
  by (induction xs arbitrary: p) auto

lemma seg_upd [simp]:
  "x \<notin> set xs \<Longrightarrow> seg (nx(x := y)) p xs q = seg nx p xs q"
  by (rule seg_cong) auto

lemma chain_unique: "chain nx p xs \<Longrightarrow> chain nx p ys \<Longrightarrow> xs = ys"
proof (induction xs arbitrary: p ys)
  case (Cons x xs)
  then show ?case by (cases ys) auto
qed simp

text \<open>A list that ends cannot visit a node twice: its tails would coincide.\<close>

lemma chain_distinct: "chain nx p xs \<Longrightarrow> distinct xs"
proof (induction xs arbitrary: p)
  case (Cons x xs)
  have tail: "chain nx (nx x) xs" using Cons.prems by simp
  have "x \<notin> set xs"
  proof
    assume "x \<in> set xs"
    then obtain us vs where xs: "xs = us @ x # vs" by (auto simp: in_set_conv_decomp)
    with tail have "chain nx (nx x) vs" by auto
    with tail have "xs = vs" by (rule chain_unique)
    with xs show False by (metis length_append length_Cons less_add_Suc2 less_irrefl
          add_Suc_right)
  qed
  with Cons.IH [OF tail] show ?case by simp
qed simp

text \<open>Unlinking an inner node: its predecessor takes over its successor.\<close>

lemma chain_unlink:
  assumes "chain nx p (us @ [a] @ x # vs)"
  shows "chain (nx(a := nx x)) p (us @ [a] @ vs)"
proof -
  have d: "distinct (us @ [a] @ x # vs)" using assms by (rule chain_distinct)
  then show ?thesis using assms by auto
qed

text \<open>The first element of a list that satisfies a test, with what precedes it.\<close>

lemma split_at_member:
  assumes "x \<in> set xs"
  obtains us vs where "xs = us @ x # vs" "x \<notin> set us"
  using split_list_first [OF assms] by blast

lemma remove1_middle: "x \<notin> set us \<Longrightarrow> remove1 x (us @ x # vs) = us @ vs"
  by (simp add: remove1_append)

end
