(* ===== verification/Memory.thy ===== *)
theory Memory
  imports Prelude
begin

text \<open>
  Physical memory as the kernel sees it (identity mapped): a total map from 64-bit addresses to
  bytes, with the little-endian loads and stores that the C code's \<^verbatim>\<open>uint64_t\<close> and
  \<^verbatim>\<open>uint32_t\<close> accesses perform. Page tables, heap object headers and program images all live in
  this one memory, so an overlap between them is visible to the theorems.
\<close>

type_synonym mem = "u64 \<Rightarrow> u8"

fun load_bytes :: "mem \<Rightarrow> u64 \<Rightarrow> nat \<Rightarrow> u64" where
  "load_bytes m a 0 = 0"
| "load_bytes m a (Suc n) = ucast (m a) OR push_bit 8 (load_bytes m (a + 1) n)"

fun store_bytes :: "mem \<Rightarrow> u64 \<Rightarrow> u64 \<Rightarrow> nat \<Rightarrow> mem" where
  "store_bytes m a v 0 = m"
| "store_bytes m a v (Suc n) = store_bytes (m(a := ucast v)) (a + 1) (drop_bit 8 v) n"

definition load64 :: "mem \<Rightarrow> u64 \<Rightarrow> u64" where
  "load64 m a = load_bytes m a 8"

definition store64 :: "mem \<Rightarrow> u64 \<Rightarrow> u64 \<Rightarrow> mem" where
  "store64 m a v = store_bytes m a v 8"

definition load32 :: "mem \<Rightarrow> u64 \<Rightarrow> u32" where
  "load32 m a = ucast (load_bytes m a 4)"

definition store32 :: "mem \<Rightarrow> u64 \<Rightarrow> u32 \<Rightarrow> mem" where
  "store32 m a v = store_bytes m a (ucast v) 4"

section \<open>Ranges and disjointness\<close>

text \<open>
  \<open>x\<close> lies in the \<open>n\<close> bytes from \<open>a\<close> (addresses wrap modulo \<open>2 ^ 64\<close>) iff its distance from
  \<open>a\<close> is below \<open>n\<close>. Two ranges are apart when no byte of the second lies in the first.
\<close>

definition in_range :: "u64 \<Rightarrow> u64 \<Rightarrow> nat \<Rightarrow> bool" where
  "in_range x a n \<longleftrightarrow> unat (x - a) < n"

definition apart :: "u64 \<Rightarrow> nat \<Rightarrow> u64 \<Rightarrow> nat \<Rightarrow> bool" where
  "apart a n b k \<longleftrightarrow> (\<forall>j < k. \<not> in_range (b + of_nat j) a n)"

lemma in_range_iff:
  assumes "unat a + n \<le> 2 ^ 64"
  shows "in_range x a n \<longleftrightarrow> unat a \<le> unat x \<and> unat x < unat a + n"
  unfolding in_range_def using assms unat_u64_lt [of x] unat_u64_lt [of a]
  by (auto simp: unat_sub_if')

lemma in_range_step: "x \<noteq> a \<Longrightarrow> in_range x (a + 1) n \<longleftrightarrow> in_range x a (Suc n)"
proof -
  assume "x \<noteq> a"
  then have "x - a \<noteq> 0" by simp
  then have "unat (x - a - 1) = unat (x - a) - 1" by (rule unat_minus_one)
  moreover have "0 < unat (x - a)" using \<open>x - a \<noteq> 0\<close> by (simp add: unat_gt_0)
  ultimately show ?thesis by (auto simp: in_range_def diff_diff_eq [symmetric])
qed

lemma apart_intervals:
  assumes "unat a + n \<le> 2 ^ 64" "unat b + k \<le> 2 ^ 64"
    and "unat b + k \<le> unat a \<or> unat a + n \<le> unat b"
  shows "apart a n b k"
  unfolding apart_def
proof (intro allI impI)
  fix j assume "j < k"
  then have "unat (b + of_nat j) = unat b + j"
    using assms(2) by (subst unat_add_no_wrap) (auto simp: unat_of_nat_small)
  then show "\<not> in_range (b + of_nat j) a n"
    using assms \<open>j < k\<close> by (auto simp: in_range_iff)
qed

section \<open>Loads and stores\<close>

lemma store_bytes_other:
  "\<not> in_range x a n \<Longrightarrow> store_bytes m a v n x = m x"
proof (induction n arbitrary: m a v)
  case (Suc n)
  then have "x \<noteq> a" by (auto simp: in_range_def)
  moreover have "\<not> in_range x (a + 1) n"
    using Suc.prems \<open>x \<noteq> a\<close> by (simp add: in_range_step)
  ultimately show ?case using Suc.IH by simp
qed (simp add: in_range_def)

lemma load_bytes_cong:
  "(\<And>j. j < n \<Longrightarrow> m (a + of_nat j) = m' (a + of_nat j)) \<Longrightarrow>
    load_bytes m a n = load_bytes m' a n"
proof (induction n arbitrary: a)
  case (Suc n)
  have "m a = m' a" using Suc.prems [of 0] by simp
  moreover have "load_bytes m (a + 1) n = load_bytes m' (a + 1) n"
  proof (rule Suc.IH)
    fix j assume "j < n"
    then show "m (a + 1 + of_nat j) = m' (a + 1 + of_nat j)"
      using Suc.prems [of "Suc j"] by (simp add: add.assoc)
  qed
  ultimately show ?case by simp
qed simp

lemma load_store_bytes_apart:
  "apart a n b k \<Longrightarrow> load_bytes (store_bytes m a v n) b k = load_bytes m b k"
  by (rule load_bytes_cong) (simp add: apart_def store_bytes_other)

lemma take_bit_byte_step:
  fixes v :: u64
  shows "take_bit (8 * Suc n) v = take_bit 8 v OR push_bit 8 (take_bit (8 * n) (drop_bit 8 v))"
  by (rule bit_eqI) (auto simp: bit_simps)

lemma ucast_byte: "ucast (ucast (v :: u64) :: u8) = take_bit 8 v"
  by (rule bit_eqI) (auto simp: bit_simps)

lemma not_in_range_next: "n < 2 ^ 64 \<Longrightarrow> \<not> in_range a (a + 1) n"
proof -
  assume "n < 2 ^ 64"
  have "a - (a + 1) = (- 1 :: u64)" by simp
  then have "unat (a - (a + 1)) = 2 ^ 64 - 1" by (simp add: unsigned_minus_1_eq_mask mask_eq_exp_minus_1)
  then show ?thesis using \<open>n < 2 ^ 64\<close> by (simp add: in_range_def)
qed

lemma load_store_bytes:
  "n \<le> 8 \<Longrightarrow> load_bytes (store_bytes m a v n) a n = take_bit (8 * n) v"
proof (induction n arbitrary: m a v)
  case (Suc n)
  then have "store_bytes (m(a := ucast v)) (a + 1) (drop_bit 8 v) n a = ucast v"
    by (simp add: store_bytes_other not_in_range_next)
  moreover have "load_bytes (store_bytes (m(a := ucast v)) (a + 1) (drop_bit 8 v) n) (a + 1) n =
      take_bit (8 * n) (drop_bit 8 v)"
    using Suc by simp
  ultimately show ?case
    by (simp only: load_bytes.simps store_bytes.simps ucast_byte take_bit_byte_step)
qed simp

lemma load64_store64 [simp, mem_simps]: "load64 (store64 m a v) a = v"
  by (simp add: load64_def store64_def load_store_bytes take_bit_word_eq_self)

lemma load32_store32 [simp, mem_simps]: "load32 (store32 m a v) a = v"
  by (rule bit_eqI) (simp add: load32_def store32_def load_store_bytes bit_simps)

lemma load64_store64_apart [mem_simps]:
  "apart a 8 b 8 \<Longrightarrow> load64 (store64 m a v) b = load64 m b"
  by (simp add: load64_def store64_def load_store_bytes_apart)

lemma load64_store32_apart [mem_simps]:
  "apart a 4 b 8 \<Longrightarrow> load64 (store32 m a v) b = load64 m b"
  by (simp add: load64_def store32_def load_store_bytes_apart)

lemma load32_store64_apart [mem_simps]:
  "apart a 8 b 4 \<Longrightarrow> load32 (store64 m a v) b = load32 m b"
  by (simp add: load32_def store64_def load_store_bytes_apart)

lemma load32_store32_apart [mem_simps]:
  "apart a 4 b 4 \<Longrightarrow> load32 (store32 m a v) b = load32 m b"
  by (simp add: load32_def store32_def load_store_bytes_apart)

lemma store64_other: "\<not> in_range x a 8 \<Longrightarrow> store64 m a v x = m x"
  by (simp add: store64_def store_bytes_other)

lemma store32_other: "\<not> in_range x a 4 \<Longrightarrow> store32 m a v x = m x"
  by (simp add: store32_def store_bytes_other)

lemma load64_cong:
  "(\<And>j. j < 8 \<Longrightarrow> m (a + of_nat j) = m' (a + of_nat j)) \<Longrightarrow> load64 m a = load64 m' a"
  unfolding load64_def by (rule load_bytes_cong)

lemma load32_cong:
  "(\<And>j. j < 4 \<Longrightarrow> m (a + of_nat j) = m' (a + of_nat j)) \<Longrightarrow> load32 m a = load32 m' a"
  unfolding load32_def by (rule arg_cong [where f = ucast], rule load_bytes_cong)

text \<open>Fields at an offset in a structure of which every byte agrees.\<close>

lemma load_within:
  assumes eq: "\<And>j. j < n \<Longrightarrow> m (a + of_nat j) = m' (a + of_nat j)"
  shows "d + 8 \<le> n \<Longrightarrow> load64 m (a + of_nat d) = load64 m' (a + of_nat d)"
    "d + 4 \<le> n \<Longrightarrow> load32 m (a + of_nat d) = load32 m' (a + of_nat d)"
proof -
  have e: "m (a + of_nat d + of_nat j) = m' (a + of_nat d + of_nat j)" if "d + j < n" for j
    using eq [OF that] by (simp add: add.assoc)
  show "d + 8 \<le> n \<Longrightarrow> load64 m (a + of_nat d) = load64 m' (a + of_nat d)" by (rule load64_cong) (simp add: e)
  show "d + 4 \<le> n \<Longrightarrow> load32 m (a + of_nat d) = load32 m' (a + of_nat d)" by (rule load32_cong) (simp add: e)
qed

lemma load_bytes_zero:
  "(\<And>j. j < n \<Longrightarrow> m (a + of_nat j) = 0) \<Longrightarrow> load_bytes m a n = 0"
proof (induction n arbitrary: a)
  case (Suc n)
  have "m a = 0" using Suc.prems [of 0] by simp
  moreover have "load_bytes m (a + 1) n = 0"
  proof (rule Suc.IH)
    fix j assume "j < n"
    then show "m (a + 1 + of_nat j) = 0" using Suc.prems [of "Suc j"] by (simp add: add.assoc)
  qed
  ultimately show ?case by simp
qed simp

lemma load64_zero: "(\<And>j. j < 8 \<Longrightarrow> m (a + of_nat j) = 0) \<Longrightarrow> load64 m a = 0"
  unfolding load64_def by (rule load_bytes_zero)

lemma load_bytes_bits: "bit (load_bytes m a n) i \<Longrightarrow> i < 8 * n"
proof (induction n arbitrary: a i)
  case (Suc n)
  from Suc.prems have "bit (ucast (m a) :: u64) i \<or> 8 \<le> i \<and> bit (load_bytes m (a + 1) n) (i - 8)"
    by (auto simp: bit_simps)
  then show ?case
  proof
    assume "bit (ucast (m a) :: u64) i"
    then have "i < 8" using bit_imp_le_length [of "m a" i] by (simp add: bit_simps)
    then show ?thesis by simp
  next
    assume "8 \<le> i \<and> bit (load_bytes m (a + 1) n) (i - 8)"
    then show ?thesis using Suc.IH [of "a + 1" "i - 8"] by auto
  qed
qed simp

text \<open>Storing what is there changes nothing.\<close>

lemma store_load_bytes: "n \<le> 8 \<Longrightarrow> store_bytes m a (load_bytes m a n) n = m"
proof (induction n arbitrary: a)
  case (Suc n)
  have low: "ucast (load_bytes m a (Suc n)) = m a"
  proof (rule bit_eqI)
    fix i assume "possible_bit TYPE(8 word) i"
    then have "i < 8" by simp
    then show "bit (ucast (load_bytes m a (Suc n)) :: u8) i = bit (m a) i" by (simp add: bit_simps)
  qed
  have high: "drop_bit 8 (load_bytes m a (Suc n)) = load_bytes m (a + 1) n"
  proof (rule bit_eqI)
    fix i assume "possible_bit TYPE(64 word) i"
    moreover have "\<not> bit (m a) (8 + i)" using bit_imp_le_length [of "m a" "8 + i"] by auto
    moreover have "bit (load_bytes m (a + 1) n) i \<Longrightarrow> i < 56"
      using load_bytes_bits [of m "a + 1" n i] Suc.prems by simp
    ultimately show "bit (drop_bit 8 (load_bytes m a (Suc n))) i = bit (load_bytes m (a + 1) n) i"
      by (auto simp: bit_simps)
  qed
  have "store_bytes m a (load_bytes m a (Suc n)) (Suc n) = store_bytes (m(a := m a)) (a + 1) (load_bytes m (a + 1) n) n"
    by (simp only: store_bytes.simps low high)
  then show ?case using Suc by simp
qed simp

lemma store64_load64 [simp]: "store64 m a (load64 m a) = m"
  by (simp add: store64_def load64_def store_load_bytes)

section \<open>Writes confined to an interval of addresses\<close>

definition same_outside :: "mem \<Rightarrow> mem \<Rightarrow> nat \<Rightarrow> nat \<Rightarrow> bool" where
  "same_outside m m' lo n \<longleftrightarrow> (\<forall>x. unat x < lo \<or> lo + n \<le> unat x \<longrightarrow> m' x = m x)"

lemma same_outside_refl [simp]: "same_outside m m lo n"
  by (simp add: same_outside_def)

lemma same_outside_trans: "same_outside m m' lo n \<Longrightarrow> same_outside m' m'' lo n \<Longrightarrow> same_outside m m'' lo n"
  by (simp add: same_outside_def)

lemma same_outside_mono:
  "same_outside m m' lo n \<Longrightarrow> lo' \<le> lo \<Longrightarrow> lo + n \<le> lo' + n' \<Longrightarrow> same_outside m m' lo' n'"
  by (auto simp: same_outside_def)

lemma unat_offset:
  fixes a :: u64
  assumes "unat a + n \<le> 2 ^ 64" "j < n"
  shows "unat (a + of_nat j) = unat a + j"
  using assms by (subst unat_add_no_wrap) (auto simp: unat_of_nat_small)

lemma unat_offset_num:
  fixes a c :: u64
  assumes "unat a + n \<le> 2 ^ 64" "unat c < n"
  shows "unat (a + c) = unat a + unat c"
  using assms by (intro unat_add_no_wrap) linarith

lemma same_outside_store64:
  assumes "lo \<le> unat a" "unat a + 8 \<le> lo + n" "unat a + 8 \<le> 2 ^ 64"
  shows "same_outside m (store64 m a v) lo n"
  unfolding same_outside_def
proof (intro allI impI)
  fix x :: u64 assume "unat x < lo \<or> lo + n \<le> unat x"
  then have "\<not> in_range x a 8" using assms by (auto simp: in_range_iff)
  then show "store64 m a v x = m x" by (rule store64_other)
qed

lemma same_outside_store32:
  assumes "lo \<le> unat a" "unat a + 4 \<le> lo + n" "unat a + 4 \<le> 2 ^ 64"
  shows "same_outside m (store32 m a v) lo n"
  unfolding same_outside_def
proof (intro allI impI)
  fix x :: u64 assume "unat x < lo \<or> lo + n \<le> unat x"
  then have "\<not> in_range x a 4" using assms by (auto simp: in_range_iff)
  then show "store32 m a v x = m x" by (rule store32_other)
qed

lemma load64_outside:
  assumes "same_outside m m' lo n" "unat a + 8 \<le> 2 ^ 64" "unat a + 8 \<le> lo \<or> lo + n \<le> unat a"
  shows "load64 m' a = load64 m a"
proof (rule load64_cong)
  fix j :: nat assume "j < 8"
  then have "unat (a + of_nat j) = unat a + j" using assms(2) by (intro unat_offset)
  then show "m' (a + of_nat j) = m (a + of_nat j)" using assms(1,3) \<open>j < 8\<close> by (auto simp: same_outside_def)
qed

lemma load32_outside:
  assumes "same_outside m m' lo n" "unat a + 4 \<le> 2 ^ 64" "unat a + 4 \<le> lo \<or> lo + n \<le> unat a"
  shows "load32 m' a = load32 m a"
proof (rule load32_cong)
  fix j :: nat assume "j < 4"
  then have "unat (a + of_nat j) = unat a + j" using assms(2) by (intro unat_offset)
  then show "m' (a + of_nat j) = m (a + of_nat j)" using assms(1,3) \<open>j < 4\<close> by (auto simp: same_outside_def)
qed

lemma load_bytes_split: "load_bytes m a (n + k) = load_bytes m a n OR push_bit (8 * n) (load_bytes m (a + of_nat n) k)"
proof (induction n arbitrary: a)
  case (Suc n)
  have "push_bit (8 * Suc n) x = push_bit 8 (push_bit (8 * n) x)" for x :: u64 by (simp add: push_bit_push_bit)
  then show ?case using Suc [of "a + 1"] by (simp add: push_bit_or or.assoc add.assoc)
qed simp

text \<open>The low half of a 64 bit word, read on its own.\<close>

lemma load32_low: "load32 m a = ucast (load64 m a)"
proof -
  have "load64 m a = load_bytes m a 4 OR push_bit 32 (load_bytes m (a + of_nat 4) 4)"
    using load_bytes_split [of m a 4 4] by (simp add: load64_def)
  then show ?thesis unfolding load32_def by (intro bit_eqI) (auto simp: bit_simps)
qed

end
