(* ===== verification/Kstring.thy ===== *)
theory Kstring
  imports Memory
begin

text \<open>
  \<^verbatim>\<open>core/string.c\<close>: the four byte-string routines, as loops over the byte memory. The two
  counted loops (\<^verbatim>\<open>while (n--)\<close>) recurse on the count; the two sentinel loops
  (\<open>strlen\<close>, \<open>strcmp\<close>) are partial: without a terminating zero byte they run around the whole
  address space for ever, which is the value \<open>None\<close>.
\<close>

section \<open>memset and memcpy\<close>

fun memset_loop :: "mem \<Rightarrow> u64 \<Rightarrow> u8 \<Rightarrow> nat \<Rightarrow> mem" where
  "memset_loop m p c 0 = m"
| "memset_loop m p c (Suc n) = memset_loop (m(p := c)) (p + 1) c n"

definition memset :: "mem \<Rightarrow> u64 \<Rightarrow> u32 \<Rightarrow> u64 \<Rightarrow> mem \<times> u64" where
  "memset m s c n = (memset_loop m s (ucast c) (unat n), s)"

fun memcpy_loop :: "mem \<Rightarrow> u64 \<Rightarrow> u64 \<Rightarrow> nat \<Rightarrow> mem" where
  "memcpy_loop m d s 0 = m"
| "memcpy_loop m d s (Suc n) = memcpy_loop (m(d := m s)) (d + 1) (s + 1) n"

definition memcpy :: "mem \<Rightarrow> u64 \<Rightarrow> u64 \<Rightarrow> u64 \<Rightarrow> mem \<times> u64" where
  "memcpy m dest src n = (memcpy_loop m dest src (unat n), dest)"

lemma in_range_self [simp]: "in_range a a n \<longleftrightarrow> 0 < n"
  by (simp add: in_range_def)

lemma memset_loop_eq:
  "n < 2 ^ 64 \<Longrightarrow> memset_loop m p c n = (\<lambda>x. if in_range x p n then c else m x)"
proof (induction n arbitrary: m p)
  case (Suc n)
  have "memset_loop m p c (Suc n) = (\<lambda>x. if in_range x (p + 1) n then c else (m(p := c)) x)"
    using Suc by simp
  also have "\<dots> = (\<lambda>x. if in_range x p (Suc n) then c else m x)"
  proof
    fix x
    show "(if in_range x (p + 1) n then c else (m(p := c)) x) =
        (if in_range x p (Suc n) then c else m x)"
      by (cases "x = p") (auto simp: in_range_step)
  qed
  finally show ?case .
qed (simp add: in_range_def)

text \<open>
  \<^verbatim>\<open>memset\<close>: exactly the \<open>n\<close> bytes from \<open>s\<close> become the low byte of \<open>c\<close>, every other byte of
  memory is unchanged, and \<open>s\<close> is returned.
\<close>
theorem memset_fills_range:
  "memset m s c n = ((\<lambda>x. if in_range x s (unat n) then ucast c else m x), s)"
  by (simp add: memset_def memset_loop_eq)

lemma memcpy_loop_other:
  "n < 2 ^ 64 \<Longrightarrow> \<not> in_range x d n \<Longrightarrow> memcpy_loop m d s n x = m x"
proof (induction n arbitrary: m d s)
  case (Suc n)
  then have "x \<noteq> d" by auto
  with Suc show ?case by (auto simp: in_range_step)
qed simp

lemma memcpy_loop_copies:
  "n < 2 ^ 64 \<Longrightarrow> d = s \<or> \<not> in_range d s n \<Longrightarrow> j < n \<Longrightarrow>
    memcpy_loop m d s n (d + of_nat j) = m (s + of_nat j)"
proof (induction n arbitrary: m d s j)
  case (Suc n)
  let ?m = "m(d := m s)"
  have fwd: "d + 1 = s + 1 \<or> \<not> in_range (d + 1) (s + 1) n"
    using Suc.prems(2) by (auto simp: in_range_def)
  show ?case
  proof (cases j)
    case 0
    then show ?thesis
      using Suc.prems(1) by (simp add: memcpy_loop_other not_in_range_next)
  next
    case (Suc i)
    then have i: "i < n" using Suc.prems(3) by simp
    have "memcpy_loop ?m (d + 1) (s + 1) n (d + 1 + of_nat i) = ?m (s + 1 + of_nat i)"
      using Suc.prems(1) by (intro Suc.IH [OF _ fwd i]) simp
    moreover have "?m (s + 1 + of_nat i) = m (s + of_nat j)"
    proof (cases "s + of_nat j = d")
      case True
      then have "d - s = of_nat j" by (metis add_diff_cancel_left')
      moreover have "unat (of_nat j :: u64) = j"
        using \<open>j < Suc n\<close> \<open>Suc n < 2 ^ 64\<close> by (intro unat_of_nat_small) simp
      ultimately have "in_range d s (Suc n)"
        using \<open>j < Suc n\<close> by (simp only: in_range_def)
      then have "d = s" using \<open>d = s \<or> _\<close> by simp
      with True Suc show ?thesis by (simp add: add.assoc)
    next
      case False
      with Suc show ?thesis by (simp add: add.assoc)
    qed
    ultimately show ?thesis using Suc by (simp add: add.assoc)
  qed
qed simp

text \<open>
  \<^verbatim>\<open>memcpy\<close>: unless the destination starts inside the source after its first byte (the one
  overlap the forward loop does not handle), the \<open>n\<close> destination bytes become the source
  bytes as they were before the call and no other byte changes.
\<close>
theorem memcpy_copies:
  assumes "dest = src \<or> \<not> in_range dest src (unat n)"
  shows "\<exists>m'. memcpy m dest src n = (m', dest) \<and>
    (\<forall>j < unat n. m' (dest + of_nat j) = m (src + of_nat j)) \<and>
    (\<forall>x. \<not> in_range x dest (unat n) \<longrightarrow> m' x = m x)"
  using assms by (simp add: memcpy_def memcpy_loop_copies memcpy_loop_other)

section \<open>strlen and strcmp\<close>

partial_function (option) strlen_loop :: "mem \<Rightarrow> u64 \<Rightarrow> u64 \<Rightarrow> u64 option" where
  "strlen_loop m s len = (if m s \<noteq> 0 then strlen_loop m (s + 1) (len + 1) else Some len)"

definition strlen :: "mem \<Rightarrow> u64 \<Rightarrow> u64 option" where
  "strlen m s = strlen_loop m s 0"

partial_function (option) strcmp :: "mem \<Rightarrow> u64 \<Rightarrow> u64 \<Rightarrow> int option" where
  "strcmp m s1 s2 =
     (if m s1 \<noteq> 0 \<and> m s1 = m s2 then strcmp m (s1 + 1) (s2 + 1)
      else Some (uint (m s1) - uint (m s2)))"

text \<open>The C string at an address: its bytes, none of them zero, then a zero byte.\<close>

primrec cstr :: "mem \<Rightarrow> u64 \<Rightarrow> u8 list \<Rightarrow> bool" where
  "cstr m a [] = (m a = 0)"
| "cstr m a (x # xs) = (x \<noteq> 0 \<and> m a = x \<and> cstr m (a + 1) xs)"

lemma strlen_loop_cstr: "cstr m s xs \<Longrightarrow> strlen_loop m s len = Some (len + of_nat (length xs))"
proof (induction xs arbitrary: s len)
  case (Cons x xs)
  then have "strlen_loop m s len = strlen_loop m (s + 1) (len + 1)"
    by (subst strlen_loop.simps) auto
  with Cons show ?case by (simp add: add.assoc)
qed (simp add: strlen_loop.simps)

lemma strlen_loop_returns:
  assumes "strlen_loop m s len = Some r"
  shows "\<exists>xs. cstr m s xs"
proof (rule strlen_loop.raw_induct [where P = "\<lambda>m s len r. \<exists>xs. cstr m s xs", OF _ assms])
  fix f :: "mem \<Rightarrow> u64 \<Rightarrow> u64 \<Rightarrow> u64 option" and m s len r
  assume IH: "\<And>m s len r. f m s len = Some r \<Longrightarrow> \<exists>xs. cstr m s xs"
    and eq: "(if m s \<noteq> 0 then f m (s + 1) (len + 1) else Some len) = Some r"
  show "\<exists>xs. cstr m s xs"
  proof (cases "m s = 0")
    case True
    then have "cstr m s []" by simp
    then show ?thesis ..
  next
    case False
    with eq obtain xs where "cstr m (s + 1) xs" using IH by fastforce
    with False have "cstr m s (m s # xs)" by simp
    then show ?thesis ..
  qed
qed

text \<open>
  \<^verbatim>\<open>strlen\<close> returns exactly on terminated strings, and then the number of bytes before the
  terminator: it returns \<open>r\<close> iff memory holds at \<open>s\<close> a zero-terminated string whose length,
  as a 64-bit number, is \<open>r\<close>.
\<close>
theorem strlen_iff_cstr:
  "strlen m s = Some r \<longleftrightarrow> (\<exists>xs. cstr m s xs \<and> r = of_nat (length xs))"
proof
  assume r: "strlen m s = Some r"
  then obtain xs where "cstr m s xs" using strlen_loop_returns strlen_def by metis
  with r show "\<exists>xs. cstr m s xs \<and> r = of_nat (length xs)"
    using strlen_loop_cstr [of m s xs 0] by (auto simp: strlen_def)
qed (auto simp: strlen_def strlen_loop_cstr)

lemma strcmp_cstr:
  "cstr m s1 xs \<Longrightarrow> cstr m s2 ys \<Longrightarrow>
    \<exists>r. strcmp m s1 s2 = Some r \<and> (r = 0 \<longleftrightarrow> xs = ys) \<and> (r < 0 \<longleftrightarrow> ord_class.lexordp xs ys)"
proof (induction xs arbitrary: s1 s2 ys)
  case Nil
  then show ?case
    by (cases ys) (auto simp: strcmp.simps word_neq_0_conv word_less_def)
next
  case (Cons x xs)
  show ?case
  proof (cases ys)
    case Nil
    with Cons.prems show ?thesis
      by (auto simp: strcmp.simps uint_0_iff)
  next
    case (Cons y zs)
    show ?thesis
    proof (cases "x = y")
      case True
      with Cons Cons.prems have "strcmp m s1 s2 = strcmp m (s1 + 1) (s2 + 1)"
        by (subst strcmp.simps) auto
      moreover obtain r where "strcmp m (s1 + 1) (s2 + 1) = Some r"
        "r = 0 \<longleftrightarrow> xs = zs" "r < 0 \<longleftrightarrow> ord_class.lexordp xs zs"
        using Cons.IH [of "s1 + 1" "s2 + 1" zs] Cons.prems Cons by auto
      ultimately show ?thesis using Cons True by auto
    next
      case False
      with Cons Cons.prems show ?thesis
        by (subst strcmp.simps) (auto simp: word_less_def word_uint_eq_iff)
    qed
  qed
qed

text \<open>
  C40: \<^verbatim>\<open>strcmp\<close> on two terminated strings returns, and its result is zero iff the strings are
  equal and negative iff the first is lexicographically smaller, bytes compared unsigned.
\<close>
theorem strcmp_lexicographic:
  assumes "cstr m s1 xs" "cstr m s2 ys"
  shows "\<exists>r. strcmp m s1 s2 = Some r \<and> (r = 0 \<longleftrightarrow> xs = ys) \<and>
    (r < 0 \<longleftrightarrow> ord_class.lexordp xs ys)"
  using assms by (rule strcmp_cstr)

section \<open>Witnesses\<close>

text \<open>A memory with the strings \<open>''a''\<close> at 0x10 and \<open>''b\n''\<close> at 2, all other bytes zero.\<close>

definition two_strings :: mem where
  "two_strings = (\<lambda>a. if a = 0x10 then 97 else if a = 2 then 98 else if a = 3 then 10 else 0)"

lemma two_strings_cstr:
  "cstr two_strings 0x10 [97]" "cstr two_strings 2 [98, 10]"
  by (simp_all add: two_strings_def)

theorem memcpy_copies_witness:
  "\<exists>m'. memcpy two_strings 0x20 2 2 = (m', 0x20) \<and> m' 0x20 = 98 \<and> m' 0x21 = 10 \<and> m' 0x10 = 97"
proof -
  have "(0x20 :: u64) = 2 \<or> \<not> in_range (0x20 :: u64) 2 (unat (2 :: u64))"
    by (simp add: in_range_def)
  from memcpy_copies [OF this, where m = two_strings]
  obtain m' where m: "memcpy two_strings 0x20 2 2 = (m', 0x20)"
    and c: "\<And>j. j < 2 \<Longrightarrow> m' (0x20 + of_nat j) = two_strings (2 + of_nat j)"
    and f: "\<And>a. \<not> in_range a 0x20 2 \<Longrightarrow> m' a = two_strings a"
    by auto
  have "m' 0x20 = 98" "m' 0x21 = 10" using c [of 0] c [of 1] by (simp_all add: two_strings_def)
  moreover have "m' 0x10 = 97" by (subst f) (simp_all add: in_range_def two_strings_def)
  ultimately show ?thesis using m by blast
qed

theorem strcmp_lexicographic_witness:
  "\<exists>r. strcmp two_strings 0x10 2 = Some r \<and> r < 0"
  using strcmp_lexicographic [OF two_strings_cstr] by auto

end
