(* ===== verification/Mmio.thy ===== *)
theory Mmio
  imports Prelude
begin

text \<open>
  Memory-mapped device registers (\<^verbatim>\<open>volatile uint32_t *\<close> accesses of the UART and GIC
  drivers). The devices are not code of the repository: a \<open>device\<close> is any function that answers
  a read from the whole history of bus accesses so far. The history is the state of the model, so
  a theorem about a driver speaks about the exact sequence of register accesses it makes.
\<close>

datatype access = Rd u64 u32 | Wr u64 u32

type_synonym bus = "access list"
type_synonym device = "bus \<Rightarrow> u64 \<Rightarrow> u32"

definition mmio_read :: "device \<Rightarrow> u64 \<Rightarrow> bus \<Rightarrow> u32 \<times> bus" where
  "mmio_read dev a b = (let v = dev b a in (v, b @ [Rd a v]))"

definition mmio_write :: "u64 \<Rightarrow> u32 \<Rightarrow> bus \<Rightarrow> bus" where
  "mmio_write a v b = b @ [Wr a v]"

text \<open>The values written to one register, oldest first.\<close>

fun writes_to :: "u64 \<Rightarrow> bus \<Rightarrow> u32 list" where
  "writes_to a [] = []"
| "writes_to a (Wr a' v # b) = (if a' = a then v # writes_to a b else writes_to a b)"
| "writes_to a (Rd a' v # b) = writes_to a b"

lemma writes_to_append [simp]: "writes_to a (b @ c) = writes_to a b @ writes_to a c"
  by (induction a b rule: writes_to.induct) auto

lemma writes_to_Rd [simp]: "writes_to a [Rd a' v] = []"
  by simp

end
