(* ===== verification/Uart.thy ===== *)
theory Uart
  imports Kstring Mmio
begin

text \<open>
  \<^verbatim>\<open>drivers/uart.c\<close>: the PL011 driver at the level of its register accesses, and the console
  abstraction that the rest of the kernel model prints to. Both polling loops are partial: they
  return only if the device eventually clears the flag they wait for.
\<close>

section \<open>Registers\<close>

definition UART0_BASE :: u64 where "UART0_BASE = 0x09000000"
definition UART_DR :: u32 where "UART_DR = 0x00"
definition UART_FR :: u32 where "UART_FR = 0x18"
definition UART_IBRD :: u32 where "UART_IBRD = 0x24"
definition UART_FBRD :: u32 where "UART_FBRD = 0x28"
definition UART_LCRH :: u32 where "UART_LCRH = 0x2C"
definition UART_CR :: u32 where "UART_CR = 0x30"
definition UART_IMSC :: u32 where "UART_IMSC = 0x38"
definition UART_ICR :: u32 where "UART_ICR = 0x44"
definition UART_FR_TXFF :: u32 where "UART_FR_TXFF = push_bit 5 1"
definition UART_FR_RXFE :: u32 where "UART_FR_RXFE = push_bit 4 1"
definition UART_LCRH_WLEN_8 :: u32 where "UART_LCRH_WLEN_8 = push_bit 5 3"
definition UART_LCRH_FEN :: u32 where "UART_LCRH_FEN = push_bit 4 1"
definition UART_CR_UARTEN :: u32 where "UART_CR_UARTEN = push_bit 0 1"
definition UART_CR_TXE :: u32 where "UART_CR_TXE = push_bit 8 1"
definition UART_CR_RXE :: u32 where "UART_CR_RXE = push_bit 9 1"

definition uart_read :: "device \<Rightarrow> u32 \<Rightarrow> bus \<Rightarrow> u32 \<times> bus" where
  "uart_read dev offset b = mmio_read dev (UART0_BASE + ucast offset) b"

definition uart_write :: "u32 \<Rightarrow> u32 \<Rightarrow> bus \<Rightarrow> bus" where
  "uart_write offset value b = mmio_write (UART0_BASE + ucast offset) value b"

lemmas uart_regs = UART0_BASE_def UART_DR_def UART_FR_def UART_IBRD_def UART_FBRD_def
  UART_LCRH_def UART_CR_def UART_IMSC_def UART_ICR_def

section \<open>The driver\<close>

definition uart_init :: "bus \<Rightarrow> bus" where
  "uart_init b =
     (let b = uart_write UART_CR 0 b;
          b = uart_write UART_ICR 0x7FF b;
          b = uart_write UART_IBRD 13 b;
          b = uart_write UART_FBRD 1 b;
          b = uart_write UART_LCRH (UART_LCRH_WLEN_8 OR UART_LCRH_FEN) b;
          b = uart_write UART_IMSC 0 b
      in uart_write UART_CR (UART_CR_UARTEN OR UART_CR_TXE OR UART_CR_RXE) b)"

text \<open>\<^verbatim>\<open>while (uart_read(UART_FR) & flag);\<close>\<close>

partial_function (option) uart_wait :: "device \<Rightarrow> u32 \<Rightarrow> bus \<Rightarrow> bus option" where
  "uart_wait dev flag b =
     (let (v, b') = uart_read dev UART_FR b
      in if v AND flag \<noteq> 0 then uart_wait dev flag b' else Some b')"

definition uart_putc :: "device \<Rightarrow> u8 \<Rightarrow> bus \<Rightarrow> bus option" where
  "uart_putc dev c b = do {
     b \<leftarrow> uart_wait dev UART_FR_TXFF b;
     let b = uart_write UART_DR (ucast c) b;
     if c = 10 then do {
       b \<leftarrow> uart_wait dev UART_FR_TXFF b;
       Some (uart_write UART_DR 13 b)
     } else Some b
   }"

partial_function (option) uart_puts :: "device \<Rightarrow> mem \<Rightarrow> u64 \<Rightarrow> bus \<Rightarrow> bus option" where
  "uart_puts dev m s b =
     (if m s \<noteq> 0 then do { b \<leftarrow> uart_putc dev (m s) b; uart_puts dev m (s + 1) b }
      else Some b)"

text \<open>The same loop over a string that is not in the modelled memory (a literal, a local buffer).\<close>

fun uart_send :: "device \<Rightarrow> u8 list \<Rightarrow> bus \<Rightarrow> bus option" where
  "uart_send dev [] b = Some b"
| "uart_send dev (c # cs) b = do { b \<leftarrow> uart_putc dev c b; uart_send dev cs b }"

definition hex_chars :: "u8 list" where
  "hex_chars = map of_char ''0123456789ABCDEF''"

definition hex_buffer :: "u64 \<Rightarrow> u8 list" where
  "hex_buffer value = [of_char (CHR ''0''), of_char (CHR ''x'')] @
     map (\<lambda>i. hex_chars ! unat (drop_bit (60 - i * 4) value AND 0xF)) [0..<16]"

definition uart_puthex :: "device \<Rightarrow> u64 \<Rightarrow> bus \<Rightarrow> bus option" where
  "uart_puthex dev value b = uart_send dev (hex_buffer value) b"

definition uart_getc :: "device \<Rightarrow> bus \<Rightarrow> (u8 \<times> bus) option" where
  "uart_getc dev b = do {
     b \<leftarrow> uart_wait dev UART_FR_RXFE b;
     let (v, b) = uart_read dev UART_DR b;
     Some (ucast v, b)
   }"

section \<open>What the driver transmits\<close>

text \<open>The bytes given to the transmit FIFO, and the newline expansion of \<^verbatim>\<open>uart_putc\<close>.\<close>

definition tx_bytes :: "bus \<Rightarrow> u8 list" where
  "tx_bytes b = map ucast (writes_to UART0_BASE b)"

definition expand_nl :: "u8 list \<Rightarrow> u8 list" where
  "expand_nl cs = concat (map (\<lambda>c. if c = 10 then [10, 13] else [c]) cs)"

lemma expand_nl_simps [simp]:
  "expand_nl [] = []" "expand_nl (c # cs) = (if c = 10 then [10, 13] else [c]) @ expand_nl cs"
  by (simp_all add: expand_nl_def)

text \<open>
  A device is live when, whatever happened before, polling the flag register long enough sees
  the transmit-full flag clear.
\<close>

primrec poll :: "device \<Rightarrow> u32 \<Rightarrow> nat \<Rightarrow> bus \<Rightarrow> bool" where
  "poll dev flag 0 b = (fst (uart_read dev UART_FR b) AND flag = 0)"
| "poll dev flag (Suc k) b =
     (fst (uart_read dev UART_FR b) AND flag = 0 \<or> poll dev flag k (snd (uart_read dev UART_FR b)))"

definition live :: "device \<Rightarrow> u32 \<Rightarrow> bool" where
  "live dev flag \<longleftrightarrow> (\<forall>b. \<exists>k. poll dev flag k b)"

text \<open>
  Flow control: every write to the data register comes right after a read of the flag register
  that found the transmit-full flag clear. \<open>p\<close> is the access before the sequence.
\<close>

fun txff_clear :: "access option \<Rightarrow> bool" where
  "txff_clear (Some (Rd a v)) = (a = UART0_BASE + ucast UART_FR \<and> v AND UART_FR_TXFF = 0)"
| "txff_clear _ = False"

primrec paced :: "access option \<Rightarrow> bus \<Rightarrow> bool" where
  "paced p [] = True"
| "paced p (x # b) =
     ((case x of Wr a v \<Rightarrow> a = UART0_BASE + ucast UART_DR \<longrightarrow> txff_clear p | Rd a v \<Rightarrow> True) \<and>
      paced (Some x) b)"

definition last_access :: "access option \<Rightarrow> bus \<Rightarrow> access option" where
  "last_access p b = (if b = [] then p else Some (last b))"

lemma paced_append: "paced p (b @ c) \<longleftrightarrow> paced p b \<and> paced (last_access p b) c"
proof (induction b arbitrary: p)
  case (Cons x b)
  have "last_access (Some x) b = last_access p (x # b)" by (simp add: last_access_def)
  with Cons show ?case by simp
qed (simp add: last_access_def)

definition only_reads :: "bus \<Rightarrow> bool" where
  "only_reads b \<longleftrightarrow> (\<forall>x \<in> set b. case x of Rd a v \<Rightarrow> True | Wr a v \<Rightarrow> False)"

lemma only_reads_simps [simp]:
  "only_reads []" "only_reads (Rd a v # b) = only_reads b" "\<not> only_reads (Wr a v # b)"
  by (auto simp: only_reads_def)

lemma only_reads_writes_to: "only_reads b \<Longrightarrow> writes_to a b = []"
  by (induction a b rule: writes_to.induct) auto

lemma only_reads_paced: "only_reads b \<Longrightarrow> paced p b"
proof (induction b arbitrary: p)
  case (Cons x b)
  then show ?case by (cases x) auto
qed simp

lemma uart_wait_returns:
  assumes "uart_wait dev flag b = Some b'"
  shows "\<exists>r v. b' = b @ r @ [Rd (UART0_BASE + ucast UART_FR) v] \<and> only_reads r \<and> v AND flag = 0"
proof (rule uart_wait.raw_induct
    [where P = "\<lambda>dev flag b b'. \<exists>r v. b' = b @ r @ [Rd (UART0_BASE + ucast UART_FR) v] \<and>
        only_reads r \<and> v AND flag = 0", OF _ assms])
  fix f :: "device \<Rightarrow> u32 \<Rightarrow> bus \<Rightarrow> bus option"
    and dev :: device and flag b b'
  let ?fr = "UART0_BASE + ucast UART_FR"
  let ?v = "dev b ?fr"
  assume IH: "\<And>dev flag b b'. f dev flag b = Some b' \<Longrightarrow>
      \<exists>r v. b' = b @ r @ [Rd ?fr v] \<and> only_reads r \<and> v AND flag = 0"
    and eq: "(let (v, b'') = uart_read dev UART_FR b
      in if v AND flag \<noteq> 0 then f dev flag b'' else Some b'') = Some b'"
  show "\<exists>r v. b' = b @ r @ [Rd ?fr v] \<and> only_reads r \<and> v AND flag = 0"
  proof (cases "?v AND flag = 0")
    case True
    with eq have "b' = b @ [] @ [Rd ?fr ?v]"
      by (simp add: uart_read_def mmio_read_def Let_def)
    with True show ?thesis by (metis only_reads_simps(1))
  next
    case False
    with eq have "f dev flag (b @ [Rd ?fr ?v]) = Some b'"
      by (simp add: uart_read_def mmio_read_def Let_def)
    then obtain r v where "b' = b @ (Rd ?fr ?v # r) @ [Rd ?fr v]" "only_reads r" "v AND flag = 0"
      using IH by fastforce
    then show ?thesis by (metis only_reads_simps(2))
  qed
qed

lemma uart_wait_poll: "poll dev flag k b \<Longrightarrow> \<exists>b'. uart_wait dev flag b = Some b'"
proof (induction k arbitrary: b)
  case 0
  then show ?case by (subst uart_wait.simps) (simp add: case_prod_beta)
next
  case (Suc k)
  then show ?case by (subst uart_wait.simps) (auto simp: case_prod_beta Let_def)
qed

lemma ucast_byte_back [simp]: "ucast (ucast (c :: u8) :: u32) = c"
  by (rule bit_eqI) (auto simp: bit_simps)

text \<open>A transmission: what was appended to the bus history sends \<open>cs\<close> and is paced.\<close>

definition transmits :: "bus \<Rightarrow> u8 list \<Rightarrow> bus \<Rightarrow> bool" where
  "transmits b cs b' \<longleftrightarrow> (\<exists>t. b' = b @ t \<and> tx_bytes t = cs \<and> (\<forall>p. paced p t))"

lemma tx_bytes_append [simp]: "tx_bytes (b @ c) = tx_bytes b @ tx_bytes c"
  by (simp add: tx_bytes_def)

lemma transmits_refl: "transmits b [] b"
  by (simp add: transmits_def tx_bytes_def)

lemma transmits_trans: "transmits a xs b \<Longrightarrow> transmits b ys c \<Longrightarrow> transmits a (xs @ ys) c"
  unfolding transmits_def by (auto simp: paced_append)

lemma transmits_one:
  assumes "uart_wait dev UART_FR_TXFF b = Some b'"
  shows "transmits b [c] (uart_write UART_DR (ucast c) b')"
proof -
  obtain r v where b': "b' = b @ r @ [Rd (UART0_BASE + ucast UART_FR) v]" and r: "only_reads r"
    and v: "v AND UART_FR_TXFF = 0"
    using uart_wait_returns [OF assms] by blast
  let ?t = "r @ [Rd (UART0_BASE + ucast UART_FR) v, Wr (UART0_BASE + ucast UART_DR) (ucast c)]"
  have "tx_bytes ?t = [c]"
    using r by (simp add: tx_bytes_def only_reads_writes_to UART_DR_def)
  moreover have "paced p ?t" for p
    using r v by (simp add: paced_append only_reads_paced)
  moreover have "uart_write UART_DR (ucast c) b' = b @ ?t"
    by (simp add: b' uart_write_def mmio_write_def)
  ultimately show ?thesis unfolding transmits_def by blast
qed

lemma uart_putc_transmits:
  assumes "uart_putc dev c b = Some b'"
  shows "transmits b (expand_nl [c]) b'"
proof -
  obtain b1 where b1: "uart_wait dev UART_FR_TXFF b = Some b1"
    using assms by (auto simp: uart_putc_def bind_eq_Some_conv)
  note one = transmits_one [OF b1, of c]
  show ?thesis
  proof (cases "c = 10")
    case True
    then obtain b2 where b2: "uart_wait dev UART_FR_TXFF (uart_write UART_DR (ucast c) b1) = Some b2"
      and b': "b' = uart_write UART_DR 13 b2"
      using assms b1 by (auto simp: uart_putc_def bind_eq_Some_conv)
    have "transmits b ([c] @ [13]) b'"
      using transmits_trans [OF one transmits_one [OF b2, of 13]] b' by simp
    with True show ?thesis by simp
  next
    case False
    with assms b1 have "b' = uart_write UART_DR (ucast c) b1" by (simp add: uart_putc_def)
    with one False show ?thesis by simp
  qed
qed

lemma uart_putc_live: "live dev UART_FR_TXFF \<Longrightarrow> \<exists>b'. uart_putc dev c b = Some b'"
proof -
  assume "live dev UART_FR_TXFF"
  then have wait: "\<exists>b'. uart_wait dev UART_FR_TXFF b = Some b'" for b
    using uart_wait_poll unfolding live_def by blast
  obtain b1 where "uart_wait dev UART_FR_TXFF b = Some b1" using wait by blast
  moreover obtain b2 where "uart_wait dev UART_FR_TXFF (uart_write UART_DR (ucast c) b1) = Some b2"
    using wait by blast
  ultimately show ?thesis by (cases "c = 10") (simp_all add: uart_putc_def Let_def)
qed

lemma uart_send_transmits:
  "uart_send dev cs b = Some b' \<Longrightarrow> transmits b (expand_nl cs) b'"
proof (induction cs arbitrary: b)
  case Nil
  then show ?case by (simp add: transmits_refl)
next
  case (Cons c cs)
  then obtain b1 where "uart_putc dev c b = Some b1" "uart_send dev cs b1 = Some b'"
    by (auto simp: bind_eq_Some_conv)
  then have "transmits b (expand_nl [c] @ expand_nl cs) b'"
    using Cons.IH uart_putc_transmits transmits_trans by blast
  then show ?case by simp
qed

lemma uart_send_live: "live dev UART_FR_TXFF \<Longrightarrow> \<exists>b'. uart_send dev cs b = Some b'"
proof (induction cs arbitrary: b)
  case (Cons c cs)
  then show ?case using uart_putc_live [of dev c b] by fastforce
qed simp

lemma uart_puts_cstr: "cstr m s cs \<Longrightarrow> uart_puts dev m s b = uart_send dev cs b"
proof (induction cs arbitrary: s b)
  case Nil
  then show ?case by (simp add: uart_puts.simps)
next
  case (Cons c cs)
  then show ?case by (subst uart_puts.simps) (simp cong: bind_option_cong)
qed


lemma uart_puts_returns:
  assumes "uart_puts dev m s b = Some b'"
  shows "\<exists>cs. cstr m s cs"
proof (rule uart_puts.raw_induct [where P = "\<lambda>dev m s b b'. \<exists>cs. cstr m s cs", OF _ assms])
  fix f :: "device \<Rightarrow> mem \<Rightarrow> u64 \<Rightarrow> bus \<Rightarrow> bus option"
    and dev :: device and m :: mem and s b b'
  assume IH: "\<And>dev m s b b'. f dev m s b = Some b' \<Longrightarrow> \<exists>cs. cstr m s cs"
    and eq: "(if m s \<noteq> 0 then do { b \<leftarrow> uart_putc dev (m s) b; f dev m (s + 1) b } else Some b)
      = Some b'"
  show "\<exists>cs. cstr m s cs"
  proof (cases "m s = 0")
    case True
    then have "cstr m s []" by simp
    then show ?thesis ..
  next
    case False
    with eq obtain cs where "cstr m (s + 1) cs"
      using IH unfolding bind_eq_Some_conv by (metis (no_types, lifting) bind_eq_Some_conv)
    with False have "cstr m s (m s # cs)" by simp
    then show ?thesis ..
  qed
qed

text \<open>
  \<^verbatim>\<open>uart_puts\<close> on a terminated string: with a device that keeps draining its FIFO the call
  returns; whenever it returns, it has appended to the device accesses a sequence that transmits
  exactly the string's bytes with a carriage return after each newline, and no byte is written
  unless the access just before found the transmit FIFO not full.
\<close>
theorem uart_puts_transmits_string:
  assumes "cstr m s cs"
  shows "(live dev UART_FR_TXFF \<longrightarrow> uart_puts dev m s b \<noteq> None) \<and>
    (\<forall>b'. uart_puts dev m s b = Some b' \<longrightarrow>
      (\<exists>t. b' = b @ t \<and> tx_bytes t = expand_nl cs \<and> (\<forall>p. paced p t)))"
  using uart_send_live [of dev cs b] uart_send_transmits [of dev cs b] uart_puts_cstr [OF assms]
  unfolding transmits_def by force

section \<open>Hexadecimal output\<close>

text \<open>Reading back a hexadecimal numeral, most significant digit first.\<close>

definition hex_val :: "u8 \<Rightarrow> nat option" where
  "hex_val c = (if 48 \<le> c \<and> c \<le> 57 then Some (unat c - 48)
                else if 65 \<le> c \<and> c \<le> 70 then Some (unat c - 55) else None)"

fun parse_hex :: "u64 \<Rightarrow> u8 list \<Rightarrow> u64 option" where
  "parse_hex acc [] = Some acc"
| "parse_hex acc (c # cs) =
     (case hex_val c of None \<Rightarrow> None | Some d \<Rightarrow> parse_hex (push_bit 4 acc OR of_nat d) cs)"

lemma hex_val_digit: "d < 16 \<Longrightarrow> hex_val (hex_chars ! d) = Some d"
proof -
  have "\<forall>d < 16. hex_val (hex_chars ! d) = Some d" by code_simp
  then show "d < 16 \<Longrightarrow> hex_val (hex_chars ! d) = Some d" by blast
qed

lemma nibble_lt: "unat (x AND 0xF :: u64) < 16"
proof -
  have "x AND 0xF = take_bit 4 x" by (rule and_0xF)
  then have "x AND 0xF = x mod 16" by (simp add: take_bit_eq_mod)
  then show ?thesis by (simp add: unat_mod)
qed

lemma hex_digits_no_newline: "d < 16 \<Longrightarrow> hex_chars ! d \<noteq> 10"
  using hex_val_digit [of d] by (auto simp: hex_val_def)

lemma expand_nl_no_newline: "10 \<notin> set cs \<Longrightarrow> expand_nl cs = cs"
  by (induction cs) auto

lemma parse_hex_digits:
  "k \<le> 16 \<Longrightarrow> parse_hex (drop_bit (4 * k) value)
      (map (\<lambda>i. hex_chars ! unat (drop_bit (60 - i * 4) value AND 0xF)) [16 - k..<16]) = Some value"
proof (induction k)
  case (Suc k)
  let ?n = "drop_bit (4 * k) value AND 0xF"
  have i: "60 - (16 - Suc k) * 4 = 4 * k" using Suc.prems by simp
  have "16 - k = Suc (16 - Suc k)" using Suc.prems by simp
  then have upt: "[16 - Suc k..<16] = (16 - Suc k) # [16 - k..<16]"
    by (metis diff_less upt_conv_Cons zero_less_Suc zero_less_numeral)
  have "push_bit 4 (drop_bit (4 * Suc k) value) OR ?n = drop_bit (4 * k) value"
    by (rule bit_eqI) (auto simp: and_0xF bit_simps)
  with Suc show ?case
    by (simp only: upt list.map parse_hex.simps i) (simp add: hex_val_digit nibble_lt)
qed simp

text \<open>
  \<^verbatim>\<open>uart_puthex\<close>: what is transmitted is \<^verbatim>\<open>0x\<close> followed by sixteen upper-case hexadecimal
  digits that read back as exactly the 64-bit value printed.
\<close>
theorem uart_puthex_roundtrip:
  assumes "uart_puthex dev value b = Some b'"
  shows "\<exists>t ds. b' = b @ t \<and> tx_bytes t = 48 # 120 # ds \<and> length ds = 16 \<and>
    parse_hex 0 ds = Some value"
proof -
  let ?ds = "map (\<lambda>i. hex_chars ! unat (drop_bit (60 - i * 4) value AND 0xF)) [0..<16]"
  obtain t where t: "b' = b @ t" "tx_bytes t = expand_nl (hex_buffer value)"
    using uart_send_transmits assms unfolding uart_puthex_def transmits_def by blast
  have "drop_bit 64 value = 0" by (rule bit_eqI) (simp add: bit_simps)
  then have "parse_hex 0 ?ds = Some value" using parse_hex_digits [of 16 "value"] by simp
  moreover have "expand_nl (hex_buffer value) = 48 # 120 # ?ds"
  proof -
    have "10 \<notin> set ?ds" using hex_digits_no_newline nibble_lt by fastforce
    then show ?thesis by (simp add: hex_buffer_def expand_nl_no_newline)
  qed
  ultimately show ?thesis using t by auto
qed

section \<open>The console the kernel prints to\<close>

text \<open>
  The other components print through \<^verbatim>\<open>uart_puts\<close>, \<^verbatim>\<open>uart_puthex\<close> and \<^verbatim>\<open>uart_putc\<close> with literal
  arguments. Their models carry the console, the bytes transmitted so far, and append to it the
  items printed: a literal, a newline, a number in hexadecimal, a character.
\<close>

type_synonym console = "u8 list"

datatype item = S string | NL | X u64 | C u8

primrec item_bytes :: "item \<Rightarrow> u8 list" where
  "item_bytes (S s) = map of_char s"
| "item_bytes NL = [10]"
| "item_bytes (X v) = hex_buffer v"
| "item_bytes (C c) = [c]"

definition print :: "item list \<Rightarrow> console \<Rightarrow> console" where
  "print items con = con @ expand_nl (concat (map item_bytes items))"

text \<open>The same items through the driver, one call each.\<close>

primrec uart_item :: "device \<Rightarrow> item \<Rightarrow> bus \<Rightarrow> bus option" where
  "uart_item dev (S s) b = uart_send dev (map of_char s) b"
| "uart_item dev NL b = uart_send dev [10] b"
| "uart_item dev (X v) b = uart_puthex dev v b"
| "uart_item dev (C c) b = uart_putc dev c b"

fun uart_items :: "device \<Rightarrow> item list \<Rightarrow> bus \<Rightarrow> bus option" where
  "uart_items dev [] b = Some b"
| "uart_items dev (i # is) b = do { b \<leftarrow> uart_item dev i b; uart_items dev is b }"

lemma expand_nl_append [simp]: "expand_nl (xs @ ys) = expand_nl xs @ expand_nl ys"
  by (simp add: expand_nl_def)

lemma uart_item_transmits: "uart_item dev i b = Some b' \<Longrightarrow> transmits b (expand_nl (item_bytes i)) b'"
  by (cases i) (auto simp: uart_puthex_def simp del: expand_nl_simps uart_send.simps
      dest: uart_send_transmits uart_putc_transmits)

lemma uart_item_live: "live dev UART_FR_TXFF \<Longrightarrow> \<exists>b'. uart_item dev i b = Some b'"
  by (cases i) (auto simp: uart_puthex_def uart_putc_live uart_send_live simp del: uart_send.simps)

lemma uart_items_transmits:
  "uart_items dev is b = Some b' \<Longrightarrow> transmits b (expand_nl (concat (map item_bytes is))) b'"
proof (induction "is" arbitrary: b)
  case Nil
  then show ?case by (simp add: transmits_refl)
next
  case (Cons i "is")
  then obtain b1 where "uart_item dev i b = Some b1" "uart_items dev is b1 = Some b'"
    by (auto simp: bind_eq_Some_conv)
  then have "transmits b (expand_nl (item_bytes i) @ expand_nl (concat (map item_bytes is))) b'"
    using Cons.IH uart_item_transmits transmits_trans by blast
  then show ?case by simp
qed

lemma uart_items_live: "live dev UART_FR_TXFF \<Longrightarrow> \<exists>b'. uart_items dev is b = Some b'"
proof (induction "is" arbitrary: b)
  case (Cons i "is")
  then show ?case using uart_item_live [of dev i b] by fastforce
qed simp

text \<open>
  The bytes of a console text through the driver, as they are after the newline expansion: the accesses are
  exactly those of the calls that printed the text.
\<close>

fun transmit :: "device \<Rightarrow> u8 list \<Rightarrow> bus \<Rightarrow> bus option" where
  "transmit dev [] b = Some b"
| "transmit dev (c # cs) b = do { b \<leftarrow> uart_wait dev UART_FR_TXFF b; transmit dev cs (uart_write UART_DR (ucast c) b) }"

lemma transmit_append: "transmit dev (xs @ ys) b = do { b \<leftarrow> transmit dev xs b; transmit dev ys b }"
proof (induction xs arbitrary: b)
  case (Cons x xs)
  then show ?case by (cases "uart_wait dev UART_FR_TXFF b") simp_all
qed simp

lemma uart_putc_transmit: "uart_putc dev c b = transmit dev (expand_nl [c]) b"
  by (cases "c = 10") (simp_all add: uart_putc_def Let_def)

lemma uart_send_transmit: "uart_send dev cs b = transmit dev (expand_nl cs) b"
proof (induction cs arbitrary: b)
  case (Cons c cs)
  have "expand_nl (c # cs) = expand_nl [c] @ expand_nl cs" by simp
  moreover have "uart_send dev cs = transmit dev (expand_nl cs)" by (rule ext) (rule Cons.IH)
  ultimately show ?case by (simp only: uart_send.simps uart_putc_transmit transmit_append)
qed simp

lemma uart_item_transmit: "uart_item dev i b = transmit dev (expand_nl (item_bytes i)) b"
  by (cases i) (simp_all only: uart_item.simps item_bytes.simps uart_send_transmit uart_puthex_def uart_putc_transmit)

lemma uart_items_transmit: "uart_items dev is b = transmit dev (print is []) b"
proof (induction "is" arbitrary: b)
  case (Cons i "is")
  have "uart_items dev is = transmit dev (print is [])" by (rule ext) (rule Cons.IH)
  then show ?case by (simp add: print_def uart_item_transmit transmit_append)
qed (simp add: print_def)

lemma transmit_live: "live dev UART_FR_TXFF \<Longrightarrow> \<exists>b'. transmit dev cs b = Some b'"
proof (induction cs arbitrary: b)
  case (Cons c cs)
  then obtain b1 where "uart_wait dev UART_FR_TXFF b = Some b1"
    using uart_wait_poll unfolding live_def by blast
  then show ?case using Cons by simp
qed simp

text \<open>
  C38: the driver refines the console: printing items through the register-level driver on a live
  device returns, and the bytes it has then transmitted are the console that \<open>print\<close> computes
  from the bytes transmitted before.
\<close>
theorem uart_refines_console:
  assumes "live dev UART_FR_TXFF"
  shows "\<exists>b'. uart_items dev is b = Some b' \<and> tx_bytes b' = print is (tx_bytes b)"
  using uart_items_live [OF assms, of "is" b] uart_items_transmits [of dev "is" b]
  unfolding transmits_def print_def by force

section \<open>Witnesses\<close>

text \<open>A device whose transmit FIFO is full at every other poll.\<close>

definition slow_device :: device where
  "slow_device b a = (if even (length b) then UART_FR_TXFF else 0)"

lemma slow_device_live: "live slow_device UART_FR_TXFF"
proof -
  have "poll slow_device UART_FR_TXFF 1 b" for b
    by (simp add: slow_device_def uart_read_def mmio_read_def Let_def)
  then show ?thesis unfolding live_def by blast
qed

theorem uart_puts_transmits_string_witness:
  "\<exists>b. uart_puts slow_device two_strings 2 [] = Some b \<and> tx_bytes b = [98, 10, 13]"
  using uart_puts_transmits_string [OF two_strings_cstr(2), of slow_device "[]"] slow_device_live
  by auto

theorem uart_puthex_roundtrip_witness:
  "\<exists>t ds. uart_puthex slow_device 0xCAFE [] = Some t \<and> tx_bytes t = 48 # 120 # ds \<and>
     parse_hex 0 ds = Some 0xCAFE"
proof -
  obtain t where t: "uart_puthex slow_device 0xCAFE [] = Some t"
    using uart_send_live [OF slow_device_live] unfolding uart_puthex_def by blast
  then show ?thesis using uart_puthex_roundtrip [OF t] by auto
qed

theorem uart_refines_console_witness:
  "\<exists>b. uart_items slow_device [S ''ok'', NL] [] = Some b \<and> tx_bytes b = [111, 107, 10, 13]"
  using uart_refines_console [OF slow_device_live, of "[S ''ok'', NL]" "[]"]
  by (auto simp: print_def tx_bytes_def)

end
