(* ===== verification/Context.thy ===== *)
theory Context
  imports Prelude
begin

text \<open>
  \<^verbatim>\<open>struct exception_frame\<close>, the processor, and the effect that saving and restoring a context has on
  them. The routine of \<^verbatim>\<open>sched/switch.S\<close> is modelled instruction by instruction in \<open>Switch\<close>, where its two halves
  are proved to have the effects \<open>switch_save\<close> and \<open>switch_restore\<close> given here for the scheduler. The processor is its
  general registers, the two stack pointers, the exception return registers, the program
  counter and the status; the kernel runs on \<open>sp_el1\<close>.
\<close>

record frame =
  gpr :: "nat \<Rightarrow> u64"
  f_sp :: u64
  f_elr :: u64
  f_spsr :: u64

definition frame_zero :: frame where
  "frame_zero = \<lparr>gpr = (\<lambda>_. 0), f_sp = 0, f_elr = 0, f_spsr = 0\<rparr>"

record cpu =
  xreg :: "nat \<Rightarrow> u64"
  sp_el0 :: u64
  sp_el1 :: u64
  elr_el1 :: u64
  spsr_el1 :: u64
  pc :: u64
  pstate :: u64

text \<open>
  The effect of the first half of the routine: registers 0 to 30, the stack pointer, the link register as return address
  and SPSR are in the context. (\<open>save_code_effect\<close> in \<open>Switch\<close>.)
\<close>

definition save_regs :: "(nat \<Rightarrow> u64) \<Rightarrow> (nat \<Rightarrow> u64) \<Rightarrow> nat \<Rightarrow> u64" where
  "save_regs x old r = (if r \<le> 30 then x r else old r)"

definition switch_save :: "cpu \<Rightarrow> frame \<Rightarrow> frame" where
  "switch_save c old =
     (let old = old\<lparr>gpr := save_regs (xreg c) (gpr old)\<rparr>;
          old = old\<lparr>f_sp := sp_el1 c\<rparr>;
          old = old\<lparr>f_elr := xreg c 30\<rparr>
      in old\<lparr>f_spsr := spsr_el1 c\<rparr>)"

text \<open>The exception return, and the effect of the second half. (\<open>restore_code_effect\<close> in \<open>Switch\<close>.)\<close>

definition eret :: "cpu \<Rightarrow> cpu" where
  "eret c = c\<lparr>pc := elr_el1 c, pstate := spsr_el1 c\<rparr>"

definition switch_restore :: "frame \<Rightarrow> cpu \<Rightarrow> cpu" where
  "switch_restore new c =
     (let c = c\<lparr>spsr_el1 := f_spsr new\<rparr>;
          c = c\<lparr>elr_el1 := f_elr new\<rparr>;
          c = c\<lparr>sp_el1 := f_sp new\<rparr>;
          c = c\<lparr>xreg := save_regs (gpr new) (xreg c)\<rparr>
      in eret c)"

text \<open>The interrupt mask bit of the status register and the exception level field.\<close>

definition irq_masked :: "u64 \<Rightarrow> bool" where
  "irq_masked spsr = bit spsr 7"

definition el_of :: "u64 \<Rightarrow> u64" where
  "el_of spsr = drop_bit 2 spsr AND 3"

text \<open>A processor in kernel code that is about to call a routine.\<close>

definition cpu_start :: cpu where
  "cpu_start = \<lparr>xreg = (\<lambda>r. if r = 30 then 0x40401000 else of_nat r), sp_el0 = 0, sp_el1 = 0x40500000,
     elr_el1 = 0, spsr_el1 = 0x3C0, pc = 0, pstate = 0x3C5\<rparr>"

end
