(* ===== verification/Allocator_Spec.thy ===== *)
theory Allocator_Spec
  imports Prelude
begin

text \<open>
  The contract between the page allocator and its clients (the slab allocator, the scheduler's
  stacks and program images): single-frame allocation and release over an abstract state, with
  the frames that are available and the frames that are held (allocated with one reference).
  The client lemmas below are proved from the contract alone.
\<close>

text \<open>Allocating up to \<open>n\<close> frames one at a time, and releasing a list of frames.\<close>

fun alloc_seq :: "('s \<Rightarrow> (nat option \<times> 's) option) \<Rightarrow> nat \<Rightarrow> 's \<Rightarrow> (nat list \<times> 's) option" where
  "alloc_seq alloc 0 s = Some ([], s)"
| "alloc_seq alloc (Suc n) s =
     (case alloc s of
        None \<Rightarrow> None
      | Some (None, s) \<Rightarrow> Some ([], s)
      | Some (Some p, s) \<Rightarrow> do { (ps, s) \<leftarrow> alloc_seq alloc n s; Some (p # ps, s) })"

fun free_seq :: "(nat \<Rightarrow> 's \<Rightarrow> 's option) \<Rightarrow> nat list \<Rightarrow> 's \<Rightarrow> 's option" where
  "free_seq free [] s = Some s"
| "free_seq free (p # ps) s = do { s \<leftarrow> free p s; free_seq free ps s }"

locale frame_allocator =
  fixes alloc :: "'s \<Rightarrow> (nat option \<times> 's) option"
    and free :: "nat \<Rightarrow> 's \<Rightarrow> 's option"
    and inv :: "'s \<Rightarrow> bool"
    and avail :: "'s \<Rightarrow> nat set"
    and held :: "'s \<Rightarrow> nat set"
  assumes finite_avail: "inv s \<Longrightarrow> finite (avail s)"
    and avail_held: "inv s \<Longrightarrow> avail s \<inter> held s = {}"
    and alloc_null: "inv s \<Longrightarrow> avail s = {} \<Longrightarrow> alloc s = Some (None, s)"
    and alloc_frame: "inv s \<Longrightarrow> avail s \<noteq> {} \<Longrightarrow>
      \<exists>p s'. alloc s = Some (Some p, s') \<and> p \<in> avail s \<and> inv s' \<and>
        avail s' = avail s - {p} \<and> held s' = insert p (held s)"
    and free_frame: "inv s \<Longrightarrow> p \<in> held s \<Longrightarrow>
      \<exists>s'. free p s = Some s' \<and> inv s' \<and> avail s' = insert p (avail s) \<and> held s' = held s - {p}"
begin

lemma alloc_total: "inv s \<Longrightarrow> \<exists>r s'. alloc s = Some (r, s') \<and> inv s'"
  using alloc_null alloc_frame by (cases "avail s = {}") blast+

lemma alloc_seq_frames:
  "inv s \<Longrightarrow> \<exists>ps s'. alloc_seq alloc n s = Some (ps, s') \<and> inv s' \<and>
     length ps = min n (card (avail s)) \<and> distinct ps \<and> set ps \<subseteq> avail s \<and>
     avail s' = avail s - set ps \<and> held s' = held s \<union> set ps"
proof (induction n arbitrary: s)
  case 0
  then show ?case by simp
next
  case (Suc n)
  show ?case
  proof (cases "avail s = {}")
    case True
    with Suc.prems show ?thesis by (simp add: alloc_null)
  next
    case False
    then obtain p s1 where s1: "alloc s = Some (Some p, s1)" "p \<in> avail s" "inv s1"
      "avail s1 = avail s - {p}" "held s1 = insert p (held s)"
      using alloc_frame [OF Suc.prems] by blast
    obtain ps s' where ps: "alloc_seq alloc n s1 = Some (ps, s')" "inv s'"
      "length ps = min n (card (avail s1))" "distinct ps" "set ps \<subseteq> avail s1"
      "avail s' = avail s1 - set ps" "held s' = held s1 \<union> set ps"
      using Suc.IH [OF s1(3)] by blast
    have "card (avail s) = Suc (card (avail s1))"
      using card_Suc_Diff1 [OF finite_avail [OF Suc.prems] s1(2)] s1(4) by simp
    then have "length (p # ps) = min (Suc n) (card (avail s))" using ps(3) by simp
    moreover have "alloc_seq alloc (Suc n) s = Some (p # ps, s')" using s1(1) ps(1) by simp
    moreover have "distinct (p # ps)" "set (p # ps) \<subseteq> avail s" using ps(4,5) s1(2,4) by auto
    moreover have "avail s' = avail s - set (p # ps)" using ps(6) s1(4) by auto
    moreover have "held s' = held s \<union> set (p # ps)" using ps(7) s1(5) by auto
    ultimately show ?thesis using ps(2) by blast
  qed
qed

lemma free_seq_frames:
  "inv s \<Longrightarrow> distinct ps \<Longrightarrow> set ps \<subseteq> held s \<Longrightarrow>
     \<exists>s'. free_seq free ps s = Some s' \<and> inv s' \<and>
       avail s' = avail s \<union> set ps \<and> held s' = held s - set ps"
proof (induction ps arbitrary: s)
  case Nil
  then show ?case by simp
next
  case (Cons p ps)
  from Cons.prems have "p \<in> held s" and d: "distinct ps" "p \<notin> set ps" "set ps \<subseteq> held s"
    by auto
  then obtain s1 where s1: "free p s = Some s1" "inv s1" "avail s1 = insert p (avail s)"
    "held s1 = held s - {p}"
    using free_frame [OF Cons.prems(1)] by blast
  have "set ps \<subseteq> held s1" using d s1(4) by blast
  then obtain s' where s': "free_seq free ps s1 = Some s'" "inv s'"
    "avail s' = avail s1 \<union> set ps" "held s' = held s1 - set ps"
    using Cons.IH [OF s1(2) d(1)] by blast
  have "free_seq free (p # ps) s = Some s'" using s1(1) s'(1) by simp
  moreover have "avail s' = avail s \<union> set (p # ps)" using s1(3) s'(3) by auto
  moreover have "held s' = held s - set (p # ps)" using s1(4) s'(4) by auto
  ultimately show ?case using s'(2) by blast
qed

text \<open>Frames allocated one by one can be given back in any order, and that undoes the allocation.\<close>

lemma alloc_free_any_order:
  assumes "inv s" "alloc_seq alloc n s = Some (ps, s1)" "distinct qs" "set qs = set ps"
  shows "\<exists>s2. free_seq free qs s1 = Some s2 \<and> inv s2 \<and> avail s2 = avail s \<and> held s2 = held s"
proof -
  have ps: "inv s1" "set ps \<subseteq> avail s" "avail s1 = avail s - set ps" "held s1 = held s \<union> set ps"
    using alloc_seq_frames [OF assms(1), of n] assms(2) by auto
  have "set ps \<inter> held s = {}" using ps(2) avail_held [OF assms(1)] by blast
  then show ?thesis
    using free_seq_frames [OF ps(1) assms(3)] assms(4) ps by auto
qed

text \<open>Two live allocations never share a frame.\<close>

lemma alloc_twice_distinct:
  assumes "inv s" "alloc s = Some (Some p, s1)" "alloc s1 = Some (Some q, s2)"
  shows "p \<noteq> q \<and> p \<in> held s2 \<and> q \<in> held s2"
proof -
  have ne: "avail s \<noteq> {}" using assms alloc_null by fastforce
  have s1: "inv s1" "avail s1 = avail s - {p}" "held s1 = insert p (held s)"
    using alloc_frame [OF assms(1) ne] assms(2) by auto
  have "avail s1 \<noteq> {}" using assms(3) s1(1) alloc_null by fastforce
  then show ?thesis using alloc_frame [OF s1(1)] assms(3) s1 by auto
qed

end

end
