(* ===== verification/Pmm.thy ===== *)
theory Pmm
  imports Uart Allocator_Spec
begin

text \<open>
  \<^verbatim>\<open>mm/pmm.c\<close>: the physical page allocator. A \<^verbatim>\<open>struct page *\<close> into the static array
  \<^verbatim>\<open>pages[16384]\<close> is its index (\<open>None\<close> for NULL); an index outside the array makes the
  operation undefined (\<open>None\<close> of the result). The free list is the pointer structure of the
  code: \<open>free_lists 0\<close> and the \<open>pg_next\<close> links.
\<close>

section \<open>State\<close>

definition PAGE_SHIFT :: nat where "PAGE_SHIFT = 12"
definition PAGE_SIZE :: u64 where "PAGE_SIZE = push_bit PAGE_SHIFT 1"
definition DRAM_BASE :: u64 where "DRAM_BASE = 0x40000000"
definition DRAM_SIZE :: u64 where "DRAM_SIZE = push_bit 30 1"
definition KERNEL_BASE :: u64 where "KERNEL_BASE = 0x40400000"
definition KERNEL_SIZE :: u64 where "KERNEL_SIZE = 16 * 1024 * 1024"
definition MAX_ORDER :: nat where "MAX_ORDER = 10"
definition PAGE_FREE :: u32 where "PAGE_FREE = 0"
definition PAGE_USED :: u32 where "PAGE_USED = 1"
definition PAGE_RESERVED :: u32 where "PAGE_RESERVED = 2"

text \<open>The number of entries of the static array \<^verbatim>\<open>pages\<close>.\<close>

definition PAGES_LEN :: nat where "PAGES_LEN = 16384"

record page =
  pg_flags :: u32
  pg_order :: u32
  pg_refcount :: u32
  pg_next :: "nat option"

record pmm =
  zone_base :: u64
  zone_size :: u64
  pages :: "nat \<Rightarrow> page"
  free_lists :: "nat \<Rightarrow> nat option"
  free_pages_count :: u64
  num_pages :: u64

text \<open>The zero-initialised static variables.\<close>

definition page_zero :: page where
  "page_zero = \<lparr>pg_flags = 0, pg_order = 0, pg_refcount = 0, pg_next = None\<rparr>"

definition pmm_bss :: pmm where
  "pmm_bss = \<lparr>zone_base = 0, zone_size = 0, pages = (\<lambda>_. page_zero), free_lists = (\<lambda>_. None),
     free_pages_count = 0, num_pages = 0\<rparr>"

text \<open>One assignment to a field group of \<^verbatim>\<open>pages[i]\<close>.\<close>

definition upd_page :: "nat \<Rightarrow> (page \<Rightarrow> page) \<Rightarrow> pmm \<Rightarrow> pmm" where
  "upd_page i f s = s\<lparr>pages := (pages s)(i := f (pages s i))\<rparr>"

definition set_free_head :: "nat option \<Rightarrow> pmm \<Rightarrow> pmm" where
  "set_free_head h s = s\<lparr>free_lists := (free_lists s)(0 := h)\<rparr>"

abbreviation free_head :: "pmm \<Rightarrow> nat option" where
  "free_head s \<equiv> free_lists s 0"

abbreviation next_of :: "pmm \<Rightarrow> nat \<Rightarrow> nat option" where
  "next_of s \<equiv> \<lambda>i. pg_next (pages s i)"

section \<open>Initialisation\<close>

fun mark_loop :: "u32 \<Rightarrow> nat \<Rightarrow> nat \<Rightarrow> pmm \<Rightarrow> pmm" where
  "mark_loop flags i 0 s = s"
| "mark_loop flags i (Suc n) s =
     mark_loop flags (Suc i) n (upd_page i (\<lambda>p. p\<lparr>pg_flags := flags\<rparr>) s)"

definition pmm_mark_region :: "u64 \<Rightarrow> u64 \<Rightarrow> u32 \<Rightarrow> pmm \<Rightarrow> pmm" where
  "pmm_mark_region base sz flags s =
     (let start_page = (base - DRAM_BASE) div PAGE_SIZE;
          end_page = ((base + sz - DRAM_BASE) + PAGE_SIZE - 1) div PAGE_SIZE
      in if start_page \<ge> num_pages s then s
         else let end_page = (if end_page > num_pages s then num_pages s else end_page)
              in mark_loop flags (unat start_page) (unat end_page - unat start_page) s)"

fun clear_loop :: "nat \<Rightarrow> nat \<Rightarrow> pmm \<Rightarrow> pmm" where
  "clear_loop i 0 s = s"
| "clear_loop i (Suc n) s = clear_loop (Suc i) n
     (upd_page i (\<lambda>p. p\<lparr>pg_flags := PAGE_FREE, pg_order := 0, pg_refcount := 0, pg_next := None\<rparr>) s)"

fun null_lists_loop :: "nat \<Rightarrow> nat \<Rightarrow> pmm \<Rightarrow> pmm" where
  "null_lists_loop i 0 s = s"
| "null_lists_loop i (Suc n) s =
     null_lists_loop (Suc i) n (s\<lparr>free_lists := (free_lists s)(i := None)\<rparr>)"

definition push_free :: "nat \<Rightarrow> pmm \<Rightarrow> pmm" where
  "push_free i s =
     (let s = upd_page i (\<lambda>p. p\<lparr>pg_next := free_head s\<rparr>) s;
          s = set_free_head (Some i) s
      in s\<lparr>free_pages_count := free_pages_count s + 1\<rparr>)"

fun add_free_loop :: "nat \<Rightarrow> nat \<Rightarrow> pmm \<Rightarrow> pmm" where
  "add_free_loop i 0 s = s"
| "add_free_loop i (Suc n) s =
     add_free_loop (Suc i) n (if pg_flags (pages s i) = PAGE_FREE then push_free i s else s)"

definition pmm_init :: "pmm \<times> console \<Rightarrow> pmm \<times> console" where
  "pmm_init sc =
     (let (s, con) = sc;
          con = print [NL, S ''========================================'', NL,
                       S ''Initializing Physical Memory Manager'', NL,
                       S ''========================================'', NL] con;
          s = s\<lparr>zone_base := DRAM_BASE, zone_size := DRAM_SIZE, free_pages_count := 0\<rparr>;
          s = s\<lparr>num_pages := DRAM_SIZE div PAGE_SIZE\<rparr>;
          s = (if num_pages s > 16384 then s\<lparr>num_pages := 16384\<rparr> else s);
          con = print [S ''Memory zone:'', NL, S ''  Base: '', X (zone_base s), NL,
                       S ''  Size: '', X (zone_size s), S '' ('', X (zone_size s div (1024 * 1024)),
                       S '' MB)'', NL, S ''  Pages: '', X (num_pages s), NL] con;
          s = clear_loop 0 (unat (num_pages s)) s;
          con = print [S ''Reserving kernel memory...'', NL] con;
          s = pmm_mark_region KERNEL_BASE KERNEL_SIZE PAGE_RESERVED s;
          s = null_lists_loop 0 (MAX_ORDER + 1) s;
          s = add_free_loop 0 (unat (num_pages s)) s;
          con = print [S ''Free pages: '', X (free_pages_count s), NL,
                       S ''========================================'', NL,
                       S ''PMM Initialization Complete'', NL,
                       S ''========================================'', NL, NL] con
      in (s, con))"

section \<open>Allocation\<close>

text \<open>
  \<^verbatim>\<open>struct page **prev_ptr\<close> points either at the list head or at a page's \<^verbatim>\<open>next\<close> field.
  The search loop does not end on a cyclic list that misses the page.
\<close>

datatype link = HeadLink | NextLink nat

primrec deref :: "pmm \<Rightarrow> link \<Rightarrow> nat option" where
  "deref s HeadLink = free_head s"
| "deref s (NextLink i) = next_of s i"

primrec assign :: "link \<Rightarrow> nat option \<Rightarrow> pmm \<Rightarrow> pmm" where
  "assign HeadLink v s = set_free_head v s"
| "assign (NextLink i) v s = upd_page i (\<lambda>p. p\<lparr>pg_next := v\<rparr>) s"

partial_function (option) find_link :: "pmm \<Rightarrow> link \<Rightarrow> nat \<Rightarrow> link option" where
  "find_link s l p =
     (case deref s l of
        None \<Rightarrow> Some l
      | Some q \<Rightarrow> if q \<noteq> p then find_link s (NextLink q) p else Some l)"

definition unlink_page :: "nat \<Rightarrow> pmm \<Rightarrow> pmm option" where
  "unlink_page p s = do {
     l \<leftarrow> find_link s HeadLink p;
     Some (if deref s l \<noteq> None then assign l (next_of s p) s else s)
   }"

text \<open>The body of the allocating loop for page \<^verbatim>\<open>i + j\<close>.\<close>

definition take_page :: "nat \<Rightarrow> u32 \<Rightarrow> pmm \<Rightarrow> pmm option" where
  "take_page p ord s = do {
     s \<leftarrow> unlink_page p s;
     let s = upd_page p (\<lambda>g. g\<lparr>pg_next := None, pg_flags := PAGE_USED, pg_order := ord,
                               pg_refcount := 1\<rparr>) s;
     Some (s\<lparr>free_pages_count := free_pages_count s - 1\<rparr>)
   }"

fun take_block :: "nat \<Rightarrow> nat \<Rightarrow> nat \<Rightarrow> u32 \<Rightarrow> pmm \<Rightarrow> pmm option" where
  "take_block i j 0 ord s = Some s"
| "take_block i j (Suc n) ord s = do {
     s \<leftarrow> take_page (i + j) (if j = 0 then ord else 0) s;
     take_block i (Suc j) n ord s
   }"

text \<open>The inner test loop; reading \<^verbatim>\<open>pages[i + j]\<close> past the array is undefined.\<close>

fun all_free :: "pmm \<Rightarrow> nat \<Rightarrow> nat \<Rightarrow> bool option" where
  "all_free s k 0 = Some True"
| "all_free s k (Suc n) =
     (if k \<ge> PAGES_LEN then None
      else if pg_flags (pages s k) \<noteq> PAGE_FREE then Some False
      else all_free s (Suc k) n)"

text \<open>The outer loop from \<open>i\<close>, with \<open>left\<close> values of \<open>i\<close> still to try.\<close>

fun scan :: "pmm \<Rightarrow> nat \<Rightarrow> nat \<Rightarrow> nat \<Rightarrow> nat option option" where
  "scan s count i 0 = Some None"
| "scan s count i (Suc left) =
     (case all_free s i count of
        None \<Rightarrow> None
      | Some True \<Rightarrow> Some (Some i)
      | Some False \<Rightarrow> scan s count (Suc i) left)"

definition alloc_pages :: "int \<Rightarrow> pmm \<Rightarrow> (nat option \<times> pmm) option" where
  "alloc_pages order s =
     (if order > int MAX_ORDER then Some (None, s)
      else if order = 0 then
        (case free_head s of
           None \<Rightarrow> Some (None, s)
         | Some p \<Rightarrow>
             let s = set_free_head (next_of s p) s;
                 s = upd_page p (\<lambda>g. g\<lparr>pg_next := None, pg_flags := PAGE_USED, pg_order := 0,
                                       pg_refcount := 1\<rparr>) s;
                 s = s\<lparr>free_pages_count := free_pages_count s - 1\<rparr>
             in Some (Some p, s))
      else if order < 0 then None
      else
        let count = push_bit (nat order) (1 :: u64) in do {
          found \<leftarrow> scan s (unat count) 0 (Suc (unat (num_pages s - count)));
          case found of
            None \<Rightarrow> Some (None, s)
          | Some i \<Rightarrow> do {
              s \<leftarrow> take_block i 0 (unat count) (of_int order) s;
              Some (Some i, s)
            }
        })"

section \<open>Release, translation, statistics\<close>

fun release_loop :: "nat \<Rightarrow> nat \<Rightarrow> pmm \<Rightarrow> pmm option" where
  "release_loop p 0 s = Some s"
| "release_loop p (Suc n) s =
     (if p \<ge> PAGES_LEN then None
      else release_loop (Suc p) n
        (push_free p (upd_page p (\<lambda>g. g\<lparr>pg_flags := PAGE_FREE, pg_order := 0\<rparr>) s)))"

definition free_pages :: "nat option \<Rightarrow> int \<Rightarrow> pmm \<Rightarrow> pmm option" where
  "free_pages pg order s =
     (case pg of
        None \<Rightarrow> Some s
      | Some p \<Rightarrow>
          if order > int MAX_ORDER then Some s
          else if p \<ge> PAGES_LEN then None
          else
            let s = (if pg_refcount (pages s p) > 0
                     then upd_page p (\<lambda>g. g\<lparr>pg_refcount := pg_refcount g - 1\<rparr>) s else s)
            in if pg_refcount (pages s p) = 0
               then (if order < 0 then None else release_loop p (unat (push_bit (nat order) (1 :: u64))) s)
               else Some s)"

definition page_to_phys :: "nat \<Rightarrow> u64" where
  "page_to_phys p = DRAM_BASE + of_nat p * PAGE_SIZE"

definition phys_to_page :: "pmm \<Rightarrow> u64 \<Rightarrow> nat option" where
  "phys_to_page s phys =
     (if phys < DRAM_BASE \<or> phys \<ge> DRAM_BASE + DRAM_SIZE then None
      else let index = (phys - DRAM_BASE) div PAGE_SIZE
           in if index \<ge> num_pages s then None else Some (unat index))"

definition pmm_dump_stats :: "pmm \<Rightarrow> console \<Rightarrow> console" where
  "pmm_dump_stats s con =
     print [NL, S ''Physical Memory Manager Statistics:'', NL,
            S ''  Total pages:    '', X (num_pages s), NL,
            S ''  Free pages:     '', X (free_pages_count s), NL,
            S ''  Used pages:     '', X (num_pages s - free_pages_count s), NL] con"

section \<open>Representation of the free list\<close>

text \<open>
  What a page descriptor says beside its list link, the frames that are marked free, and the
  representation invariant: the linked list visits exactly the free frames, each once, and the
  counter counts them.
\<close>

definition frame :: "pmm \<Rightarrow> nat \<Rightarrow> u32 \<times> u32 \<times> u32" where
  "frame s i = (pg_flags (pages s i), pg_order (pages s i), pg_refcount (pages s i))"

definition free_set :: "pmm \<Rightarrow> nat set" where
  "free_set s = {i. i < unat (num_pages s) \<and> pg_flags (pages s i) = PAGE_FREE}"

definition repr :: "pmm \<Rightarrow> nat list \<Rightarrow> bool" where
  "repr s xs \<longleftrightarrow> chain (next_of s) (free_head s) xs \<and> set xs = free_set s \<and>
     free_pages_count s = of_nat (length xs)"

definition pmm_wf :: "pmm \<Rightarrow> bool" where
  "pmm_wf s \<longleftrightarrow> unat (num_pages s) \<le> PAGES_LEN \<and> (\<exists>xs. repr s xs)"

lemma upd_page_simps [pmm_simps, simp]:
  "pages (upd_page i f s) j = (if j = i then f (pages s i) else pages s j)"
  "free_lists (upd_page i f s) = free_lists s"
  "free_pages_count (upd_page i f s) = free_pages_count s"
  "num_pages (upd_page i f s) = num_pages s"
  "zone_base (upd_page i f s) = zone_base s"
  "zone_size (upd_page i f s) = zone_size s"
  by (simp_all add: upd_page_def)

lemma set_free_head_simps [pmm_simps, simp]:
  "pages (set_free_head h s) = pages s"
  "free_lists (set_free_head h s) 0 = h"
  "free_pages_count (set_free_head h s) = free_pages_count s"
  "num_pages (set_free_head h s) = num_pages s"
  "zone_base (set_free_head h s) = zone_base s"
  "zone_size (set_free_head h s) = zone_size s"
  by (simp_all add: set_free_head_def)

lemma flags_frame: "pg_flags (pages s i) = fst (frame s i)"
  and order_frame: "pg_order (pages s i) = fst (snd (frame s i))"
  and refcount_frame: "pg_refcount (pages s i) = snd (snd (frame s i))"
  by (simp_all add: frame_def)

lemma free_set_frame: "free_set s = {i. i < unat (num_pages s) \<and> fst (frame s i) = PAGE_FREE}"
  by (simp add: free_set_def frame_def)

lemma finite_free_set [simp]: "finite (free_set s)"
  by (rule finite_subset [of _ "{..<unat (num_pages s)}"]) (auto simp: free_set_def)

lemma reprD:
  assumes "repr s xs"
  shows "distinct xs" "set xs = free_set s" "length xs = card (free_set s)"
    "free_pages_count s = of_nat (card (free_set s))"
proof -
  show d: "distinct xs" and e: "set xs = free_set s"
    using assms chain_distinct by (auto simp: repr_def)
  show "length xs = card (free_set s)" using distinct_card [OF d] e by simp
  then show "free_pages_count s = of_nat (card (free_set s))" using assms by (simp add: repr_def)
qed

lemma next_of_upd_link:
  "next_of (upd_page i (\<lambda>p. p\<lparr>pg_next := v\<rparr>) s) = (next_of s)(i := v)"
  by auto

section \<open>Unlinking\<close>

lemma find_link_chain:
  "seg (next_of s) (deref s l) us (Some p) \<Longrightarrow> p \<notin> set us \<Longrightarrow>
    find_link s l p = Some (if us = [] then l else NextLink (last us))"
proof (induction us arbitrary: l)
  case Nil
  then show ?case by (subst find_link.simps) simp
next
  case (Cons u us)
  then have "deref s l = Some u" "u \<noteq> p" by auto
  then have "find_link s l p = find_link s (NextLink u) p" by (subst find_link.simps) simp
  with Cons show ?case by simp
qed

lemma find_link_absent:
  "chain (next_of s) (deref s l) us \<Longrightarrow> p \<notin> set us \<Longrightarrow>
    find_link s l p = Some (if us = [] then l else NextLink (last us))"
proof (induction us arbitrary: l)
  case Nil
  then show ?case by (subst find_link.simps) simp
next
  case (Cons u us)
  then have "deref s l = Some u" "u \<noteq> p" by auto
  then have "find_link s l p = find_link s (NextLink u) p" by (subst find_link.simps) simp
  with Cons show ?case by simp
qed

lemma unlink_page_chain:
  assumes ch: "chain (next_of s) (free_head s) xs" and "p \<in> set xs"
  shows "\<exists>s'. unlink_page p s = Some s' \<and>
    chain (next_of s') (free_head s') (remove1 p xs) \<and>
    frame s' = frame s \<and> free_pages_count s' = free_pages_count s \<and> num_pages s' = num_pages s"
proof -
  obtain us vs where xs: "xs = us @ p # vs" and us: "p \<notin> set us"
    using \<open>p \<in> set xs\<close> by (rule split_at_member)
  have seg: "seg (next_of s) (free_head s) us (Some p)" using ch xs by simp
  then have fl: "find_link s HeadLink p = Some (if us = [] then HeadLink else NextLink (last us))"
    using us by (intro find_link_chain) simp_all
  have rem: "remove1 p xs = us @ vs" using xs us by (simp add: remove1_middle)
  show ?thesis
  proof (cases us rule: rev_cases)
    case Nil
    with ch xs have "free_head s = Some p" "chain (next_of s) (next_of s p) vs" by auto
    with fl Nil rem show ?thesis
      by (simp add: unlink_page_def frame_def fun_eq_iff)
  next
    case (snoc ws a)
    let ?s' = "assign (NextLink a) (next_of s p) s"
    have "chain ((next_of s)(a := next_of s p)) (free_head s) (ws @ [a] @ vs)"
      using ch xs snoc by (intro chain_unlink) simp
    then have "chain (next_of ?s') (free_head ?s') (remove1 p xs)"
      using rem snoc by (simp only: next_of_upd_link assign.simps) simp
    moreover have "deref s (NextLink a) = Some p" using seg snoc by simp
    then have "unlink_page p s = Some ?s'" using fl snoc by (simp add: unlink_page_def)
    moreover have "frame ?s' = frame s" by (simp add: frame_def fun_eq_iff)
    ultimately show ?thesis by simp
  qed
qed

lemma remove1_repr_set: "distinct xs \<Longrightarrow> set (remove1 p xs) = set xs - {p}"
  by simp

lemma take_page_repr:
  assumes r: "repr s xs" and p: "p \<in> set xs"
  shows "\<exists>s'. take_page p ord s = Some s' \<and> repr s' (remove1 p xs) \<and>
    frame s' = (frame s)(p := (PAGE_USED, ord, 1)) \<and> num_pages s' = num_pages s"
proof -
  obtain s1 where s1: "unlink_page p s = Some s1"
    and ch: "chain (next_of s1) (free_head s1) (remove1 p xs)"
    and same: "frame s1 = frame s" "free_pages_count s1 = free_pages_count s"
      "num_pages s1 = num_pages s"
    using unlink_page_chain r p unfolding repr_def by blast
  let ?s2 = "upd_page p (\<lambda>g. g\<lparr>pg_next := None, pg_flags := PAGE_USED, pg_order := ord,
     pg_refcount := 1\<rparr>) s1"
  let ?s' = "?s2\<lparr>free_pages_count := free_pages_count ?s2 - 1\<rparr>"
  have d: "distinct xs" using reprD(1) [OF r] .
  have nx: "next_of ?s' = (next_of s1)(p := None)" by auto
  have fr: "frame ?s' = (frame s)(p := (PAGE_USED, ord, 1))"
    using same(1) by (auto simp: frame_def fun_eq_iff)
  have "chain (next_of ?s') (free_head ?s') (remove1 p xs)"
    using ch d unfolding nx by simp
  moreover have "set (remove1 p xs) = free_set ?s'"
    unfolding free_set_frame fr using d r p
    by (auto simp: same repr_def free_set_frame PAGE_USED_def PAGE_FREE_def split: if_splits)
  moreover have "free_pages_count ?s' = of_nat (length (remove1 p xs))"
  proof -
    have len: "length xs = Suc (length (remove1 p xs))"
      using p length_pos_if_in_set [OF p] by (simp add: length_remove1)
    have "free_pages_count s1 = of_nat (length xs)" using r same by (simp add: repr_def)
    also have "\<dots> = of_nat (length (remove1 p xs)) + 1" by (simp only: len of_nat_Suc add.commute)
    finally show ?thesis by simp
  qed
  ultimately have "repr ?s' (remove1 p xs)" by (simp only: repr_def)
  with fr s1 same(3) show ?thesis by (simp add: take_page_def Let_def)
qed

lemma take_block_repr:
  "repr s xs \<Longrightarrow> {i + j..<i + j + n} \<subseteq> set xs \<Longrightarrow>
    \<exists>s' ys. take_block i j n ord s = Some s' \<and> repr s' ys \<and>
      set ys = set xs - {i + j..<i + j + n} \<and>
      frame s' = (\<lambda>k. if i + j \<le> k \<and> k < i + j + n
                      then (PAGE_USED, if k = i then ord else 0, 1) else frame s k) \<and>
      num_pages s' = num_pages s"
proof (induction n arbitrary: j s xs)
  case 0
  then show ?case by (intro exI [of _ s] exI [of _ xs]) (auto simp: fun_eq_iff)
next
  case (Suc n)
  let ?ord = "if j = 0 then ord else 0"
  obtain s1 where s1: "take_page (i + j) ?ord s = Some s1" "repr s1 (remove1 (i + j) xs)"
    "frame s1 = (frame s)(i + j := (PAGE_USED, ?ord, 1))" "num_pages s1 = num_pages s"
    using take_page_repr [OF Suc.prems(1), of "i + j" ?ord] Suc.prems(2) by fastforce
  have d: "distinct xs" using reprD(1) [OF Suc.prems(1)] .
  then have "{i + Suc j..<i + Suc j + n} \<subseteq> set (remove1 (i + j) xs)"
    using Suc.prems(2) by (auto simp: subset_iff)
  from Suc.IH [OF s1(2) this] obtain s' ys where
    s': "take_block i (Suc j) n ord s1 = Some s'" "repr s' ys"
    "set ys = set (remove1 (i + j) xs) - {i + Suc j..<i + Suc j + n}"
    "frame s' = (\<lambda>k. if i + Suc j \<le> k \<and> k < i + Suc j + n
        then (PAGE_USED, if k = i then ord else 0, 1) else frame s1 k)"
    "num_pages s' = num_pages s1"
    by blast
  have "set ys = set xs - {i + j..<i + j + Suc n}"
  proof -
    have "{i + j..<i + j + Suc n} = insert (i + j) {i + Suc j..<i + Suc j + n}" by auto
    then show ?thesis using s'(3) d by auto
  qed
  moreover have "frame s' = (\<lambda>k. if i + j \<le> k \<and> k < i + j + Suc n
      then (PAGE_USED, if k = i then ord else 0, 1) else frame s k)"
    (is "_ = ?f")
  proof
    fix k
    show "frame s' k = ?f k"
      unfolding s'(4) s1(3) by (cases "k = i + j"; cases "k < i + j") auto
  qed
  moreover have "take_block i j (Suc n) ord s = Some s'" using s1(1) s'(1) by simp
  moreover have "num_pages s' = num_pages s" using s1(4) s'(5) by simp
  ultimately show ?case using s'(2) by blast
qed

section \<open>Searching for a block\<close>

lemma all_free_eq:
  "k + n \<le> PAGES_LEN \<Longrightarrow>
    all_free s k n = Some (\<forall>i \<in> {k..<k + n}. pg_flags (pages s i) = PAGE_FREE)"
proof (induction n arbitrary: k)
  case (Suc n)
  have "{k..<k + Suc n} = insert k {Suc k..<Suc k + n}" by auto
  with Suc show ?case by (simp add: PAGES_LEN_def)
qed simp

text \<open>\<open>block s i n\<close>: the \<open>n\<close> frames from \<open>i\<close> are managed and free.\<close>

definition block :: "pmm \<Rightarrow> nat \<Rightarrow> nat \<Rightarrow> bool" where
  "block s i n \<longleftrightarrow> {i..<i + n} \<subseteq> free_set s"

lemma scan_finds:
  "i + left + n \<le> Suc PAGES_LEN \<Longrightarrow> scan s n i left = Some r \<Longrightarrow>
    case r of
      None \<Rightarrow> (\<forall>k \<in> {i..<i + left}. \<exists>p \<in> {k..<k + n}. pg_flags (pages s p) \<noteq> PAGE_FREE)
    | Some k \<Rightarrow> i \<le> k \<and> k < i + left \<and> (\<forall>p \<in> {k..<k + n}. pg_flags (pages s p) = PAGE_FREE) \<and>
        (\<forall>k' \<in> {i..<k}. \<exists>p \<in> {k'..<k' + n}. pg_flags (pages s p) \<noteq> PAGE_FREE)"
proof (induction left arbitrary: i)
  case (Suc left)
  let ?P = "\<lambda>k. \<forall>p \<in> {k..<k + n}. pg_flags (pages s p) = PAGE_FREE"
  have af: "all_free s i n = Some (?P i)" using Suc.prems(1) by (intro all_free_eq) simp
  show ?case
  proof (cases "?P i")
    case True
    with af Suc.prems(2) have "r = Some i" by (simp del: all_free.simps)
    with True show ?thesis by simp
  next
    case False
    with af Suc.prems(2) have r: "scan s n (Suc i) left = Some r" by (simp del: all_free.simps)
    have split: "{i..<m} = (if i < m then insert i {Suc i..<m} else {})" for m by auto
    from False show ?thesis
      using Suc.IH [OF _ r] Suc.prems(1) by (cases r) (auto simp: split less_Suc_eq_le)
  qed
qed simp

lemma scan_total: "i + left + n \<le> Suc PAGES_LEN \<Longrightarrow> scan s n i left \<noteq> None"
proof (induction left arbitrary: i)
  case (Suc left)
  have "all_free s i n = Some (\<forall>i \<in> {i..<i + n}. pg_flags (pages s i) = PAGE_FREE)"
    using Suc.prems by (intro all_free_eq) simp
  with Suc show ?case by (simp split: bool.split del: all_free.simps)
qed simp

section \<open>Release\<close>

lemma release_page_repr:
  assumes r: "repr s xs" and p: "p \<notin> set xs" "p < unat (num_pages s)"
  defines "s' \<equiv> push_free p (upd_page p (\<lambda>g. g\<lparr>pg_flags := PAGE_FREE, pg_order := 0\<rparr>) s)"
  shows "repr s' (p # xs)" "frame s' = (frame s)(p := (PAGE_FREE, 0, snd (snd (frame s p))))"
    "num_pages s' = num_pages s"
proof -
  show n: "num_pages s' = num_pages s" by (simp add: s'_def push_free_def)
  show fr: "frame s' = (frame s)(p := (PAGE_FREE, 0, snd (snd (frame s p))))"
    by (auto simp: s'_def push_free_def frame_def fun_eq_iff)
  have nx: "next_of s' = (next_of s)(p := free_head s)"
    by (auto simp: s'_def push_free_def)
  have hd: "free_head s' = Some p" by (simp add: s'_def push_free_def)
  have "chain (next_of s') (free_head s') (p # xs)"
    using r p unfolding nx hd by (simp add: repr_def)
  moreover have "set (p # xs) = free_set s'"
    unfolding free_set_frame fr n using r p by (auto simp: repr_def free_set_frame split: if_splits)
  moreover have "free_pages_count s' = of_nat (length (p # xs))"
    using r by (simp add: s'_def push_free_def repr_def)
  ultimately show "repr s' (p # xs)" by (simp only: repr_def)
qed

lemma release_loop_repr:
  "repr s xs \<Longrightarrow> {p..<p + n} \<inter> set xs = {} \<Longrightarrow> p + n \<le> unat (num_pages s) \<Longrightarrow>
   unat (num_pages s) \<le> PAGES_LEN \<Longrightarrow>
    \<exists>s'. release_loop p n s = Some s' \<and> repr s' (rev [p..<p + n] @ xs) \<and>
      frame s' = (\<lambda>k. if p \<le> k \<and> k < p + n then (PAGE_FREE, 0, snd (snd (frame s k))) else frame s k) \<and>
      num_pages s' = num_pages s"
proof (induction n arbitrary: p s xs)
  case 0
  then show ?case by (auto simp: fun_eq_iff)
next
  case (Suc n)
  let ?s1 = "push_free p (upd_page p (\<lambda>g. g\<lparr>pg_flags := PAGE_FREE, pg_order := 0\<rparr>) s)"
  have "p \<in> {p..<p + Suc n}" by simp
  then have p: "p \<notin> set xs" "p < unat (num_pages s)" using Suc.prems(2,3) by (blast, simp)
  note s1 = release_page_repr [OF Suc.prems(1) p]
  have "{Suc p..<Suc p + n} \<subseteq> {p..<p + Suc n}" by auto
  then have "{Suc p..<Suc p + n} \<inter> set (p # xs) = {}" using Suc.prems(2) by fastforce
  then obtain s' where s': "release_loop (Suc p) n ?s1 = Some s'"
    "repr s' (rev [Suc p..<Suc p + n] @ p # xs)"
    "frame s' = (\<lambda>k. if Suc p \<le> k \<and> k < Suc p + n then (PAGE_FREE, 0, snd (snd (frame ?s1 k)))
       else frame ?s1 k)"
    "num_pages s' = num_pages ?s1"
    using Suc.IH [OF s1(1), of "Suc p"] Suc.prems(3,4) s1(3) by auto
  have "rev [p..<p + Suc n] @ xs = rev [Suc p..<Suc p + n] @ p # xs"
    by (simp add: upt_conv_Cons del: upt_Suc)
  moreover have "frame s' = (\<lambda>k. if p \<le> k \<and> k < p + Suc n
      then (PAGE_FREE, 0, snd (snd (frame s k))) else frame s k)" (is "_ = ?f")
  proof
    fix k
    show "frame s' k = ?f k"
      unfolding s'(3) s1(2) by (cases "k = p"; cases "k < p") auto
  qed
  moreover have "release_loop p (Suc n) s = Some s'"
    using s'(1) p Suc.prems(4) by simp
  ultimately show ?case using s'(2,4) s1(3) by simp
qed

section \<open>Specification of allocation\<close>

lemma alloc_order0_empty: "repr s [] \<Longrightarrow> alloc_pages 0 s = Some (None, s)"
  by (simp add: alloc_pages_def repr_def)

lemma alloc_order0_repr:
  assumes r: "repr s (p # ys)"
  shows "\<exists>s'. alloc_pages 0 s = Some (Some p, s') \<and> repr s' ys \<and>
    frame s' = (frame s)(p := (PAGE_USED, 0, 1)) \<and> num_pages s' = num_pages s"
proof -
  have hd: "free_head s = Some p" and ch: "chain (next_of s) (next_of s p) ys"
    and p: "p \<notin> set ys" "set (p # ys) = free_set s"
    and c: "free_pages_count s = of_nat (length (p # ys))"
    using r reprD(1) [OF r] by (auto simp: repr_def)
  let ?s1 = "set_free_head (next_of s p) s"
  let ?s2 = "upd_page p (\<lambda>g. g\<lparr>pg_next := None, pg_flags := PAGE_USED, pg_order := 0,
     pg_refcount := 1\<rparr>) ?s1"
  let ?s' = "?s2\<lparr>free_pages_count := free_pages_count ?s2 - 1\<rparr>"
  have nx: "next_of ?s' = (next_of s)(p := None)" by auto
  have fr: "frame ?s' = (frame s)(p := (PAGE_USED, 0, 1))"
    by (auto simp: frame_def fun_eq_iff)
  have "chain (next_of ?s') (free_head ?s') ys" using ch p unfolding nx by simp
  moreover have "set ys = free_set ?s'"
    unfolding free_set_frame fr using p
    by (auto simp: free_set_frame PAGE_USED_def PAGE_FREE_def split: if_splits)
  moreover have "free_pages_count ?s' = of_nat (length ys)" using c by simp
  ultimately have "repr ?s' ys" by (simp only: repr_def)
  moreover have "alloc_pages 0 s = Some (Some p, ?s')"
    using hd by (simp add: alloc_pages_def Let_def)
  ultimately show ?thesis using fr by simp
qed

lemma unat_pow2: "k < 64 \<Longrightarrow> unat (2 ^ k :: u64) = 2 ^ k"
proof -
  assume "k < 64"
  then have "(2 :: nat) ^ k < 2 ^ 64" by (rule power_strict_increasing) simp
  then have "unat (of_nat (2 ^ k) :: u64) = 2 ^ k" by (rule unat_of_nat_small)
  then show ?thesis by simp
qed

lemma block_flags:
  "i + n \<le> unat (num_pages s) \<Longrightarrow>
    block s i n \<longleftrightarrow> (\<forall>p \<in> {i..<i + n}. pg_flags (pages s p) = PAGE_FREE)"
  by (auto simp: block_def free_set_def)

lemma block_bound: "block s i n \<Longrightarrow> 0 < n \<Longrightarrow> i + n \<le> unat (num_pages s)"
proof -
  assume "block s i n" "0 < n"
  then have "i + n - 1 \<in> free_set s" by (auto simp: block_def)
  then show ?thesis by (auto simp: free_set_def)
qed

lemma alloc_high_order:
  assumes r: "repr s xs" and n: "unat (num_pages s) \<le> PAGES_LEN"
    and k: "1 \<le> k" "k \<le> 10" "2 ^ k \<le> unat (num_pages s)"
  shows "(\<forall>i. \<not> block s i (2 ^ k)) \<and> alloc_pages (int k) s = Some (None, s) \<or>
    (\<exists>i s' ys. block s i (2 ^ k) \<and> (\<forall>i' < i. \<not> block s i' (2 ^ k)) \<and>
      alloc_pages (int k) s = Some (Some i, s') \<and> repr s' ys \<and>
      set ys = set xs - {i..<i + 2 ^ k} \<and>
      frame s' = (\<lambda>j. if i \<le> j \<and> j < i + 2 ^ k
                      then (PAGE_USED, if j = i then of_nat k else 0, 1) else frame s j) \<and>
      num_pages s' = num_pages s)"
proof -
  let ?n = "2 ^ k :: nat" and ?c = "push_bit k (1 :: u64)"
  have c: "unat ?c = ?n" using k by (simp add: unat_pow2)
  have tries: "unat (num_pages s - ?c) = unat (num_pages s) - ?n"
    using k(3) unfolding c [symmetric] by (rule unat_sub_no_wrap)
  let ?left = "Suc (unat (num_pages s) - ?n)"
  have bound: "0 + ?left + ?n \<le> Suc PAGES_LEN" using n k by simp
  have "scan s ?n 0 ?left \<noteq> None" by (rule scan_total [OF bound])
  then obtain res where res: "scan s ?n 0 ?left = Some res" by blast
  note spec = scan_finds [OF bound res]
  have unfold: "alloc_pages (int k) s = (case res of None \<Rightarrow> Some (None, s)
      | Some i \<Rightarrow> do { s \<leftarrow> take_block i 0 ?n (of_nat k) s; Some (Some i, s) })"
    using k res c tries
    by (simp add: alloc_pages_def MAX_ORDER_def Let_def del: scan.simps split: option.split)
  show ?thesis
  proof (cases res)
    case None
    have "\<not> block s i ?n" for i
    proof
      assume b: "block s i ?n"
      then have "i + ?n \<le> unat (num_pages s)" using block_bound by simp
      then have "i \<in> {0..<0 + ?left}" by simp
      then show False using spec None b by (fastforce simp: block_def free_set_def subset_iff)
    qed
    with None unfold show ?thesis by simp
  next
    case (Some i)
    with spec have i: "i < ?left" and free: "\<forall>p \<in> {i..<i + ?n}. pg_flags (pages s p) = PAGE_FREE"
      and least: "\<forall>k' \<in> {0..<i}. \<exists>p \<in> {k'..<k' + ?n}. pg_flags (pages s p) \<noteq> PAGE_FREE"
      by auto
    have b: "block s i ?n" using i free k(3) by (subst block_flags) auto
    have min: "\<not> block s i' ?n" if "i' < i" for i'
      using least that by (fastforce simp: block_def free_set_def subset_iff)
    have "{i + 0..<i + 0 + ?n} \<subseteq> set xs" using b reprD(2) [OF r] by (simp add: block_def)
    from take_block_repr [OF r this, of "of_nat k"] obtain s' ys where
      "take_block i 0 ?n (of_nat k) s = Some s'" "repr s' ys" "set ys = set xs - {i..<i + ?n}"
      "frame s' = (\<lambda>j. if i \<le> j \<and> j < i + ?n
          then (PAGE_USED, if j = i then of_nat k else 0, 1) else frame s j)"
      "num_pages s' = num_pages s" by auto
    with Some unfold b min show ?thesis by auto
  qed
qed

lemma u32_le_1: "x \<le> (1 :: u32) \<Longrightarrow> x = 0 \<or> x = 1"
proof -
  assume "x \<le> 1"
  then have "unat x \<le> 1" by (simp add: word_le_nat_alt)
  then have "unat x = 0 \<or> unat x = 1" by arith
  then show ?thesis by (simp add: word_unat_eq_iff)
qed

lemma pmm_wfI: "repr s xs \<Longrightarrow> unat (num_pages s) \<le> PAGES_LEN \<Longrightarrow> pmm_wf s"
  by (auto simp: pmm_wf_def)

lemma frame_taken_free_set:
  assumes "frame s' = (\<lambda>j. if i \<le> j \<and> j < i + n then (PAGE_USED, f j, 1) else frame s j)"
    and "num_pages s' = num_pages s"
  shows "free_set s' = free_set s - {i..<i + n}"
  unfolding free_set_frame assms by (auto simp: PAGE_USED_def PAGE_FREE_def)

lemma alloc_single_spec:
  assumes "pmm_wf s"
  shows "if free_set s = {} then alloc_pages 0 s = Some (None, s)
    else \<exists>p s'. alloc_pages 0 s = Some (Some p, s') \<and> p \<in> free_set s \<and> pmm_wf s' \<and>
      free_set s' = free_set s - {p} \<and> frame s' = (frame s)(p := (PAGE_USED, 0, 1)) \<and>
      num_pages s' = num_pages s"
proof -
  obtain xs where xs: "repr s xs" and n: "unat (num_pages s) \<le> PAGES_LEN"
    using assms by (auto simp: pmm_wf_def)
  show ?thesis
  proof (cases xs)
    case Nil
    with xs have "free_set s = {}" using reprD(2) by force
    with xs Nil show ?thesis by (simp add: alloc_order0_empty)
  next
    case (Cons p ys)
    with xs obtain s' where s': "alloc_pages 0 s = Some (Some p, s')" "repr s' ys"
      "frame s' = (frame s)(p := (PAGE_USED, 0, 1))" "num_pages s' = num_pages s"
      using alloc_order0_repr by blast
    have "p \<in> free_set s" using reprD(2) [OF xs] Cons by auto
    moreover have "free_set s' = free_set s - {p}"
      unfolding free_set_frame s'(3,4) by (auto simp: PAGE_USED_def PAGE_FREE_def split: if_splits)
    moreover have "pmm_wf s'" using s'(2,4) n by (simp add: pmm_wfI)
    ultimately show ?thesis using s' by auto
  qed
qed

text \<open>
  C5: \<^verbatim>\<open>alloc_pages(k)\<close> for orders 1 to 10 returns: NULL, with nothing changed, exactly when no
  \<open>2 ^ k\<close> consecutive frames are free; otherwise the lowest such block, whose frames are now all
  used with one reference each and off the free list, the order recorded in the first, every
  other frame untouched and the allocator well-formed.
\<close>
theorem alloc_pages_block:
  assumes "pmm_wf s" and "1 \<le> k" "k \<le> 10" "2 ^ k \<le> unat (num_pages s)"
  shows "(\<forall>i. \<not> block s i (2 ^ k)) \<and> alloc_pages (int k) s = Some (None, s) \<or>
    (\<exists>i s'. block s i (2 ^ k) \<and> (\<forall>i' < i. \<not> block s i' (2 ^ k)) \<and>
      alloc_pages (int k) s = Some (Some i, s') \<and> pmm_wf s' \<and>
      free_set s' = free_set s - {i..<i + 2 ^ k} \<and>
      frame s' = (\<lambda>j. if i \<le> j \<and> j < i + 2 ^ k
                      then (PAGE_USED, if j = i then of_nat k else 0, 1) else frame s j) \<and>
      num_pages s' = num_pages s)"
proof -
  obtain xs where "repr s xs" and n: "unat (num_pages s) \<le> PAGES_LEN"
    using assms by (auto simp: pmm_wf_def)
  from alloc_high_order [OF this assms(2-4)] show ?thesis
  proof (elim disjE exE conjE)
    fix i s' ys
    assume i: "block s i (2 ^ k)" "\<forall>i' < i. \<not> block s i' (2 ^ k)"
      "alloc_pages (int k) s = Some (Some i, s')" "repr s' ys" "num_pages s' = num_pages s"
      and f: "frame s' = (\<lambda>j. if i \<le> j \<and> j < i + 2 ^ k
        then (PAGE_USED, if j = i then of_nat k else 0, 1) else frame s j)"
    have "pmm_wf s'" using i(4,5) n by (simp add: pmm_wfI)
    with i f frame_taken_free_set [OF f i(5)] show ?thesis by blast
  qed simp
qed

lemma free_block_spec:
  assumes "pmm_wf s" and "k \<le> 10" "p + 2 ^ k \<le> unat (num_pages s)"
    and "{p..<p + 2 ^ k} \<inter> free_set s = {}" and "pg_refcount (pages s p) \<le> 1"
  shows "\<exists>s'. free_pages (Some p) (int k) s = Some s' \<and> pmm_wf s' \<and>
    free_set s' = free_set s \<union> {p..<p + 2 ^ k} \<and>
    frame s' = (\<lambda>j. if p \<le> j \<and> j < p + 2 ^ k
                    then (PAGE_FREE, 0, if j = p then 0 else pg_refcount (pages s j)) else frame s j) \<and>
    num_pages s' = num_pages s"
proof -
  let ?n = "2 ^ k :: nat"
  define s1 where "s1 = (if pg_refcount (pages s p) > 0
     then upd_page p (\<lambda>g. g\<lparr>pg_refcount := pg_refcount g - 1\<rparr>) s else s)"
  obtain xs where r: "repr s xs" and n: "unat (num_pages s) \<le> PAGES_LEN"
    using assms by (auto simp: pmm_wf_def)
  have num: "num_pages s1 = num_pages s" by (simp add: s1_def)
  have "next_of s1 = next_of s" "free_head s1 = free_head s" by (auto simp: s1_def)
  moreover have "free_set s1 = free_set s" by (auto simp: free_set_def s1_def)
  ultimately have r1: "repr s1 xs" using r by (simp add: repr_def s1_def)
  have "pg_refcount (pages s p) = 0 \<or> pg_refcount (pages s p) = 1"
    using assms(5) by (rule u32_le_1)
  then have rc: "pg_refcount (pages s1 p) = 0" by (auto simp: s1_def)
  have fr: "snd (snd (frame s1 j)) = (if j = p then 0 else pg_refcount (pages s j))" for j
    using rc by (auto simp: frame_def s1_def)
  have other: "j \<noteq> p \<Longrightarrow> frame s1 j = frame s j" for j by (simp add: frame_def s1_def)
  have "{p..<p + ?n} \<inter> set xs = {}" using assms(4) reprD(2) [OF r] by simp
  from release_loop_repr [OF r1 this] n num assms(3) obtain s' where
    s': "release_loop p ?n s1 = Some s'" "repr s' (rev [p..<p + ?n] @ xs)"
    "num_pages s' = num_pages s"
    and f: "frame s' = (\<lambda>j. if p \<le> j \<and> j < p + ?n then (PAGE_FREE, 0, snd (snd (frame s1 j)))
      else frame s1 j)"
    by auto
  have "p < unat (num_pages s)" using assms(3) by (metis add_lessD1 le_neq_implies_less less_add_same_cancel1 order_less_le_trans zero_less_numeral zero_less_power)
  then have run: "free_pages (Some p) (int k) s = Some s'"
    using s'(1) rc n assms(2) by (simp add: free_pages_def MAX_ORDER_def Let_def unat_pow2 flip: s1_def)
  have "set (rev [p..<p + ?n] @ xs) = free_set s'" using reprD(2) [OF s'(2)] .
  then have fs: "free_set s' = free_set s \<union> {p..<p + ?n}" using reprD(2) [OF r] by auto
  have ff: "frame s' = (\<lambda>j. if p \<le> j \<and> j < p + ?n
      then (PAGE_FREE, 0, if j = p then 0 else pg_refcount (pages s j)) else frame s j)"
    (is "_ = ?f")
  proof
    fix j
    show "frame s' j = ?f j" unfolding f fr by (cases "j = p") (simp_all add: other)
  qed
  have "pmm_wf s'" using s'(2,3) n by (simp add: pmm_wfI)
  with run fs ff s'(3) show ?thesis by blast
qed

lemma free_pages_shared:
  assumes "1 < pg_refcount (pages s p)" "k \<le> 10" "p < PAGES_LEN"
  shows "free_pages (Some p) (int k) s =
    Some (upd_page p (\<lambda>g. g\<lparr>pg_refcount := pg_refcount g - 1\<rparr>) s)"
proof -
  have "0 < pg_refcount (pages s p)" and "pg_refcount (pages s p) - 1 \<noteq> 0"
    using assms(1) by (auto simp: word_gt_0)
  then show ?thesis using assms by (simp add: free_pages_def MAX_ORDER_def Let_def)
qed

section \<open>Initialisation\<close>

lemma mark_loop_frames:
  "frame (mark_loop fl i n s) =
     (\<lambda>j. if i \<le> j \<and> j < i + n then (fl, snd (frame s j)) else frame s j) \<and>
   num_pages (mark_loop fl i n s) = num_pages s \<and>
   free_pages_count (mark_loop fl i n s) = free_pages_count s \<and>
   next_of (mark_loop fl i n s) = next_of s \<and> free_lists (mark_loop fl i n s) = free_lists s"
proof (induction n arbitrary: i s)
  case (Suc n)
  let ?s1 = "upd_page i (\<lambda>p. p\<lparr>pg_flags := fl\<rparr>) s"
  have f1: "frame ?s1 = (frame s)(i := (fl, snd (frame s i)))" "next_of ?s1 = next_of s"
    by (auto simp: frame_def)
  have "frame (mark_loop fl i (Suc n) s) k =
      (if i \<le> k \<and> k < i + Suc n then (fl, snd (frame s k)) else frame s k)" for k
    using Suc.IH [of "Suc i" ?s1] unfolding f1 by (cases "k = i"; cases "k < i") auto
  then show ?case using Suc.IH [of "Suc i" ?s1] f1(2) by auto
qed (auto simp: fun_eq_iff)

lemma clear_loop_frames:
  "frame (clear_loop i n s) = (\<lambda>j. if i \<le> j \<and> j < i + n then (PAGE_FREE, 0, 0) else frame s j) \<and>
   num_pages (clear_loop i n s) = num_pages s \<and>
   free_pages_count (clear_loop i n s) = free_pages_count s"
proof (induction n arbitrary: i s)
  case (Suc n)
  let ?s1 = "upd_page i
    (\<lambda>p. p\<lparr>pg_flags := PAGE_FREE, pg_order := 0, pg_refcount := 0, pg_next := None\<rparr>) s"
  have f1: "frame ?s1 = (frame s)(i := (PAGE_FREE, 0, 0))"
    by (auto simp: frame_def)
  have "frame (clear_loop i (Suc n) s) k =
      (if i \<le> k \<and> k < i + Suc n then (PAGE_FREE, 0, 0) else frame s k)" for k
    using Suc.IH [of "Suc i" ?s1] unfolding f1 by (cases "k = i"; cases "k < i") auto
  then show ?case using Suc.IH [of "Suc i" ?s1] by auto
qed (auto simp: fun_eq_iff)

lemma null_lists_loop_fields:
  "pages (null_lists_loop i n s) = pages s \<and> num_pages (null_lists_loop i n s) = num_pages s \<and>
   free_pages_count (null_lists_loop i n s) = free_pages_count s \<and>
   free_lists (null_lists_loop i n s) = (\<lambda>j. if i \<le> j \<and> j < i + n then None else free_lists s j)"
proof (induction n arbitrary: i s)
  case (Suc n)
  let ?s1 = "s\<lparr>free_lists := (free_lists s)(i := None)\<rparr>"
  have "free_lists (null_lists_loop i (Suc n) s) k =
      (if i \<le> k \<and> k < i + Suc n then None else free_lists s k)" for k
    using Suc.IH [of "Suc i" ?s1] by (cases "k = i"; cases "k < i") auto
  then show ?case using Suc.IH [of "Suc i" ?s1] by auto
qed (auto simp: fun_eq_iff)

lemma add_free_loop_chain:
  "chain (next_of s) (free_head s) xs \<Longrightarrow> set xs \<subseteq> {..<i} \<Longrightarrow>
   free_pages_count s = of_nat (length xs) \<Longrightarrow>
   (let s' = add_free_loop i n s;
        ys = rev (filter (\<lambda>j. fst (frame s j) = PAGE_FREE) [i..<i + n]) @ xs
    in chain (next_of s') (free_head s') ys \<and> frame s' = frame s \<and> num_pages s' = num_pages s \<and>
       free_pages_count s' = of_nat (length ys))"
proof (induction n arbitrary: i s xs)
  case (Suc n)
  have upt: "[i..<i + Suc n] = i # [Suc i..<Suc i + n]" by (simp add: upt_conv_Cons del: upt_Suc)
  show ?case
  proof (cases "pg_flags (pages s i) = PAGE_FREE")
    case True
    define s1 where "s1 = push_free i s"
    have nx: "next_of s1 = (next_of s)(i := free_head s)" and hd: "free_head s1 = Some i"
      by (auto simp: push_free_def s1_def)
    have fr: "frame s1 = frame s" by (auto simp: push_free_def frame_def fun_eq_iff s1_def)
    have "i \<notin> set xs" using Suc.prems(2) by auto
    then have "chain (next_of s1) (free_head s1) (i # xs)"
      using Suc.prems(1) unfolding nx hd by simp
    moreover have "set (i # xs) \<subseteq> {..<Suc i}" using Suc.prems(2) by auto
    moreover have "free_pages_count s1 = of_nat (length (i # xs))"
      using Suc.prems(3) by (simp add: push_free_def s1_def)
    moreover have "add_free_loop i (Suc n) s = add_free_loop (Suc i) n s1"
      using True by (simp add: s1_def)
    moreover have "num_pages s1 = num_pages s" by (simp add: s1_def push_free_def)
    moreover have "rev (filter (\<lambda>j. fst (frame s j) = PAGE_FREE) [i..<i + Suc n]) @ xs =
        rev (filter (\<lambda>j. fst (frame s1 j) = PAGE_FREE) [Suc i..<Suc i + n]) @ i # xs"
      using True by (simp only: upt fr) (simp add: flags_frame)
    ultimately show ?thesis
      using Suc.IH [of s1 "i # xs" "Suc i"] unfolding fr Let_def by metis
  next
    case False
    have "set xs \<subseteq> {..<Suc i}" using Suc.prems(2) by auto
    moreover have "filter (\<lambda>j. fst (frame s j) = PAGE_FREE) [i..<i + Suc n] =
        filter (\<lambda>j. fst (frame s j) = PAGE_FREE) [Suc i..<Suc i + n]"
      using False by (simp only: upt) (simp add: flags_frame)
    moreover have "add_free_loop i (Suc n) s = add_free_loop (Suc i) n s" using False by simp
    ultimately show ?thesis
      using Suc.IH [of s xs "Suc i"] Suc.prems by (simp only:)
  qed
qed (simp add: Let_def)

lemma DRAM_pages: "DRAM_SIZE div PAGE_SIZE = 262144"
  by (simp add: DRAM_SIZE_def PAGE_SIZE_def PAGE_SHIFT_def)

lemma mark_kernel:
  assumes "num_pages s = 16384"
  shows "pmm_mark_region KERNEL_BASE KERNEL_SIZE fl s = mark_loop fl 1024 4096 s"
  using assms by (simp add: pmm_mark_region_def KERNEL_BASE_def KERNEL_SIZE_def DRAM_BASE_def
      PAGE_SIZE_def PAGE_SHIFT_def Let_def)

lemma pmm_init_spec:
  "let s = fst (pmm_init (s0, con)) in
     pmm_wf s \<and> num_pages s = 16384 \<and> free_set s = {..<1024} \<union> {5120..<16384} \<and>
     free_pages_count s = 12288 \<and>
     (\<forall>i \<in> {1024..<5120}. pg_flags (pages s i) = PAGE_RESERVED)"
proof -
  define s1 where "s1 = s0\<lparr>zone_base := DRAM_BASE, zone_size := DRAM_SIZE, free_pages_count := 0,
    num_pages := 16384\<rparr>"
  define s2 where "s2 = mark_loop PAGE_RESERVED 1024 4096 (clear_loop 0 16384 s1)"
  define s3 where "s3 = null_lists_loop 0 (MAX_ORDER + 1) s2"
  define s where "s = add_free_loop 0 16384 s3"
  have num: "num_pages s1 = 16384" "free_pages_count s1 = 0" by (simp_all add: s1_def)
  note cl = clear_loop_frames [of 0 16384 s1]
  note mk = mark_loop_frames [of PAGE_RESERVED 1024 4096 "clear_loop 0 16384 s1"]
  note nl = null_lists_loop_fields [of 0 "MAX_ORDER + 1" s2]
  have f3: "frame s3 = (\<lambda>j. if 1024 \<le> j \<and> j < 5120 then (PAGE_RESERVED, 0, 0)
      else if j < 16384 then (PAGE_FREE, 0, 0) else frame s0 j)"
  proof
    fix j
    have "frame s3 j = frame s2 j" using nl by (simp add: s3_def frame_def)
    also have "\<dots> = (if 1024 \<le> j \<and> j < 5120 then (PAGE_RESERVED, 0, 0)
      else if j < 16384 then (PAGE_FREE, 0, 0) else frame s0 j)"
      using mk cl by (auto simp: s2_def s1_def frame_def)
    finally show "frame s3 j = \<dots>" .
  qed
  have s3: "num_pages s3 = 16384" "free_pages_count s3 = 0" "free_head s3 = None"
    using mk cl nl num by (auto simp: s3_def s2_def)
  let ?ys = "rev (filter (\<lambda>j. fst (frame s3 j) = PAGE_FREE) [0..<16384])"
  have s: "chain (next_of s) (free_head s) ?ys" "frame s = frame s3" "num_pages s = 16384"
    "free_pages_count s = of_nat (length ?ys)"
    using add_free_loop_chain [of s3 "[]" 0 16384] s3 by (simp_all add: s_def Let_def)
  have fs: "free_set s = {..<1024} \<union> {5120..<16384}"
    unfolding free_set_frame s(2,3) f3 by (auto simp: PAGE_RESERVED_def PAGE_FREE_def)
  have "set ?ys = free_set s"
    unfolding free_set_frame s(2,3) by auto
  then have r: "repr s ?ys" using s by (simp only: repr_def)
  have "card (free_set s) = 1024 + 11264"
    unfolding fs by (subst card_Un_disjoint) auto
  then have cnt: "free_pages_count s = 12288" using reprD(4) [OF r] by simp
  have "fst (pmm_init (s0, con)) =
      (let s = clear_loop 0 16384 s1; s = pmm_mark_region KERNEL_BASE KERNEL_SIZE PAGE_RESERVED s;
           s = null_lists_loop 0 (MAX_ORDER + 1) s in add_free_loop 0 (unat (num_pages s)) s)"
    by (simp add: pmm_init_def Let_def DRAM_pages s1_def)
  also have "\<dots> = s"
    using cl num s3(1) unfolding Let_def s_def
    by (simp only: mark_kernel s2_def [symmetric] s3_def [symmetric]) simp
  finally have "fst (pmm_init (s0, con)) = s" .
  moreover have "\<forall>i \<in> {1024..<5120}. pg_flags (pages s i) = PAGE_RESERVED"
    by (simp add: flags_frame s(2) f3)
  moreover have "pmm_wf s" using r s(3) by (simp add: pmm_wf_def PAGES_LEN_def) blast
  ultimately show ?thesis using fs cnt s(3) by (simp add: Let_def)
qed

section \<open>Frame numbers and physical addresses\<close>

lemma PAGE_SIZE_eq: "PAGE_SIZE = 4096"
  by (simp add: PAGE_SIZE_def PAGE_SHIFT_def)

text \<open>The bytes of \<open>n\<close> frames from frame \<open>f\<close>.\<close>

definition in_block :: "nat \<Rightarrow> nat \<Rightarrow> u64 \<Rightarrow> bool" where
  "in_block f n x \<longleftrightarrow> unat (page_to_phys f) \<le> unat x \<and> unat x < unat (page_to_phys f) + 4096 * n"

lemma unat_page_to_phys:
  assumes "p < PAGES_LEN"
  shows "unat (page_to_phys p) = 0x40000000 + p * 4096"
proof -
  have p: "p < 16384" using assms by (simp add: PAGES_LEN_def)
  then have "unat (of_nat p :: u64) = p" by (intro unat_of_nat_small) simp
  then have "unat (of_nat p * PAGE_SIZE) = p * 4096"
    using p by (simp add: PAGE_SIZE_eq unat_word_ariths)
  moreover have "unat DRAM_BASE = 0x40000000" by (simp add: DRAM_BASE_def)
  ultimately show ?thesis
    using p unfolding page_to_phys_def by (subst unat_add_no_wrap) simp_all
qed

lemma phys_to_page_spec:
  assumes "unat (num_pages s) \<le> PAGES_LEN"
  shows "phys_to_page s a = Some p \<longleftrightarrow>
    p < unat (num_pages s) \<and> (\<exists>off < 4096. unat a = unat (page_to_phys p) + off)"
proof -
  have D: "unat DRAM_BASE = 0x40000000" "unat (DRAM_BASE + DRAM_SIZE) = 0x80000000"
    by (simp_all add: DRAM_BASE_def DRAM_SIZE_def)
  have n: "unat (num_pages s) \<le> 16384" using assms by (simp add: PAGES_LEN_def)
  have idx: "unat ((a - DRAM_BASE) div PAGE_SIZE) = (unat a - 0x40000000) div 4096"
    if "0x40000000 \<le> unat a"
    using that D by (simp add: unat_div unat_sub_no_wrap PAGE_SIZE_eq)
  show ?thesis
  proof (cases "0x40000000 \<le> unat a \<and> unat a < 0x80000000")
    case True
    then have "phys_to_page s a = (let i = (unat a - 0x40000000) div 4096
        in if unat (num_pages s) \<le> i then None else Some i)"
      using D idx by (simp add: phys_to_page_def word_less_nat_alt word_le_nat_alt Let_def)
    moreover have "(unat a - 0x40000000) div 4096 = p \<longleftrightarrow>
        (\<exists>off < 4096. unat a = 0x40000000 + p * 4096 + off)"
    proof
      assume "(unat a - 0x40000000) div 4096 = p"
      then have "unat a = 0x40000000 + p * 4096 + (unat a - 0x40000000) mod 4096"
        using True div_mult_mod_eq [of "unat a - 0x40000000" 4096] by linarith
      then show "\<exists>off < 4096. unat a = 0x40000000 + p * 4096 + off"
        by (metis mod_less_divisor zero_less_numeral)
    qed auto
    moreover have "p < unat (num_pages s) \<Longrightarrow> unat (page_to_phys p) = 0x40000000 + p * 4096"
      using n by (intro unat_page_to_phys) (simp add: PAGES_LEN_def)
    ultimately show ?thesis by (auto simp: Let_def)
  next
    case False
    then have "phys_to_page s a = None"
      using D by (auto simp: phys_to_page_def word_less_nat_alt word_le_nat_alt Let_def)
    moreover have "p < unat (num_pages s) \<Longrightarrow> unat a \<noteq> unat (page_to_phys p) + off"
      if "off < 4096" for off
    proof -
      assume p: "p < unat (num_pages s)"
      then have "unat (page_to_phys p) = 0x40000000 + p * 4096"
        using n by (intro unat_page_to_phys) (simp add: PAGES_LEN_def)
      then show ?thesis using False p n that by auto
    qed
    ultimately show ?thesis by auto
  qed
qed

text \<open>
  translation round trip: every byte address inside a managed frame, at whatever offset,
  translates to that frame's descriptor, and only such addresses translate to it; addresses
  outside the managed part of memory translate to NULL.
\<close>
theorem phys_to_page_iff:
  assumes "unat (num_pages s) \<le> PAGES_LEN"
  shows "phys_to_page s a = Some p \<longleftrightarrow>
    p < unat (num_pages s) \<and> (\<exists>off < 4096. unat a = unat (page_to_phys p) + off)"
  using assms by (rule phys_to_page_spec)

section \<open>Releasing a frame twice\<close>

text \<open>
  C37: a double free is not detected and breaks the allocator: after a used frame with one
  reference is freed twice, the next two allocations of a single frame both return that same
  frame.
\<close>
theorem double_free_aliases:
  assumes "pmm_wf s" "p < unat (num_pages s)" "pg_flags (pages s p) \<noteq> PAGE_FREE"
    "pg_refcount (pages s p) = 1"
  shows "\<exists>s1 s2 s3 s4. free_pages (Some p) 0 s = Some s1 \<and> free_pages (Some p) 0 s1 = Some s2 \<and>
    alloc_pages 0 s2 = Some (Some p, s3) \<and> alloc_pages 0 s3 = Some (Some p, s4)"
proof -
  have p: "p < PAGES_LEN" using assms by (simp add: pmm_wf_def)
  have run: "free_pages (Some p) 0 t = release_loop p 1
      (if pg_refcount (pages t p) > 0 then upd_page p (\<lambda>g. g\<lparr>pg_refcount := pg_refcount g - 1\<rparr>) t else t)"
    if "pg_refcount (pages t p) \<le> 1" for t
    using p u32_le_1 [OF that] by (auto simp: free_pages_def MAX_ORDER_def Let_def)
  obtain s1 where s1: "free_pages (Some p) 0 s = Some s1" "pg_refcount (pages s1 p) = 0"
    "free_head s1 = Some p"
    using run [of s] assms(4) p by (simp add: push_free_def)
  obtain s2 where s2: "free_pages (Some p) 0 s1 = Some s2" "free_head s2 = Some p"
    "next_of s2 p = Some p"
    using run [of s1] s1(2,3) p by (simp add: push_free_def)
  obtain s3 where s3: "alloc_pages 0 s2 = Some (Some p, s3)" "free_head s3 = Some p"
    using s2(2,3) by (simp add: alloc_pages_def Let_def)
  obtain s4 where "alloc_pages 0 s3 = Some (Some p, s4)"
    using s3(2) by (simp add: alloc_pages_def Let_def)
  with s1 s2 s3 show ?thesis by blast
qed

section \<open>The allocator meets the frame contract\<close>

definition held_set :: "pmm \<Rightarrow> nat set" where
  "held_set s = {i. i < unat (num_pages s) \<and> pg_flags (pages s i) = PAGE_USED \<and>
     pg_refcount (pages s i) = 1}"

lemma held_set_frame:
  "held_set s = {i. i < unat (num_pages s) \<and> fst (frame s i) = PAGE_USED \<and> snd (snd (frame s i)) = 1}"
  by (simp add: held_set_def frame_def)

lemma held_set_bound: "pmm_wf s \<Longrightarrow> p \<in> held_set s \<Longrightarrow> p < PAGES_LEN"
  by (auto simp: held_set_def pmm_wf_def)

lemma free_set_bound: "pmm_wf s \<Longrightarrow> p \<in> free_set s \<Longrightarrow> p < PAGES_LEN"
  by (auto simp: free_set_def pmm_wf_def)

lemma held_not_free: "held_set s \<inter> free_set s = {}"
  by (auto simp: held_set_def free_set_def PAGE_USED_def PAGE_FREE_def)

lemma free_pages_single:
  assumes "pmm_wf s" "p \<in> held_set s"
  shows "\<exists>s'. free_pages (Some p) 0 s = Some s' \<and> pmm_wf s' \<and>
    free_set s' = insert p (free_set s) \<and> held_set s' = held_set s - {p} \<and>
    frame s' = (frame s)(p := (PAGE_FREE, 0, 0)) \<and> num_pages s' = num_pages s"
proof -
  have "p < unat (num_pages s)" "p \<notin> free_set s" "pg_refcount (pages s p) \<le> 1"
    using assms(2) by (auto simp: held_set_def free_set_def PAGE_USED_def PAGE_FREE_def)
  then obtain s' where s': "free_pages (Some p) 0 s = Some s'" "pmm_wf s'"
    "free_set s' = free_set s \<union> {p..<p + 1}" "num_pages s' = num_pages s"
    and f: "frame s' = (\<lambda>j. if p \<le> j \<and> j < p + 1
      then (PAGE_FREE, 0, if j = p then 0 else pg_refcount (pages s j)) else frame s j)"
    using free_block_spec [OF assms(1), of 0 p] by auto
  have f': "frame s' = (frame s)(p := (PAGE_FREE, 0, 0))"
    unfolding f by (auto simp: fun_eq_iff)
  have "held_set s' = held_set s - {p}"
    unfolding held_set_frame f' s'(4) by (auto simp: PAGE_USED_def PAGE_FREE_def split: if_splits)
  with s' f' show ?thesis by auto
qed

lemma alloc_pages_single_held:
  assumes "pmm_wf s" "free_set s \<noteq> {}"
  shows "\<exists>p s'. alloc_pages 0 s = Some (Some p, s') \<and> p \<in> free_set s \<and> pmm_wf s' \<and>
    free_set s' = free_set s - {p} \<and> held_set s' = insert p (held_set s) \<and> num_pages s' = num_pages s"
proof -
  obtain p s' where s': "alloc_pages 0 s = Some (Some p, s')" "p \<in> free_set s" "pmm_wf s'"
    "free_set s' = free_set s - {p}" "frame s' = (frame s)(p := (PAGE_USED, 0, 1))"
    "num_pages s' = num_pages s"
    using alloc_single_spec [OF assms(1)] assms(2) by auto
  have "held_set s' = insert p (held_set s)"
    unfolding held_set_frame s'(5,6) using s'(2) by (auto simp: free_set_def split: if_splits)
  with s' show ?thesis by blast
qed

lemma alloc_block_held:
  assumes wf: "pmm_wf s" and k: "k \<le> 10" "2 ^ k \<le> unat (num_pages s)"
  shows "(\<forall>i. \<not> block s i (2 ^ k)) \<and> alloc_pages (int k) s = Some (None, s) \<or>
    (\<exists>f s'. alloc_pages (int k) s = Some (Some f, s') \<and> {f..<f + 2 ^ k} \<subseteq> free_set s \<and> pmm_wf s' \<and>
      free_set s' = free_set s - {f..<f + 2 ^ k} \<and> held_set s' = held_set s \<union> {f..<f + 2 ^ k} \<and>
      num_pages s' = num_pages s)"
proof (cases "k = 0")
  case True
  show ?thesis
  proof (cases "free_set s = {}")
    case False
    then obtain p s' where s': "alloc_pages 0 s = Some (Some p, s')" "p \<in> free_set s" "pmm_wf s'"
      "free_set s' = free_set s - {p}" "frame s' = (frame s)(p := (PAGE_USED, 0, 1))" "num_pages s' = num_pages s"
      using alloc_single_spec [OF wf] by auto
    have "held_set s' = insert p (held_set s)"
      unfolding held_set_frame s'(5,6) using s'(2) by (auto simp: free_set_def split: if_splits)
    with s' True show ?thesis by auto
  next
    case True
    then have "alloc_pages 0 s = Some (None, s)" using alloc_single_spec [OF wf] by simp
    then show ?thesis using True \<open>k = 0\<close> by (simp add: block_def)
  qed
next
  case False
  obtain xs where xs: "repr s xs" and n: "unat (num_pages s) \<le> PAGES_LEN"
    using wf by (auto simp: pmm_wf_def)
  from False have "1 \<le> k" by simp
  from alloc_high_order [OF xs n this k] show ?thesis
  proof (elim disjE exE conjE)
    fix i s' ys
    assume i: "block s i (2 ^ k)" "alloc_pages (int k) s = Some (Some i, s')" "repr s' ys" "num_pages s' = num_pages s"
      and f: "frame s' = (\<lambda>j. if i \<le> j \<and> j < i + 2 ^ k
        then (PAGE_USED, if j = i then of_nat k else 0, 1) else frame s j)"
    have sub: "{i..<i + 2 ^ k} \<subseteq> free_set s" using i(1) by (simp add: block_def)
    have "held_set s' = held_set s \<union> {i..<i + 2 ^ k}"
      unfolding held_set_frame f i(4) using sub by (auto simp: free_set_def split: if_splits)
    moreover have "pmm_wf s'" using i(3,4) n by (simp add: pmm_wfI)
    ultimately show ?thesis using i sub frame_taken_free_set [OF f i(4)] by blast
  qed simp
qed

lemma free_block_held:
  assumes wf: "pmm_wf s" and k: "k \<le> 10" and h: "{p..<p + 2 ^ k} \<subseteq> held_set s"
  shows "\<exists>s'. free_pages (Some p) (int k) s = Some s' \<and> pmm_wf s' \<and>
    free_set s' = free_set s \<union> {p..<p + 2 ^ k} \<and> held_set s' = held_set s - {p..<p + 2 ^ k} \<and>
    num_pages s' = num_pages s"
proof -
  have "(0 :: nat) < 2 ^ k" by simp
  then have "p + 2 ^ k - 1 \<in> {p..<p + 2 ^ k}" "p \<in> {p..<p + 2 ^ k}"
    unfolding atLeastLessThan_iff by linarith+
  then have last: "p + 2 ^ k - 1 \<in> held_set s" and first: "p \<in> held_set s"
    using h by blast+
  then have n: "p + 2 ^ k \<le> unat (num_pages s)" by (auto simp: held_set_def)
  have "{p..<p + 2 ^ k} \<inter> free_set s = {}"
    using h by (auto simp: held_set_def free_set_def PAGE_USED_def PAGE_FREE_def)
  moreover have "pg_refcount (pages s p) \<le> 1" using first by (simp add: held_set_def)
  ultimately obtain s' where s': "free_pages (Some p) (int k) s = Some s'" "pmm_wf s'"
    "free_set s' = free_set s \<union> {p..<p + 2 ^ k}" "num_pages s' = num_pages s"
    and f: "frame s' = (\<lambda>j. if p \<le> j \<and> j < p + 2 ^ k
        then (PAGE_FREE, 0, if j = p then 0 else pg_refcount (pages s j)) else frame s j)"
    using free_block_spec [OF wf k n] by blast
  have "held_set s' = held_set s - {p..<p + 2 ^ k}"
    unfolding held_set_frame f s'(4) by (auto simp: PAGE_USED_def PAGE_FREE_def split: if_splits)
  with s' show ?thesis by blast
qed

interpretation pmm0: frame_allocator "alloc_pages 0" "\<lambda>p. free_pages (Some p) 0" pmm_wf
  free_set held_set
proof unfold_locales
  fix s :: pmm and p
  assume wf: "pmm_wf s"
  show "finite (free_set s)" by simp
  show "free_set s \<inter> held_set s = {}"
    by (auto simp: free_set_def held_set_def PAGE_USED_def PAGE_FREE_def)
  show "free_set s = {} \<Longrightarrow> alloc_pages 0 s = Some (None, s)"
    using alloc_single_spec [OF wf] by simp
  show "free_set s \<noteq> {} \<Longrightarrow> \<exists>p s'. alloc_pages 0 s = Some (Some p, s') \<and> p \<in> free_set s \<and>
      pmm_wf s' \<and> free_set s' = free_set s - {p} \<and> held_set s' = insert p (held_set s)"
    using alloc_pages_single_held [OF wf] by blast
  show "p \<in> held_set s \<Longrightarrow> \<exists>s'. free_pages (Some p) 0 s = Some s' \<and> pmm_wf s' \<and>
      free_set s' = insert p (free_set s) \<and> held_set s' = held_set s - {p}"
    using free_pages_single [OF wf] by blast
qed

text \<open>
  C17: from a well-formed allocator, asking for \<open>n\<close> single frames one after the other always
  returns, yields as many frames as are free (at most \<open>n\<close>), never the same frame twice and only
  frames that were free.
\<close>
theorem alloc_pages_sequence:
  assumes "pmm_wf s"
  shows "\<exists>ps s'. alloc_seq (alloc_pages 0) n s = Some (ps, s') \<and> pmm_wf s' \<and>
    length ps = min n (card (free_set s)) \<and> distinct ps \<and> set ps \<subseteq> free_set s \<and>
    free_set s' = free_set s - set ps"
  using pmm0.alloc_seq_frames [OF assms, of n] by blast

text \<open>
  C22: frames allocated one by one and then freed in any order leave exactly the frames free
  that were free before, with the allocator well-formed: nothing leaks and nothing is lost.
\<close>
theorem alloc_free_restores:
  assumes "pmm_wf s" "alloc_seq (alloc_pages 0) n s = Some (ps, s1)" "distinct qs" "set qs = set ps"
  shows "\<exists>s2. free_seq (\<lambda>p. free_pages (Some p) 0) qs s1 = Some s2 \<and> pmm_wf s2 \<and>
    free_set s2 = free_set s \<and> held_set s2 = held_set s"
  using pmm0.alloc_free_any_order [OF assms] .

text \<open>
  \<^verbatim>\<open>alloc_pages(0)\<close> on a well-formed allocator returns: NULL, with nothing changed, exactly
  when no frame is free; otherwise a frame that was free, now marked used with one reference and
  no longer on the free list, every other frame untouched and the allocator well-formed.
\<close>
theorem alloc_pages_single:
  assumes "pmm_wf s"
  shows "if free_set s = {} then alloc_pages 0 s = Some (None, s)
    else \<exists>p s'. alloc_pages 0 s = Some (Some p, s') \<and> p \<in> free_set s \<and> pmm_wf s' \<and>
      free_set s' = free_set s - {p} \<and> frame s' = (frame s)(p := (PAGE_USED, 0, 1)) \<and>
      num_pages s' = num_pages s"
  using assms by (rule alloc_single_spec)

text \<open>
  \<^verbatim>\<open>free_pages\<close> of a block whose frames are in use and whose first frame has at most one
  reference: the call returns, all \<open>2 ^ k\<close> frames are free again and on the list, the first
  frame's reference count is 0, every other frame is untouched and the allocator is well-formed.
\<close>
theorem free_pages_releases:
  assumes "pmm_wf s" and "k \<le> 10" "p + 2 ^ k \<le> unat (num_pages s)"
    and "{p..<p + 2 ^ k} \<inter> free_set s = {}" and "pg_refcount (pages s p) \<le> 1"
  shows "\<exists>s'. free_pages (Some p) (int k) s = Some s' \<and> pmm_wf s' \<and>
    free_set s' = free_set s \<union> {p..<p + 2 ^ k} \<and>
    frame s' = (\<lambda>j. if p \<le> j \<and> j < p + 2 ^ k
                    then (PAGE_FREE, 0, if j = p then 0 else pg_refcount (pages s j)) else frame s j) \<and>
    num_pages s' = num_pages s"
  using assms by (rule free_block_spec)

text \<open>
  C23: whatever the state before, after \<^verbatim>\<open>pmm_init\<close> the allocator is well-formed and manages
  16384 frames; the free ones are all but frames 1024 to 5119, which hold the kernel's 16 MB at
  \<^verbatim>\<open>0x40400000\<close> and are reserved; the counter says 12288. So the 4 MB below the kernel, \<^verbatim>\<open>0x40000000\<close> to
  \<^verbatim>\<open>0x40400000\<close>, are handed out, although \<^verbatim>\<open>README.md\<close> and \<^verbatim>\<open>USER_MANUAL.md\<close> say that they are reserved.
\<close>
theorem pmm_init_wf:
  "let s = fst (pmm_init (s0, con)) in
     pmm_wf s \<and> num_pages s = 16384 \<and> free_set s = {..<1024} \<union> {5120..<16384} \<and>
     free_pages_count s = 12288 \<and>
     (\<lambda>i. pg_flags (pages s i)) ` {1024..<5120} = {PAGE_RESERVED}"
proof -
  have image: "f ` {1024..<5120} = {c}" if "\<forall>i \<in> {1024..<5120 :: nat}. f i = c"
    for f :: "nat \<Rightarrow> u32" and c
    using that by force
  show ?thesis using pmm_init_spec [of s0 con] unfolding Let_def by (intro conjI image) blast+
qed

section \<open>Witnesses\<close>

text \<open>The allocator as booted from zeroed static storage; the theorems above apply to it.\<close>

definition boot_pmm :: pmm where
  "boot_pmm = fst (pmm_init (pmm_bss, []))"

lemma boot_pmm_facts:
  "pmm_wf boot_pmm" "num_pages boot_pmm = 16384"
  "free_set boot_pmm = {..<1024} \<union> {5120..<16384}"
  using pmm_init_spec [of pmm_bss "[]"] by (simp_all add: boot_pmm_def Let_def)

lemma boot_block: "block boot_pmm 0 4"
  by (auto simp: block_def boot_pmm_facts)

lemma boot_alloc:
  "\<exists>p s. alloc_pages 0 boot_pmm = Some (Some p, s) \<and> pmm_wf s \<and> p \<in> held_set s \<and>
     num_pages s = 16384 \<and> pg_refcount (pages s p) = 1 \<and> free_set s = free_set boot_pmm - {p} \<and>
     p \<in> free_set boot_pmm"
proof -
  obtain p s where s: "alloc_pages 0 boot_pmm = Some (Some p, s)" "p \<in> free_set boot_pmm" "pmm_wf s"
    "free_set s = free_set boot_pmm - {p}"
    "frame s = (frame boot_pmm)(p := (PAGE_USED, 0, 1))" "num_pages s = num_pages boot_pmm"
    using alloc_single_spec [OF boot_pmm_facts(1)] boot_pmm_facts(3)
    by (auto split: if_splits)
  have "p < 16384" using s(2) by (auto simp: boot_pmm_facts)
  then have "p \<in> held_set s" using s(5,6) by (simp add: held_set_frame boot_pmm_facts)
  moreover have "pg_refcount (pages s p) = 1" by (simp add: refcount_frame s(5))
  ultimately show ?thesis using s boot_pmm_facts(2) by auto
qed

theorem alloc_pages_single_witness:
  "\<exists>p s. alloc_pages 0 boot_pmm = Some (Some p, s) \<and> p \<in> free_set boot_pmm \<and> pmm_wf s"
proof -
  have "free_set boot_pmm \<noteq> {}" by (auto simp: boot_pmm_facts)
  then show ?thesis using alloc_pages_single [OF boot_pmm_facts(1)] by auto
qed

theorem alloc_pages_block_witness:
  "\<exists>i s. alloc_pages 2 boot_pmm = Some (Some i, s) \<and> block boot_pmm i 4 \<and> pmm_wf s"
  using alloc_pages_block [of boot_pmm 2] boot_pmm_facts boot_block by auto

theorem free_pages_releases_witness:
  "\<exists>p s s'. alloc_pages 0 boot_pmm = Some (Some p, s) \<and> free_pages (Some p) 0 s = Some s' \<and>
     free_set s' = free_set boot_pmm"
proof -
  obtain p s where s: "alloc_pages 0 boot_pmm = Some (Some p, s)" "pmm_wf s" "p \<in> held_set s"
    "num_pages s = 16384" "pg_refcount (pages s p) = 1" "free_set s = free_set boot_pmm - {p}"
    "p \<in> free_set boot_pmm"
    using boot_alloc by blast
  have "p + 2 ^ 0 \<le> unat (num_pages s)" "{p..<p + 2 ^ 0} \<inter> free_set s = {}"
    "pg_refcount (pages s p) \<le> 1"
    using s by (auto simp: held_set_def)
  from free_pages_releases [OF s(2) _ this] s show ?thesis by auto
qed

theorem phys_to_page_iff_witness:
  "phys_to_page boot_pmm 0x40001004 = Some 1"
proof -
  have "unat (page_to_phys 1) = 0x40001000" using unat_page_to_phys [of 1] by (simp add: PAGES_LEN_def)
  then have "\<exists>off < 4096. unat (0x40001004 :: u64) = unat (page_to_phys 1) + off"
    by (intro exI [of _ 4]) simp
  then show ?thesis
    using phys_to_page_iff [of boot_pmm "0x40001004" 1] boot_pmm_facts by (simp add: PAGES_LEN_def)
qed

theorem double_free_aliases_witness:
  "\<exists>p s s1 s2 s3 s4. alloc_pages 0 boot_pmm = Some (Some p, s) \<and>
     free_pages (Some p) 0 s = Some s1 \<and> free_pages (Some p) 0 s1 = Some s2 \<and>
     alloc_pages 0 s2 = Some (Some p, s3) \<and> alloc_pages 0 s3 = Some (Some p, s4)"
proof -
  obtain p s where s: "alloc_pages 0 boot_pmm = Some (Some p, s)" "pmm_wf s" "p \<in> held_set s"
    "pg_refcount (pages s p) = 1"
    using boot_alloc by blast
  then have "p < unat (num_pages s)" "pg_flags (pages s p) \<noteq> PAGE_FREE"
    by (auto simp: held_set_def PAGE_USED_def PAGE_FREE_def)
  from double_free_aliases [OF s(2) this s(4)] s(1) show ?thesis by blast
qed

theorem alloc_pages_sequence_witness:
  "\<exists>ps s. alloc_seq (alloc_pages 0) 3 boot_pmm = Some (ps, s) \<and> length ps = 3 \<and> distinct ps"
proof -
  have "{0, 1, 2} \<subseteq> free_set boot_pmm" by (auto simp: boot_pmm_facts)
  then have "card {0, 1, 2 :: nat} \<le> card (free_set boot_pmm)" by (intro card_mono) auto
  then have "min 3 (card (free_set boot_pmm)) = 3" by simp
  then show ?thesis using alloc_pages_sequence [OF boot_pmm_facts(1), of 3] by auto
qed

theorem alloc_free_restores_witness:
  "\<exists>ps s1 s2. alloc_seq (alloc_pages 0) 3 boot_pmm = Some (ps, s1) \<and>
     free_seq (\<lambda>p. free_pages (Some p) 0) (rev ps) s1 = Some s2 \<and>
     free_set s2 = free_set boot_pmm"
proof -
  obtain ps s1 where s1: "alloc_seq (alloc_pages 0) 3 boot_pmm = Some (ps, s1)" "distinct ps"
    using pmm0.alloc_seq_frames [OF boot_pmm_facts(1), of 3] by blast
  then show ?thesis
    using alloc_free_restores [OF boot_pmm_facts(1) s1(1), of "rev ps"] by auto
qed

end
