(* ===== verification/Mmu.thy ===== *)
theory Mmu
  imports Kstring Pmm
begin

text \<open>
  \<^verbatim>\<open>mm/mmu.c\<close>: page-table construction in the linker-reserved table space, the kernel and user
  mapping functions, the software walks, and the system-register programming. Tables live in
  the byte memory of \<^verbatim>\<open>Memory\<close>; \<^verbatim>\<open>page_table_t *\<close> is an address and \<^verbatim>\<open>&t->entries[i]\<close> is
  \<open>t + 8 * i\<close>. Running out of table space halts the processor, which is the result \<open>None\<close>.
\<close>

section \<open>Constants of \<^verbatim>\<open>mmu.h\<close>\<close>

definition PAGE_MASK :: u64 where "PAGE_MASK = NOT (PAGE_SIZE - 1)"
definition PT_ENTRIES :: u64 where "PT_ENTRIES = 512"

definition VA_L0_SHIFT :: nat where "VA_L0_SHIFT = 39"
definition VA_L1_SHIFT :: nat where "VA_L1_SHIFT = 30"
definition VA_L2_SHIFT :: nat where "VA_L2_SHIFT = 21"
definition VA_L3_SHIFT :: nat where "VA_L3_SHIFT = 12"

definition VA_L0_INDEX :: "u64 \<Rightarrow> u64" where "VA_L0_INDEX va = drop_bit VA_L0_SHIFT va AND 0x1FF"
definition VA_L1_INDEX :: "u64 \<Rightarrow> u64" where "VA_L1_INDEX va = drop_bit VA_L1_SHIFT va AND 0x1FF"
definition VA_L2_INDEX :: "u64 \<Rightarrow> u64" where "VA_L2_INDEX va = drop_bit VA_L2_SHIFT va AND 0x1FF"
definition VA_L3_INDEX :: "u64 \<Rightarrow> u64" where "VA_L3_INDEX va = drop_bit VA_L3_SHIFT va AND 0x1FF"

lemmas VA_INDEX_defs = VA_L0_INDEX_def VA_L1_INDEX_def VA_L2_INDEX_def VA_L3_INDEX_def
  VA_L0_SHIFT_def VA_L1_SHIFT_def VA_L2_SHIFT_def VA_L3_SHIFT_def

definition USER_VA_BITS :: nat where "USER_VA_BITS = 39"
definition KERNEL_VA_BITS :: nat where "KERNEL_VA_BITS = 39"
definition USER_VA_SIZE :: u64 where "USER_VA_SIZE = push_bit USER_VA_BITS 1"
definition KERNEL_VA_BASE :: u64 where "KERNEL_VA_BASE = 0xFFFFFF8000000000"

definition PTE_TYPE_TABLE :: u64 where "PTE_TYPE_TABLE = 3"
definition PTE_TYPE_PAGE :: u64 where "PTE_TYPE_PAGE = 3"
definition PTE_VALID :: u64 where "PTE_VALID = push_bit 0 1"
definition PTE_TABLE :: u64 where "PTE_TABLE = push_bit 1 1"
definition PTE_AF :: u64 where "PTE_AF = push_bit 10 1"
definition PTE_NG :: u64 where "PTE_NG = push_bit 11 1"
definition PTE_PXN :: u64 where "PTE_PXN = push_bit 53 1"
definition PTE_UXN :: u64 where "PTE_UXN = push_bit 54 1"
definition PTE_ATTR_DEVICE :: u64 where "PTE_ATTR_DEVICE = 0"
definition PTE_ATTR_NORMAL :: u64 where "PTE_ATTR_NORMAL = 2"
definition PTE_ATTRINDX :: "u64 \<Rightarrow> u64" where "PTE_ATTRINDX x = push_bit 2 x"
definition PTE_SH_INNER :: u64 where "PTE_SH_INNER = push_bit 8 3"
definition PTE_AP_RW_EL1 :: u64 where "PTE_AP_RW_EL1 = push_bit 6 0"
definition PTE_AP_RW_ALL :: u64 where "PTE_AP_RW_ALL = push_bit 6 1"
definition PTE_AP_RO_EL1 :: u64 where "PTE_AP_RO_EL1 = push_bit 6 2"
definition PTE_AP_RO_ALL :: u64 where "PTE_AP_RO_ALL = push_bit 6 3"

definition PAGE_KERNEL_RO :: u64 where
  "PAGE_KERNEL_RO = PTE_VALID OR PTE_AF OR PTE_ATTRINDX PTE_ATTR_NORMAL OR PTE_SH_INNER OR PTE_AP_RO_EL1 OR
     PTE_PXN OR PTE_UXN"

definition PAGE_KERNEL_RW :: u64 where
  "PAGE_KERNEL_RW = PTE_VALID OR PTE_AF OR PTE_ATTRINDX PTE_ATTR_NORMAL OR PTE_SH_INNER OR PTE_AP_RW_EL1 OR
     PTE_PXN OR PTE_UXN"

definition PAGE_KERNEL_RX :: u64 where
  "PAGE_KERNEL_RX = PTE_VALID OR PTE_AF OR PTE_ATTRINDX PTE_ATTR_NORMAL OR PTE_SH_INNER OR PTE_AP_RO_EL1 OR PTE_UXN"

definition PAGE_KERNEL_RWX :: u64 where
  "PAGE_KERNEL_RWX = PTE_VALID OR PTE_AF OR PTE_ATTRINDX PTE_ATTR_NORMAL OR PTE_SH_INNER OR PTE_AP_RW_EL1"

definition PAGE_DEVICE :: u64 where
  "PAGE_DEVICE = PTE_VALID OR PTE_AF OR PTE_ATTRINDX PTE_ATTR_DEVICE OR PTE_AP_RW_EL1 OR PTE_PXN OR PTE_UXN"

definition PAGE_USER_RO :: u64 where
  "PAGE_USER_RO = PTE_VALID OR PTE_AF OR PTE_ATTRINDX PTE_ATTR_NORMAL OR PTE_SH_INNER OR PTE_AP_RO_ALL OR
     PTE_PXN OR PTE_UXN OR PTE_NG"

definition PAGE_USER_RW :: u64 where
  "PAGE_USER_RW = PTE_VALID OR PTE_AF OR PTE_ATTRINDX PTE_ATTR_NORMAL OR PTE_SH_INNER OR PTE_AP_RW_ALL OR
     PTE_PXN OR PTE_UXN OR PTE_NG"

definition PAGE_USER_RX :: u64 where
  "PAGE_USER_RX = PTE_VALID OR PTE_AF OR PTE_ATTRINDX PTE_ATTR_NORMAL OR PTE_SH_INNER OR PTE_AP_RO_ALL OR
     PTE_PXN OR PTE_NG"

lemmas page_flags_defs = PAGE_KERNEL_RO_def PAGE_KERNEL_RW_def PAGE_KERNEL_RX_def PAGE_KERNEL_RWX_def
  PAGE_DEVICE_def PAGE_USER_RO_def PAGE_USER_RW_def PAGE_USER_RX_def PTE_VALID_def PTE_AF_def PTE_NG_def
  PTE_PXN_def PTE_UXN_def PTE_ATTR_DEVICE_def PTE_ATTR_NORMAL_def PTE_ATTRINDX_def PTE_SH_INNER_def
  PTE_AP_RW_EL1_def PTE_AP_RW_ALL_def PTE_AP_RO_EL1_def PTE_AP_RO_ALL_def

definition TCR_T0SZ :: "u64 \<Rightarrow> u64" where "TCR_T0SZ x = push_bit 0 x"
definition TCR_IRGN0_WBWA :: u64 where "TCR_IRGN0_WBWA = push_bit 8 1"
definition TCR_ORGN0_WBWA :: u64 where "TCR_ORGN0_WBWA = push_bit 10 1"
definition TCR_SH0_INNER :: u64 where "TCR_SH0_INNER = push_bit 12 3"
definition TCR_TG0_4K :: u64 where "TCR_TG0_4K = push_bit 14 0"
definition TCR_T1SZ :: "u64 \<Rightarrow> u64" where "TCR_T1SZ x = push_bit 16 x"
definition TCR_IRGN1_WBWA :: u64 where "TCR_IRGN1_WBWA = push_bit 24 1"
definition TCR_ORGN1_WBWA :: u64 where "TCR_ORGN1_WBWA = push_bit 26 1"
definition TCR_SH1_INNER :: u64 where "TCR_SH1_INNER = push_bit 28 3"
definition TCR_TG1_4K :: u64 where "TCR_TG1_4K = push_bit 30 2"
definition TCR_IPS_48BIT :: u64 where "TCR_IPS_48BIT = push_bit 32 5"

text \<open>The value \<^verbatim>\<open>mmu_enable\<close> writes.\<close>

definition TCR_VALUE :: u64 where
  "TCR_VALUE = TCR_T0SZ (of_nat (64 - USER_VA_BITS)) OR TCR_IRGN0_WBWA OR TCR_ORGN0_WBWA OR
     TCR_SH0_INNER OR TCR_TG0_4K OR TCR_T1SZ (of_nat (64 - KERNEL_VA_BITS)) OR
     TCR_IRGN1_WBWA OR TCR_ORGN1_WBWA OR TCR_SH1_INNER OR TCR_TG1_4K OR TCR_IPS_48BIT"

definition MAIR_VALUE :: u64 where
  "MAIR_VALUE = 0x00 OR push_bit 8 0x44 OR push_bit 16 0xFF"

definition SCTLR_M :: u64 where "SCTLR_M = push_bit 0 1"
definition SCTLR_C :: u64 where "SCTLR_C = push_bit 2 1"
definition SCTLR_I :: u64 where "SCTLR_I = push_bit 12 1"

definition GIC_DIST_BASE :: u64 where "GIC_DIST_BASE = 0x08000000"
definition GIC_CPU_BASE :: u64 where "GIC_CPU_BASE = 0x08010000"

definition page_align_down :: "u64 \<Rightarrow> u64" where
  "page_align_down addr = addr AND PAGE_MASK"

definition page_align_up :: "u64 \<Rightarrow> u64" where
  "page_align_up addr = (addr + PAGE_SIZE - 1) AND PAGE_MASK"

definition is_page_aligned :: "u64 \<Rightarrow> bool" where
  "is_page_aligned addr \<longleftrightarrow> addr AND NOT PAGE_MASK = 0"

section \<open>State\<close>

text \<open>
  The linker symbols that delimit the table space, the static variables, the system registers
  the code writes, and the maintenance instructions it has issued, oldest first.
\<close>

record linker =
  pt_start :: u64
  pt_end :: u64

datatype maint = TLBI_VAAE1IS u64 | TLBI_VMALLE1IS | DSB | ISB

record mmu =
  kernel_pgd :: u64
  next_page_table :: u64
  current_user_pgd :: u64
  ttbr0_el1 :: u64
  ttbr1_el1 :: u64
  tcr_el1 :: u64
  mair_el1 :: u64
  sctlr_el1 :: u64
  maint_log :: "maint list"

definition mmu_bss :: "u64 \<Rightarrow> mmu" where
  "mmu_bss sctlr = \<lparr>kernel_pgd = 0, next_page_table = 0, current_user_pgd = 0, ttbr0_el1 = 0,
     ttbr1_el1 = 0, tcr_el1 = 0, mair_el1 = 0, sctlr_el1 = sctlr, maint_log = []\<rparr>"

type_synonym vm = "mmu \<times> mem \<times> console"

section \<open>Tables\<close>

definition PT_BYTES :: u64 where "PT_BYTES = PT_ENTRIES * 8"

definition alloc_page_table :: "linker \<Rightarrow> vm \<Rightarrow> (u64 \<times> vm) option" where
  "alloc_page_table lk v =
     (let (u, m, con) = v;
          u = (if next_page_table u = 0 then u\<lparr>next_page_table := pt_start lk\<rparr> else u)
      in if next_page_table u + PT_BYTES > pt_end lk then None
         else let pt = next_page_table u;
                  u = u\<lparr>next_page_table := next_page_table u + PT_BYTES\<rparr>
              in Some (pt, u, fst (memset m pt 0 PT_BYTES), con))"

definition entry_addr :: "u64 \<Rightarrow> u64 \<Rightarrow> u64" where
  "entry_addr table index = table + 8 * index"

definition get_or_create_table :: "linker \<Rightarrow> u64 \<Rightarrow> u64 \<Rightarrow> vm \<Rightarrow> (u64 \<times> vm) option" where
  "get_or_create_table lk parent index v =
     (let (u, m, con) = v;
          entry = entry_addr parent index;
          e = load64 m entry
      in if e AND PTE_VALID \<noteq> 0 \<and> e AND PTE_TABLE \<noteq> 0 then Some (e AND PAGE_MASK, v)
         else do {
           (table, u, m, con) \<leftarrow> alloc_page_table lk v;
           Some (table, u, store64 m entry (table AND PAGE_MASK OR PTE_TYPE_TABLE OR PTE_VALID), con)
         })"

text \<open>The part that \<^verbatim>\<open>map_page\<close> and \<^verbatim>\<open>mmu_map_user_page\<close> share: walk, create, write the entry.\<close>

definition map_in :: "linker \<Rightarrow> u64 \<Rightarrow> u64 \<Rightarrow> u64 \<Rightarrow> u64 \<Rightarrow> vm \<Rightarrow> vm option" where
  "map_in lk pgd virt phys flags v = do {
     (pud, v) \<leftarrow> get_or_create_table lk pgd (VA_L0_INDEX virt) v;
     (pmd, v) \<leftarrow> get_or_create_table lk pud (VA_L1_INDEX virt) v;
     (pte_table, u, m, con) \<leftarrow> get_or_create_table lk pmd (VA_L2_INDEX virt) v;
     Some (u, store64 m (entry_addr pte_table (VA_L3_INDEX virt))
                (phys AND PAGE_MASK OR flags OR PTE_TYPE_PAGE), con)
   }"

definition map_page :: "linker \<Rightarrow> u64 \<Rightarrow> u64 \<Rightarrow> u64 \<Rightarrow> vm \<Rightarrow> vm option" where
  "map_page lk virt phys flags v =
     (let (u, m, con) = v
      in if kernel_pgd u = 0 then Some (u, m, print [S ''ERROR: MMU not initialized!'', NL] con)
         else map_in lk (kernel_pgd u) virt phys flags v)"

partial_function (option) map_range_loop ::
    "linker \<Rightarrow> u64 \<Rightarrow> u64 \<Rightarrow> u64 \<Rightarrow> u64 \<Rightarrow> vm \<Rightarrow> vm option" where
  "map_range_loop lk virt_addr phys_addr end_addr flags v =
     (if virt_addr < end_addr
      then do {
        v \<leftarrow> map_page lk virt_addr phys_addr flags v;
        map_range_loop lk (virt_addr + PAGE_SIZE) (phys_addr + PAGE_SIZE) end_addr flags v
      }
      else Some v)"

definition map_range :: "linker \<Rightarrow> u64 \<Rightarrow> u64 \<Rightarrow> u64 \<Rightarrow> u64 \<Rightarrow> vm \<Rightarrow> vm option" where
  "map_range lk virt phys sz flags v =
     map_range_loop lk (page_align_down virt) (page_align_down phys) (page_align_up (virt + sz))
       flags v"

text \<open>
  The three checked steps that \<^verbatim>\<open>unmap_page\<close> and \<^verbatim>\<open>mmu_get_physical\<close> share; \<open>None\<close> is the early
  return, otherwise the address of the level-3 entry.
\<close>

definition walk_step :: "mem \<Rightarrow> u64 \<Rightarrow> u64 \<Rightarrow> u64 option" where
  "walk_step m table index =
     (let e = load64 m (entry_addr table index)
      in if e AND PTE_VALID = 0 then None else Some (e AND PAGE_MASK))"

definition walk :: "mem \<Rightarrow> u64 \<Rightarrow> u64 \<Rightarrow> u64 option" where
  "walk m pgd virt = do {
     pud \<leftarrow> walk_step m pgd (VA_L0_INDEX virt);
     pmd \<leftarrow> walk_step m pud (VA_L1_INDEX virt);
     pte_table \<leftarrow> walk_step m pmd (VA_L2_INDEX virt);
     Some (entry_addr pte_table (VA_L3_INDEX virt))
   }"

definition unmap_page :: "u64 \<Rightarrow> vm \<Rightarrow> vm" where
  "unmap_page virt v =
     (let (u, m, con) = v
      in if kernel_pgd u = 0 then v
         else case walk m (kernel_pgd u) virt of
             None \<Rightarrow> v
           | Some entry \<Rightarrow>
               (u\<lparr>maint_log := maint_log u @ [TLBI_VAAE1IS (drop_bit 12 virt), DSB, ISB]\<rparr>,
                store64 m entry 0, con))"

definition mmu_get_physical :: "mem \<Rightarrow> u64 \<Rightarrow> u64 \<Rightarrow> u64" where
  "mmu_get_physical m pgd virt =
     (if pgd = 0 then 0
      else case walk m pgd virt of
          None \<Rightarrow> 0
        | Some entry \<Rightarrow>
            let pte = load64 m entry
            in if pte AND PTE_VALID = 0 then 0
               else pte AND PAGE_MASK OR virt AND NOT PAGE_MASK)"

section \<open>Boot\<close>

definition create_identity_mapping :: "linker \<Rightarrow> vm \<Rightarrow> vm option" where
  "create_identity_mapping lk v = do {
     let say = (\<lambda>items (v :: vm). (fst v, fst (snd v), print items (snd (snd v))));
     let v = say [S ''Creating identity mappings...'', NL, S ''  Mapping DRAM (64MB)... ''] v;
     v \<leftarrow> map_range lk DRAM_BASE DRAM_BASE (64 * 1024 * 1024) PAGE_KERNEL_RWX v;
     let v = say [S ''OK'', NL, S ''  Mapping UART... ''] v;
     v \<leftarrow> map_range lk UART0_BASE UART0_BASE PAGE_SIZE PAGE_DEVICE v;
     let v = say [S ''OK'', NL, S ''  Mapping GIC Distributor... ''] v;
     v \<leftarrow> map_range lk GIC_DIST_BASE GIC_DIST_BASE (64 * 1024) PAGE_DEVICE v;
     let v = say [S ''OK'', NL, S ''  Mapping GIC CPU Interface... ''] v;
     v \<leftarrow> map_range lk GIC_CPU_BASE GIC_CPU_BASE (8 * 1024) PAGE_DEVICE v;
     Some (say [S ''OK'', NL] v)
   }"

definition mmu_enable :: "vm \<Rightarrow> vm" where
  "mmu_enable v =
     (let (u, m, con) = v;
          con = print [S ''Enabling MMU...'', NL, S ''  Setting TTBR0_EL1 (user space)... ''] con;
          u = u\<lparr>ttbr0_el1 := 0\<rparr>;
          con = print [S ''OK'', NL, S ''  Setting TTBR1_EL1 (kernel space)... ''] con;
          u = u\<lparr>ttbr1_el1 := kernel_pgd u\<rparr>;
          con = print [S ''OK'', NL, S ''  Configuring TCR_EL1... ''] con;
          u = u\<lparr>tcr_el1 := TCR_VALUE\<rparr>;
          con = print [S ''OK'', NL, S ''  Configuring MAIR_EL1... ''] con;
          u = u\<lparr>mair_el1 := MAIR_VALUE\<rparr>;
          con = print [S ''OK'', NL, S ''  Enabling MMU and caches... ''] con;
          u = u\<lparr>sctlr_el1 := sctlr_el1 u OR (SCTLR_M OR SCTLR_C OR SCTLR_I)\<rparr>;
          u = u\<lparr>maint_log := maint_log u @ [ISB]\<rparr>;
          con = print [S ''OK'', NL, S ''MMU enabled successfully!'', NL,
                       S ''  User space (TTBR0): 0x0000000000000000 - 0x0000007FFFFFFFFF'', NL,
                       S ''  Kernel space (TTBR1): 0xFFFFFF8000000000 - 0xFFFFFFFFFFFFFFFF'', NL] con
      in (u, m, con))"

definition mmu_init :: "linker \<Rightarrow> vm \<Rightarrow> vm option" where
  "mmu_init lk v = do {
     let (u, m, con) = v;
     let con = print [NL, S ''========================================'', NL,
                      S ''Initializing MMU'', NL,
                      S ''========================================'', NL,
                      S ''Allocating page tables...'', NL] con;
     (pgd, u, m, con) \<leftarrow> alloc_page_table lk (u, m, con);
     let u = u\<lparr>kernel_pgd := pgd\<rparr>;
     let con = print [S ''  PGD: '', X (kernel_pgd u), NL] con;
     v \<leftarrow> create_identity_mapping lk (u, m, con);
     let (u, m, con) = mmu_enable v;
     Some (u, m, print [S ''========================================'', NL,
                        S ''MMU Initialization Complete'', NL,
                        S ''========================================'', NL, NL] con)
   }"

definition mmu_get_kernel_pgd :: "mmu \<Rightarrow> u64" where
  "mmu_get_kernel_pgd u = kernel_pgd u"

section \<open>User tables\<close>

definition mmu_create_user_table :: "linker \<Rightarrow> vm \<Rightarrow> (u64 \<times> vm) option" where
  "mmu_create_user_table lk v = do {
     (user_pgd, u, m, con) \<leftarrow> alloc_page_table lk v;
     Some (user_pgd, u, m, print [S ''Created user page table at '', X user_pgd, NL] con)
   }"

definition mmu_destroy_user_table :: "u64 \<Rightarrow> vm \<Rightarrow> vm" where
  "mmu_destroy_user_table user_pgd v =
     (let (u, m, con) = v
      in if current_user_pgd u = user_pgd
         then (u\<lparr>current_user_pgd := 0, ttbr0_el1 := 0, maint_log := maint_log u @ [ISB]\<rparr>, m, con)
         else v)"

definition mmu_map_user_page :: "linker \<Rightarrow> u64 \<Rightarrow> u64 \<Rightarrow> u64 \<Rightarrow> u64 \<Rightarrow> vm \<Rightarrow> vm option" where
  "mmu_map_user_page lk user_pgd virt phys flags v =
     (let (u, m, con) = v
      in if user_pgd = 0 then Some (u, m, print [S ''ERROR: Invalid user page table!'', NL] con)
         else if virt \<ge> USER_VA_SIZE
         then Some (u, m, print [S ''ERROR: Address not in user space: '', X virt, NL] con)
         else map_in lk user_pgd virt phys flags v)"

partial_function (option) map_user_range_loop ::
    "linker \<Rightarrow> u64 \<Rightarrow> u64 \<Rightarrow> u64 \<Rightarrow> u64 \<Rightarrow> u64 \<Rightarrow> vm \<Rightarrow> vm option" where
  "map_user_range_loop lk user_pgd virt_addr phys_addr end_addr flags v =
     (if virt_addr < end_addr
      then do {
        v \<leftarrow> mmu_map_user_page lk user_pgd virt_addr phys_addr flags v;
        map_user_range_loop lk user_pgd (virt_addr + PAGE_SIZE) (phys_addr + PAGE_SIZE) end_addr
          flags v
      }
      else Some v)"

definition mmu_map_user_range ::
    "linker \<Rightarrow> u64 \<Rightarrow> u64 \<Rightarrow> u64 \<Rightarrow> u64 \<Rightarrow> u64 \<Rightarrow> vm \<Rightarrow> vm option" where
  "mmu_map_user_range lk user_pgd virt phys sz flags v =
     map_user_range_loop lk user_pgd (page_align_down virt) (page_align_down phys)
       (page_align_up (virt + sz)) flags v"

definition mmu_switch_user_table :: "u64 \<Rightarrow> vm \<Rightarrow> vm" where
  "mmu_switch_user_table user_pgd v =
     (let (u, m, con) = v
      in if user_pgd = current_user_pgd u then v
         else (u\<lparr>current_user_pgd := user_pgd, ttbr0_el1 := user_pgd,
                 maint_log := maint_log u @ [TLBI_VMALLE1IS, DSB, ISB]\<rparr>, m, con))"

end
