(* ===== verification/Page_Tables.thy ===== *)
theory Page_Tables
  imports Mmu
begin

text \<open>
  The page tables that the operations of \<open>Mmu\<close> build in byte memory, as a forest of labelled
  tables: the invariant \<open>tree\<close>, the walk through it, one level of a mapping, and the relation
  \<open>vm_rel\<close> to the abstract state (which tables exist, what each page of each root maps to)
  under which \<^verbatim>\<open>map_page\<close> is a function update.
\<close>

section \<open>Addresses and indices as numbers\<close>

lemma PAGE_MASK_eq: "PAGE_MASK = NOT (mask 12)"
  by (simp add: PAGE_MASK_def PAGE_SIZE_eq mask_eq_exp_minus_1)

lemma and_PAGE_MASK: "x AND PAGE_MASK = x - take_bit 12 x"
proof -
  have "x = (x AND NOT (mask 12)) + take_bit 12 x"
    by (subst disjunctive_add) (auto simp: bit_simps take_bit_eq_mask bit.conj_disj_distrib [symmetric])
  then show ?thesis unfolding PAGE_MASK_eq by (metis add_diff_cancel_right')
qed

lemma unat_and_PAGE_MASK: "unat (x AND PAGE_MASK) = unat x div 4096 * 4096"
proof -
  have "unat (take_bit 12 x) = unat x mod 4096" by (simp add: take_bit_eq_mod unat_mod)
  then show ?thesis
    by (simp add: and_PAGE_MASK unat_sub_no_wrap minus_mod_eq_div_mult)
qed

lemma and_PAGE_MASK_aligned: "take_bit 12 x = 0 \<Longrightarrow> x AND PAGE_MASK = x"
  by (simp add: and_PAGE_MASK)

lemma table_descriptor:
  assumes "take_bit 12 t = 0"
  shows "t AND PAGE_MASK OR PTE_TYPE_TABLE OR PTE_VALID = t OR 3"
    and "(t OR 3) AND PAGE_MASK = t"
    and "(t OR 3) AND PTE_VALID \<noteq> 0" and "(t OR 3) AND PTE_TABLE \<noteq> 0"
proof -
  have low: "\<not> bit t j" if "j < 12" for j
    using arg_cong [OF assms, of "\<lambda>x. bit x j"] that by (simp add: bit_simps)
  have three: "(3 :: u64) = mask 2" by (simp add: mask_eq_exp_minus_1)
  show "t AND PAGE_MASK OR PTE_TYPE_TABLE OR PTE_VALID = t OR 3"
    using assms by (simp add: and_PAGE_MASK_aligned PTE_TYPE_TABLE_def PTE_VALID_def or.assoc)
  show "(t OR 3) AND PAGE_MASK = t"
    unfolding PAGE_MASK_eq three
    by (rule bit_eqI) (use low in \<open>auto simp: bit_simps\<close>)
  have "bit ((t OR 3) AND PTE_VALID) 0" "bit ((t OR 3) AND PTE_TABLE) 1"
    unfolding PTE_VALID_def PTE_TABLE_def three by (auto simp: bit_simps)
  then show "(t OR 3) AND PTE_VALID \<noteq> 0" "(t OR 3) AND PTE_TABLE \<noteq> 0" by auto
qed

lemma unat_and_0x1FF: "unat ((x :: u64) AND 0x1FF) = unat x mod 512"
  by (simp add: and_0x1FF take_bit_eq_mod unat_mod)

lemma unat_VA_INDEX:
  "unat (VA_L0_INDEX va) = unat va div 2 ^ 39 mod 512"
  "unat (VA_L1_INDEX va) = unat va div 2 ^ 30 mod 512"
  "unat (VA_L2_INDEX va) = unat va div 2 ^ 21 mod 512"
  "unat (VA_L3_INDEX va) = unat va div 2 ^ 12 mod 512"
  by (simp_all add: VA_INDEX_defs
      unat_and_0x1FF drop_bit_eq_div unat_div)

text \<open>
  The page number of an address (its bits 47 to 12), and the number of the region of a table at
  level \<open>l\<close> of the walk: the leading \<open>9 * l\<close> bits of the page number.
\<close>

definition vpn :: "u64 \<Rightarrow> nat" where
  "vpn va = unat va div 2 ^ 12 mod 2 ^ 36"

definition region :: "nat \<Rightarrow> nat \<Rightarrow> nat" where
  "region l p = p div 512 ^ (4 - l)"

lemma div_mod_swap: "0 < b \<Longrightarrow> ((a :: nat) mod (b * c)) div b = a div b mod c"
  by (simp add: mod_mult2_eq)

lemma index_vpn:
  "unat (VA_L0_INDEX va) = vpn va div 512 ^ 3 mod 512"
  "unat (VA_L1_INDEX va) = vpn va div 512 ^ 2 mod 512"
  "unat (VA_L2_INDEX va) = vpn va div 512 mod 512"
  "unat (VA_L3_INDEX va) = vpn va mod 512"
proof -
  let ?a = "unat va div 2 ^ 12"
  have v: "vpn va div 512 ^ k = ?a div 512 ^ k mod 512 ^ (4 - k)" if "k \<le> 4" for k
  proof -
    have "(512 :: nat) ^ 4 = 512 ^ k * 512 ^ (4 - k)"
      using that by (simp flip: power_add)
    then show ?thesis
      unfolding vpn_def using div_mod_swap [of "512 ^ k" ?a "512 ^ (4 - k)"] by simp
  qed
  show "unat (VA_L0_INDEX va) = vpn va div 512 ^ 3 mod 512"
    using v [of 3] by (simp add: unat_VA_INDEX div_mult2_eq [symmetric])
  show "unat (VA_L1_INDEX va) = vpn va div 512 ^ 2 mod 512"
    using v [of 2] by (simp add: unat_VA_INDEX div_mult2_eq [symmetric] mod_mod_cancel)
  show "unat (VA_L2_INDEX va) = vpn va div 512 mod 512"
    using v [of 1] by (simp add: unat_VA_INDEX div_mult2_eq [symmetric] mod_mod_cancel)
  show "unat (VA_L3_INDEX va) = vpn va mod 512"
    using v [of 0] by (simp add: unat_VA_INDEX mod_mod_cancel)
qed

lemma vpn_less: "vpn va < 512 ^ 4"
  by (simp add: vpn_def)

lemma div_step: "p div c = p div (c * 512) * 512 + p div c mod 512" for p c :: nat
  by (simp add: div_mult2_eq)

lemma region_step:
  "region 1 (vpn va) = region 0 (vpn va) * 512 + unat (VA_L0_INDEX va)"
  "region 2 (vpn va) = region 1 (vpn va) * 512 + unat (VA_L1_INDEX va)"
  "region 3 (vpn va) = region 2 (vpn va) * 512 + unat (VA_L2_INDEX va)"
  "vpn va = region 3 (vpn va) * 512 + unat (VA_L3_INDEX va)"
  "region 0 (vpn va) = 0"
  using vpn_less [of va] div_step [of "vpn va" "512 ^ 3"] div_step [of "vpn va" "512 ^ 2"]
    div_step [of "vpn va" 512] div_step [of "vpn va" 1]
  unfolding index_vpn region_def by simp_all

section \<open>The table space\<close>

text \<open>
  What the proofs need of the linker symbols: the space starts page-aligned, not at NULL, and
  ends below \<open>2 ^ 48\<close>. \<open>cap\<close> is the number of tables it holds; \<open>tbl lk k\<close> is the address of
  the \<open>k\<close>-th.
\<close>

definition lk_ok :: "linker \<Rightarrow> bool" where
  "lk_ok lk \<longleftrightarrow> pt_start lk \<noteq> 0 \<and> take_bit 12 (pt_start lk) = 0 \<and>
     unat (pt_start lk) \<le> unat (pt_end lk) \<and> unat (pt_end lk) \<le> 2 ^ 48"

definition cap :: "linker \<Rightarrow> nat" where
  "cap lk = (unat (pt_end lk) - unat (pt_start lk)) div 4096"

definition tbl :: "linker \<Rightarrow> nat \<Rightarrow> u64" where
  "tbl lk k = pt_start lk + of_nat (4096 * k)"

definition in_space :: "linker \<Rightarrow> u64 \<Rightarrow> bool" where
  "in_space lk x \<longleftrightarrow> unat (pt_start lk) \<le> unat x \<and> unat x < unat (pt_end lk)"

lemma cap_bound: "lk_ok lk \<Longrightarrow> unat (pt_start lk) + 4096 * cap lk \<le> unat (pt_end lk)"
  unfolding lk_ok_def cap_def by linarith

lemma unat_tbl:
  assumes "lk_ok lk" "k \<le> cap lk"
  shows "unat (tbl lk k) = unat (pt_start lk) + 4096 * k"
proof -
  have "unat (pt_start lk) + 4096 * k \<le> 2 ^ 48"
    using cap_bound [OF assms(1)] assms unfolding lk_ok_def by linarith
  moreover from this have "unat (of_nat (4096 * k) :: u64) = 4096 * k"
    by (intro unat_of_nat_small) simp
  ultimately show ?thesis unfolding tbl_def by (subst unat_add_no_wrap) auto
qed

lemma aligned_unat: "take_bit 12 (x :: u64) = 0 \<longleftrightarrow> unat x mod 4096 = 0"
  by (simp add: word_unat_eq_iff take_bit_eq_mod unat_mod)

lemma tbl_aligned: "lk_ok lk \<Longrightarrow> k \<le> cap lk \<Longrightarrow> take_bit 12 (tbl lk k) = 0"
  by (simp add: aligned_unat unat_tbl) (simp add: lk_ok_def aligned_unat)

lemma tbl_inj: "lk_ok lk \<Longrightarrow> j \<le> cap lk \<Longrightarrow> k \<le> cap lk \<Longrightarrow> tbl lk j = tbl lk k \<longleftrightarrow> j = k"
  by (metis unat_tbl add_left_cancel mult_left_cancel zero_neq_numeral)

lemma unat_entry:
  assumes "lk_ok lk" "k < cap lk" "unat i < 512"
  shows "unat (entry_addr (tbl lk k) i) = unat (pt_start lk) + 4096 * k + 8 * unat i"
    (is "?a = ?b")
    and "unat (pt_start lk) + 4096 * k + 8 * unat i + 8 \<le> unat (pt_end lk)"
    and "unat (pt_end lk) \<le> 2 ^ 48"
proof -
  show b: "unat (pt_start lk) + 4096 * k + 8 * unat i + 8 \<le> unat (pt_end lk)"
    using cap_bound [OF assms(1)] assms(2,3) by linarith
  show e: "unat (pt_end lk) \<le> 2 ^ 48" using assms by (simp add: lk_ok_def)
  have "unat (8 * i) = 8 * unat i"
    using assms(3) by (simp add: unat_word_ariths)
  then show "?a = ?b"
    unfolding entry_addr_def using assms b e
    by (subst unat_add_no_wrap) (auto simp: unat_tbl)
qed

lemma entries_apart:
  assumes "lk_ok lk" "k < cap lk" "unat i < 512" "k' < cap lk" "unat i' < 512"
    and "k \<noteq> k' \<or> i \<noteq> i'"
  shows "apart (entry_addr (tbl lk k) i) 8 (entry_addr (tbl lk k') i') 8"
proof -
  note e = unat_entry [OF assms(1-3)] and e' = unat_entry [OF assms(1,4,5)]
  have top: "unat (pt_end lk) \<le> 2 ^ 64" using e(3) by simp
  have "512 * k + unat i \<noteq> 512 * k' + unat i'"
  proof (cases "k = k'")
    case True
    then show ?thesis using assms(6) by (simp add: word_unat_eq_iff)
  next
    case False
    then show ?thesis using assms(3,5) by linarith
  qed
  then have "4096 * k + 8 * unat i + 8 \<le> 4096 * k' + 8 * unat i' \<or>
      4096 * k' + 8 * unat i' + 8 \<le> 4096 * k + 8 * unat i" by linarith
  then show ?thesis using e e' top by (intro apart_intervals) linarith+
qed

section \<open>The tree of tables\<close>

text \<open>
  A label says what an allocated table translates: its root, its level and its region of the
  page numbers. Labels are unique, roots label themselves, and in a table above the last level
  the entry of a region is the descriptor of the table with that label, or invalid when there
  is none; every other label is that of a child of an allocated table. Uniqueness makes the tables a forest: a store through one walk never lands in a table
  another walk passes through, except where they share it.
\<close>

type_synonym label = "nat \<times> nat \<times> nat"

abbreviation level :: "label \<Rightarrow> nat" where
  "level b \<equiv> fst (snd b)"

definition child :: "label \<Rightarrow> nat \<Rightarrow> label" where
  "child b i = (fst b, Suc (level b), snd (snd b) * 512 + i)"

definition links :: "linker \<Rightarrow> mem \<Rightarrow> (nat \<Rightarrow> label) \<Rightarrow> nat \<Rightarrow> bool" where
  "links lk m lab n \<longleftrightarrow>
     inj_on lab {..<n} \<and> (\<forall>k<n. level (lab k) = 0 \<longrightarrow> lab k = (k, 0, 0)) \<and>
     (\<forall>c<n. level (lab c) > 0 \<longrightarrow>
        (\<exists>k<n. \<exists>i :: u64. unat i < 512 \<and> lab c = child (lab k) (unat i))) \<and>
     (\<forall>k<n. \<forall>i. level (lab k) < 3 \<and> unat i < 512 \<longrightarrow>
        (\<forall>c<n. lab c = child (lab k) (unat i) \<longrightarrow>
           load64 m (entry_addr (tbl lk k) i) = tbl lk c OR 3) \<and>
        (child (lab k) (unat i) \<notin> lab ` {..<n} \<longrightarrow>
           load64 m (entry_addr (tbl lk k) i) AND PTE_VALID = 0))"

definition next_ok :: "linker \<Rightarrow> mmu \<Rightarrow> nat \<Rightarrow> bool" where
  "next_ok lk u n \<longleftrightarrow> lk_ok lk \<and> n \<le> cap lk \<and>
     (next_page_table u = tbl lk n \<or> n = 0 \<and> next_page_table u = 0)"

lemma PT_BYTES_eq: "PT_BYTES = 4096"
  by (simp add: PT_BYTES_def PT_ENTRIES_def)

lemma tbl_Suc: "tbl lk (Suc n) = tbl lk n + 4096"
  by (simp add: tbl_def)

lemma alloc_page_table_spec:
  assumes "next_ok lk u n"
  shows "alloc_page_table lk (u, m, con) =
     (if n < cap lk
      then Some (tbl lk n, u\<lparr>next_page_table := tbl lk (Suc n)\<rparr>, fst (memset m (tbl lk n) 0 4096), con)
      else None)"
proof -
  from assms have lk: "lk_ok lk" and n: "n \<le> cap lk" by (auto simp: next_ok_def)
  let ?u = "if next_page_table u = 0 then u\<lparr>next_page_table := pt_start lk\<rparr> else u"
  have "tbl lk n \<noteq> 0"
    using lk unat_tbl [OF lk n] by (metis add_is_0 lk_ok_def unat_0 unat_eq_zero)
  then have next_is: "next_page_table ?u = tbl lk n"
    using assms by (auto simp: next_ok_def tbl_def)
  have end48: "unat (pt_end lk) \<le> 2 ^ 48" using lk by (simp add: lk_ok_def)
  have "unat (tbl lk n + 4096) = unat (pt_start lk) + 4096 * n + 4096"
    using cap_bound [OF lk] unat_tbl [OF lk n] n end48 by (subst unat_add_no_wrap) auto
  then have "tbl lk n + 4096 > pt_end lk \<longleftrightarrow> \<not> n < cap lk"
    using cap_bound [OF lk] n lk unfolding word_less_nat_alt cap_def lk_ok_def by linarith
  then show ?thesis
    using next_is by (auto simp: alloc_page_table_def Let_def PT_BYTES_eq tbl_Suc)
qed

lemma cleared_table:
  fixes m :: mem
  assumes "lk_ok lk" "n < cap lk"
  defines "m' \<equiv> fst (memset m (tbl lk n) 0 4096)"
  shows "unat i < 512 \<Longrightarrow> load64 m' (entry_addr (tbl lk n) i) = 0"
    and "k < n \<Longrightarrow> unat i < 512 \<Longrightarrow>
      load64 m' (entry_addr (tbl lk k) i) = load64 m (entry_addr (tbl lk k) i)"
    and "\<not> in_space lk x \<Longrightarrow> m' x = m x"
proof -
  have m': "m' = (\<lambda>x. if in_range x (tbl lk n) 4096 then 0 else m x)"
    by (simp add: m'_def memset_def memset_loop_eq)
  have end48: "unat (pt_end lk) \<le> 2 ^ 48" using assms by (simp add: lk_ok_def)
  have t: "unat (tbl lk n) = unat (pt_start lk) + 4096 * n" using assms by (simp add: unat_tbl)
  have top: "unat (tbl lk n) + 4096 \<le> 2 ^ 64"
    and tend: "unat (tbl lk n) + 4096 \<le> unat (pt_end lk)"
    using cap_bound [OF assms(1)] assms(2) t end48 by auto
  note r = in_range_iff [OF top]
  have byte: "unat (entry_addr (tbl lk k) i + of_nat j) = unat (pt_start lk) + 4096 * k + 8 * unat i + j"
    if "k < cap lk" "unat i < 512" "j < 8" for k i j
    using unat_entry [OF assms(1) that(1,2)] that
    by (subst unat_add_no_wrap) (auto simp: unat_of_nat_small)
  show "load64 m' (entry_addr (tbl lk n) i) = 0" if "unat i < 512"
    using that byte [OF assms(2) that] by (intro load64_zero) (simp add: m' r t)
  show "load64 m' (entry_addr (tbl lk k) i) = load64 m (entry_addr (tbl lk k) i)"
    if "k < n" "unat i < 512"
    using that byte [of k i] assms(2) by (intro load64_cong) (simp add: m' r t)
  show "m' x = m x" if "\<not> in_space lk x"
    using that tend by (auto simp: m' r t in_space_def)
qed

lemma links_entry:
  assumes "links lk m lab n" "k < n" "level (lab k) < 3" "unat i < 512"
  shows "c < n \<Longrightarrow> lab c = child (lab k) (unat i) \<Longrightarrow>
      load64 m (entry_addr (tbl lk k) i) = tbl lk c OR 3"
    and "child (lab k) (unat i) \<notin> lab ` {..<n} \<Longrightarrow>
      load64 m (entry_addr (tbl lk k) i) AND PTE_VALID = 0"
  using assms unfolding links_def by blast+

lemma child_inj:
  "unat i < 512 \<Longrightarrow> unat j < 512 \<Longrightarrow> child b (unat i) = child b' (unat j) \<longleftrightarrow>
     b = b' \<and> i = (j :: u64)"
proof -
  assume ij: "unat i < 512" "unat j < 512"
  have quot: "(p * 512 + unat x) div 512 = p" if "unat x < 512" for p and x :: u64
    using that by simp
  have "p * 512 + unat i = q * 512 + unat j \<longleftrightarrow> p = q \<and> unat i = unat j" for p q
    using quot [OF ij(1), of p] quot [OF ij(2), of q] by (metis add_left_cancel)
  then show ?thesis by (auto simp: child_def word_unat_eq_iff prod_eq_iff)
qed

text \<open>An existing table is found, whatever else the state is.\<close>

lemma get_or_create_found:
  assumes "next_ok lk u n" "links lk m lab n" "k < n" "level (lab k) < 3" "unat i < 512"
    and "c < n" "lab c = child (lab k) (unat i)"
  shows "get_or_create_table lk (tbl lk k) i (u, m, con) = Some (tbl lk c, u, m, con)"
proof -
  have "take_bit 12 (tbl lk c) = 0"
    using assms(1,6) by (intro tbl_aligned) (auto simp: next_ok_def)
  note d = table_descriptor [OF this]
  have e: "load64 m (entry_addr (tbl lk k) i) = tbl lk c OR 3"
    using assms by (intro links_entry(1) [OF assms(2-5)])
  show ?thesis
    unfolding get_or_create_table_def Let_def prod.case e using d by simp
qed

text \<open>A missing table is taken from the space, cleared, and linked from its parent's entry.\<close>

lemma get_or_create_new:
  assumes ok: "next_ok lk u n" and links: "links lk m lab n"
    and k: "k < n" "level (lab k) < 3" "unat i < 512"
    and new: "child (lab k) (unat i) \<notin> lab ` {..<n}"
  shows "get_or_create_table lk (tbl lk k) i (u, m, con) =
    (if n < cap lk
     then Some (tbl lk n, u\<lparr>next_page_table := tbl lk (Suc n)\<rparr>,
            store64 (fst (memset m (tbl lk n) 0 4096)) (entry_addr (tbl lk k) i) (tbl lk n OR 3), con)
     else None)"
proof -
  have e: "load64 m (entry_addr (tbl lk k) i) AND PTE_VALID = 0"
    by (rule links_entry(2) [OF links k new])
  have "take_bit 12 (tbl lk n) = 0"
    using ok by (intro tbl_aligned) (auto simp: next_ok_def)
  then have "tbl lk n AND PAGE_MASK OR PTE_TYPE_TABLE OR PTE_VALID = tbl lk n OR 3"
    by (rule table_descriptor)
  then show ?thesis
    unfolding get_or_create_table_def Let_def prod.case
    using e alloc_page_table_spec [OF ok, of m con] by simp
qed

lemma new_table_entries:
  fixes m :: mem and v :: u64
  assumes lk: "lk_ok lk" "n < cap lk" and k: "k < n" "unat i < 512"
  defines "m' \<equiv> store64 (fst (memset m (tbl lk n) 0 4096)) (entry_addr (tbl lk k) i) v"
  shows "load64 m' (entry_addr (tbl lk k) i) = v"
    and "unat j < 512 \<Longrightarrow> load64 m' (entry_addr (tbl lk n) j) = 0"
    and "k' < n \<Longrightarrow> unat j < 512 \<Longrightarrow> k' \<noteq> k \<or> j \<noteq> i \<Longrightarrow>
      load64 m' (entry_addr (tbl lk k') j) = load64 m (entry_addr (tbl lk k') j)"
    and "\<not> in_space lk x \<Longrightarrow> m' x = m x"
proof -
  have kc: "k < cap lk" using assms by simp
  show "load64 m' (entry_addr (tbl lk k) i) = v" by (simp add: m'_def)
  show "load64 m' (entry_addr (tbl lk n) j) = 0" if "unat j < 512"
    using that lk k kc
    by (simp add: m'_def load64_store64_apart entries_apart cleared_table)
  show "load64 m' (entry_addr (tbl lk k') j) = load64 m (entry_addr (tbl lk k') j)"
    if "k' < n" "unat j < 512" "k' \<noteq> k \<or> j \<noteq> i"
  proof -
    have "apart (entry_addr (tbl lk k) i) 8 (entry_addr (tbl lk k') j) 8"
      using that lk k kc by (intro entries_apart) auto
    then show ?thesis using that lk by (simp add: m'_def load64_store64_apart cleared_table)
  qed
  show "m' x = m x" if "\<not> in_space lk x"
  proof -
    note e = unat_entry [OF lk(1) kc k(2)]
    have "unat (entry_addr (tbl lk k) i) + 8 \<le> 2 ^ 64" using e by simp
    then have "\<not> in_range x (entry_addr (tbl lk k) i) 8"
      using that e by (subst in_range_iff) (auto simp: in_space_def)
    then show ?thesis using that lk by (simp add: m'_def store64_other cleared_table)
  qed
qed

lemma links_new:
  assumes ok: "next_ok lk u n" "n < cap lk" and links: "links lk m lab n"
    and k: "k < n" "level (lab k) < 3" "unat i < 512"
    and new: "child (lab k) (unat i) \<notin> lab ` {..<n}"
  shows "links lk (store64 (fst (memset m (tbl lk n) 0 4096)) (entry_addr (tbl lk k) i) (tbl lk n OR 3))
    (lab(n := child (lab k) (unat i))) (Suc n)"
    (is "links lk ?m ?lab (Suc n)")
proof -
  have lk: "lk_ok lk" using ok by (simp add: next_ok_def)
  note ent = new_table_entries [OF lk ok(2) k(1,3), where m = m and v = "tbl lk n OR 3"]
  let ?b = "child (lab k) (unat i)"
  have img: "?lab ` {..<Suc n} = insert ?b (lab ` {..<n})"
    by (auto simp: lessThan_Suc)
  have inj0: "inj_on lab {..<n}" using links by (simp add: links_def)
  have inj: "inj_on ?lab {..<Suc n}"
  proof -
    have "inj_on ?lab {..<n}" using inj0 by (simp add: inj_on_def)
    moreover have "?lab n \<notin> ?lab ` ({..<n} - {n})" using new by auto
    ultimately show ?thesis by (simp add: lessThan_Suc)
  qed
  have root: "level (?lab k') = 0 \<longrightarrow> ?lab k' = (k', 0, 0)" if "k' < Suc n" for k'
    using links that unfolding links_def by (cases "k' = n") (auto simp: child_def)
  have par: "\<exists>k<n. \<exists>i :: u64. unat i < 512 \<and> lab c = child (lab k) (unat i)"
    if "c < n" "level (lab c) > 0" for c
    using links that unfolding links_def by blast
  have parents: "\<exists>k'<Suc n. \<exists>j :: u64. unat j < 512 \<and> ?lab c = child (?lab k') (unat j)"
    if c: "c < Suc n" "level (?lab c) > 0" for c
  proof (cases "c = n")
    case True
    then show ?thesis using k by (intro exI [of _ k] conjI exI [of _ i]) auto
  next
    case False
    with c par [of c] obtain k' and j :: u64 where "k' < n" "unat j < 512" "lab c = child (lab k') (unat j)"
      by auto
    then show ?thesis using False by (intro exI [of _ k'] conjI exI [of _ j]) auto
  qed
  have fresh: "lab c \<noteq> child ?b (unat j)" if cj: "c < n" "unat j < 512" for c and j :: u64
  proof
    assume c: "lab c = child ?b (unat j)"
    then have "level (lab c) > 0" by (simp add: child_def)
    then obtain k' and i' :: u64 where k': "k' < n" "unat i' < 512" "lab c = child (lab k') (unat i')"
      using par [OF cj(1)] by blast
    then have "lab k' = ?b" using c cj(2) by (simp add: child_inj)
    then have "?b \<in> lab ` {..<n}" using k'(1) by (metis imageI lessThan_iff)
    with new show False ..
  qed
  have entry: "(\<forall>c<Suc n. ?lab c = child (?lab k') (unat j) \<longrightarrow>
           load64 ?m (entry_addr (tbl lk k') j) = tbl lk c OR 3) \<and>
        (child (?lab k') (unat j) \<notin> ?lab ` {..<Suc n} \<longrightarrow>
           load64 ?m (entry_addr (tbl lk k') j) AND PTE_VALID = 0)"
    if k': "k' < Suc n" "level (?lab k') < 3" "unat j < 512" for k' and j :: u64
  proof (cases "k' = n")
    case True
    have zero: "load64 ?m (entry_addr (tbl lk n) j) = 0" using ent(2) k' by simp
    have "child ?b (unat j) \<noteq> ?b" by (simp add: child_def)
    then show ?thesis using True zero fresh k'(3) by (auto simp: less_Suc_eq)
  next
    case False
    then have k'n: "k' < n" using k' by simp
    then have k'l: "level (lab k') < 3" using k' by simp
    note old = links_entry [OF links k'n k'l k'(3)]
    show ?thesis
    proof (cases "k' = k \<and> j = i")
      case True
      moreover have "lab c \<noteq> ?b" if "c < n" for c
        using new that by (metis imageI lessThan_iff)
      ultimately show ?thesis using False ent(1) by (auto simp: less_Suc_eq)
    next
      case other: False
      then have "load64 ?m (entry_addr (tbl lk k') j) = load64 m (entry_addr (tbl lk k') j)"
        using ent(3) k'n k'(3) by blast
      moreover have "?b \<noteq> child (lab k') (unat j)"
      proof
        assume "?b = child (lab k') (unat j)"
        then have "lab k = lab k'" "i = j" using k(3) k'(3) by (simp_all add: child_inj)
        then have "k = k'" using links k(1) k'n unfolding links_def inj_on_def by blast
        then show False using other \<open>i = j\<close> by simp
      qed
      ultimately show ?thesis using False old unfolding img by (auto simp: less_Suc_eq)
    qed
  qed
  show ?thesis unfolding links_def using inj root parents entry by blast
qed

section \<open>The software walk\<close>

text \<open>The last-level entry a walk reaches, and 0 where it stops early.\<close>

definition pte_of :: "mem \<Rightarrow> u64 \<Rightarrow> u64 \<Rightarrow> u64" where
  "pte_of m pgd va = (case walk m pgd va of None \<Rightarrow> 0 | Some entry \<Rightarrow> load64 m entry)"

definition label_at :: "nat \<Rightarrow> nat \<Rightarrow> nat \<Rightarrow> label" where
  "label_at r l p = (r, l, region l p)"

definition at_label :: "(nat \<Rightarrow> label) \<Rightarrow> nat \<Rightarrow> label \<Rightarrow> nat" where
  "at_label lab n b = inv_into {..<n} lab b"

lemma label_at_0: "label_at r 0 (vpn va) = (r, 0, 0)"
  by (simp add: label_at_def region_step(5))

lemma label_at_step:
  "label_at r 1 (vpn va) = child (r, 0, 0) (unat (VA_L0_INDEX va))"
  "label_at r 2 (vpn va) = child (label_at r 1 (vpn va)) (unat (VA_L1_INDEX va))"
  "label_at r 3 (vpn va) = child (label_at r 2 (vpn va)) (unat (VA_L2_INDEX va))"
  unfolding label_at_def child_def fst_conv snd_conv region_step(1-3) region_step(5)
  by simp_all

lemma level_label_at [simp]: "level (label_at r l p) = l"
  by (simp add: label_at_def)

lemma VA_INDEX_less:
  "unat (VA_L0_INDEX va) < 512" "unat (VA_L1_INDEX va) < 512"
  "unat (VA_L2_INDEX va) < 512" "unat (VA_L3_INDEX va) < 512"
  by (simp_all add: unat_VA_INDEX)

text \<open>The page number of an address is its last-level region and its last index.\<close>

lemma same_page:
  "region 3 (vpn va) = region 3 (vpn vb) \<and> VA_L3_INDEX va = VA_L3_INDEX vb \<longleftrightarrow> vpn va = vpn vb"
proof
  assume "vpn va = vpn vb"
  moreover from this have "VA_L3_INDEX va = VA_L3_INDEX vb"
    by (simp add: word_unat_eq_iff index_vpn)
  ultimately show "region 3 (vpn va) = region 3 (vpn vb) \<and> VA_L3_INDEX va = VA_L3_INDEX vb"
    by simp
qed (metis region_step(4))

lemma at_label:
  assumes "b \<in> lab ` {..<n}"
  shows "at_label lab n b < n" "lab (at_label lab n b) = b"
  using inv_into_into [OF assms] f_inv_into_f [OF assms] by (auto simp: at_label_def)

lemma at_label_lab: "links lk m lab n \<Longrightarrow> k < n \<Longrightarrow> at_label lab n (lab k) = k"
  by (simp add: at_label_def links_def)

lemma at_label_root:
  assumes "links lk m lab n" "(r, 0, 0) \<in> lab ` {..<n}"
  shows "at_label lab n (r, 0, 0) = r"
proof -
  let ?k = "at_label lab n (r, 0, 0)"
  have "lab ?k = (?k, 0, 0)"
    using assms(1) at_label [OF assms(2)] unfolding links_def by (metis fst_conv snd_conv)
  then show ?thesis using at_label(2) [OF assms(2)] by simp
qed

lemma walk_step_links:
  assumes ok: "next_ok lk u n" and links: "links lk m lab n"
    and b: "b \<in> lab ` {..<n}" "level b < 3" "unat i < 512"
  shows "walk_step m (tbl lk (at_label lab n b)) i =
    (if child b (unat i) \<in> lab ` {..<n} then Some (tbl lk (at_label lab n (child b (unat i)))) else None)"
proof -
  note at = at_label [OF b(1)]
  have lv: "level (lab (at_label lab n b)) < 3" using at b by simp
  note e = links_entry [OF links at(1) lv b(3), unfolded at(2)]
  show ?thesis
  proof (cases "child b (unat i) \<in> lab ` {..<n}")
    case True
    note c = at_label [OF True]
    have al: "take_bit 12 (tbl lk (at_label lab n (child b (unat i)))) = 0"
      using ok c by (intro tbl_aligned) (auto simp: next_ok_def)
    show ?thesis
      unfolding walk_step_def Let_def e(1) [OF c] using table_descriptor(2,3) [OF al] True by simp
  next
    case False
    then show ?thesis unfolding walk_step_def Let_def using e(2) by simp
  qed
qed

lemma label_at_up:
  fixes i :: u64
  assumes links: "links lk m lab n" and c: "child b (unat i) \<in> lab ` {..<n}" "unat i < 512"
  shows "b \<in> lab ` {..<n}"
proof -
  obtain c where c': "c < n" "lab c = child b (unat i)" using c(1) by force
  then have "level (lab c) > 0" by (simp add: child_def)
  then obtain k and j :: u64 where "k < n" "unat j < 512" "lab c = child (lab k) (unat j)"
    using links c'(1) unfolding links_def by blast
  then have "lab k = b" using c' c(2) child_inj [of i j b "lab k"] by simp
  then show ?thesis using \<open>k < n\<close> by (metis imageI lessThan_iff)
qed

lemma walk_links:
  assumes ok: "next_ok lk u n" and links: "links lk m lab n" and r: "(r, 0, 0) \<in> lab ` {..<n}"
  shows "walk m (tbl lk r) va =
    (if label_at r 3 (vpn va) \<in> lab ` {..<n}
     then Some (entry_addr (tbl lk (at_label lab n (label_at r 3 (vpn va)))) (VA_L3_INDEX va))
     else None)"
proof -
  note step = walk_step_links [OF ok links]
  note idx = VA_INDEX_less [of va]
  have s0: "walk_step m (tbl lk r) (VA_L0_INDEX va) =
      (if label_at r 1 (vpn va) \<in> lab ` {..<n} then Some (tbl lk (at_label lab n (label_at r 1 (vpn va))))
       else None)"
    unfolding label_at_step(1)
    using step [OF r, of "VA_L0_INDEX va"] idx at_label_root [OF links r] by simp
  have s1: "walk_step m (tbl lk (at_label lab n (label_at r 1 (vpn va)))) (VA_L1_INDEX va) =
      (if label_at r 2 (vpn va) \<in> lab ` {..<n} then Some (tbl lk (at_label lab n (label_at r 2 (vpn va))))
       else None)" if "label_at r 1 (vpn va) \<in> lab ` {..<n}"
    unfolding label_at_step(2) using step [OF that, of "VA_L1_INDEX va"] idx
    by (simp add: label_at_def)
  have s2: "walk_step m (tbl lk (at_label lab n (label_at r 2 (vpn va)))) (VA_L2_INDEX va) =
      (if label_at r 3 (vpn va) \<in> lab ` {..<n} then Some (tbl lk (at_label lab n (label_at r 3 (vpn va))))
       else None)" if "label_at r 2 (vpn va) \<in> lab ` {..<n}"
    unfolding label_at_step(3) using step [OF that, of "VA_L2_INDEX va"] idx
    by (simp add: label_at_def)
  have up: "label_at r 3 (vpn va) \<in> lab ` {..<n} \<Longrightarrow> label_at r 2 (vpn va) \<in> lab ` {..<n}"
    "label_at r 2 (vpn va) \<in> lab ` {..<n} \<Longrightarrow> label_at r 1 (vpn va) \<in> lab ` {..<n}"
    unfolding label_at_step(3) [of r] using label_at_up [OF links _ idx(3)] apply blast
    unfolding label_at_step(2) [of r] using label_at_up [OF links _ idx(2)] by blast
  show ?thesis
    unfolding walk_def using s0 s1 s2 up by (auto split: if_splits)
qed

section \<open>One level of a mapping\<close>

text \<open>
  \<open>tree lk v lab n\<close>: the state holds \<open>n\<close> tables with the labels \<open>lab\<close>.
  \<open>tables_only lk v v'\<close>: the step from \<open>v\<close> to \<open>v'\<close> writes nothing but table memory and the
  allocation pointer.
\<close>

definition tree :: "linker \<Rightarrow> vm \<Rightarrow> (nat \<Rightarrow> label) \<Rightarrow> nat \<Rightarrow> bool" where
  "tree lk v lab n \<longleftrightarrow> next_ok lk (fst v) n \<and> links lk (fst (snd v)) lab n"

definition tables_only :: "linker \<Rightarrow> vm \<Rightarrow> vm \<Rightarrow> bool" where
  "tables_only lk v v' \<longleftrightarrow>
     (\<exists>x. fst v' = (fst v)\<lparr>next_page_table := x\<rparr>) \<and> snd (snd v') = snd (snd v) \<and>
     (\<forall>x. \<not> in_space lk x \<longrightarrow> fst (snd v') x = fst (snd v) x)"

lemma tables_only_refl [simp, intro]: "tables_only lk v v"
  by (auto simp: tables_only_def intro: exI [of _ "next_page_table (fst v)"])

lemma tables_only_trans [trans]:
  "tables_only lk v v' \<Longrightarrow> tables_only lk v' v'' \<Longrightarrow> tables_only lk v v''"
  by (fastforce simp: tables_only_def)

definition same_ptes :: "linker \<Rightarrow> label set \<Rightarrow> mem \<Rightarrow> mem \<Rightarrow> bool" where
  "same_ptes lk L m m' \<longleftrightarrow>
     (\<forall>r va. (r, 0, 0) \<in> L \<longrightarrow> pte_of m' (tbl lk r) va = pte_of m (tbl lk r) va)"

lemma pte_of_links:
  assumes "next_ok lk u n" "links lk m lab n" "(r, 0, 0) \<in> lab ` {..<n}"
  shows "pte_of m (tbl lk r) va =
    (if label_at r 3 (vpn va) \<in> lab ` {..<n}
     then load64 m (entry_addr (tbl lk (at_label lab n (label_at r 3 (vpn va)))) (VA_L3_INDEX va))
     else 0)"
  by (simp add: pte_of_def walk_links [OF assms])

lemma at_label_extend:
  assumes "links lk m lab n" "b \<in> lab ` {..<n}" "links lk m' (lab(n := b')) (Suc n)"
  shows "at_label (lab(n := b')) (Suc n) b = at_label lab n b"
proof -
  note a = at_label [OF assms(2)]
  have "(lab(n := b')) (at_label lab n b) = b" using a by simp
  then show ?thesis using at_label_lab [OF assms(3), of "at_label lab n b"] a(1) by simp
qed

text \<open>Linking a cleared table changes no translation: its entries read as 0.\<close>

lemma same_ptes_new:
  fixes m :: mem
  assumes ok: "next_ok lk u n" "n < cap lk" and links: "links lk m lab n"
    and k: "k < n" "level (lab k) < 3" "unat i < 512"
    and new: "child (lab k) (unat i) \<notin> lab ` {..<n}"
  shows "same_ptes lk (lab ` {..<n}) m
    (store64 (fst (memset m (tbl lk n) 0 4096)) (entry_addr (tbl lk k) i) (tbl lk n OR 3))"
    (is "same_ptes lk _ m ?m")
  unfolding same_ptes_def
proof (intro allI impI)
  fix r va assume r: "(r, 0, 0) \<in> lab ` {..<n}"
  let ?b' = "child (lab k) (unat i)" and ?b = "label_at r 3 (vpn va)"
  let ?lab = "lab(n := ?b')" and ?e = "\<lambda>c. entry_addr (tbl lk c) (VA_L3_INDEX va)"
  have lk: "lk_ok lk" using ok by (simp add: next_ok_def)
  note ent = new_table_entries [OF lk ok(2) k(1,3), where m = m and v = "tbl lk n OR 3"]
  have links': "links lk ?m ?lab (Suc n)" by (rule links_new [OF ok links k new])
  have ok': "next_ok lk (u\<lparr>next_page_table := tbl lk (Suc n)\<rparr>) (Suc n)"
    using ok lk by (simp add: next_ok_def)
  have img: "?lab ` {..<Suc n} = insert ?b' (lab ` {..<n})" by (auto simp: lessThan_Suc)
  have r': "(r, 0, 0) \<in> ?lab ` {..<Suc n}" using r img by simp
  note p = pte_of_links [OF ok(1) links r, of va] pte_of_links [OF ok' links' r', of va]
  consider (old) "?b \<in> lab ` {..<n}" | (fresh) "?b \<notin> lab ` {..<n}" "?b = ?b'"
    | (none) "?b \<notin> lab ` {..<n}" "?b \<noteq> ?b'" by blast
  then show "pte_of ?m (tbl lk r) va = pte_of m (tbl lk r) va"
  proof cases
    case old
    note c = at_label [OF old]
    have "at_label lab n ?b \<noteq> k" using c(2) k(2) by auto
    then have "load64 ?m (?e (at_label lab n ?b)) = load64 m (?e (at_label lab n ?b))"
      by (intro ent(3)) (auto simp: c VA_INDEX_less)
    then show ?thesis
      using p old at_label_extend [OF links old links'] unfolding img by simp
  next
    case fresh
    have "at_label ?lab (Suc n) ?b' = n" using at_label_lab [OF links', of n] by simp
    then show ?thesis using p fresh ent(2) [of "VA_L3_INDEX va"] unfolding img
      by (simp add: VA_INDEX_less)
  next
    case none
    then show ?thesis using p unfolding img by simp
  qed
qed

lemma get_or_create_step:
  assumes ok: "next_ok lk u n" and links: "links lk m lab n"
    and b: "b \<in> lab ` {..<n}" "level b < 3" "unat i < 512"
  defines "L \<equiv> lab ` {..<n}" and "b' \<equiv> child b (unat i)"
  shows "if card (insert b' L) \<le> cap lk
    then \<exists>v' lab' n'. get_or_create_table lk (tbl lk (at_label lab n b)) i (u, m, con) =
        Some (tbl lk (at_label lab' n' b'), v') \<and>
      tree lk v' lab' n' \<and> lab' ` {..<n'} = insert b' L \<and>
      tables_only lk (u, m, con) v' \<and> same_ptes lk L m (fst (snd v'))
    else get_or_create_table lk (tbl lk (at_label lab n b)) i (u, m, con) = None"
    (is "if ?room then \<exists>v' lab' n'. ?post v' lab' n' else ?none")
proof -
  let ?k = "at_label lab n b"
  note at = at_label [OF b(1)]
  have k: "?k < n" "level (lab ?k) < 3" "unat i < 512" and b'k: "b' = child (lab ?k) (unat i)"
    using at b by (simp_all add: b'_def)
  have inj: "inj_on lab {..<n}" using links by (simp add: links_def)
  have cardL: "card L = n" unfolding L_def using inj by (simp add: card_image)
  have ncap: "n \<le> cap lk" and lk: "lk_ok lk" using ok by (auto simp: next_ok_def)
  show ?thesis
  proof (cases "b' \<in> L")
    case True
    note c = at_label [OF True [unfolded L_def]]
    have run: "get_or_create_table lk (tbl lk ?k) i (u, m, con) = Some (tbl lk (at_label lab n b'), u, m, con)"
      using c b'k by (intro get_or_create_found [OF ok links k]) auto
    have same: "insert b' L = L" using True by blast
    have "?post (u, m, con) lab n"
      unfolding run same using ok links by (simp add: L_def tree_def same_ptes_def)
    then show ?thesis unfolding same cardL using ncap by (simp only: if_True) blast
  next
    case False
    then have new: "child (lab ?k) (unat i) \<notin> lab ` {..<n}" by (simp add: L_def b'k [symmetric])
    have card': "card (insert b' L) = Suc n" using False cardL by (simp add: L_def)
    note run = get_or_create_new [OF ok links k new, of con]
    show ?thesis
    proof (cases "n < cap lk")
      case False
      then show ?thesis using run card' by simp
    next
      case room: True
      let ?m = "store64 (fst (memset m (tbl lk n) 0 4096)) (entry_addr (tbl lk ?k) i) (tbl lk n OR 3)"
      let ?u = "u\<lparr>next_page_table := tbl lk (Suc n)\<rparr>"
      let ?lab = "lab(n := b')"
      have links': "links lk ?m ?lab (Suc n)"
        using links_new [OF ok room links k new] by (simp add: b'k)
      have ok': "next_ok lk ?u (Suc n)" using room lk by (simp add: next_ok_def)
      have img: "?lab ` {..<Suc n} = insert b' L" by (auto simp: L_def lessThan_Suc)
      have atb': "at_label ?lab (Suc n) b' = n" using at_label_lab [OF links', of n] by simp
      have same: "same_ptes lk L m ?m"
        unfolding L_def by (rule same_ptes_new [OF ok room links k new])
      have only: "tables_only lk (u, m, con) (?u, ?m, con)"
        using new_table_entries(4) [OF lk room k(1,3)] by (auto simp: tables_only_def)
      have "?post (?u, ?m, con) ?lab (Suc n)"
        unfolding run atb' img using room same only links' ok' by (simp add: tree_def)
      moreover have ?room using card' room by simp
      ultimately show ?thesis by (simp only: if_True) blast
    qed
  qed
qed

section \<open>Writing an entry of the last level\<close>

lemma leaf_store:
  fixes m :: mem and w :: u64
  assumes ok: "next_ok lk u n" and links: "links lk m lab n"
    and b: "label_at r 3 (vpn va) \<in> lab ` {..<n}"
  defines "m' \<equiv> store64 m (entry_addr (tbl lk (at_label lab n (label_at r 3 (vpn va)))) (VA_L3_INDEX va)) w"
  shows "links lk m' lab n"
    and "(r', 0, 0) \<in> lab ` {..<n} \<Longrightarrow> pte_of m' (tbl lk r') va' =
      (if r' = r \<and> vpn va' = vpn va then w else pte_of m (tbl lk r') va')"
    and "\<not> in_space lk x \<Longrightarrow> m' x = m x"
proof -
  let ?c = "at_label lab n (label_at r 3 (vpn va))"
  note c = at_label [OF b]
  have lk: "lk_ok lk" and ncap: "n \<le> cap lk" using ok by (auto simp: next_ok_def)
  have ccap: "?c < cap lk" using c(1) ncap by simp
  have other: "load64 m' (entry_addr (tbl lk k) i) = load64 m (entry_addr (tbl lk k) i)"
    if "k < n" "unat i < 512" "k \<noteq> ?c \<or> i \<noteq> VA_L3_INDEX va" for k i
    unfolding m'_def using that ncap
    by (intro load64_store64_apart entries_apart lk ccap VA_INDEX_less) auto
  have upper: "load64 m' (entry_addr (tbl lk k) i) = load64 m (entry_addr (tbl lk k) i)"
    if "k < n" "unat i < 512" "level (lab k) < 3" for k i
    using that c(2) by (intro other) auto
  show links': "links lk m' lab n"
    using links unfolding links_def by (simp add: upper cong: conj_cong imp_cong)
  show "pte_of m' (tbl lk r') va' = (if r' = r \<and> vpn va' = vpn va then w else pte_of m (tbl lk r') va')"
    if r': "(r', 0, 0) \<in> lab ` {..<n}"
  proof -
    let ?b' = "label_at r' 3 (vpn va')"
    note p = pte_of_links [OF ok links r', of va'] pte_of_links [OF ok links' r', of va']
    show ?thesis
    proof (cases "?b' \<in> lab ` {..<n}")
      case True
      note c' = at_label [OF True]
      show ?thesis
      proof (cases "r' = r \<and> vpn va' = vpn va")
        case same: True
        then have "VA_L3_INDEX va' = VA_L3_INDEX va" using same_page by blast
        then show ?thesis using p True same by (simp add: m'_def)
      next
        case False
        then have "at_label lab n ?b' \<noteq> ?c \<or> VA_L3_INDEX va' \<noteq> VA_L3_INDEX va"
          using c c' same_page [of va' va] by (auto simp: label_at_def)
        then show ?thesis using p True False other [OF c'(1) VA_INDEX_less(4)] by auto
      qed
    next
      case False
      then have "\<not> (r' = r \<and> vpn va' = vpn va)" using b by auto
      then show ?thesis using p False by auto
    qed
  qed
  show "m' x = m x" if "\<not> in_space lk x"
  proof -
    note e = unat_entry [OF lk ccap VA_INDEX_less(4) [of va]]
    have "\<not> in_range x (entry_addr (tbl lk ?c) (VA_L3_INDEX va)) 8"
      using that e by (subst in_range_iff) (auto simp: in_space_def)
    then show ?thesis by (simp add: m'_def store64_other)
  qed
qed

section \<open>The refinement relation\<close>

text \<open>
  The abstract state of all tables: the set \<open>L\<close> of labels, whose cardinality is the number of
  tables used, and for each root the last-level entry of every page.
\<close>

type_synonym ptes = "nat \<Rightarrow> nat \<Rightarrow> u64"

definition vm_rel :: "linker \<Rightarrow> vm \<Rightarrow> label set \<Rightarrow> ptes \<Rightarrow> bool" where
  "vm_rel lk v L F \<longleftrightarrow>
     (\<exists>lab n. tree lk v lab n \<and> L = lab ` {..<n}) \<and>
     (\<forall>r va. (r, 0, 0) \<in> L \<longrightarrow> pte_of (fst (snd v)) (tbl lk r) va = F r (vpn va))"

text \<open>The labels a mapping of page \<open>p\<close> under root \<open>r\<close> needs.\<close>

definition path :: "nat \<Rightarrow> nat \<Rightarrow> label set" where
  "path r p = {label_at r 1 p, label_at r 2 p, label_at r 3 p}"

definition set_pte :: "nat \<Rightarrow> nat \<Rightarrow> u64 \<Rightarrow> ptes \<Rightarrow> ptes" where
  "set_pte r p w F = F(r := (F r)(p := w))"

lemma vm_rel_pte:
  "vm_rel lk v L F \<Longrightarrow> (r, 0, 0) \<in> L \<Longrightarrow> pte_of (fst (snd v)) (tbl lk r) va = F r (vpn va)"
  by (simp add: vm_rel_def)

lemma vm_rel_used:
  assumes "vm_rel lk v L F"
  shows "finite L" "card L \<le> cap lk" "lk_ok lk"
    "L \<noteq> {} \<Longrightarrow> next_page_table (fst v) = tbl lk (card L)"
proof -
  obtain lab n where t: "tree lk v lab n" and L: "L = lab ` {..<n}"
    using assms by (auto simp: vm_rel_def)
  then have "card L = n" by (auto simp: tree_def links_def card_image)
  then show "finite L" "card L \<le> cap lk" "lk_ok lk"
    "L \<noteq> {} \<Longrightarrow> next_page_table (fst v) = tbl lk (card L)"
    using t L by (auto simp: tree_def next_ok_def)
qed

lemma same_ptes_trans:
  "same_ptes lk L m m' \<Longrightarrow> same_ptes lk L' m' m'' \<Longrightarrow> L \<subseteq> L' \<Longrightarrow> same_ptes lk L m m''"
  by (auto simp: same_ptes_def)

text \<open>The step above for a whole state, its table named by the label.\<close>

lemma create_step:
  assumes "tree lk v lab n" "L = lab ` {..<n}" "b \<in> L" "level b < 3" "unat i < 512"
    and "b' = child b (unat i)"
  shows "card (insert b' L) \<le> cap lk \<Longrightarrow>
      \<exists>v' lab' n'. get_or_create_table lk (tbl lk (at_label lab n b)) i v =
          Some (tbl lk (at_label lab' n' b'), v') \<and> tree lk v' lab' n' \<and>
        lab' ` {..<n'} = insert b' L \<and> tables_only lk v v' \<and>
        same_ptes lk L (fst (snd v)) (fst (snd v'))"
    and "\<not> card (insert b' L) \<le> cap lk \<Longrightarrow>
      get_or_create_table lk (tbl lk (at_label lab n b)) i v = None"
proof -
  obtain u m con where v: "v = (u, m, con)" by (cases v)
  have "next_ok lk u n" "links lk m lab n" using assms(1) by (simp_all add: tree_def v)
  note step = get_or_create_step [OF this assms(3-5) [unfolded assms(2)], of con]
  show "card (insert b' L) \<le> cap lk \<Longrightarrow>
      \<exists>v' lab' n'. get_or_create_table lk (tbl lk (at_label lab n b)) i v =
          Some (tbl lk (at_label lab' n' b'), v') \<and> tree lk v' lab' n' \<and>
        lab' ` {..<n'} = insert b' L \<and> tables_only lk v v' \<and>
        same_ptes lk L (fst (snd v)) (fst (snd v'))"
    "\<not> card (insert b' L) \<le> cap lk \<Longrightarrow>
      get_or_create_table lk (tbl lk (at_label lab n b)) i v = None"
    using step unfolding v assms(2,6) fst_conv snd_conv by (simp_all only: if_True if_False)
qed

text \<open>Three levels, from a root to the table of a page, when the space suffices and when not.\<close>

definition walk_create :: "linker \<Rightarrow> u64 \<Rightarrow> u64 \<Rightarrow> vm \<Rightarrow> (u64 \<times> vm) option" where
  "walk_create lk pgd virt v = do {
     (pud, v) \<leftarrow> get_or_create_table lk pgd (VA_L0_INDEX virt) v;
     (pmd, v) \<leftarrow> get_or_create_table lk pud (VA_L1_INDEX virt) v;
     get_or_create_table lk pmd (VA_L2_INDEX virt) v
   }"

lemma walk_create_spec:
  fixes virt :: u64
  assumes t: "tree lk v lab n" and L: "L = lab ` {..<n}" and r: "(r, 0, 0) \<in> L"
  defines "p \<equiv> vpn virt"
  shows "if card (L \<union> path r p) \<le> cap lk
    then \<exists>v' lab' n'. walk_create lk (tbl lk r) virt v =
          Some (tbl lk (at_label lab' n' (label_at r 3 p)), v') \<and> tree lk v' lab' n' \<and>
        lab' ` {..<n'} = L \<union> path r p \<and> tables_only lk v v' \<and>
        same_ptes lk L (fst (snd v)) (fst (snd v'))
    else walk_create lk (tbl lk r) virt v = None"
    (is "if card ?S3 \<le> _ then _ else _")
proof -
  let ?b1 = "label_at r 1 p" and ?b2 = "label_at r 2 p" and ?b3 = "label_at r 3 p"
  let ?S1 = "insert ?b1 L" and ?S2 = "insert ?b2 (insert ?b1 L)"
  have S3: "?S3 = insert ?b3 ?S2" by (auto simp: path_def)
  have fin: "finite L" by (simp add: L)
  have mono: "card ?S1 \<le> card ?S2" "card ?S2 \<le> card ?S3"
    unfolding S3 using fin by (auto intro!: card_mono)
  have root: "at_label lab n (r, 0, 0) = r"
    using t r by (auto simp: tree_def L intro: at_label_root)
  note step1 = create_step [OF t L r _ VA_INDEX_less(1), OF _ label_at_step(1) [of r virt, folded p_def], unfolded root]
  show ?thesis
  proof (cases "card ?S1 \<le> cap lk")
    case False
    then show ?thesis using mono step1(2) by (simp add: walk_create_def)
  next
    case True
    with step1(1) obtain v1 lab1 n1 where v1:
      "get_or_create_table lk (tbl lk r) (VA_L0_INDEX virt) v = Some (tbl lk (at_label lab1 n1 ?b1), v1)"
      "tree lk v1 lab1 n1" "?S1 = lab1 ` {..<n1}" "tables_only lk v v1"
      "same_ptes lk L (fst (snd v)) (fst (snd v1))" by auto
    note step2 = create_step [OF v1(2,3) insertI1 _ VA_INDEX_less(2), OF _ label_at_step(2) [of r virt, folded p_def]]
    show ?thesis
    proof (cases "card ?S2 \<le> cap lk")
      case False
      then show ?thesis using mono step2(2) v1(1) by (simp add: walk_create_def)
    next
      case True
      with step2(1) obtain v2 lab2 n2 where v2:
        "get_or_create_table lk (tbl lk (at_label lab1 n1 ?b1)) (VA_L1_INDEX virt) v1 =
           Some (tbl lk (at_label lab2 n2 ?b2), v2)"
        "tree lk v2 lab2 n2" "?S2 = lab2 ` {..<n2}" "tables_only lk v1 v2"
        "same_ptes lk ?S1 (fst (snd v1)) (fst (snd v2))" by auto
      note step3 = create_step [OF v2(2,3) insertI1 _ VA_INDEX_less(3), OF _ label_at_step(3) [of r virt, folded p_def]]
      show ?thesis
      proof (cases "card ?S3 \<le> cap lk")
        case False
        then show ?thesis using step3(2) v1(1) v2(1) S3 by (simp add: walk_create_def)
      next
        case True
        with step3(1) S3 obtain v3 lab3 n3 where v3:
          "get_or_create_table lk (tbl lk (at_label lab2 n2 ?b2)) (VA_L2_INDEX virt) v2 =
             Some (tbl lk (at_label lab3 n3 ?b3), v3)"
          "tree lk v3 lab3 n3" "lab3 ` {..<n3} = ?S3" "tables_only lk v2 v3"
          "same_ptes lk ?S2 (fst (snd v2)) (fst (snd v3))" by auto
        have "same_ptes lk L (fst (snd v)) (fst (snd v3))"
          using v1(5) v2(5) v3(5) by (blast intro: same_ptes_trans)
        moreover have "tables_only lk v v3"
          using v1(4) v2(4) v3(4) by (blast intro: tables_only_trans)
        moreover have "walk_create lk (tbl lk r) virt v = Some (tbl lk (at_label lab3 n3 ?b3), v3)"
          using v1(1) v2(1) v3(1) by (simp add: walk_create_def)
        ultimately show ?thesis using v3(2,3) True by (simp only: if_True) blast
      qed
    qed
  qed
qed

lemma map_in_walk_create:
  "map_in lk pgd virt phys flags v = do {
     (t, u, m, con) \<leftarrow> walk_create lk pgd virt v;
     Some (u, store64 m (entry_addr t (VA_L3_INDEX virt)) (phys AND PAGE_MASK OR flags OR PTE_TYPE_PAGE), con)
   }"
  by (simp add: map_in_def walk_create_def Option.bind_assoc split_beta' del: Option.bind_eq_Some_conv)

lemma map_in_refines:
  assumes rel: "vm_rel lk v L F" and r: "(r, 0, 0) \<in> L"
  shows "if card (L \<union> path r (vpn virt)) \<le> cap lk
    then \<exists>v'. map_in lk (tbl lk r) virt phys flags v = Some v' \<and>
      vm_rel lk v' (L \<union> path r (vpn virt))
        (set_pte r (vpn virt) (phys AND PAGE_MASK OR flags OR PTE_TYPE_PAGE) F) \<and>
      tables_only lk v v'
    else map_in lk (tbl lk r) virt phys flags v = None"
proof -
  let ?w = "phys AND PAGE_MASK OR flags OR PTE_TYPE_PAGE" and ?b = "label_at r 3 (vpn virt)"
  let ?L = "L \<union> path r (vpn virt)"
  obtain lab n where t: "tree lk v lab n" and L: "L = lab ` {..<n}"
    using rel by (auto simp: vm_rel_def)
  note walk = walk_create_spec [OF t L r, of virt]
  show ?thesis
  proof (cases "card ?L \<le> cap lk")
    case False
    then show ?thesis using walk by (simp add: map_in_walk_create)
  next
    case True
    with walk obtain u m con lab' n' where w:
      "walk_create lk (tbl lk r) virt v = Some (tbl lk (at_label lab' n' ?b), u, m, con)"
      "next_ok lk u n'" "links lk m lab' n'" "lab' ` {..<n'} = ?L"
      "tables_only lk v (u, m, con)" "same_ptes lk L (fst (snd v)) m"
      by (fastforce simp: tree_def)
    have b: "?b \<in> lab' ` {..<n'}" unfolding w(4) by (simp add: path_def)
    let ?m = "store64 m (entry_addr (tbl lk (at_label lab' n' ?b)) (VA_L3_INDEX virt)) ?w"
    note leaf = leaf_store [OF w(2,3) b, where w = ?w]
    have roots: "(r', 0, 0) \<in> L" if "(r', 0, 0) \<in> ?L" for r'
      using that by (auto simp: path_def label_at_def)
    have "vm_rel lk (u, ?m, con) ?L (set_pte r (vpn virt) ?w F)"
      unfolding vm_rel_def
    proof (intro conjI allI impI)
      show "\<exists>lab n. tree lk (u, ?m, con) lab n \<and> ?L = lab ` {..<n}"
        using leaf(1) w(2,4) by (auto simp: tree_def)
      fix r' va assume r': "(r', 0, 0) \<in> ?L"
      have "pte_of m (tbl lk r') va = F r' (vpn va)"
        using w(6) roots [OF r'] vm_rel_pte [OF rel] by (simp add: same_ptes_def)
      then show "pte_of (fst (snd (u, ?m, con))) (tbl lk r') va = set_pte r (vpn virt) ?w F r' (vpn va)"
        using leaf(2) [of r' va] r' by (auto simp: w(4) set_pte_def)
    qed
    moreover have "tables_only lk (u, m, con) (u, ?m, con)"
      using leaf(3) by (auto simp: tables_only_def intro: exI [of _ "next_page_table u"])
    ultimately show ?thesis
      using w(1,5) True by (auto simp: map_in_walk_create intro: tables_only_trans)
  qed
qed

end
