(* ===== verification/Address_Spaces.thy ===== *)
theory Address_Spaces
  imports Page_Tables
begin

text \<open>
  The mapping functions of \<^verbatim>\<open>mm/mmu.c\<close> against the abstract page tables: whole ranges (through an
  interface that the kernel and the user loop both implement), new user roots, the identity map
  that \<^verbatim>\<open>mmu_init\<close> builds, unmapping and the software translation.
\<close>

section \<open>Ranges of pages\<close>

text \<open>
  \<^verbatim>\<open>map_range\<close> and \<^verbatim>\<open>mmu_map_user_range\<close> are the same loop over two page operations. The interface
  is the contract of the page operation under a root \<open>r\<close>, for addresses below \<open>bound\<close>, and the
  loop's unfolding; the client is the contract of the whole range.
\<close>

definition range_paths :: "nat \<Rightarrow> nat \<Rightarrow> nat \<Rightarrow> label set" where
  "range_paths r p n = (\<Union>x \<in> {p..<p + n}. path r x)"

definition fill_ptes :: "nat \<Rightarrow> nat \<Rightarrow> nat \<Rightarrow> u64 \<Rightarrow> u64 \<Rightarrow> ptes \<Rightarrow> ptes" where
  "fill_ptes r p n phys flags F = F(r := (\<lambda>x.
     if p \<le> x \<and> x < p + n then (phys + of_nat (4096 * (x - p))) AND PAGE_MASK OR flags OR PTE_TYPE_PAGE
     else F r x))"

lemma range_paths_0 [simp]: "range_paths r p 0 = {}"
  by (simp add: range_paths_def)

lemma range_paths_Suc: "range_paths r p (Suc n) = path r p \<union> range_paths r (Suc p) n"
proof -
  have "{p..<p + Suc n} = insert p {Suc p..<Suc p + n}" by auto
  then show ?thesis by (simp add: range_paths_def)
qed

lemma fill_ptes_0 [simp]: "fill_ptes r p 0 phys flags F = F"
  unfolding fill_ptes_def by (intro ext) auto

lemma fill_ptes_Suc:
  "fill_ptes r p (Suc n) phys flags F =
   fill_ptes r (Suc p) n (phys + 4096) flags (set_pte r p (phys AND PAGE_MASK OR flags OR PTE_TYPE_PAGE) F)"
  (is "?l = ?r")
proof (intro ext)
  fix r' x
  consider "r' = r" "x = p" | "r' = r" "Suc p \<le> x" | "r' \<noteq> r \<or> x < p" by linarith
  then show "?l r' x = ?r r' x"
  proof cases
    case 2
    then have "4096 * (x - p) = 4096 + 4096 * (x - Suc p)" by simp
    then have "phys + of_nat (4096 * (x - p)) = phys + 4096 + of_nat (4096 * (x - Suc p))"
      by (simp only: of_nat_add of_nat_numeral add.assoc)
    then show ?thesis using 2 by (auto simp: fill_ptes_def set_pte_def)
  qed (auto simp: fill_ptes_def set_pte_def)
qed

lemma path_finite [simp]: "finite (path r p)" "finite (range_paths r p n)"
  by (simp_all add: path_def range_paths_def)

locale page_mapper =
  fixes lk :: linker and r :: nat and good :: "vm \<Rightarrow> bool" and bound :: nat
    and map1 :: "u64 \<Rightarrow> u64 \<Rightarrow> u64 \<Rightarrow> vm \<Rightarrow> vm option"
    and loop :: "u64 \<Rightarrow> u64 \<Rightarrow> u64 \<Rightarrow> u64 \<Rightarrow> vm \<Rightarrow> vm option"
  assumes map1_refines: "vm_rel lk v L F \<Longrightarrow> (r, 0, 0) \<in> L \<Longrightarrow> good v \<Longrightarrow> unat virt < bound \<Longrightarrow>
      if card (L \<union> path r (vpn virt)) \<le> cap lk
      then \<exists>v'. map1 virt phys flags v = Some v' \<and>
        vm_rel lk v' (L \<union> path r (vpn virt))
          (set_pte r (vpn virt) (phys AND PAGE_MASK OR flags OR PTE_TYPE_PAGE) F) \<and>
        tables_only lk v v'
      else map1 virt phys flags v = None"
    and good_kept: "good v \<Longrightarrow> tables_only lk v v' \<Longrightarrow> good v'"
    and loop_unfold: "loop va pa e flags v =
      (if va < e then map1 va pa flags v \<bind> loop (va + PAGE_SIZE) (pa + PAGE_SIZE) e flags
       else Some v)"
    and bound48: "bound \<le> 2 ^ 48"
begin

lemma loop_refines:
  "vm_rel lk v L F \<Longrightarrow> (r, 0, 0) \<in> L \<Longrightarrow> good v \<Longrightarrow> 4096 * (p + n) \<le> bound \<Longrightarrow>
   if card (L \<union> range_paths r p n) \<le> cap lk
   then \<exists>v'. loop (of_nat (4096 * p)) phys (of_nat (4096 * (p + n))) flags v = Some v' \<and>
     vm_rel lk v' (L \<union> range_paths r p n) (fill_ptes r p n phys flags F) \<and> tables_only lk v v'
   else loop (of_nat (4096 * p)) phys (of_nat (4096 * (p + n))) flags v = None"
proof (induction n arbitrary: p phys v L F)
  case 0
  have "card L \<le> cap lk" using 0(1) by (rule vm_rel_used)
  then show ?case using 0 by (subst loop_unfold) auto
next
  case (Suc n)
  let ?va = "of_nat (4096 * p) :: u64" and ?e = "of_nat (4096 * (p + Suc n)) :: u64"
  let ?L = "L \<union> path r p"
  have lt: "4096 * p + 4096 * Suc n \<le> 2 ^ 48" using Suc.prems(4) bound48 by (simp add: algebra_simps)
  have va: "unat ?va = 4096 * p" and e: "unat ?e = 4096 * (p + Suc n)"
    using lt by (intro unat_of_nat_small; simp)+
  have less: "?va < ?e" unfolding word_less_nat_alt va e by simp
  have p: "vpn ?va = p" unfolding vpn_def va using lt by simp
  have nextva: "?va + PAGE_SIZE = of_nat (4096 * Suc p)" by (simp add: PAGE_SIZE_eq)
  have un: "L \<union> range_paths r p (Suc n) = ?L \<union> range_paths r (Suc p) n"
    by (auto simp: range_paths_Suc)
  have fin: "finite L" using Suc.prems(1) by (rule vm_rel_used)
  have "unat ?va < bound" using Suc.prems(4) va by simp
  note step = map1_refines [OF Suc.prems(1-3) this, of phys flags, unfolded p]
  have unfold: "loop ?va phys ?e flags v = map1 ?va phys flags v \<bind>
      loop (of_nat (4096 * Suc p)) (phys + 4096) ?e flags"
    by (subst loop_unfold, simp only: less if_True nextva, simp only: PAGE_SIZE_eq)
  show ?case
  proof (cases "card ?L \<le> cap lk")
    case False
    moreover have "card ?L \<le> card (L \<union> range_paths r p (Suc n))"
      unfolding un using fin by (intro card_mono) auto
    ultimately show ?thesis using step unfold by simp
  next
    case True
    with step obtain v1 where v1: "map1 ?va phys flags v = Some v1"
      "vm_rel lk v1 ?L (set_pte r p (phys AND PAGE_MASK OR flags OR PTE_TYPE_PAGE) F)"
      "tables_only lk v v1" by auto
    have "good v1" using good_kept Suc.prems(3) v1(3) by blast
    moreover have "(r, 0, 0) \<in> ?L" using Suc.prems(2) by simp
    moreover have "4096 * (Suc p + n) \<le> bound" using Suc.prems(4) by simp
    ultimately have IH: "if card (?L \<union> range_paths r (Suc p) n) \<le> cap lk
      then \<exists>v'. loop (of_nat (4096 * Suc p)) (phys + 4096) (of_nat (4096 * (Suc p + n))) flags v1 = Some v' \<and>
        vm_rel lk v' (?L \<union> range_paths r (Suc p) n) (fill_ptes r p (Suc n) phys flags F) \<and>
        tables_only lk v1 v'
      else loop (of_nat (4096 * Suc p)) (phys + 4096) (of_nat (4096 * (Suc p + n))) flags v1 = None"
      unfolding fill_ptes_Suc using Suc.IH [OF v1(2)] by blast
    have "4096 * (Suc p + n) = 4096 * (p + Suc n)" by simp
    with IH show ?thesis
      unfolding unfold un v1(1) bind.bind_lunit using v1(3) by (auto intro: tables_only_trans split: if_splits)
  qed
qed

end

text \<open>The pages a byte range touches: the first one and their number.\<close>

definition page_count :: "u64 \<Rightarrow> u64 \<Rightarrow> nat" where
  "page_count virt sz = (unat virt + unat sz + 4095) div 4096 - unat virt div 4096"

lemma page_align_down_nat: "page_align_down a = of_nat (4096 * (unat a div 4096))"
proof (rule word_unat_eq_iff [THEN iffD2])
  have "4096 * (unat a div 4096) < 2 ^ 64"
    using unat_u64_lt [of a] by (intro le_less_trans [OF times_div_less_eq_dividend]) simp
  then show "unat (page_align_down a) = unat (of_nat (4096 * (unat a div 4096)) :: u64)"
    by (subst unat_of_nat_small) (simp_all add: page_align_down_def unat_and_PAGE_MASK)
qed

lemma page_align_up_nat:
  assumes "unat a + 4095 < 2 ^ 64"
  shows "page_align_up a = of_nat (4096 * ((unat a + 4095) div 4096))"
proof -
  have eq: "a + PAGE_SIZE - 1 = a + 4095" by (simp add: PAGE_SIZE_eq)
  have "unat (a + 4095) = unat a + 4095"
    using assms by (subst unat_add_no_wrap) simp_all
  then show ?thesis
    using page_align_down_nat [of "a + 4095"]
    unfolding page_align_up_def page_align_down_def eq by simp
qed

lemma round_up_le: "x \<le> 4096 * k \<Longrightarrow> 4096 * ((x + 4095) div 4096) \<le> 4096 * (k :: nat)"
proof -
  assume "x \<le> 4096 * k"
  then have "x + 4095 < Suc k * 4096" by simp
  then have "(x + 4095) div 4096 < Suc k" by (rule less_mult_imp_div_less)
  then show ?thesis by simp
qed

lemma range_ends:
  assumes "unat virt + unat sz \<le> b" "b \<le> 2 ^ 48" "4096 dvd b"
  shows "page_align_up (virt + sz) = of_nat (4096 * (unat virt div 4096 + page_count virt sz))"
    and "4096 * (unat virt div 4096 + page_count virt sz) \<le> b"
proof -
  have sum: "unat (virt + sz) = unat virt + unat sz"
    using assms by (intro unat_add_no_wrap) simp
  have e: "unat virt div 4096 + page_count virt sz = (unat virt + unat sz + 4095) div 4096"
    unfolding page_count_def by (intro le_add_diff_inverse div_le_mono) simp
  show "page_align_up (virt + sz) = of_nat (4096 * (unat virt div 4096 + page_count virt sz))"
    unfolding e using assms(1,2) sum by (subst page_align_up_nat) auto
  show "4096 * (unat virt div 4096 + page_count virt sz) \<le> b"
    unfolding e using assms(1,3) by (elim dvdE) (simp only: round_up_le)
qed

lemma tbl_nonzero:
  assumes "vm_rel lk v L F" "(r, 0, 0) \<in> L"
  shows "tbl lk r \<noteq> 0"
proof -
  obtain lab n where "tree lk v lab n" "(r, 0, 0) \<in> lab ` {..<n}"
    using assms by (auto simp: vm_rel_def)
  then have "lk_ok lk" "r \<le> cap lk"
    using at_label_root [of lk _ lab n r] at_label(1) [of "(r, 0, 0)" lab n]
    by (auto simp: tree_def next_ok_def)
  then show ?thesis using unat_tbl [of lk r] by (auto simp: lk_ok_def unat_eq_zero)
qed

interpretation kernel_map: page_mapper lk r "\<lambda>v. kernel_pgd (fst v) = tbl lk r" "2 ^ 48"
  "map_page lk" "map_range_loop lk"
  for lk r
proof unfold_locales
  fix v L F virt phys flags
  assume rel: "vm_rel lk v L F" "(r, 0, 0) \<in> L" and k: "kernel_pgd (fst v) = tbl lk r"
  have eq: "map_page lk virt phys flags v = map_in lk (tbl lk r) virt phys flags v"
    using k tbl_nonzero [OF rel] by (cases v) (simp add: map_page_def)
  show "if card (L \<union> path r (vpn virt)) \<le> cap lk
      then \<exists>v'. map_page lk virt phys flags v = Some v' \<and>
        vm_rel lk v' (L \<union> path r (vpn virt))
          (set_pte r (vpn virt) (phys AND PAGE_MASK OR flags OR PTE_TYPE_PAGE) F) \<and>
        tables_only lk v v'
      else map_page lk virt phys flags v = None"
    unfolding eq by (rule map_in_refines [OF rel])
next
  show "kernel_pgd (fst v') = tbl lk r" if "kernel_pgd (fst v) = tbl lk r" "tables_only lk v v'" for v v'
    using that by (auto simp: tables_only_def)
qed (subst map_range_loop.simps, simp_all)

interpretation user_map: page_mapper lk r "\<lambda>_. True" "2 ^ 39"
  "mmu_map_user_page lk (tbl lk r)" "map_user_range_loop lk (tbl lk r)"
  for lk r
proof unfold_locales
  fix v L F phys flags and virt :: u64
  assume rel: "vm_rel lk v L F" "(r, 0, 0) \<in> L" and "unat virt < 2 ^ 39"
  then have eq: "mmu_map_user_page lk (tbl lk r) virt phys flags v = map_in lk (tbl lk r) virt phys flags v"
    using tbl_nonzero [OF rel]
    by (cases v) (simp add: mmu_map_user_page_def USER_VA_SIZE_def USER_VA_BITS_def word_le_nat_alt)
  show "if card (L \<union> path r (vpn virt)) \<le> cap lk
      then \<exists>v'. mmu_map_user_page lk (tbl lk r) virt phys flags v = Some v' \<and>
        vm_rel lk v' (L \<union> path r (vpn virt))
          (set_pte r (vpn virt) (phys AND PAGE_MASK OR flags OR PTE_TYPE_PAGE) F) \<and>
        tables_only lk v v'
      else mmu_map_user_page lk (tbl lk r) virt phys flags v = None"
    unfolding eq by (rule map_in_refines [OF rel])
qed (simp, subst map_user_range_loop.simps, simp_all)

lemma map_range_refines:
  assumes "vm_rel lk v L F" "(r, 0, 0) \<in> L" "kernel_pgd (fst v) = tbl lk r"
    and "unat virt + unat sz \<le> 2 ^ 48"
  defines "p \<equiv> unat virt div 4096" and "n \<equiv> page_count virt sz"
  shows "if card (L \<union> range_paths r p n) \<le> cap lk
    then \<exists>v'. map_range lk virt phys sz flags v = Some v' \<and>
      vm_rel lk v' (L \<union> range_paths r p n) (fill_ptes r p n (page_align_down phys) flags F) \<and>
      tables_only lk v v'
    else map_range lk virt phys sz flags v = None"
proof -
  have "(4096 :: nat) dvd 2 ^ 48" by simp
  note ends = range_ends [OF assms(4) order_refl this, folded p_def n_def]
  show ?thesis
    unfolding map_range_def page_align_down_nat [of virt] ends(1) p_def [symmetric]
    using kernel_map.loop_refines [OF assms(1-3) ends(2)] .
qed

lemma map_user_range_refines:
  assumes "vm_rel lk v L F" "(r, 0, 0) \<in> L" and "unat virt + unat sz \<le> 2 ^ 39"
  defines "p \<equiv> unat virt div 4096" and "n \<equiv> page_count virt sz"
  shows "if card (L \<union> range_paths r p n) \<le> cap lk
    then \<exists>v'. mmu_map_user_range lk (tbl lk r) virt phys sz flags v = Some v' \<and>
      vm_rel lk v' (L \<union> range_paths r p n) (fill_ptes r p n (page_align_down phys) flags F) \<and>
      tables_only lk v v'
    else mmu_map_user_range lk (tbl lk r) virt phys sz flags v = None"
proof -
  have "(2 :: nat) ^ 39 \<le> 2 ^ 48" "(4096 :: nat) dvd 2 ^ 39" by simp_all
  note ends = range_ends [OF assms(3) this, folded p_def n_def]
  show ?thesis
    unfolding mmu_map_user_range_def page_align_down_nat [of virt] ends(1) p_def [symmetric]
    using user_map.loop_refines [OF assms(1,2) TrueI ends(2)] .
qed

section \<open>A new root\<close>

lemma no_root_above:
  assumes "links lk m lab n" "c < n" "lab c = (n, 0, 0) \<or> (\<exists>i. unat i < 512 \<and> lab c = child (n, 0, 0) (unat (i :: u64)))"
  shows False
proof -
  have root: "\<not> lab k = (n, 0, 0)" if "k < n" for k
    using assms(1) that unfolding links_def by (metis fst_conv snd_conv less_irrefl)
  with assms obtain i :: u64 where i: "unat i < 512" "lab c = child (n, 0, 0) (unat i)" by blast
  then have "child (n, 0, 0) (unat i) \<in> lab ` {..<n}" using assms(2) by (metis imageI lessThan_iff)
  then have "(n, 0, 0) \<in> lab ` {..<n}" using i(1) by (rule label_at_up [OF assms(1)])
  then show False using root by (metis imageE lessThan_iff)
qed

lemma links_root:
  fixes m :: mem
  assumes ok: "next_ok lk u n" "n < cap lk" and links: "links lk m lab n"
  shows "links lk (fst (memset m (tbl lk n) 0 4096)) (lab(n := (n, 0, 0))) (Suc n)"
    (is "links lk ?m ?lab (Suc n)")
proof -
  have lk: "lk_ok lk" using ok by (simp add: next_ok_def)
  note ent = cleared_table [OF lk ok(2), where m = m]
  have img: "?lab ` {..<Suc n} = insert (n, 0, 0) (lab ` {..<n})" by (auto simp: lessThan_Suc)
  have inj: "inj_on ?lab {..<Suc n}"
  proof -
    have "inj_on ?lab {..<n}" using links by (simp add: links_def inj_on_def)
    moreover have "?lab n \<notin> ?lab ` ({..<n} - {n})" using no_root_above [OF links] by fastforce
    ultimately show ?thesis by (simp add: lessThan_Suc)
  qed
  have par: "\<exists>k<n. \<exists>i :: u64. unat i < 512 \<and> lab c = child (lab k) (unat i)"
    if "c < n" "level (lab c) > 0" for c
    using links that unfolding links_def by blast
  have parents: "\<exists>k'<Suc n. \<exists>j :: u64. unat j < 512 \<and> ?lab c = child (?lab k') (unat j)"
    if c: "c < Suc n" "level (?lab c) > 0" for c
  proof -
    have "c < n" using c by (cases "c = n") auto
    then obtain k' and j :: u64 where "k' < n" "unat j < 512" "lab c = child (lab k') (unat j)"
      using c par [of c] by auto
    then show ?thesis using \<open>c < n\<close> by (intro exI [of _ k'] conjI exI [of _ j]) auto
  qed
  have root: "level (?lab k') = 0 \<longrightarrow> ?lab k' = (k', 0, 0)" if "k' < Suc n" for k'
    using links that unfolding links_def by (cases "k' = n") auto
  have entry: "(\<forall>c<Suc n. ?lab c = child (?lab k') (unat j) \<longrightarrow>
           load64 ?m (entry_addr (tbl lk k') j) = tbl lk c OR 3) \<and>
        (child (?lab k') (unat j) \<notin> ?lab ` {..<Suc n} \<longrightarrow>
           load64 ?m (entry_addr (tbl lk k') j) AND PTE_VALID = 0)"
    if k': "k' < Suc n" "level (?lab k') < 3" "unat j < 512" for k' and j :: u64
  proof (cases "k' = n")
    case True
    have "load64 ?m (entry_addr (tbl lk n) j) = 0" using ent(1) k'(3) by blast
    moreover have "(n, 0, 0) \<noteq> child (n, 0, 0) (unat j)" by (simp add: child_def)
    moreover have "lab c \<noteq> child (n, 0, 0) (unat j)" if "c < n" for c
      using no_root_above [OF links that] k'(3) by blast
    ultimately show ?thesis using True by (auto simp: less_Suc_eq)
  next
    case False
    then have k'n: "k' < n" and k'l: "level (lab k') < 3" using k' by auto
    have "load64 ?m (entry_addr (tbl lk k') j) = load64 m (entry_addr (tbl lk k') j)"
      using ent(2) k'n k'(3) by blast
    moreover have "child (lab k') (unat j) \<noteq> (n, 0, 0)" by (simp add: child_def)
    ultimately show ?thesis
      using False links_entry [OF links k'n k'l k'(3)] unfolding img by (auto simp: less_Suc_eq)
  qed
  show ?thesis unfolding links_def using inj root parents entry by blast
qed

lemma alloc_root_refines:
  assumes rel: "vm_rel lk v L F"
  shows "if card L < cap lk
    then \<exists>v'. alloc_page_table lk v = Some (tbl lk (card L), v') \<and>
      vm_rel lk v' (insert (card L, 0, 0) L) (F(card L := (\<lambda>_. 0))) \<and> (card L, 0, 0) \<notin> L \<and>
      tables_only lk v v'
    else alloc_page_table lk v = None"
proof -
  obtain lab n u m con where v: "v = (u, m, con)" and ok: "next_ok lk u n" and links: "links lk m lab n"
    and L: "L = lab ` {..<n}" using rel by (cases v) (auto simp: vm_rel_def tree_def)
  have card: "card L = n" using links by (simp add: L links_def card_image)
  note run = alloc_page_table_spec [OF ok, of m con, folded v]
  show ?thesis
  proof (cases "n < cap lk")
    case False
    then show ?thesis using run card by simp
  next
    case room: True
    let ?m = "fst (memset m (tbl lk n) 0 4096)" and ?u = "u\<lparr>next_page_table := tbl lk (Suc n)\<rparr>"
    let ?lab = "lab(n := (n, 0, 0))"
    have lk: "lk_ok lk" using ok by (simp add: next_ok_def)
    have ok': "next_ok lk ?u (Suc n)" using room lk by (simp add: next_ok_def)
    note links' = links_root [OF ok room links]
    have img: "?lab ` {..<Suc n} = insert (n, 0, 0) L" by (auto simp: lessThan_Suc L)
    have fresh: "(n, 0, 0) \<notin> L" using no_root_above [OF links] by (fastforce simp: L)
    have pte: "pte_of ?m (tbl lk r) va = (F(n := (\<lambda>_. 0))) r (vpn va)"
      if r: "(r, 0, 0) \<in> insert (n, 0, 0) L" for r va
    proof -
      let ?b = "label_at r 3 (vpn va)"
      have "(r, 0, 0) \<in> ?lab ` {..<Suc n}" using r img by simp
      note p' = pte_of_links [OF ok' links' this, of va]
      have b: "?b \<noteq> (n, 0, 0)" by (simp add: label_at_def)
      show ?thesis
      proof (cases "r = n")
        case True
        have "?b \<notin> L"
        proof
          assume "?b \<in> L"
          then have "(n, 0, 0) \<in> L"
            unfolding True L label_at_step
            using label_at_up [OF links] VA_INDEX_less [of va] by blast
          with fresh show False ..
        qed
        then show ?thesis using p' b True unfolding img by simp
      next
        case False
        then have rL: "(r, 0, 0) \<in> lab ` {..<n}" using r by (simp add: L)
        note p = pte_of_links [OF ok links rL, of va]
        have "pte_of ?m (tbl lk r) va = pte_of m (tbl lk r) va"
        proof (cases "?b \<in> L")
          case True
          then have bL: "?b \<in> lab ` {..<n}" by (simp add: L)
          then show ?thesis
            using p p' b True cleared_table(2) [OF lk room at_label(1) [OF bL] VA_INDEX_less(4)]
              at_label_extend [OF links bL links'] unfolding img by (simp add: L)
        next
          case False
          then show ?thesis using p p' b unfolding img by (simp add: L)
        qed
        then show ?thesis using vm_rel_pte [OF rel, of r va] rL False by (simp add: v L)
      qed
    qed
    have "tree lk (?u, ?m, con) ?lab (Suc n)" using ok' links' by (simp add: tree_def)
    then have "vm_rel lk (?u, ?m, con) (insert (n, 0, 0) L) (F(n := (\<lambda>_. 0)))"
      unfolding vm_rel_def using pte img by (metis fst_conv snd_conv)
    moreover have "tables_only lk v (?u, ?m, con)"
      using cleared_table(3) [OF lk room] by (auto simp: v tables_only_def)
    ultimately show ?thesis using run room fresh unfolding card by auto
  qed
qed

section \<open>The identity map\<close>

lemma vm_rel_cong:
  "next_page_table u = next_page_table u' \<Longrightarrow> vm_rel lk (u, m, con) L F = vm_rel lk (u', m, con') L F"
  by (simp add: vm_rel_def tree_def next_ok_def)

lemma vm_rel_empty: "lk_ok lk \<Longrightarrow> next_page_table u = 0 \<Longrightarrow> vm_rel lk (u, m, con) {} F"
  by (auto simp: vm_rel_def tree_def next_ok_def links_def intro!: exI [of _ "0 :: nat"])

lemma image_div_interval:
  fixes a b c :: nat
  assumes "0 < c" "a < b"
  shows "(\<lambda>x. x div c) ` {a..<b} = {a div c..(b - 1) div c}"
proof (intro subset_antisym subsetI)
  fix q assume q: "q \<in> {a div c..(b - 1) div c}"
  let ?x = "max a (q * c)"
  have "q * c \<le> (b - 1) div c * c" using q by simp
  also have "\<dots> \<le> b - 1" by (rule div_times_less_eq_dividend)
  finally have "?x \<in> {a..<b}" using assms by auto
  moreover have "?x div c = q"
  proof (cases "q * c \<le> a")
    case True
    then have "q \<le> a div c" using assms(1) by (simp add: less_eq_div_iff_mult_less_eq)
    then show ?thesis using q True by (simp add: max_def)
  qed (use assms in \<open>simp add: max_def\<close>)
  ultimately show "q \<in> (\<lambda>x. x div c) ` {a..<b}" by (metis imageI)
qed (auto intro!: div_le_mono)

lemma range_paths_intervals:
  assumes "0 < n"
  shows "range_paths r p n = Pair r `
    (Pair 1 ` {p div 512 ^ 3..(p + n - 1) div 512 ^ 3} \<union> Pair 2 ` {p div 512 ^ 2..(p + n - 1) div 512 ^ 2} \<union>
     Pair 3 ` {p div 512..(p + n - 1) div 512})"
proof -
  have "range_paths r p n = Pair r `
      (Pair 1 ` (\<lambda>x. x div 512 ^ 3) ` {p..<p + n} \<union> Pair 2 ` (\<lambda>x. x div 512 ^ 2) ` {p..<p + n} \<union>
       Pair 3 ` (\<lambda>x. x div 512) ` {p..<p + n})"
    by (auto simp: range_paths_def path_def label_at_def region_def)
  then show ?thesis using assms by (simp add: image_div_interval)
qed

definition id_pte :: "nat \<Rightarrow> u64" where
  "id_pte p =
     (if 0x40000 \<le> p \<and> p < 0x44000 then of_nat (4096 * p) OR PAGE_KERNEL_RWX OR PTE_TYPE_PAGE
      else if 0x8000 \<le> p \<and> p < 0x8012 \<or> p = 0x9000 then of_nat (4096 * p) OR PAGE_DEVICE OR PTE_TYPE_PAGE
      else 0)"

definition id_labels :: "label set" where
  "id_labels = Pair 0 ` (insert (0, 0) (Pair 1 ` {0} \<union> Pair 2 ` {0, 1} \<union> Pair 3 ` ({64, 72} \<union> {512..543})))"

lemma card_id_labels: "card id_labels = 38" "finite id_labels"
proof -
  have "card (Pair (3 :: nat) ` ({64, 72} \<union> {512..543 :: nat})) = 34"
    by (subst card_image) (simp_all add: inj_on_def card_Un_disjoint)
  moreover have "card (Pair (2 :: nat) ` {0, 1 :: nat}) = 2" "card (Pair (1 :: nat) ` {0 :: nat}) = 1"
    by (simp_all add: card_image inj_on_def)
  ultimately have "card (insert (0, 0) (Pair 1 ` {0} \<union> Pair 2 ` {0, 1} \<union> Pair (3 :: nat) ` ({64, 72} \<union> {512..543 :: nat}))) = 38"
    by (subst card_insert_disjoint; (subst card_Un_disjoint)?; (subst card_Un_disjoint)?; auto)
  then show "card id_labels = 38" unfolding id_labels_def by (subst card_image) (simp_all add: inj_on_def)
qed (simp add: id_labels_def)

lemma id_ranges:
  "{(0, 0, 0)} \<union> range_paths 0 0x40000 0x4000 \<union> range_paths 0 0x9000 1 \<union> range_paths 0 0x8000 16 \<union>
   range_paths 0 0x8010 2 = id_labels"
  unfolding id_labels_def by (auto simp: range_paths_intervals)

lemma page_counts:
  "page_count DRAM_BASE (64 * 1024 * 1024) = 0x4000" "unat DRAM_BASE div 4096 = 0x40000"
  "page_count UART0_BASE PAGE_SIZE = 1" "unat UART0_BASE div 4096 = 0x9000"
  "page_count GIC_DIST_BASE (64 * 1024) = 16" "unat GIC_DIST_BASE div 4096 = 0x8000"
  "page_count GIC_CPU_BASE (8 * 1024) = 2" "unat GIC_CPU_BASE div 4096 = 0x8010"
  by (simp_all add: page_count_def DRAM_BASE_def UART0_BASE_def GIC_DIST_BASE_def GIC_CPU_BASE_def
      PAGE_SIZE_eq)

lemma id_fill:
  assumes "unat base = 4096 * p0" "p0 \<le> p" "p < 2 ^ 36"
  shows "(page_align_down base + of_nat (4096 * (p - p0))) AND PAGE_MASK = of_nat (4096 * p)"
proof -
  have "base = of_nat (4096 * p0)" unfolding assms(1) [symmetric] by simp
  moreover have "take_bit 12 base = 0" using assms(1) by (simp add: aligned_unat)
  then have "page_align_down base = base"
    by (simp add: page_align_down_def and_PAGE_MASK_aligned)
  ultimately have "page_align_down base + of_nat (4096 * (p - p0)) = of_nat (4096 * p0 + 4096 * (p - p0))"
    by (simp only: of_nat_add)
  also have "4096 * p0 + 4096 * (p - p0) = 4096 * p" using assms(2) by simp
  finally have eq: "page_align_down base + of_nat (4096 * (p - p0)) = of_nat (4096 * p)" .
  have "unat (of_nat (4096 * p) :: u64) = 4096 * p" using assms(3) by (intro unat_of_nat_small) simp
  then have "take_bit 12 (of_nat (4096 * p) :: u64) = 0" by (simp add: aligned_unat del: of_nat_mult)
  then show ?thesis unfolding eq by (rule and_PAGE_MASK_aligned)
qed

lemma id_ptes:
  "fill_ptes 0 0x8010 2 (page_align_down GIC_CPU_BASE) PAGE_DEVICE
    (fill_ptes 0 0x8000 16 (page_align_down GIC_DIST_BASE) PAGE_DEVICE
      (fill_ptes 0 0x9000 1 (page_align_down UART0_BASE) PAGE_DEVICE
        (fill_ptes 0 0x40000 0x4000 (page_align_down DRAM_BASE) PAGE_KERNEL_RWX (\<lambda>_ _. 0)))) 0 = id_pte"
  (is "?F 0 = _")
proof
  fix p :: nat
  have base: "unat GIC_CPU_BASE = 4096 * 0x8010" "unat GIC_DIST_BASE = 4096 * 0x8000"
    "unat UART0_BASE = 4096 * 0x9000" "unat DRAM_BASE = 4096 * 0x40000"
    by (simp_all add: DRAM_BASE_def UART0_BASE_def GIC_DIST_BASE_def GIC_CPU_BASE_def)
  consider "0x8010 \<le> p" "p < 0x8012" | "0x8000 \<le> p" "p < 0x8010" | "p = 0x9000"
    | "0x40000 \<le> p" "p < 0x44000"
    | "p < 0x8000 \<or> 0x8012 \<le> p \<and> p < 0x9000 \<or> 0x9000 < p \<and> p < 0x40000 \<or> 0x44000 \<le> p"
    by linarith
  then show "?F 0 p = id_pte p"
  proof cases
    case 1 then show ?thesis using id_fill [OF base(1), of p] by (simp add: fill_ptes_def id_pte_def)
  next
    case 2 then show ?thesis using id_fill [OF base(2), of p] by (simp add: fill_ptes_def id_pte_def)
  next
    case 3 then show ?thesis using id_fill [OF base(3), of p] by (simp add: fill_ptes_def id_pte_def)
  next
    case 4 then show ?thesis using id_fill [OF base(4), of p] by (simp add: fill_ptes_def id_pte_def)
  next
    case 5 then show ?thesis by (auto simp: fill_ptes_def id_pte_def)
  qed
qed

lemma map_range_step:
  assumes "vm_rel lk v L F" "(0, 0, 0) \<in> L" "kernel_pgd (fst v) = tbl lk 0"
    and "unat virt + unat sz \<le> 2 ^ 48" "unat virt div 4096 = p" "page_count virt sz = n"
    and "L \<union> range_paths 0 p n \<subseteq> id_labels" "38 \<le> cap lk"
  obtains u' m' where "map_range lk virt phys sz flags v = Some (u', m', snd (snd v))"
    "vm_rel lk (u', m', con) (L \<union> range_paths 0 p n) (fill_ptes 0 p n (page_align_down phys) flags F)"
    "tables_only lk v (u', m', snd (snd v))"
proof -
  have "card (L \<union> range_paths 0 p n) \<le> 38"
    using card_mono [OF card_id_labels(2) assms(7)] card_id_labels(1) by simp
  then have "card (L \<union> range_paths 0 p n) \<le> cap lk" using assms(8) by simp
  with map_range_refines [OF assms(1-4), of phys flags, unfolded assms(5,6)]
  obtain v' where v': "map_range lk virt phys sz flags v = Some v'"
    "vm_rel lk v' (L \<union> range_paths 0 p n) (fill_ptes 0 p n (page_align_down phys) flags F)"
    "tables_only lk v v'" by auto
  moreover have "v' = (fst v', fst (snd v'), snd (snd v))"
    using v'(3) by (auto simp: tables_only_def prod_eq_iff)
  ultimately show thesis using that vm_rel_cong by metis
qed

lemma create_identity_mapping_spec:
  assumes rel: "vm_rel lk (u, m, con) {(0, 0, 0)} (\<lambda>_ _. 0)" and k: "kernel_pgd u = tbl lk 0"
    and cap: "38 \<le> cap lk"
  shows "\<exists>u' m' con' F. create_identity_mapping lk (u, m, con) = Some (u', m', con') \<and>
    vm_rel lk (u', m', con') id_labels F \<and> F 0 = id_pte \<and> (\<exists>x. u' = u\<lparr>next_page_table := x\<rparr>) \<and>
    (\<forall>x. \<not> in_space lk x \<longrightarrow> m' x = m x)"
proof -
  let ?L1 = "{(0, 0, 0)} \<union> range_paths 0 0x40000 0x4000"
  let ?L2 = "?L1 \<union> range_paths 0 0x9000 1" let ?L3 = "?L2 \<union> range_paths 0 0x8000 16"
  note sub = id_ranges [THEN equalityD1]
  let ?say = "\<lambda>items con. print items con"
  define c0 where "c0 = print [S ''Creating identity mappings...'', NL, S ''  Mapping DRAM (64MB)... ''] con"
  define c1 where "c1 = print [S ''OK'', NL, S ''  Mapping UART... ''] c0"
  define c2 where "c2 = print [S ''OK'', NL, S ''  Mapping GIC Distributor... ''] c1"
  define c3 where "c3 = print [S ''OK'', NL, S ''  Mapping GIC CPU Interface... ''] c2"
  have r0: "vm_rel lk (u, m, c0) {(0, 0, 0)} (\<lambda>_ _. 0)" using rel vm_rel_cong by metis
  have k0: "kernel_pgd (fst (u, m, c0)) = tbl lk 0" using k by simp
  have b: "unat DRAM_BASE + unat (64 * 1024 * 1024 :: u64) \<le> 2 ^ 48"
    "unat UART0_BASE + unat PAGE_SIZE \<le> 2 ^ 48" "unat GIC_DIST_BASE + unat (64 * 1024 :: u64) \<le> 2 ^ 48"
    "unat GIC_CPU_BASE + unat (8 * 1024 :: u64) \<le> 2 ^ 48"
    by (simp_all add: DRAM_BASE_def UART0_BASE_def GIC_DIST_BASE_def GIC_CPU_BASE_def PAGE_SIZE_eq)
  obtain u1 m1 where 1: "map_range lk DRAM_BASE DRAM_BASE (64 * 1024 * 1024) PAGE_KERNEL_RWX (u, m, c0) = Some (u1, m1, c0)"
    "vm_rel lk (u1, m1, c1) ?L1 (fill_ptes 0 0x40000 0x4000 (page_align_down DRAM_BASE) PAGE_KERNEL_RWX (\<lambda>_ _. 0))"
    "tables_only lk (u, m, c0) (u1, m1, c0)"
    by (rule map_range_step [OF r0 _ k0 b(1) page_counts(2,1) _ cap, of DRAM_BASE PAGE_KERNEL_RWX c1])
      (use sub in auto)
  have k1: "kernel_pgd (fst (u1, m1, c1)) = tbl lk 0" using 1(3) k by (auto simp: tables_only_def)
  obtain u2 m2 where 2: "map_range lk UART0_BASE UART0_BASE PAGE_SIZE PAGE_DEVICE (u1, m1, c1) = Some (u2, m2, c1)"
    "vm_rel lk (u2, m2, c2) ?L2 (fill_ptes 0 0x9000 1 (page_align_down UART0_BASE) PAGE_DEVICE
      (fill_ptes 0 0x40000 0x4000 (page_align_down DRAM_BASE) PAGE_KERNEL_RWX (\<lambda>_ _. 0)))"
    "tables_only lk (u1, m1, c1) (u2, m2, c1)"
    by (rule map_range_step [OF 1(2) _ k1 b(2) page_counts(4,3) _ cap, of UART0_BASE PAGE_DEVICE c2])
      (use sub in auto)
  have k2: "kernel_pgd (fst (u2, m2, c2)) = tbl lk 0" using 2(3) k1 by (auto simp: tables_only_def)
  obtain u3 m3 where 3: "map_range lk GIC_DIST_BASE GIC_DIST_BASE (64 * 1024) PAGE_DEVICE (u2, m2, c2) = Some (u3, m3, c2)"
    "vm_rel lk (u3, m3, c3) ?L3 (fill_ptes 0 0x8000 16 (page_align_down GIC_DIST_BASE) PAGE_DEVICE
      (fill_ptes 0 0x9000 1 (page_align_down UART0_BASE) PAGE_DEVICE
      (fill_ptes 0 0x40000 0x4000 (page_align_down DRAM_BASE) PAGE_KERNEL_RWX (\<lambda>_ _. 0))))"
    "tables_only lk (u2, m2, c2) (u3, m3, c2)"
    by (rule map_range_step [OF 2(2) _ k2 b(3) page_counts(6,5) _ cap, of GIC_DIST_BASE PAGE_DEVICE c3])
      (use sub in auto)
  have k3: "kernel_pgd (fst (u3, m3, c3)) = tbl lk 0" using 3(3) k2 by (auto simp: tables_only_def)
  obtain u4 m4 where 4: "map_range lk GIC_CPU_BASE GIC_CPU_BASE (8 * 1024) PAGE_DEVICE (u3, m3, c3) = Some (u4, m4, c3)"
    "vm_rel lk (u4, m4, print [S ''OK'', NL] c3) (?L3 \<union> range_paths 0 0x8010 2) (fill_ptes 0 0x8010 2 (page_align_down GIC_CPU_BASE) PAGE_DEVICE
      (fill_ptes 0 0x8000 16 (page_align_down GIC_DIST_BASE) PAGE_DEVICE
      (fill_ptes 0 0x9000 1 (page_align_down UART0_BASE) PAGE_DEVICE
      (fill_ptes 0 0x40000 0x4000 (page_align_down DRAM_BASE) PAGE_KERNEL_RWX (\<lambda>_ _. 0)))))"
    "tables_only lk (u3, m3, c3) (u4, m4, c3)"
    by (rule map_range_step [OF 3(2) _ k3 b(4) page_counts(8,7) _ cap, of GIC_CPU_BASE PAGE_DEVICE "print [S ''OK'', NL] c3"])
      (use sub in auto)
  have "create_identity_mapping lk (u, m, con) = Some (u4, m4, print [S ''OK'', NL] c3)"
    unfolding create_identity_mapping_def Let_def fst_conv snd_conv c0_def [symmetric] 1(1) bind.bind_lunit
      c1_def [symmetric] 2(1) c2_def [symmetric] 3(1) c3_def [symmetric] 4(1) ..
  moreover have "\<exists>x. u4 = u\<lparr>next_page_table := x\<rparr>"
    using 1(3) 2(3) 3(3) 4(3) by (auto simp: tables_only_def)
  moreover have "\<forall>x. \<not> in_space lk x \<longrightarrow> m4 x = m x"
    using 1(3) 2(3) 3(3) 4(3) by (simp add: tables_only_def)
  ultimately show ?thesis using 4(2) [unfolded id_ranges] id_ptes by blast
qed

lemma tbl_0: "tbl lk 0 = pt_start lk"
  by (simp add: tbl_def)

lemma mmu_init_spec:
  assumes lk: "lk_ok lk" "38 \<le> cap lk" and u: "next_page_table u = 0"
  shows "\<exists>u' m' con' F. mmu_init lk (u, m, con) = Some (u', m', con') \<and>
    vm_rel lk (u', m', con') id_labels F \<and> F 0 = id_pte \<and> kernel_pgd u' = pt_start lk \<and>
    current_user_pgd u' = current_user_pgd u \<and> (\<forall>x. \<not> in_space lk x \<longrightarrow> m' x = m x) \<and>
    ttbr0_el1 u' = 0 \<and> ttbr1_el1 u' = pt_start lk \<and> tcr_el1 u' = TCR_VALUE \<and>
    mair_el1 u' = MAIR_VALUE \<and> sctlr_el1 u' = sctlr_el1 u OR 0x1005"
proof -
  define con1 where "con1 = print [NL, S ''========================================'', NL,
    S ''Initializing MMU'', NL, S ''========================================'', NL,
    S ''Allocating page tables...'', NL] con"
  have "vm_rel lk (u, m, con1) {} (\<lambda>_ _. 0)" using lk(1) u by (rule vm_rel_empty)
  from alloc_root_refines [OF this] lk(2) obtain u1 m1 where 1:
    "alloc_page_table lk (u, m, con1) = Some (tbl lk 0, u1, m1, con1)"
    "vm_rel lk (u1, m1, con1) {(0, 0, 0)} ((\<lambda>_ _. 0)(0 := (\<lambda>_. 0)))"
    "tables_only lk (u, m, con1) (u1, m1, con1)"
    by (auto simp: tables_only_def)
  let ?u1 = "u1\<lparr>kernel_pgd := tbl lk 0\<rparr>"
  define con2 where "con2 = print [S ''  PGD: '', X (tbl lk 0), NL] con1"
  have F0: "(\<lambda>_ _. 0)(0 := (\<lambda>_. 0)) = ((\<lambda>_ _. 0) :: ptes)" by (simp add: fun_eq_iff)
  have "vm_rel lk (?u1, m1, con2) {(0, 0, 0)} (\<lambda>_ _. 0)"
    using 1(2) vm_rel_cong [of u1 ?u1 lk m1 con1 _ _ con2] unfolding F0 by simp
  from create_identity_mapping_spec [OF this _ lk(2)] have "\<exists>u' m' con' F.
      create_identity_mapping lk (?u1, m1, con2) = Some (u', m', con') \<and>
      vm_rel lk (u', m', con') id_labels F \<and> F 0 = id_pte \<and> (\<exists>x. u' = ?u1\<lparr>next_page_table := x\<rparr>) \<and>
      (\<forall>x. \<not> in_space lk x \<longrightarrow> m' x = m1 x)" by simp
  then obtain u2 m2 con3 F where 2:
    "create_identity_mapping lk (?u1, m1, con2) = Some (u2, m2, con3)"
    "vm_rel lk (u2, m2, con3) id_labels F" "F 0 = id_pte"
    "\<exists>x. u2 = ?u1\<lparr>next_page_table := x\<rparr>" "\<forall>x. \<not> in_space lk x \<longrightarrow> m2 x = m1 x" by blast
  obtain u3 con4 where 3: "mmu_enable (u2, m2, con3) = (u3, m2, con4)"
    and u3: "u3 = u2\<lparr>ttbr0_el1 := 0, ttbr1_el1 := kernel_pgd u2, tcr_el1 := TCR_VALUE,
      mair_el1 := MAIR_VALUE, sctlr_el1 := sctlr_el1 u2 OR (SCTLR_M OR SCTLR_C OR SCTLR_I),
      maint_log := maint_log u2 @ [ISB]\<rparr>"
    by (simp add: mmu_enable_def Let_def)
  obtain con5 where run: "mmu_init lk (u, m, con) = Some (u3, m2, con5)"
    using 1(1) 2(1) 3 by (simp add: mmu_init_def con1_def [symmetric] con2_def [symmetric])
  have "vm_rel lk (u3, m2, con5) id_labels F"
    using 2(2) vm_rel_cong [of u2 u3 lk m2 con3 id_labels F con5] u3 by simp
  moreover have "\<exists>x. u1 = u\<lparr>next_page_table := x\<rparr>" "\<forall>x. \<not> in_space lk x \<longrightarrow> m1 x = m x"
    using 1(3) by (auto simp: tables_only_def)
  moreover have "SCTLR_M OR SCTLR_C OR SCTLR_I = 0x1005"
    by (simp add: SCTLR_M_def SCTLR_C_def SCTLR_I_def)
  ultimately show ?thesis using run 2(3-5) u3 tbl_0 [of lk] by auto
qed

section \<open>Unmapping and the software translation\<close>

lemma unmap_page_refines:
  assumes rel: "vm_rel lk v L F" and r: "(r, 0, 0) \<in> L" and k: "kernel_pgd (fst v) = tbl lk r"
  shows "vm_rel lk (unmap_page virt v) L (set_pte r (vpn virt) 0 F)"
    and "maint_log (fst (unmap_page virt v)) = maint_log (fst v) @
      (if label_at r 3 (vpn virt) \<in> L then [TLBI_VAAE1IS (drop_bit 12 virt), DSB, ISB] else [])"
proof -
  obtain lab n u m con where v: "v = (u, m, con)" and ok: "next_ok lk u n" and links: "links lk m lab n"
    and L: "L = lab ` {..<n}" using rel by (cases v) (auto simp: vm_rel_def tree_def)
  have r': "(r, 0, 0) \<in> lab ` {..<n}" using r L by simp
  have k': "kernel_pgd u = tbl lk r" "tbl lk r \<noteq> 0" using k v tbl_nonzero [OF rel r] by auto
  note walk = walk_links [OF ok links r', of virt]
  let ?b = "label_at r 3 (vpn virt)"
  have "vm_rel lk (unmap_page virt v) L (set_pte r (vpn virt) 0 F) \<and>
    maint_log (fst (unmap_page virt v)) = maint_log (fst v) @
      (if ?b \<in> L then [TLBI_VAAE1IS (drop_bit 12 virt), DSB, ISB] else [])"
  proof (cases "?b \<in> L")
    case False
    have "F r (vpn virt) = 0"
      using vm_rel_pte [OF rel r, of virt] walk False by (simp add: v pte_of_def L)
    then have "set_pte r (vpn virt) 0 F = F" by (auto simp: set_pte_def fun_eq_iff)
    moreover have "unmap_page virt v = v"
      using walk False k' by (simp add: unmap_page_def v L)
    ultimately show ?thesis using rel False by simp
  next
    case True
    then have b: "?b \<in> lab ` {..<n}" by (simp add: L)
    let ?e = "entry_addr (tbl lk (at_label lab n ?b)) (VA_L3_INDEX virt)"
    let ?u = "u\<lparr>maint_log := maint_log u @ [TLBI_VAAE1IS (drop_bit 12 virt), DSB, ISB]\<rparr>"
    note leaf = leaf_store [OF ok links b, where w = 0]
    have run: "unmap_page virt v = (?u, store64 m ?e 0, con)"
      using walk b k' by (simp add: unmap_page_def v)
    have "tree lk (?u, store64 m ?e 0, con) lab n"
      using leaf(1) ok by (simp add: tree_def next_ok_def)
    then have "vm_rel lk (?u, store64 m ?e 0, con) L (set_pte r (vpn virt) 0 F)"
      using L leaf(2) vm_rel_pte [OF rel] unfolding vm_rel_def set_pte_def v by auto
    then show ?thesis unfolding run using True by (simp add: v)
  qed
  then show "vm_rel lk (unmap_page virt v) L (set_pte r (vpn virt) 0 F)"
    "maint_log (fst (unmap_page virt v)) = maint_log (fst v) @
      (if ?b \<in> L then [TLBI_VAAE1IS (drop_bit 12 virt), DSB, ISB] else [])" by blast+
qed

lemma mmu_get_physical_pte:
  "mmu_get_physical m pgd va =
     (if pgd = 0 \<or> pte_of m pgd va AND PTE_VALID = 0 then 0
      else pte_of m pgd va AND PAGE_MASK OR va AND NOT PAGE_MASK)"
  by (auto simp: mmu_get_physical_def pte_of_def Let_def split: option.split)

lemma pte_word:
  "(phys AND PAGE_MASK OR flags OR PTE_TYPE_PAGE) AND PTE_VALID \<noteq> 0"
  "(phys AND PAGE_MASK OR flags OR PTE_TYPE_PAGE) AND PAGE_MASK = phys AND PAGE_MASK OR flags AND PAGE_MASK"
proof -
  have three: "PTE_TYPE_PAGE = mask 2" by (simp add: PTE_TYPE_PAGE_def mask_eq_exp_minus_1)
  have "bit ((phys AND PAGE_MASK OR flags OR PTE_TYPE_PAGE) AND PTE_VALID) 0"
    unfolding PTE_VALID_def three by (auto simp: bit_simps)
  then show "(phys AND PAGE_MASK OR flags OR PTE_TYPE_PAGE) AND PTE_VALID \<noteq> 0" by auto
  show "(phys AND PAGE_MASK OR flags OR PTE_TYPE_PAGE) AND PAGE_MASK = phys AND PAGE_MASK OR flags AND PAGE_MASK"
    unfolding PAGE_MASK_eq three by (rule bit_eqI) (auto simp: bit_simps)
qed

section \<open>Properties\<close>

text \<open>
  C19: in a table space of at least 38 pages, \<^verbatim>\<open>mmu_init\<close> succeeds and uses exactly 38 tables; the
  kernel tables then map the 64 MB of DRAM, the UART page and the GIC pages onto themselves with
  the intended attributes and nothing else (every other address reads a zero entry), TTBR1 holds
  the kernel root, and memory outside the table space is untouched.
\<close>
theorem mmu_init_identity:
  assumes "lk_ok lk" "38 \<le> cap lk" "next_page_table u = 0"
  shows "\<exists>u' m' con'. mmu_init lk (u, m, con) = Some (u', m', con') \<and>
    kernel_pgd u' = pt_start lk \<and> ttbr1_el1 u' = pt_start lk \<and> ttbr0_el1 u' = 0 \<and>
    next_page_table u' = pt_start lk + 38 * 4096 \<and>
    (\<forall>va. pte_of m' (pt_start lk) va = id_pte (vpn va)) \<and>
    (\<forall>x. in_space lk x \<or> m' x = m x)"
proof -
  obtain u' m' con' F where i: "mmu_init lk (u, m, con) = Some (u', m', con')"
    "vm_rel lk (u', m', con') id_labels F" "F 0 = id_pte" "kernel_pgd u' = pt_start lk"
    "ttbr0_el1 u' = 0" "ttbr1_el1 u' = pt_start lk" "\<forall>x. \<not> in_space lk x \<longrightarrow> m' x = m x"
    using mmu_init_spec [OF assms] by blast
  have "(0, 0, 0) \<in> id_labels" by (simp add: id_labels_def)
  then have "\<forall>va. pte_of m' (pt_start lk) va = id_pte (vpn va)"
    using vm_rel_pte [OF i(2), of 0] i(3) by (simp add: tbl_0)
  moreover have "next_page_table u' = pt_start lk + 38 * 4096"
    using vm_rel_used(4) [OF i(2)] card_id_labels by (auto simp: tbl_def id_labels_def)
  ultimately show ?thesis using i by blast
qed

text \<open>
  C6: \<^verbatim>\<open>map_page\<close> implements the abstract table update: it halts exactly when the tables the walk
  is missing do not fit, and otherwise changes the entry of its own page, in the kernel root, to
  the frame, the flags and the page type, leaves every other page of every root and all memory
  outside the table space as it was, and keeps the tables well-formed.
\<close>
theorem map_page_refines:
  assumes "vm_rel lk v L F" "(r, 0, 0) \<in> L" "kernel_pgd (fst v) = tbl lk r"
  shows "if card (L \<union> path r (vpn virt)) \<le> cap lk
    then \<exists>v'. map_page lk virt phys flags v = Some v' \<and>
      vm_rel lk v' (L \<union> path r (vpn virt))
        (set_pte r (vpn virt) (phys AND PAGE_MASK OR flags OR PTE_TYPE_PAGE) F) \<and>
      tables_only lk v v'
    else map_page lk virt phys flags v = None"
proof (cases "unat virt < 2 ^ 48")
  case True
  then show ?thesis by (rule kernel_map.map1_refines [OF assms])
next
  case False
  have "map_page lk virt phys flags v = map_in lk (tbl lk r) virt phys flags v"
    using assms(3) tbl_nonzero [OF assms(1,2)] by (cases v) (simp add: map_page_def)
  then show ?thesis using map_in_refines [OF assms(1,2), of virt phys flags] by (simp only:)
qed

text \<open>
  \<^verbatim>\<open>map_range\<close> over a byte range below \<open>2 ^ 48\<close> returns exactly when the tables for all its
  pages fit, and then every page the range touches maps to consecutive frames from the frame of
  \<open>phys\<close>, with all other pages unchanged.
\<close>
theorem map_range_fills:
  assumes "vm_rel lk v L F" "(r, 0, 0) \<in> L" "kernel_pgd (fst v) = tbl lk r"
    and "unat virt + unat sz \<le> 2 ^ 48" "p = unat virt div 4096" "n = page_count virt sz"
  shows "if card (L \<union> range_paths r p n) \<le> cap lk
    then \<exists>v'. map_range lk virt phys sz flags v = Some v' \<and>
      vm_rel lk v' (L \<union> range_paths r p n) (fill_ptes r p n (page_align_down phys) flags F) \<and>
      tables_only lk v v'
    else map_range lk virt phys sz flags v = None"
  unfolding assms(5,6) by (rule map_range_refines [OF assms(1-4)])

text \<open>
  C21: \<^verbatim>\<open>mmu_map_user_range\<close>, for a range that ends at or below \<open>2 ^ 39\<close>, fills exactly the pages of its range in the given user
  root and no page of any other root: user tables are isolated from each other and from the kernel's. It halts when the
  range needs more page tables than are left, and only then.
\<close>
theorem map_user_range_fills:
  assumes "vm_rel lk v L F" "(r, 0, 0) \<in> L" and "unat virt + unat sz \<le> 2 ^ 39"
    and "p = unat virt div 4096" "n = page_count virt sz"
  shows "if card (L \<union> range_paths r p n) \<le> cap lk
    then \<exists>v'. mmu_map_user_range lk (tbl lk r) virt phys sz flags v = Some v' \<and>
      vm_rel lk v' (L \<union> range_paths r p n) (fill_ptes r p n (page_align_down phys) flags F) \<and>
      tables_only lk v v'
    else mmu_map_user_range lk (tbl lk r) virt phys sz flags v = None"
  unfolding assms(4,5) by (rule map_user_range_refines [OF assms(1-3)])

text \<open>
  \<^verbatim>\<open>unmap_page\<close> clears the entry of its page and no other, keeps the tables, and issues the
  TLB invalidation and barriers exactly when the page's table exists.
\<close>
theorem unmap_page_clears:
  assumes "vm_rel lk v L F" "(r, 0, 0) \<in> L" "kernel_pgd (fst v) = tbl lk r"
  shows "vm_rel lk (unmap_page virt v) L (set_pte r (vpn virt) 0 F) \<and>
    maint_log (fst (unmap_page virt v)) = maint_log (fst v) @
      (if label_at r 3 (vpn virt) \<in> L then [TLBI_VAAE1IS (drop_bit 12 virt), DSB, ISB] else [])"
  using unmap_page_refines [OF assms] by blast

text \<open>
  after a page is mapped with \<^verbatim>\<open>mmu_map_user_page\<close>, \<^verbatim>\<open>mmu_get_physical\<close> returns the frame and
  the page offset, and with them the attribute bits of the flags above bit 11: it is the
  physical address only for flags without the execute-never bits 53 and 54.
\<close>
theorem get_physical_of_mapping:
  assumes "vm_rel lk v L F" "(r, 0, 0) \<in> L" "unat virt < 2 ^ 39"
    and "mmu_map_user_page lk (tbl lk r) virt phys flags v = Some v'"
  shows "mmu_get_physical (fst (snd v')) (tbl lk r) virt =
    phys AND PAGE_MASK OR flags AND PAGE_MASK OR virt AND NOT PAGE_MASK"
proof -
  let ?w = "phys AND PAGE_MASK OR flags OR PTE_TYPE_PAGE"
  have "vm_rel lk v' (L \<union> path r (vpn virt)) (set_pte r (vpn virt) ?w F)"
    using user_map.map1_refines [OF assms(1,2) TrueI assms(3), of phys flags] assms(4)
    by (auto split: if_splits)
  then have "pte_of (fst (snd v')) (tbl lk r) virt = ?w"
    using assms(2) vm_rel_pte [of lk v' _ _ r virt] by (simp add: set_pte_def)
  then show ?thesis
    using tbl_nonzero [OF assms(1,2)] by (simp add: mmu_get_physical_pte pte_word or.assoc)
qed

text \<open>
  \<^verbatim>\<open>mmu_create_user_table\<close> halts exactly when the space is full and otherwise returns the next
  free table as a new root under which no page is mapped, without disturbing any other root.
\<close>
theorem create_user_table_fresh:
  assumes "vm_rel lk v L F"
  shows "if card L < cap lk
    then \<exists>v'. mmu_create_user_table lk v = Some (tbl lk (card L), v') \<and> (card L, 0, 0) \<notin> L \<and>
      vm_rel lk v' (insert (card L, 0, 0) L) (F(card L := (\<lambda>_. 0)))
    else mmu_create_user_table lk v = None"
proof (cases "card L < cap lk")
  case True
  then obtain u m con where "alloc_page_table lk v = Some (tbl lk (card L), u, m, con)"
    "vm_rel lk (u, m, con) (insert (card L, 0, 0) L) (F(card L := (\<lambda>_. 0)))" "(card L, 0, 0) \<notin> L"
    using alloc_root_refines [OF assms] by auto
  moreover from this(2) have
    "vm_rel lk (u, m, print [S ''Created user page table at '', X (tbl lk (card L)), NL] con)
      (insert (card L, 0, 0) L) (F(card L := (\<lambda>_. 0)))"
    using vm_rel_cong [of u u] by blast
  ultimately show ?thesis using True by (simp add: mmu_create_user_table_def)
next
  case False
  then show ?thesis using alloc_root_refines [OF assms] by (simp add: mmu_create_user_table_def)
qed

section \<open>Witnesses\<close>

text \<open>A table space of 256 KB, as the linker script reserves; the state \<^verbatim>\<open>mmu_init\<close> leaves in it.\<close>

definition lk0 :: linker where
  "lk0 = \<lparr>pt_start = 0x41000000, pt_end = 0x41040000\<rparr>"

definition boot_vm :: vm where
  "boot_vm = the (mmu_init lk0 (mmu_bss 0, (\<lambda>_. 0), []))"

lemma lk0_ok: "lk_ok lk0" "cap lk0 = 64"
  by (simp_all add: lk_ok_def lk0_def cap_def aligned_unat)

lemma boot_vm_rel:
  "\<exists>F. vm_rel lk0 boot_vm id_labels F \<and> F 0 = id_pte"
  "kernel_pgd (fst boot_vm) = tbl lk0 0"
proof -
  have "next_page_table (mmu_bss 0) = 0" by (simp add: mmu_bss_def)
  moreover have "38 \<le> cap lk0" by (simp add: lk0_ok)
  ultimately obtain u' m' con' F where i: "mmu_init lk0 (mmu_bss 0, (\<lambda>_. 0), []) = Some (u', m', con')"
    "vm_rel lk0 (u', m', con') id_labels F" "F 0 = id_pte" "kernel_pgd u' = pt_start lk0"
    using mmu_init_spec [OF lk0_ok(1), of "mmu_bss 0" "\<lambda>_. 0" "[]"] by blast
  moreover from this(1) have vm: "boot_vm = (u', m', con')" by (simp add: boot_vm_def)
  ultimately show "\<exists>F. vm_rel lk0 boot_vm id_labels F \<and> F 0 = id_pte"
    "kernel_pgd (fst boot_vm) = tbl lk0 0"
    unfolding vm by (auto simp: tbl_0)
qed

lemma boot_root: "(0, 0, 0) \<in> id_labels"
  by (simp add: id_labels_def)

lemma card_path: "card (path r p) \<le> 3"
  using card_length [of "[label_at r 1 p, label_at r 2 p, label_at r 3 p]"] by (simp add: path_def)

lemma boot_room:
  assumes "L = id_labels \<or> L = insert (38, 0, 0) id_labels"
  shows "card (L \<union> path r p) \<le> cap lk0"
proof -
  have "card L \<le> 39" using assms card_id_labels by (auto simp: card_insert_if)
  then have "card (L \<union> path r p) \<le> 42"
    using card_Un_le [of L "path r p"] card_path [of r p] by linarith
  then show ?thesis by (simp add: lk0_ok)
qed

lemma range_paths_1: "range_paths r p 1 = path r p"
  using range_paths_Suc [of r p 0] by simp

text \<open>A first user root: table 38.\<close>

lemma user_vm:
  "\<exists>v F. mmu_create_user_table lk0 boot_vm = Some (tbl lk0 38, v) \<and>
     vm_rel lk0 v (insert (38, 0, 0) id_labels) F"
proof -
  obtain F where "vm_rel lk0 boot_vm id_labels F" using boot_vm_rel by blast
  from alloc_root_refines [OF this] obtain u m con F' where
    "alloc_page_table lk0 boot_vm = Some (tbl lk0 38, u, m, con)"
    "vm_rel lk0 (u, m, con) (insert (38, 0, 0) id_labels) F'"
    by (auto simp: card_id_labels lk0_ok)
  moreover from this(2) have
    "vm_rel lk0 (u, m, print [S ''Created user page table at '', X (tbl lk0 38), NL] con)
      (insert (38, 0, 0) id_labels) F'"
    using vm_rel_cong [of u u] by blast
  ultimately show ?thesis by (auto simp: mmu_create_user_table_def)
qed

theorem mmu_init_identity_witness:
  "\<exists>u' m' con'. mmu_init lk0 (mmu_bss 0, (\<lambda>_. 0), []) = Some (u', m', con') \<and>
     pte_of m' (pt_start lk0) 0x40001234 = 0x40001000 OR PAGE_KERNEL_RWX OR PTE_TYPE_PAGE \<and>
     pte_of m' (pt_start lk0) 0x7000000 = 0"
proof -
  have "38 \<le> cap lk0" "next_page_table (mmu_bss 0) = 0" by (simp_all add: lk0_ok mmu_bss_def)
  from mmu_init_identity [OF lk0_ok(1) this, of "\<lambda>_. 0" "[]"]
  obtain u' m' con' where i: "mmu_init lk0 (mmu_bss 0, (\<lambda>_. 0), []) = Some (u', m', con')"
    "\<And>va. pte_of m' (pt_start lk0) va = id_pte (vpn va)" by blast
  have "vpn 0x40001234 = 0x40001" "vpn 0x7000000 = 0x7000" by (simp_all add: vpn_def)
  then show ?thesis using i by (auto simp: id_pte_def)
qed

theorem map_page_refines_witness:
  "\<exists>v'. map_page lk0 0x50000000 0x41234567 PAGE_KERNEL_RWX boot_vm = Some v' \<and>
     pte_of (fst (snd v')) (tbl lk0 0) 0x50000000 =
       0x41234567 AND PAGE_MASK OR PAGE_KERNEL_RWX OR PTE_TYPE_PAGE"
proof -
  obtain F where F: "vm_rel lk0 boot_vm id_labels F" using boot_vm_rel by blast
  from map_page_refines [OF F boot_root boot_vm_rel(2), of "0x50000000" "0x41234567" PAGE_KERNEL_RWX]
  obtain v' where v': "map_page lk0 0x50000000 0x41234567 PAGE_KERNEL_RWX boot_vm = Some v'"
    "vm_rel lk0 v' (id_labels \<union> path 0 (vpn 0x50000000)) (set_pte 0 (vpn 0x50000000)
       (0x41234567 AND PAGE_MASK OR PAGE_KERNEL_RWX OR PTE_TYPE_PAGE) F)"
    using boot_room by (auto split: if_splits)
  have "(0, 0, 0) \<in> id_labels \<union> path 0 (vpn 0x50000000)" using boot_root by simp
  then show ?thesis using v'(1) vm_rel_pte [OF v'(2)] by (auto simp: set_pte_def)
qed

theorem map_range_fills_witness:
  "\<exists>v'. map_range lk0 0x50000000 0x41234000 100 PAGE_KERNEL_RWX boot_vm = Some v'"
proof -
  obtain F where F: "vm_rel lk0 boot_vm id_labels F" using boot_vm_rel by blast
  have b: "unat (0x50000000 :: u64) + unat (100 :: u64) \<le> 2 ^ 48"
    and p: "0x50000 = unat (0x50000000 :: u64) div 4096" and n: "1 = page_count 0x50000000 100"
    by (simp_all add: page_count_def)
  show ?thesis
    using map_range_fills [OF F boot_root boot_vm_rel(2) b p n, of "0x41234000" PAGE_KERNEL_RWX] boot_room
    unfolding range_paths_1 by (auto split: if_splits)
qed

theorem map_user_range_fills_witness:
  "\<exists>v v'. mmu_create_user_table lk0 boot_vm = Some (tbl lk0 38, v) \<and>
     mmu_map_user_range lk0 (tbl lk0 38) 0x400000 0x41234000 4096 PAGE_USER_RX v = Some v'"
proof -
  obtain v F where v: "mmu_create_user_table lk0 boot_vm = Some (tbl lk0 38, v)"
    "vm_rel lk0 v (insert (38, 0, 0) id_labels) F" using user_vm by blast
  have b: "unat (0x400000 :: u64) + unat (4096 :: u64) \<le> 2 ^ 39"
    and p: "0x400 = unat (0x400000 :: u64) div 4096" and n: "1 = page_count 0x400000 4096"
    by (simp_all add: page_count_def)
  show ?thesis
    using map_user_range_fills [OF v(2) insertI1 b p n, of "0x41234000" PAGE_USER_RX] v(1)
      boot_room [of "insert (38, 0, 0) id_labels" 38 "0x400"]
    unfolding range_paths_1 by (auto split: if_splits)
qed

theorem unmap_page_clears_witness:
  "pte_of (fst (snd (unmap_page 0x40000000 boot_vm))) (tbl lk0 0) 0x40000000 = 0"
proof -
  obtain F where F: "vm_rel lk0 boot_vm id_labels F" using boot_vm_rel by blast
  then have "vm_rel lk0 (unmap_page 0x40000000 boot_vm) id_labels (set_pte 0 (vpn 0x40000000) 0 F)"
    using unmap_page_clears [OF F boot_root boot_vm_rel(2)] by blast
  then show ?thesis using vm_rel_pte boot_root by (fastforce simp: set_pte_def)
qed

text \<open>With the flags of a user stack page the result is not the physical address.\<close>

theorem get_physical_of_mapping_witness:
  "\<exists>v v'. mmu_map_user_page lk0 (tbl lk0 38) 0x400000 0x41234000 PAGE_USER_RW v = Some v' \<and>
     mmu_get_physical (fst (snd v')) (tbl lk0 38) 0x400000 = 0x60000041234000"
proof -
  obtain v F where v: "vm_rel lk0 v (insert (38, 0, 0) id_labels) F" using user_vm by blast
  have va: "unat (0x400000 :: u64) < 2 ^ 39" by simp
  have "card (insert (38, 0, 0) id_labels \<union> path 38 (vpn 0x400000)) \<le> cap lk0"
    by (rule boot_room) simp
  with user_map.map1_refines [OF v insertI1 TrueI va, of "0x41234000" PAGE_USER_RW]
  obtain v' where v': "mmu_map_user_page lk0 (tbl lk0 38) 0x400000 0x41234000 PAGE_USER_RW v = Some v'"
    by auto
  have "(0x41234000 AND PAGE_MASK) OR (PAGE_USER_RW AND PAGE_MASK) OR (0x400000 AND NOT PAGE_MASK) = 0x60000041234000"
    by (simp add: PAGE_MASK_eq mask_eq_exp_minus_1 page_flags_defs)
  then show ?thesis
    using get_physical_of_mapping [OF v insertI1 va v'] v' by metis
qed

theorem create_user_table_fresh_witness:
  "\<exists>v'. mmu_create_user_table lk0 boot_vm = Some (tbl lk0 38, v')"
proof -
  obtain F where "vm_rel lk0 boot_vm id_labels F" using boot_vm_rel by blast
  from create_user_table_fresh [OF this] show ?thesis by (auto simp: card_id_labels lk0_ok)
qed

end
