(* ===== verification/Sched.thy ===== *)
theory Sched
  imports Context Address_Spaces
begin

text \<open>
  \<^verbatim>\<open>sched/sched.c\<close>: the task pool, the doubly linked ready queue and the round-robin scheduler.
  A \<^verbatim>\<open>struct task *\<close> is an index into the pool. The system state joins the scheduler with the
  page allocator, the page tables, memory, the console and the processor; creating and ending
  tasks is in \<open>Tasks\<close>.
\<close>

section \<open>Tasks\<close>

datatype task_state = TASK_READY | TASK_RUNNING | TASK_BLOCKED | TASK_TERMINATED

datatype task_level = TASK_KERNEL | TASK_USER

definition MAX_TASKS :: nat where "MAX_TASKS = 32"
definition TASK_STACK_SIZE :: u64 where "TASK_STACK_SIZE = 4 * 1024"
definition DEFAULT_TIME_SLICE :: u64 where "DEFAULT_TIME_SLICE = 10"

record task =
  t_id :: u32
  t_name :: string
  t_state :: task_state
  t_priority :: u32
  time_slice :: u64
  t_context :: frame
  kernel_stack_base :: u64
  kernel_stack_top :: u64
  user_stack_base :: u64
  user_stack_top :: u64
  t_page_table :: u64
  t_level :: task_level
  run_count :: u64
  total_runtime :: u64
  t_next :: "nat option"
  t_prev :: "nat option"

record sched =
  task_pool :: "nat \<Rightarrow> task"
  current_task :: "nat option"
  ready_queue_head :: "nat option"
  ready_queue_tail :: "nat option"
  next_task_id :: u32
  sched_enabled :: bool

definition task_zero :: task where
  "task_zero = \<lparr>t_id = 0, t_name = '''', t_state = TASK_READY, t_priority = 0, time_slice = 0,
     t_context = frame_zero, kernel_stack_base = 0, kernel_stack_top = 0, user_stack_base = 0,
     user_stack_top = 0, t_page_table = 0, t_level = TASK_KERNEL, run_count = 0, total_runtime = 0,
     t_next = None, t_prev = None\<rparr>"

definition sched_bss :: sched where
  "sched_bss = \<lparr>task_pool = (\<lambda>_. task_zero), current_task = None, ready_queue_head = None,
     ready_queue_tail = None, next_task_id = 1, sched_enabled = False\<rparr>"

definition upd_task :: "nat \<Rightarrow> (task \<Rightarrow> task) \<Rightarrow> sched \<Rightarrow> sched" where
  "upd_task i f s = s\<lparr>task_pool := (task_pool s)(i := f (task_pool s i))\<rparr>"

abbreviation tk :: "sched \<Rightarrow> nat \<Rightarrow> task" where
  "tk s i \<equiv> task_pool s i"

section \<open>The ready queue\<close>

definition add_to_ready_queue :: "nat \<Rightarrow> sched \<Rightarrow> sched" where
  "add_to_ready_queue i s =
     (let s = upd_task i (\<lambda>t. t\<lparr>t_next := None\<rparr>) s;
          s = upd_task i (\<lambda>t. t\<lparr>t_prev := ready_queue_tail s\<rparr>) s;
          s = (case ready_queue_tail s of None \<Rightarrow> s | Some j \<Rightarrow> upd_task j (\<lambda>t. t\<lparr>t_next := Some i\<rparr>) s);
          s = s\<lparr>ready_queue_tail := Some i\<rparr>
      in if ready_queue_head s = None then s\<lparr>ready_queue_head := Some i\<rparr> else s)"

definition remove_from_ready_queue :: "nat \<Rightarrow> sched \<Rightarrow> sched" where
  "remove_from_ready_queue i s =
     (let s = (case t_prev (tk s i) of
                 Some p \<Rightarrow> upd_task p (\<lambda>t. t\<lparr>t_next := t_next (tk s i)\<rparr>) s
               | None \<Rightarrow> s\<lparr>ready_queue_head := t_next (tk s i)\<rparr>);
          s = (case t_next (tk s i) of
                 Some n \<Rightarrow> upd_task n (\<lambda>t. t\<lparr>t_prev := t_prev (tk s i)\<rparr>) s
               | None \<Rightarrow> s\<lparr>ready_queue_tail := t_prev (tk s i)\<rparr>)
      in upd_task i (\<lambda>t. t\<lparr>t_next := None, t_prev := None\<rparr>) s)"

definition get_next_ready_task :: "sched \<Rightarrow> nat option \<times> sched" where
  "get_next_ready_task s =
     (case ready_queue_head s of
        None \<Rightarrow> (None, s)
      | Some i \<Rightarrow> (Some i, remove_from_ready_queue i s))"

section \<open>The system\<close>

record sys =
  pmm_of :: pmm
  mmu_of :: mmu
  mem_of :: mem
  con_of :: console
  sched_of :: sched
  cpu_of :: cpu

definition vm_of :: "sys \<Rightarrow> vm" where
  "vm_of k = (mmu_of k, mem_of k, con_of k)"

definition set_vm :: "vm \<Rightarrow> sys \<Rightarrow> sys" where
  "set_vm v k = (let (u, m, con) = v in k\<lparr>mmu_of := u, mem_of := m, con_of := con\<rparr>)"

definition say :: "item list \<Rightarrow> sys \<Rightarrow> sys" where
  "say items k = k\<lparr>con_of := print items (con_of k)\<rparr>"

definition on_sched :: "(sched \<Rightarrow> sched) \<Rightarrow> sys \<Rightarrow> sys" where
  "on_sched f k = k\<lparr>sched_of := f (sched_of k)\<rparr>"

section \<open>Scheduling\<close>

text \<open>
  \<^verbatim>\<open>switch_context(&old->context, &next->context)\<close>: the save goes to the pool first, so that a
  task switched to itself restores what was just saved. \<open>Switch\<close> proves that the instructions of the routine,
  with the contexts of the pool in memory, do this.
\<close>

definition switch_tasks :: "nat \<Rightarrow> nat \<Rightarrow> sys \<Rightarrow> sys" where
  "switch_tasks old new k =
     (let k = on_sched (upd_task old (\<lambda>t. t\<lparr>t_context := switch_save (cpu_of k) (t_context t)\<rparr>)) k
      in k\<lparr>cpu_of := switch_restore (t_context (tk (sched_of k) new)) (cpu_of k)\<rparr>)"

text \<open>The part of \<^verbatim>\<open>schedule\<close> from the choice of \<open>n\<close> on, for the old task \<open>c\<close>.\<close>

definition dispatch :: "nat \<Rightarrow> nat \<Rightarrow> sys \<Rightarrow> sys" where
  "dispatch c n k =
     (let k = on_sched (upd_task n (\<lambda>t. t\<lparr>t_state := TASK_RUNNING, time_slice := DEFAULT_TIME_SLICE,
                                          run_count := run_count t + 1\<rparr>)) k;
          t = tk (sched_of k) n;
          k = (if t_level t = TASK_USER \<and> t_page_table t \<noteq> 0
               then set_vm (mmu_switch_user_table (t_page_table t) (vm_of k)) k
               else if t_level t = TASK_KERNEL
               then set_vm (mmu_switch_user_table 0 (vm_of k)) k
               else k);
          k = on_sched (\<lambda>s. s\<lparr>current_task := Some n\<rparr>) k
      in switch_tasks c n k)"

text \<open>
  \<open>schedule\<close> returns whether control left by a context switch (\<open>True\<close>: the caller's next
  statement runs only when its task is resumed).
\<close>

definition schedule :: "sys \<Rightarrow> bool \<times> sys" where
  "schedule k =
     (case current_task (sched_of k) of
        None \<Rightarrow> (False, k)
      | Some c \<Rightarrow>
          if \<not> sched_enabled (sched_of k) then (False, k)
          else
            let s = sched_of k;
                s = (if time_slice (tk s c) > 0
                     then upd_task c (\<lambda>t. t\<lparr>time_slice := time_slice t - 1\<rparr>) s else s)
            in if time_slice (tk s c) = 0 \<or> t_state (tk s c) \<noteq> TASK_RUNNING
               then
                 let s = (if t_state (tk s c) = TASK_RUNNING
                          then add_to_ready_queue c
                                 (upd_task c (\<lambda>t. t\<lparr>t_state := TASK_READY,
                                                    time_slice := DEFAULT_TIME_SLICE\<rparr>) s)
                          else s);
                     (nxt, s) = get_next_ready_task s
                 in case nxt of
                      None \<Rightarrow> (False, k\<lparr>sched_of := s\<rparr>)
                    | Some n \<Rightarrow> (True, dispatch c n (k\<lparr>sched_of := s\<rparr>))
               else (False, k\<lparr>sched_of := s\<rparr>))"

definition sched_get_current :: "sys \<Rightarrow> nat option" where
  "sched_get_current k = current_task (sched_of k)"

definition task_yield :: "sys \<Rightarrow> sys" where
  "task_yield k =
     (case current_task (sched_of k) of
        None \<Rightarrow> k
      | Some c \<Rightarrow> on_sched (upd_task c (\<lambda>t. t\<lparr>time_slice := 0\<rparr>)) k)"

section \<open>The ready queue as a list\<close>

text \<open>
  The queue holds \<open>q\<close>: \<open>t_next\<close> from the head visits \<open>q\<close>, \<open>t_prev\<close> from the tail visits it
  backwards, and both end in NULL.
\<close>

definition dlist :: "sched \<Rightarrow> nat list \<Rightarrow> bool" where
  "dlist s q \<longleftrightarrow> chain (\<lambda>i. t_next (tk s i)) (ready_queue_head s) q \<and>
     chain (\<lambda>i. t_prev (tk s i)) (ready_queue_tail s) (rev q)"

text \<open>Everything of a scheduler state but the links.\<close>

definition core :: "task \<Rightarrow> task" where
  "core t = t\<lparr>t_next := None, t_prev := None\<rparr>"

definition same_core :: "sched \<Rightarrow> sched \<Rightarrow> bool" where
  "same_core s s' \<longleftrightarrow> (\<forall>i. core (tk s' i) = core (tk s i)) \<and> current_task s' = current_task s \<and>
     next_task_id s' = next_task_id s \<and> sched_enabled s' = sched_enabled s"

lemma same_coreD:
  assumes "same_core s s'"
  shows "t_id (tk s' i) = t_id (tk s i)" "t_state (tk s' i) = t_state (tk s i)"
    "time_slice (tk s' i) = time_slice (tk s i)" "t_context (tk s' i) = t_context (tk s i)"
    "kernel_stack_base (tk s' i) = kernel_stack_base (tk s i)"
    "user_stack_base (tk s' i) = user_stack_base (tk s i)" "run_count (tk s' i) = run_count (tk s i)"
    "t_page_table (tk s' i) = t_page_table (tk s i)" "t_level (tk s' i) = t_level (tk s i)"
    "t_name (tk s' i) = t_name (tk s i)" "t_priority (tk s' i) = t_priority (tk s i)"
    "current_task s' = current_task s" "sched_enabled s' = sched_enabled s"
    "next_task_id s' = next_task_id s"
proof -
  have c: "core (tk s' i) = core (tk s i)" using assms by (simp add: same_core_def)
  have f: "f (tk s' i) = f (tk s i)" if "\<And>t. f (core t) = f t" for f :: "task \<Rightarrow> 'b"
    using c that by metis
  show "t_id (tk s' i) = t_id (tk s i)" "t_state (tk s' i) = t_state (tk s i)"
    "time_slice (tk s' i) = time_slice (tk s i)" "t_context (tk s' i) = t_context (tk s i)"
    "kernel_stack_base (tk s' i) = kernel_stack_base (tk s i)"
    "user_stack_base (tk s' i) = user_stack_base (tk s i)" "run_count (tk s' i) = run_count (tk s i)"
    "t_page_table (tk s' i) = t_page_table (tk s i)" "t_level (tk s' i) = t_level (tk s i)"
    "t_name (tk s' i) = t_name (tk s i)" "t_priority (tk s' i) = t_priority (tk s i)"
    by (rule f, simp add: core_def)+
  show "current_task s' = current_task s" "sched_enabled s' = sched_enabled s"
    "next_task_id s' = next_task_id s"
    using assms by (simp_all add: same_core_def)
qed

lemma core_links [simp]: "core (t\<lparr>t_next := a\<rparr>) = core t" "core (t\<lparr>t_prev := b\<rparr>) = core t"
  by (simp_all add: core_def)

lemma upd_task_simps [simp]:
  "tk (upd_task i f s) j = (if j = i then f (tk s i) else tk s j)"
  "current_task (upd_task i f s) = current_task s"
  "ready_queue_head (upd_task i f s) = ready_queue_head s"
  "ready_queue_tail (upd_task i f s) = ready_queue_tail s"
  "next_task_id (upd_task i f s) = next_task_id s"
  "sched_enabled (upd_task i f s) = sched_enabled s"
  by (simp_all add: upd_task_def)

lemma dlist_distinct: "dlist s q \<Longrightarrow> distinct q"
  unfolding dlist_def by (blast intro: chain_distinct)

lemma dlist_head: "dlist s q \<Longrightarrow> ready_queue_head s = (case q of [] \<Rightarrow> None | x # _ \<Rightarrow> Some x)"
  by (auto simp: dlist_def split: list.split)

lemma dlist_tail: "dlist s q \<Longrightarrow> ready_queue_tail s = (if q = [] then None else Some (last q))"
  unfolding dlist_def by (cases q rule: rev_cases) auto

lemma add_to_ready_queue_spec:
  assumes d: "dlist s q" and i: "i \<notin> set q"
  shows "dlist (add_to_ready_queue i s) (q @ [i])" "same_core s (add_to_ready_queue i s)"
proof -
  let ?s = "add_to_ready_queue i s"
  show "same_core s ?s"
    by (simp add: add_to_ready_queue_def Let_def same_core_def split: option.split)
  show "dlist ?s (q @ [i])"
  proof (cases q rule: rev_cases)
    case Nil
    then show ?thesis
      using dlist_head [OF d] dlist_tail [OF d] by (simp add: dlist_def add_to_ready_queue_def Let_def)
  next
    case (snoc us j)
    have j: "j \<noteq> i" "i \<notin> set us" "j \<notin> set us" using snoc i dlist_distinct [OF d] by auto
    have tail: "ready_queue_tail s = Some j" and head: "ready_queue_head s \<noteq> None"
      using dlist_tail [OF d] dlist_head [OF d] snoc by (auto split: list.split)
    have nx: "seg (\<lambda>k. t_next (tk s k)) (ready_queue_head s) us (Some j)"
      and pv: "chain (\<lambda>k. t_prev (tk s k)) (Some j) (j # rev us)"
      using d snoc tail by (auto simp: dlist_def)
    have "seg (\<lambda>k. t_next (tk ?s k)) (ready_queue_head s) us (Some j)"
      by (subst seg_cong [where g = "\<lambda>k. t_next (tk s k)"])
        (use nx j tail head in \<open>auto simp: add_to_ready_queue_def Let_def\<close>)
    moreover have "chain (\<lambda>k. t_prev (tk ?s k)) (Some j) (j # rev us)"
      by (subst seg_cong [where g = "\<lambda>k. t_prev (tk s k)"])
        (use pv j tail head in \<open>auto simp: add_to_ready_queue_def Let_def\<close>)
    ultimately show ?thesis
      using j tail head snoc unfolding dlist_def by (auto simp: add_to_ready_queue_def Let_def)
  qed
qed

lemma remove_from_ready_queue_core: "same_core s (remove_from_ready_queue i s)"
  by (simp add: remove_from_ready_queue_def Let_def same_core_def split: option.split)

lemma remove_from_ready_queue_spec:
  assumes d: "dlist s (us @ x # vs)"
  shows "dlist (remove_from_ready_queue x s) (us @ vs)"
proof -
  let ?s = "remove_from_ready_queue x s"
  have dist: "x \<notin> set us" "x \<notin> set vs" "distinct us" "distinct vs" "set us \<inter> set vs = {}"
    using dlist_distinct [OF d] by auto
  have nx: "seg (\<lambda>k. t_next (tk s k)) (ready_queue_head s) us (Some x)"
    "chain (\<lambda>k. t_next (tk s k)) (t_next (tk s x)) vs"
    and pv: "seg (\<lambda>k. t_prev (tk s k)) (ready_queue_tail s) (rev vs) (Some x)"
    "chain (\<lambda>k. t_prev (tk s k)) (t_prev (tk s x)) (rev us)"
    using d by (auto simp: dlist_def)
  have p: "t_prev (tk s x) = (if us = [] then None else Some (last us))"
    using pv(2) by (cases us rule: rev_cases) auto
  have n: "t_next (tk s x) = (case vs of [] \<Rightarrow> None | v # _ \<Rightarrow> Some v)"
    using nx(2) by (auto split: list.split)
  have pd: "us \<noteq> [] \<Longrightarrow> last us \<noteq> x" and nd: "vs \<noteq> [] \<Longrightarrow> hd vs \<noteq> x" using dist by auto
  have next': "t_next (tk ?s k) = (if k = x then None
      else if us \<noteq> [] \<and> k = last us then t_next (tk s x) else t_next (tk s k))"
    and prev': "t_prev (tk ?s k) = (if k = x then None
      else if vs \<noteq> [] \<and> k = hd vs then t_prev (tk s x) else t_prev (tk s k))"
    and head': "ready_queue_head ?s = (if us = [] then t_next (tk s x) else ready_queue_head s)"
    and tail': "ready_queue_tail ?s = (if vs = [] then t_prev (tk s x) else ready_queue_tail s)" for k
    using p n pd nd by (auto simp: remove_from_ready_queue_def Let_def split: list.splits)
  have "chain (\<lambda>k. t_next (tk ?s k)) (ready_queue_head ?s) (us @ vs)"
  proof (cases us rule: rev_cases)
    case Nil
    have "chain (\<lambda>k. t_next (tk ?s k)) (t_next (tk s x)) vs"
      by (subst seg_cong [where g = "\<lambda>k. t_next (tk s k)"]) (use nx(2) dist Nil in \<open>auto simp: next'\<close>)
    then show ?thesis using Nil by (simp add: head')
  next
    case (snoc us' j)
    have "seg (\<lambda>k. t_next (tk ?s k)) (ready_queue_head s) us' (Some j)"
      by (subst seg_cong [where g = "\<lambda>k. t_next (tk s k)"]) (use nx(1) dist snoc in \<open>auto simp: next'\<close>)
    moreover have "chain (\<lambda>k. t_next (tk ?s k)) (t_next (tk s x)) vs"
      by (subst seg_cong [where g = "\<lambda>k. t_next (tk s k)"]) (use nx(2) dist snoc in \<open>auto simp: next'\<close>)
    ultimately show ?thesis using snoc dist by (auto simp: head' next')
  qed
  moreover have "chain (\<lambda>k. t_prev (tk ?s k)) (ready_queue_tail ?s) (rev vs @ rev us)"
  proof (cases vs)
    case Nil
    have "chain (\<lambda>k. t_prev (tk ?s k)) (t_prev (tk s x)) (rev us)"
      by (subst seg_cong [where g = "\<lambda>k. t_prev (tk s k)"]) (use pv(2) dist Nil in \<open>auto simp: prev'\<close>)
    then show ?thesis using Nil by (simp add: tail')
  next
    case (Cons j vs')
    have "seg (\<lambda>k. t_prev (tk ?s k)) (ready_queue_tail s) (rev vs') (Some j)"
      by (subst seg_cong [where g = "\<lambda>k. t_prev (tk s k)"]) (use pv(1) dist Cons in \<open>auto simp: prev'\<close>)
    moreover have "chain (\<lambda>k. t_prev (tk ?s k)) (t_prev (tk s x)) (rev us)"
      by (subst seg_cong [where g = "\<lambda>k. t_prev (tk s k)"]) (use pv(2) dist Cons in \<open>auto simp: prev'\<close>)
    ultimately show ?thesis using Cons dist by (auto simp: tail' prev')
  qed
  ultimately show ?thesis by (simp add: dlist_def)
qed

lemma get_next_ready_task_spec:
  shows "dlist s [] \<Longrightarrow> get_next_ready_task s = (None, s)"
    and "dlist s (x # q) \<Longrightarrow> get_next_ready_task s = (Some x, remove_from_ready_queue x s)"
    and "dlist s (x # q) \<Longrightarrow> dlist (remove_from_ready_queue x s) q"
  using dlist_head [of s "[]"] dlist_head [of s "x # q"] remove_from_ready_queue_spec [of s "[]" x q]
  by (auto simp: get_next_ready_task_def)

text \<open>
  The interface of the ready queue: what it holds, adding at the end, taking from the front.
  Serving a task puts it at the end and takes the first; the client fact is that \<open>k\<close> services
  rotate the queue \<open>k\<close> times, so that every waiting task is served in turn.
\<close>

locale ready_queue =
  fixes add :: "nat \<Rightarrow> 's \<Rightarrow> 's" and take_first :: "'s \<Rightarrow> nat option \<times> 's"
    and holds :: "'s \<Rightarrow> nat list \<Rightarrow> bool"
  assumes holds_distinct: "holds s q \<Longrightarrow> distinct q"
    and add_holds: "holds s q \<Longrightarrow> i \<notin> set q \<Longrightarrow> holds (add i s) (q @ [i])"
    and take_none: "holds s [] \<Longrightarrow> take_first s = (None, s)"
    and take_some: "holds s (x # q) \<Longrightarrow> \<exists>s'. take_first s = (Some x, s') \<and> holds s' q"
begin

lemma serve_rotates:
  assumes "holds s q" "c \<notin> set q"
  shows "\<exists>s'. take_first (add c s) = (Some (hd (q @ [c])), s') \<and> holds s' (tl (q @ [c]))"
proof -
  have "holds (add c s) (q @ [c])" using assms by (rule add_holds)
  moreover obtain x xs where "q @ [c] = x # xs" by (cases q) auto
  ultimately show ?thesis using take_some by auto
qed

lemma take_empty_iff: "holds s q \<Longrightarrow> fst (take_first s) = None \<longleftrightarrow> q = []"
  using take_none take_some by (cases q) fastforce+

definition serve :: "nat \<times> 's \<Rightarrow> nat \<times> 's" where
  "serve cs = (case take_first (add (fst cs) (snd cs)) of
      (None, s) \<Rightarrow> (fst cs, s) | (Some n, s) \<Rightarrow> (n, s))"

lemma serve_n:
  "holds s q \<Longrightarrow> c \<notin> set q \<Longrightarrow>
    \<exists>s'. (serve ^^ k) (c, s) = (hd (rotate k (c # q)), s') \<and> holds s' (tl (rotate k (c # q)))"
proof (induction k)
  case (Suc k)
  then obtain s' where s': "(serve ^^ k) (c, s) = (hd (rotate k (c # q)), s')"
    "holds s' (tl (rotate k (c # q)))" by blast
  let ?r = "rotate k (c # q)"
  have r: "?r = hd ?r # tl ?r" by (metis list.collapse list.distinct(1) rotate_is_Nil_conv)
  have "distinct ?r" using Suc.prems holds_distinct by simp
  then have "hd ?r \<notin> set (tl ?r)" using r by (metis distinct.simps(2))
  from serve_rotates [OF s'(2) this] obtain s'' where
    "take_first (add (hd ?r) s') = (Some (hd (tl ?r @ [hd ?r])), s'')" "holds s'' (tl (tl ?r @ [hd ?r]))"
    by blast
  moreover from this(1) have "serve (hd ?r, s') = (hd (tl ?r @ [hd ?r]), s'')"
    by (simp add: serve_def)
  moreover have "rotate (Suc k) (c # q) = tl ?r @ [hd ?r]"
    by (subst rotate_Suc, subst r) (simp only: rotate1.simps list.sel)
  moreover have "(serve ^^ Suc k) (c, s) = serve (hd ?r, s')" using s'(1) by simp
  ultimately show ?case by metis
qed simp

end

interpretation rq: ready_queue add_to_ready_queue get_next_ready_task dlist
proof unfold_locales
  show "dlist s q \<Longrightarrow> distinct q" for s q by (rule dlist_distinct)
  show "dlist s q \<Longrightarrow> i \<notin> set q \<Longrightarrow> dlist (add_to_ready_queue i s) (q @ [i])" for s q i
    by (rule add_to_ready_queue_spec)
  show "dlist s [] \<Longrightarrow> get_next_ready_task s = (None, s)" for s by (rule get_next_ready_task_spec)
  show "dlist s (x # q) \<Longrightarrow> \<exists>s'. get_next_ready_task s = (Some x, s') \<and> dlist s' q" for s x q
    using get_next_ready_task_spec(2,3) by blast
qed

lemma get_next_core: "same_core s (snd (get_next_ready_task s))"
  using remove_from_ready_queue_core
  by (auto simp: get_next_ready_task_def same_core_def split: option.split)

section \<open>The scheduler invariant\<close>

definition sched_inv :: "sched \<Rightarrow> nat list \<Rightarrow> bool" where
  "sched_inv s q \<longleftrightarrow> dlist s q \<and> sched_enabled s \<and>
     set q = {i. i < MAX_TASKS \<and> t_state (tk s i) = TASK_READY} \<and>
     (\<exists>c < MAX_TASKS. current_task s = Some c \<and> t_state (tk s c) \<in> {TASK_RUNNING, TASK_TERMINATED}) \<and>
     (\<forall>i < MAX_TASKS. (t_state (tk s i) = TASK_RUNNING \<longrightarrow> current_task s = Some i) \<and>
        t_state (tk s i) \<noteq> TASK_BLOCKED \<and> time_slice (tk s i) \<le> DEFAULT_TIME_SLICE)"

definition sched_wf :: "sched \<Rightarrow> bool" where
  "sched_wf s \<longleftrightarrow> (\<exists>q. sched_inv s q)"

text \<open>
  The abstract scheduler: the current task, whether it still runs (or has exited), the ticks left
  of its slice, and the waiting tasks in order.
\<close>

type_synonym rr = "nat \<times> bool \<times> nat \<times> nat list"

fun rr_step :: "rr \<Rightarrow> rr" where
  "rr_step (c, True, ts, q) =
     (if 1 < ts then (c, True, ts - 1, q) else (hd (q @ [c]), True, 10, tl (q @ [c])))"
| "rr_step (c, False, ts, []) = (c, False, ts - 1, [])"
| "rr_step (c, False, ts, n # q) = (n, True, 10, q)"

fun rr_switches :: "rr \<Rightarrow> bool" where
  "rr_switches (c, True, ts, q) = (\<not> 1 < ts)"
| "rr_switches (c, False, ts, q) = (q \<noteq> [])"

definition rr_rel :: "sched \<Rightarrow> rr \<Rightarrow> bool" where
  "rr_rel s a \<longleftrightarrow> (case a of (c, run, ts, q) \<Rightarrow>
     sched_inv s q \<and> current_task s = Some c \<and> run = (t_state (tk s c) = TASK_RUNNING) \<and>
     ts = unat (time_slice (tk s c)))"

lemma sched_wf_rr:
  assumes "sched_wf s"
  shows "\<exists>a. rr_rel s a"
proof -
  obtain q c where "sched_inv s q" "current_task s = Some c"
    using assms unfolding sched_wf_def sched_inv_def by blast
  then have "rr_rel s (c, t_state (tk s c) = TASK_RUNNING, unat (time_slice (tk s c)), q)"
    by (simp add: rr_rel_def)
  then show ?thesis ..
qed

lemma rr_rel_wf: "rr_rel s a \<Longrightarrow> sched_wf s"
  by (auto simp: sched_wf_def rr_rel_def split: prod.splits)

section \<open>The scheduler refines round robin\<close>

lemma set_vm_simps [simp]:
  "sched_of (set_vm v k) = sched_of k" "pmm_of (set_vm v k) = pmm_of k" "cpu_of (set_vm v k) = cpu_of k"
  by (cases v; simp add: set_vm_def)+

lemma on_sched_simps [simp]:
  "sched_of (on_sched f k) = f (sched_of k)" "pmm_of (on_sched f k) = pmm_of k"
  "cpu_of (on_sched f k) = cpu_of k" "mem_of (on_sched f k) = mem_of k"
  "mmu_of (on_sched f k) = mmu_of k" "con_of (on_sched f k) = con_of k"
  by (simp_all add: on_sched_def)

lemma switch_tasks_sched:
  "sched_of (switch_tasks c n k) =
     upd_task c (\<lambda>t. t\<lparr>t_context := switch_save (cpu_of k) (t_context (tk (sched_of k) c))\<rparr>) (sched_of k)"
  by (simp add: switch_tasks_def Let_def upd_task_def)

lemma dispatch_sched:
  "\<exists>g. sched_of (dispatch c n k) =
     upd_task c (\<lambda>t. t\<lparr>t_context := g\<rparr>)
       ((upd_task n (\<lambda>t. t\<lparr>t_state := TASK_RUNNING, time_slice := DEFAULT_TIME_SLICE,
           run_count := run_count t + 1\<rparr>) (sched_of k))\<lparr>current_task := Some n\<rparr>)"
proof -
  let ?k = "on_sched (upd_task n (\<lambda>t. t\<lparr>t_state := TASK_RUNNING, time_slice := DEFAULT_TIME_SLICE,
    run_count := run_count t + 1\<rparr>)) k"
  have "\<exists>k'. dispatch c n k = switch_tasks c n (on_sched (\<lambda>s. s\<lparr>current_task := Some n\<rparr>) k') \<and>
      sched_of k' = sched_of ?k"
    unfolding dispatch_def Let_def by (rule exI, rule conjI [OF refl]) simp
  then show ?thesis by (auto simp: switch_tasks_sched)
qed

lemma dlist_links:
  assumes "\<And>i. t_next (tk s' i) = t_next (tk s i)" "\<And>i. t_prev (tk s' i) = t_prev (tk s i)"
    and "ready_queue_head s' = ready_queue_head s" "ready_queue_tail s' = ready_queue_tail s"
  shows "dlist s' q = dlist s q"
  using assms by (simp add: dlist_def)

lemma sched_invD:
  assumes "sched_inv s q"
  shows "dlist s q" "sched_enabled s" "set q = {i. i < MAX_TASKS \<and> t_state (tk s i) = TASK_READY}"
    "i < MAX_TASKS \<Longrightarrow> t_state (tk s i) = TASK_RUNNING \<Longrightarrow> current_task s = Some i"
    "i < MAX_TASKS \<Longrightarrow> t_state (tk s i) \<noteq> TASK_BLOCKED"
    "i < MAX_TASKS \<Longrightarrow> time_slice (tk s i) \<le> DEFAULT_TIME_SLICE"
    "current_task s = Some c \<Longrightarrow> c < MAX_TASKS \<and> t_state (tk s c) \<in> {TASK_RUNNING, TASK_TERMINATED}"
  using assms unfolding sched_inv_def by (blast, blast, blast, blast, blast, blast, auto)

text \<open>Dispatching \<open>n\<close>: from any state whose ready tasks are \<open>n\<close> and the queue.\<close>

lemma dispatch_inv:
  assumes d: "dlist (sched_of k) q" and en: "sched_enabled (sched_of k)"
    and ready: "insert n (set q) = {i. i < MAX_TASKS \<and> t_state (tk (sched_of k) i) = TASK_READY}"
    and n: "n \<notin> set q"
    and norun: "\<And>i. i < MAX_TASKS \<Longrightarrow> t_state (tk (sched_of k) i) \<notin> {TASK_RUNNING, TASK_BLOCKED}"
    and ts: "\<And>i. i < MAX_TASKS \<Longrightarrow> time_slice (tk (sched_of k) i) \<le> DEFAULT_TIME_SLICE"
  shows "rr_rel (sched_of (dispatch c n k)) (n, True, 10, q)"
proof -
  obtain g where s': "sched_of (dispatch c n k) = upd_task c (\<lambda>t. t\<lparr>t_context := g\<rparr>)
       ((upd_task n (\<lambda>t. t\<lparr>t_state := TASK_RUNNING, time_slice := DEFAULT_TIME_SLICE,
           run_count := run_count t + 1\<rparr>) (sched_of k))\<lparr>current_task := Some n\<rparr>)" (is "_ = ?s")
    using dispatch_sched by blast
  have nlt: "n < MAX_TASKS" using ready by blast
  have st: "t_state (tk ?s i) = (if i = n then TASK_RUNNING else t_state (tk (sched_of k) i))"
    and sl: "time_slice (tk ?s i) = (if i = n then DEFAULT_TIME_SLICE else time_slice (tk (sched_of k) i))" for i
    by simp_all
  have "dlist ?s q"
    using d by (subst dlist_links [of _ "sched_of k"]) auto
  moreover have "set q = {i. i < MAX_TASKS \<and> t_state (tk ?s i) = TASK_READY}"
    unfolding st using ready n by (auto split: if_splits)
  moreover have "(t_state (tk ?s i) = TASK_RUNNING \<longrightarrow> current_task ?s = Some i) \<and>
      t_state (tk ?s i) \<noteq> TASK_BLOCKED \<and> time_slice (tk ?s i) \<le> DEFAULT_TIME_SLICE"
    if "i < MAX_TASKS" for i
    unfolding st sl using norun [OF that] ts [OF that] by auto
  ultimately have "sched_inv ?s q" unfolding sched_inv_def using en nlt by simp
  moreover have "current_task ?s = Some n" "t_state (tk ?s n) = TASK_RUNNING" "unat (time_slice (tk ?s n)) = 10"
    by (simp_all add: DEFAULT_TIME_SLICE_def)
  ultimately show ?thesis unfolding s' rr_rel_def by simp
qed

text \<open>The tick of the running task's slice at the start of \<^verbatim>\<open>schedule\<close>.\<close>

definition slice_tick :: "nat \<Rightarrow> sched \<Rightarrow> sched" where
  "slice_tick c s = (if time_slice (tk s c) > 0 then upd_task c (\<lambda>t. t\<lparr>time_slice := time_slice t - 1\<rparr>) s else s)"

lemma slice_tick_simps [simp]:
  "t_state (tk (slice_tick c s) i) = t_state (tk s i)" "t_next (tk (slice_tick c s) i) = t_next (tk s i)"
  "t_prev (tk (slice_tick c s) i) = t_prev (tk s i)" "ready_queue_head (slice_tick c s) = ready_queue_head s"
  "ready_queue_tail (slice_tick c s) = ready_queue_tail s" "current_task (slice_tick c s) = current_task s"
  "sched_enabled (slice_tick c s) = sched_enabled s"
  by (simp_all add: slice_tick_def)

lemma slice_tick_rel:
  assumes rel: "rr_rel s (c, run, ts, q)"
  shows "rr_rel (slice_tick c s) (c, run, ts - 1, q)"
proof -
  have inv: "sched_inv s q" and cur: "current_task s = Some c"
    and run: "run = (t_state (tk s c) = TASK_RUNNING)" and ts: "ts = unat (time_slice (tk s c))"
    using rel by (simp_all add: rr_rel_def)
  note I = sched_invD [OF inv]
  have c: "c < MAX_TASKS" "t_state (tk s c) \<in> {TASK_RUNNING, TASK_TERMINATED}" using I(7) [OF cur] by auto
  have slice: "unat (time_slice (tk (slice_tick c s) c)) = ts - 1"
    unfolding ts by (auto simp: slice_tick_def unat_minus_one word_gt_0)
  have slices: "time_slice (tk (slice_tick c s) i) \<le> DEFAULT_TIME_SLICE" if "i < MAX_TASKS" for i
  proof (cases "i = c")
    case True
    have "ts \<le> 10" using I(6) [OF c(1)] ts by (simp add: word_le_nat_alt DEFAULT_TIME_SLICE_def)
    then show ?thesis using True slice by (simp add: word_le_nat_alt DEFAULT_TIME_SLICE_def)
  qed (use I(6) [OF that] in \<open>simp add: slice_tick_def\<close>)
  have "dlist (slice_tick c s) q" using I(1) by (subst dlist_links [of _ s]) simp_all
  then show ?thesis
    unfolding rr_rel_def prod.case sched_inv_def using I(2-5) c slices slice run cur by simp
qed

lemma rr_current_notin: "rr_rel s (c, run, ts, q) \<Longrightarrow> c \<notin> set q"
proof -
  assume "rr_rel s (c, run, ts, q)"
  then have inv: "sched_inv s q" "current_task s = Some c" by (simp_all add: rr_rel_def)
  show ?thesis unfolding sched_invD(3) [OF inv(1)] using sched_invD(7) [OF inv] by auto
qed

text \<open>Both ways to switch: the queue after the choice holds the ready tasks but the chosen one.\<close>

lemma dispatch_next:
  assumes rel: "rr_rel s (c, run, ts, q)" and d: "dlist s3 q'" and fresh: "n \<notin> set q'" and en: "sched_enabled s3"
    and st: "\<And>i. t_state (tk s3 i) = (if run \<and> i = c then TASK_READY else t_state (tk s i))"
    and sl: "\<And>i. i < MAX_TASKS \<Longrightarrow> time_slice (tk s3 i) \<le> DEFAULT_TIME_SLICE"
    and set: "insert n (set q') = (if run then insert c (set q) else set q)"
  shows "rr_rel (sched_of (dispatch c n (k\<lparr>sched_of := s3\<rparr>))) (n, True, 10, q')"
proof (rule dispatch_inv)
  have inv: "sched_inv s q" and cur: "current_task s = Some c" and run: "run = (t_state (tk s c) = TASK_RUNNING)"
    using rel by (simp_all add: rr_rel_def)
  note I = sched_invD [OF inv]
  have c: "c < MAX_TASKS" "t_state (tk s c) \<in> {TASK_RUNNING, TASK_TERMINATED}" using I(7) [OF cur] by auto
  show "insert n (set q') = {i. i < MAX_TASKS \<and> t_state (tk (sched_of (k\<lparr>sched_of := s3\<rparr>)) i) = TASK_READY}"
    unfolding set using I(3) c(1) by (auto simp: st)
  show "t_state (tk (sched_of (k\<lparr>sched_of := s3\<rparr>)) i) \<notin> {TASK_RUNNING, TASK_BLOCKED}" if "i < MAX_TASKS" for i
    using I(4) [OF that] I(5) [OF that] cur run by (cases "i = c") (auto simp: st)
qed (use d fresh en sl in auto)

lemma requeue_dispatch:
  fixes c s
  defines "s2 \<equiv> upd_task c (\<lambda>t. t\<lparr>t_state := TASK_READY, time_slice := DEFAULT_TIME_SLICE\<rparr>) s"
  assumes rel: "rr_rel s (c, True, ts, q)"
  shows "\<exists>s3. get_next_ready_task (add_to_ready_queue c s2) = (Some (hd (q @ [c])), s3) \<and>
    rr_rel (sched_of (dispatch c (hd (q @ [c])) (k\<lparr>sched_of := s3\<rparr>))) (hd (q @ [c]), True, 10, tl (q @ [c]))"
proof -
  have inv: "sched_inv s q" using rel by (simp add: rr_rel_def)
  note I = sched_invD [OF inv] and cq = rr_current_notin [OF rel]
  have d2: "dlist s2 q" using I(1) unfolding s2_def by (subst dlist_links [of _ s]) auto
  from rq.serve_rotates [OF this cq] obtain s3 where
    s3: "get_next_ready_task (add_to_ready_queue c s2) = (Some (hd (q @ [c])), s3)" "dlist s3 (tl (q @ [c]))" by blast
  have "same_core s2 (add_to_ready_queue c s2)" by (rule add_to_ready_queue_spec [OF d2 cq])
  moreover have "same_core (add_to_ready_queue c s2) s3"
    using get_next_core [of "add_to_ready_queue c s2"] s3(1) by simp
  ultimately have core: "same_core s2 s3" by (simp add: same_core_def)
  have "rr_rel (sched_of (dispatch c (hd (q @ [c])) (k\<lparr>sched_of := s3\<rparr>))) (hd (q @ [c]), True, 10, tl (q @ [c]))"
  proof (rule dispatch_next [OF rel s3(2)])
    show "hd (q @ [c]) \<notin> set (tl (q @ [c]))" using dlist_distinct [OF I(1)] cq by (cases q) auto
    show "sched_enabled s3" using same_coreD(13) [OF core] I(2) by (simp add: s2_def)
    show "t_state (tk s3 i) = (if True \<and> i = c then TASK_READY else t_state (tk s i))" for i
      using same_coreD(2) [OF core, of i] by (simp add: s2_def)
    show "time_slice (tk s3 i) \<le> DEFAULT_TIME_SLICE" if "i < MAX_TASKS" for i
      using I(6) [OF that] same_coreD(3) [OF core, of i] by (simp add: s2_def)
    show "insert (hd (q @ [c])) (set (tl (q @ [c]))) = (if True then insert c (set q) else set q)"
      by (cases q) auto
  qed
  with s3(1) show ?thesis by blast
qed

lemma exited_dispatch:
  assumes rel: "rr_rel s (c, False, ts, n # q)"
  shows "\<exists>s3. get_next_ready_task s = (Some n, s3) \<and> rr_rel (sched_of (dispatch c n (k\<lparr>sched_of := s3\<rparr>))) (n, True, 10, q)"
proof -
  have inv: "sched_inv s (n # q)" using rel by (simp add: rr_rel_def)
  note I = sched_invD [OF inv]
  from rq.take_some [OF I(1)] obtain s3 where s3: "get_next_ready_task s = (Some n, s3)" "dlist s3 q" by blast
  have core: "same_core s s3" using get_next_core [of s] s3(1) by simp
  have "rr_rel (sched_of (dispatch c n (k\<lparr>sched_of := s3\<rparr>))) (n, True, 10, q)"
  proof (rule dispatch_next [OF rel s3(2)])
    show "n \<notin> set q" using dlist_distinct [OF I(1)] by simp
    show "sched_enabled s3" using same_coreD(13) [OF core] I(2) by simp
    show "time_slice (tk s3 i) \<le> DEFAULT_TIME_SLICE" if "i < MAX_TASKS" for i
      using I(6) [OF that] same_coreD(3) [OF core, of i] by simp
  qed (simp_all add: same_coreD(2) [OF core])
  with s3(1) show ?thesis by blast
qed

lemma schedule_unfold:
  assumes "current_task (sched_of k) = Some c" "sched_enabled (sched_of k)"
  shows "schedule k = (let s1 = slice_tick c (sched_of k) in
     if time_slice (tk s1 c) = 0 \<or> t_state (tk s1 c) \<noteq> TASK_RUNNING
     then let s = (if t_state (tk s1 c) = TASK_RUNNING
              then add_to_ready_queue c (upd_task c (\<lambda>t. t\<lparr>t_state := TASK_READY,
                time_slice := DEFAULT_TIME_SLICE\<rparr>) s1) else s1);
            (nxt, s) = get_next_ready_task s
        in case nxt of None \<Rightarrow> (False, k\<lparr>sched_of := s\<rparr>)
          | Some n \<Rightarrow> (True, dispatch c n (k\<lparr>sched_of := s\<rparr>))
     else (False, k\<lparr>sched_of := s1\<rparr>))"
  unfolding schedule_def using assms by (simp add: slice_tick_def [symmetric] Let_def)

lemma schedule_refines_rr:
  assumes rel: "rr_rel (sched_of k) a"
  shows "rr_rel (sched_of (snd (schedule k))) (rr_step a) \<and> fst (schedule k) = rr_switches a"
proof -
  obtain c run ts q where a: "a = (c, run, ts, q)" by (cases a)
  define s1 where "s1 = slice_tick c (sched_of k)"
  have r1: "rr_rel s1 (c, run, ts - 1, q)" unfolding s1_def by (rule slice_tick_rel [OF rel [unfolded a]])
  have f: "current_task (sched_of k) = Some c" "sched_enabled (sched_of k)" "run = (t_state (tk s1 c) = TASK_RUNNING)"
    "time_slice (tk s1 c) = 0 \<longleftrightarrow> \<not> 1 < ts"
    using rel r1 sched_invD(2) by (auto simp: a rr_rel_def s1_def unat_eq_zero)
  note step = schedule_unfold [OF f(1,2), folded s1_def]
  consider (run) "run" "1 < ts" | (expired) "run" "\<not> 1 < ts" | (exited) "\<not> run" by blast
  then show ?thesis
  proof cases
    case run
    then show ?thesis using r1 f by (simp add: a step)
  next
    case expired
    with requeue_dispatch [of s1 c "ts - 1" q k] r1 show ?thesis
      using f(3,4) by (auto simp: a step)
  next
    case exited
    show ?thesis
    proof (cases q)
      case Nil
      have "get_next_ready_task s1 = (None, s1)" using rq.take_none r1 sched_invD(1) Nil by (auto simp: rr_rel_def)
      then show ?thesis using exited f(3) r1 Nil by (simp add: a step)
    next
      case (Cons n q')
      with exited_dispatch [of s1 c "ts - 1" n q' k] r1 exited show ?thesis using f(3) by (auto simp: a step)
    qed
  qed
qed

section \<open>Fairness\<close>

definition ticks :: "nat \<Rightarrow> sys \<Rightarrow> sys" where
  "ticks n k = ((\<lambda>k. snd (schedule k)) ^^ n) k"

lemma ticks_refine: "rr_rel (sched_of k) a \<Longrightarrow> rr_rel (sched_of (ticks n k)) ((rr_step ^^ n) a)"
  unfolding ticks_def by (induction n) (simp_all add: schedule_refines_rr)

lemma rr_slice:
  "ts \<le> Suc n \<Longrightarrow> 0 < ts \<or> n = 0 \<Longrightarrow> ts = Suc n \<or> ts = 0 \<Longrightarrow>
    (rr_step ^^ Suc n) (c, True, ts, q) = (hd (q @ [c]), True, 10, tl (q @ [c]))"
proof (induction n arbitrary: ts)
  case (Suc n)
  then have "rr_step (c, True, ts, q) = (c, True, Suc n, q)" by simp
  moreover have "(rr_step ^^ Suc (Suc n)) (c, True, ts, q) = (rr_step ^^ Suc n) (rr_step (c, True, ts, q))"
    by (simp only: funpow_Suc_right o_apply)
  ultimately show ?case using Suc.IH [of "Suc n"] by simp
qed simp

lemma rr_first_slice:
  "(rr_step ^^ max 1 ts) (c, True, ts, q) = (hd (q @ [c]), True, 10, tl (q @ [c]))"
  using rr_slice [of ts "ts - 1"] rr_slice [of ts 0] by (cases "ts = 0") simp_all

lemma rr_rounds:
  "(rr_step ^^ (10 * j)) (c, True, 10, q) = (hd (rotate j (c # q)), True, 10, tl (rotate j (c # q)))"
proof (induction j)
  case (Suc j)
  let ?r = "rotate j (c # q)"
  have r: "rotate (Suc j) (c # q) = tl ?r @ [hd ?r]"
    by (metis rotate_Suc rotate1_hd_tl rotate_is_Nil_conv list.distinct(1))
  have "(rr_step ^^ (10 * Suc j)) (c, True, 10, q) = (rr_step ^^ 10) ((rr_step ^^ (10 * j)) (c, True, 10, q))"
    by (simp only: mult_Suc_right funpow_add o_apply)
  also have "\<dots> = (hd (tl ?r @ [hd ?r]), True, 10, tl (tl ?r @ [hd ?r]))"
    unfolding Suc.IH using rr_first_slice [of 10] by simp
  finally show ?case unfolding r .
qed simp

lemma rr_waiting:
  assumes "j < length q"
  shows "fst ((rr_step ^^ (max 1 ts + 10 * j)) (c, True, ts, q)) = q ! j"
proof -
  obtain x xs where q: "q = x # xs" using assms by (cases q) auto
  have "(rr_step ^^ (max 1 ts + 10 * j)) (c, True, ts, q) =
      (rr_step ^^ (10 * j)) ((rr_step ^^ max 1 ts) (c, True, ts, q))"
    by (subst add.commute) (simp only: funpow_add o_apply)
  also have "\<dots> = (rr_step ^^ (10 * j)) (x, True, 10, xs @ [c])"
    by (simp only: rr_first_slice q append_Cons list.sel)
  finally have "fst ((rr_step ^^ (max 1 ts + 10 * j)) (c, True, ts, q)) = hd (rotate j (x # xs @ [c]))"
    by (simp only: rr_rounds fst_conv)
  also have "\<dots> = (x # xs @ [c]) ! (j mod length (x # xs @ [c]))"
    by (rule hd_rotate_conv_nth) simp
  also have "\<dots> = q ! j" using assms q by (cases j) (auto simp: nth_append)
  finally show ?thesis .
qed

text \<open>
  C7: \<^verbatim>\<open>schedule\<close> is one tick of abstract round robin: a running task with more than one tick left
  keeps the processor with one tick less; otherwise it goes to the end of the queue (unless it
  has exited) and the first waiting task runs with a fresh slice of ten. The links of the queue,
  the task states and the single running task stay consistent, and control is switched exactly
  when the abstract step changes hands.
\<close>
theorem schedule_refines:
  assumes "rr_rel (sched_of k) a"
  shows "rr_rel (sched_of (snd (schedule k))) (rr_step a) \<and> fst (schedule k) = rr_switches a"
  using assms by (rule schedule_refines_rr)

text \<open>
  C18: no starvation: the task at position \<open>j\<close> of the ready queue becomes the current task after
  exactly the ticks left to the running task (at least one) and ten more for each task before it.
\<close>
theorem round_robin_bound:
  assumes "rr_rel (sched_of k) (c, True, ts, q)" "j < length q"
  shows "current_task (sched_of (ticks (max 1 ts + 10 * j) k)) = Some (q ! j)"
proof -
  obtain c' run' ts' q' where r: "(rr_step ^^ (max 1 ts + 10 * j)) (c, True, ts, q) = (c', run', ts', q')"
    by (metis prod_cases4)
  then have "c' = q ! j" using rr_waiting [OF assms(2), of ts c] by simp
  then show ?thesis using ticks_refine [OF assms(1), of "max 1 ts + 10 * j"] r by (simp add: rr_rel_def)
qed

text \<open>
  \<^verbatim>\<open>remove_from_ready_queue\<close> unlinks a task from any position of the queue, keeping the order of
  the others and both directions of the links, and changes nothing else of any task.
\<close>
theorem remove_from_queue_anywhere:
  assumes "dlist s (us @ x # vs)"
  shows "dlist (remove_from_ready_queue x s) (us @ vs) \<and> same_core s (remove_from_ready_queue x s)"
  using remove_from_ready_queue_spec [OF assms] remove_from_ready_queue_core by blast

section \<open>Witnesses\<close>

text \<open>Two tasks: kernel task 0 runs with two ticks left, user task 1 waits.\<close>

definition duo :: sched where
  "duo = sched_bss\<lparr>task_pool := (\<lambda>i. if i = 0 then task_zero\<lparr>t_state := TASK_RUNNING, time_slice := 2\<rparr>
       else if i = 1 then task_zero\<lparr>t_state := TASK_READY, t_level := TASK_USER, t_page_table := 0x40200000\<rparr> else task_zero\<lparr>t_state := TASK_TERMINATED\<rparr>),
     current_task := Some 0, ready_queue_head := Some 1, ready_queue_tail := Some 1, sched_enabled := True\<rparr>"

definition duo_sys :: sys where
  "duo_sys = \<lparr>pmm_of = pmm_bss, mmu_of = mmu_bss 0, mem_of = (\<lambda>_. 0), con_of = [], sched_of = duo,
     cpu_of = cpu_start\<rparr>"

lemma duo_rel: "rr_rel (sched_of duo_sys) (0, True, 2, [1])"
proof -
  have "dlist duo [1]" by (simp add: dlist_def duo_def task_zero_def)
  moreover have "set [1] = {i. i < MAX_TASKS \<and> t_state (tk duo i) = TASK_READY}"
    by (auto simp: duo_def task_zero_def MAX_TASKS_def split: if_splits)
  ultimately have "sched_inv duo [1]"
    unfolding sched_inv_def by (auto simp: duo_def task_zero_def MAX_TASKS_def DEFAULT_TIME_SLICE_def)
  then show ?thesis by (simp add: rr_rel_def duo_sys_def) (simp add: duo_def)
qed

theorem schedule_refines_witness:
  "\<not> fst (schedule duo_sys) \<and> current_task (sched_of (snd (schedule duo_sys))) = Some 0"
  using schedule_refines [OF duo_rel] by (simp add: rr_rel_def)

theorem round_robin_bound_witness:
  "current_task (sched_of (ticks 2 duo_sys)) = Some 1"
  using round_robin_bound [OF duo_rel, of 0] by (simp add: numeral_eq_Suc)

theorem remove_from_queue_anywhere_witness:
  "dlist (remove_from_ready_queue 1 duo) []"
proof -
  have "dlist duo ([] @ 1 # [])" by (simp add: dlist_def duo_def task_zero_def)
  from remove_from_queue_anywhere [OF this] show ?thesis by simp
qed

section \<open>What a switch changes\<close>

text \<open>The part of a task that scheduling does not touch, but for the saved context.\<close>

definition fixed :: "task \<Rightarrow> task" where
  "fixed t = t\<lparr>t_state := TASK_READY, time_slice := 0, run_count := 0, t_next := None, t_prev := None\<rparr>"

lemma fixed_upds [simp]:
  "fixed (t\<lparr>t_state := a\<rparr>) = fixed t" "fixed (t\<lparr>time_slice := b\<rparr>) = fixed t"
  "fixed (t\<lparr>run_count := n\<rparr>) = fixed t"
  by (simp_all add: fixed_def)

lemma fixed_core: "core t = core t' \<Longrightarrow> fixed t = fixed t'"
proof -
  have "fixed (core t) = fixed t" for t by (simp add: fixed_def core_def)
  then show "core t = core t' \<Longrightarrow> fixed t = fixed t'" by metis
qed

lemma fixedD:
  assumes "fixed t' = fixed t"
  shows "t_context t' = t_context t" "t_level t' = t_level t" "t_page_table t' = t_page_table t"
    "kernel_stack_base t' = kernel_stack_base t" "user_stack_base t' = user_stack_base t"
    "t_id t' = t_id t" "t_name t' = t_name t"
proof -
  have f: "f t' = f t" if "\<And>t. f (fixed t) = f t" for f :: "task \<Rightarrow> 'b"
    using assms that by metis
  show "t_context t' = t_context t" "t_level t' = t_level t" "t_page_table t' = t_page_table t"
    "kernel_stack_base t' = kernel_stack_base t" "user_stack_base t' = user_stack_base t"
    "t_id t' = t_id t" "t_name t' = t_name t"
    by (rule f, simp add: fixed_def)+
qed

lemma add_to_ready_queue_core: "same_core s (add_to_ready_queue i s)"
  by (simp add: add_to_ready_queue_def Let_def same_core_def split: option.split)

lemma schedule_dispatches:
  assumes "current_task (sched_of k) = Some c"
  shows "\<exists>s. (\<forall>i. fixed (tk s i) = fixed (tk (sched_of k) i)) \<and>
    (if fst (schedule k) then \<exists>n. snd (schedule k) = dispatch c n (k\<lparr>sched_of := s\<rparr>)
     else snd (schedule k) = k\<lparr>sched_of := s\<rparr>)"
proof (cases "sched_enabled (sched_of k)")
  case False
  then show ?thesis using assms by (intro exI [of _ "sched_of k"]) (simp add: schedule_def)
next
  case True
  let ?s = "sched_of k"
  define s1 where "s1 = (if time_slice (tk ?s c) > 0
      then upd_task c (\<lambda>t. t\<lparr>time_slice := time_slice t - 1\<rparr>) ?s else ?s)"
  define s2 where "s2 = (if t_state (tk s1 c) = TASK_RUNNING
      then add_to_ready_queue c (upd_task c (\<lambda>t. t\<lparr>t_state := TASK_READY,
             time_slice := DEFAULT_TIME_SLICE\<rparr>) s1) else s1)"
  define s3 where "s3 = snd (get_next_ready_task s2)"
  have f1: "fixed (tk s1 i) = fixed (tk ?s i)" for i by (simp add: s1_def)
  have f2: "fixed (tk s2 i) = fixed (tk ?s i)" for i
  proof (cases "t_state (tk s1 c) = TASK_RUNNING")
    case True
    let ?u = "upd_task c (\<lambda>t. t\<lparr>t_state := TASK_READY, time_slice := DEFAULT_TIME_SLICE\<rparr>) s1"
    have "core (tk (add_to_ready_queue c ?u) i) = core (tk ?u i)"
      using add_to_ready_queue_core [of ?u c] by (simp add: same_core_def)
    then have "fixed (tk s2 i) = fixed (tk ?u i)"
      unfolding s2_def if_P [OF True] by (rule fixed_core)
    then show ?thesis using f1 by simp
  qed (simp add: s2_def f1)
  have f3: "fixed (tk s3 i) = fixed (tk ?s i)" for i
    using get_next_core [of s2] f2 fixed_core unfolding s3_def same_core_def by metis
  have "schedule k = (if time_slice (tk s1 c) = 0 \<or> t_state (tk s1 c) \<noteq> TASK_RUNNING
      then case fst (get_next_ready_task s2) of None \<Rightarrow> (False, k\<lparr>sched_of := s3\<rparr>)
          | Some n \<Rightarrow> (True, dispatch c n (k\<lparr>sched_of := s3\<rparr>))
      else (False, k\<lparr>sched_of := s1\<rparr>))"
    unfolding s3_def s2_def s1_def schedule_def using assms True
    by (simp only: Let_def split_beta option.case not_True_eq_False if_False cong: option.case_cong)
  then show ?thesis using f1 f3 by (cases "fst (get_next_ready_task s2)") auto
qed

lemma dispatch_cpu:
  assumes "n \<noteq> c"
  shows "cpu_of (dispatch c n k) = switch_restore (t_context (tk (sched_of k) n)) (cpu_of k)"
    and "t_context (tk (sched_of (dispatch c n k)) c) = switch_save (cpu_of k) (t_context (tk (sched_of k) c))"
    and "current_task (sched_of (dispatch c n k)) = Some n"
    and "fixed (tk (sched_of (dispatch c n k)) n) = fixed (tk (sched_of k) n)"
  using assms by (simp_all add: dispatch_def switch_tasks_def Let_def)

lemma dispatch_mmu:
  "mmu_of (dispatch c n k) =
     (let t = tk (sched_of k) n
      in if t_level t = TASK_USER \<and> t_page_table t = 0 then mmu_of k
         else fst (mmu_switch_user_table (if t_level t = TASK_USER then t_page_table t else 0) (vm_of k)))"
  "pmm_of (dispatch c n k) = pmm_of k"
  by (cases "t_level (tk (sched_of k) n)";
      simp add: dispatch_def switch_tasks_def Let_def set_vm_def vm_of_def mmu_switch_user_table_def)+

lemma dispatch_context:
  "cpu_of (dispatch c n k) = switch_restore (t_context (tk (sched_of (dispatch c n k)) n)) (cpu_of k)"
  "t_context (tk (sched_of (dispatch c n k)) i) =
     (if i = c then switch_save (cpu_of k) (t_context (tk (sched_of k) c)) else t_context (tk (sched_of k) i))"
  "current_task (sched_of (dispatch c n k)) = Some n"
  "t_level (tk (sched_of (dispatch c n k)) i) = t_level (tk (sched_of k) i)"
  "t_page_table (tk (sched_of (dispatch c n k)) i) = t_page_table (tk (sched_of k) i)"
  by (simp_all add: dispatch_def switch_tasks_def Let_def)

text \<open>The translation root a task runs on, and the processor running on the current task's.\<close>

definition task_space :: "task \<Rightarrow> u64" where
  "task_space t = (if t_level t = TASK_USER then t_page_table t else 0)"

definition space_ok :: "sys \<Rightarrow> bool" where
  "space_ok k \<longleftrightarrow> (\<exists>c. current_task (sched_of k) = Some c \<and>
     ttbr0_el1 (mmu_of k) = task_space (tk (sched_of k) c)) \<and>
     current_user_pgd (mmu_of k) = ttbr0_el1 (mmu_of k) \<and>
     (\<forall>i < MAX_TASKS. t_level (tk (sched_of k) i) = TASK_USER \<longrightarrow> t_page_table (tk (sched_of k) i) \<noteq> 0)"

lemma rr_rel_current: "rr_rel s (c, run, ts, q) \<Longrightarrow> current_task s = Some c"
  by (simp add: rr_rel_def)

lemma rr_next:
  "rr_switches (c, run, ts, q) \<Longrightarrow> fst (rr_step (c, run, ts, q)) \<in> set q \<or> run \<and> fst (rr_step (c, run, ts, q)) = c"
  by (cases run; cases q) auto

lemma rr_next_live:
  assumes "rr_rel s (c, run, ts, q)" "rr_switches (c, run, ts, q)" "fst (rr_step (c, run, ts, q)) = n"
  shows "n < MAX_TASKS \<and> t_state (tk s n) \<noteq> TASK_TERMINATED"
proof -
  have inv: "sched_inv s q" and cur: "current_task s = Some c" and run: "run = (t_state (tk s c) = TASK_RUNNING)"
    using assms(1) by (simp_all add: rr_rel_def)
  consider "n \<in> set q" | "run" "n = c" using rr_next [OF assms(2)] assms(3) by blast
  then show ?thesis
  proof cases
    case 1
    then have "n < MAX_TASKS \<and> t_state (tk s n) = TASK_READY" using sched_invD(3) [OF inv] by blast
    then show ?thesis by simp
  next
    case 2
    then show ?thesis using sched_invD(7) [OF inv cur] run by simp
  qed
qed

lemma schedule_switch_shape:
  assumes "rr_rel (sched_of k) (c, run, ts, q)" "fst (schedule k)"
  obtains s n where "\<And>i. fixed (tk s i) = fixed (tk (sched_of k) i)"
    "snd (schedule k) = dispatch c n (k\<lparr>sched_of := s\<rparr>)" "n < MAX_TASKS"
    "t_state (tk (sched_of k) n) \<noteq> TASK_TERMINATED"
proof -
  from schedule_dispatches [OF rr_rel_current [OF assms(1)]] assms(2) obtain s n where
    s: "\<And>i. fixed (tk s i) = fixed (tk (sched_of k) i)" and
    n: "snd (schedule k) = dispatch c n (k\<lparr>sched_of := s\<rparr>)" by auto
  have r: "rr_rel (sched_of (snd (schedule k))) (rr_step (c, run, ts, q))" "rr_switches (c, run, ts, q)"
    using schedule_refines_rr [OF assms(1)] assms(2) by simp_all
  obtain c' run' ts' q' where st: "rr_step (c, run, ts, q) = (c', run', ts', q')" by (metis prod_cases4)
  have "Some n = Some c'"
    using rr_rel_current [OF r(1) [unfolded st]] by (simp add: n dispatch_context)
  then have "n < MAX_TASKS \<and> t_state (tk (sched_of k) n) \<noteq> TASK_TERMINATED"
    using rr_next_live [OF assms(1) r(2)] st by simp
  then show ?thesis using that s n by blast
qed

text \<open>
  C24: a context switch loses nothing: when \<^verbatim>\<open>schedule\<close> switches, the outgoing task's registers 0 to
  30, stack pointer and SPSR are in its saved context, with its link register as the place to go
  on; the processor carries on with the saved context of the task that is now current; and the
  saved contexts of all other tasks are untouched.
\<close>
theorem schedule_switches_context:
  assumes "rr_rel (sched_of k) (c, run, ts, q)" "fst (schedule k)"
  shows "\<exists>n. let s = sched_of k; k' = snd (schedule k); s' = sched_of k' in
    current_task s' = Some n \<and> t_state (tk s n) \<noteq> TASK_TERMINATED \<and>
    t_context (tk s' c) = switch_save (cpu_of k) (t_context (tk s c)) \<and>
    cpu_of k' = switch_restore (t_context (tk s' n)) (cpu_of k) \<and>
    (\<forall>i. i \<noteq> c \<longrightarrow> t_context (tk s' i) = t_context (tk s i))"
proof -
  obtain s n where s: "\<And>i. fixed (tk s i) = fixed (tk (sched_of k) i)"
    and n: "snd (schedule k) = dispatch c n (k\<lparr>sched_of := s\<rparr>)"
    and live: "t_state (tk (sched_of k) n) \<noteq> TASK_TERMINATED"
    using schedule_switch_shape [OF assms] by metis
  have "t_context (tk s i) = t_context (tk (sched_of k) i)" for i using fixedD(1) [OF s] .
  then show ?thesis
    unfolding Let_def n by (intro exI [of _ n]) (simp add: dispatch_context live)
qed

lemma switch_user_table_regs:
  "mmu_of (set_vm (mmu_switch_user_table p (vm_of k)) k) =
     (if p = current_user_pgd (mmu_of k) then mmu_of k
      else (mmu_of k)\<lparr>current_user_pgd := p, ttbr0_el1 := p,
             maint_log := maint_log (mmu_of k) @ [TLBI_VMALLE1IS, DSB, ISB]\<rparr>)"
  by (simp add: mmu_switch_user_table_def set_vm_def vm_of_def)

lemma dispatch_space:
  assumes "t_level (tk (sched_of k) n) = TASK_USER \<longrightarrow> t_page_table (tk (sched_of k) n) \<noteq> 0"
  shows "mmu_of (dispatch c n k) = (let p = task_space (tk (sched_of k) n) in
     if p = current_user_pgd (mmu_of k) then mmu_of k
     else (mmu_of k)\<lparr>current_user_pgd := p, ttbr0_el1 := p,
            maint_log := maint_log (mmu_of k) @ [TLBI_VMALLE1IS, DSB, ISB]\<rparr>)"
  using assms
  by (cases "t_level (tk (sched_of k) n)")
    (simp_all add: dispatch_def switch_tasks_def Let_def switch_user_table_regs task_space_def)

lemma schedule_space:
  assumes "rr_rel (sched_of k) (c, run, ts, q)" "space_ok k"
  shows "space_ok (snd (schedule k)) \<and>
    (ttbr0_el1 (mmu_of (snd (schedule k))) = ttbr0_el1 (mmu_of k) \<or>
     (\<exists>l. maint_log (mmu_of (snd (schedule k))) = l @ [TLBI_VMALLE1IS, DSB, ISB]))"
proof (cases "fst (schedule k)")
  case False
  from schedule_dispatches [OF rr_rel_current [OF assms(1)]] False obtain s where
    s: "\<And>i. fixed (tk s i) = fixed (tk (sched_of k) i)" "snd (schedule k) = k\<lparr>sched_of := s\<rparr>" by auto
  have "rr_rel s (rr_step (c, run, ts, q))" "\<not> rr_switches (c, run, ts, q)"
    using schedule_refines_rr [OF assms(1)] False s(2) by simp_all
  then have "current_task s = Some c"
    by (cases run; cases q) (auto simp: rr_rel_def split: if_splits)
  then show ?thesis
    using assms(2) rr_rel_current [OF assms(1)]
    by (simp add: s(2) space_ok_def task_space_def fixedD(2,3) [OF s(1)])
next
  case True
  obtain s n where s: "\<And>i. fixed (tk s i) = fixed (tk (sched_of k) i)"
    and n: "snd (schedule k) = dispatch c n (k\<lparr>sched_of := s\<rparr>)" and live: "n < MAX_TASKS"
    using schedule_switch_shape [OF assms(1) True] by metis
  have lp: "t_level (tk s i) = t_level (tk (sched_of k) i)"
    "t_page_table (tk s i) = t_page_table (tk (sched_of k) i)" for i
    using fixedD(2,3) [OF s] by simp_all
  have user: "t_page_table (tk s i) \<noteq> 0" if "t_level (tk s i) = TASK_USER" "i < MAX_TASKS" for i
    using assms(2) that by (simp add: space_ok_def lp)
  then have "mmu_of (snd (schedule k)) = (let p = task_space (tk s n) in
     if p = current_user_pgd (mmu_of k) then mmu_of k
     else (mmu_of k)\<lparr>current_user_pgd := p, ttbr0_el1 := p,
            maint_log := maint_log (mmu_of k) @ [TLBI_VMALLE1IS, DSB, ISB]\<rparr>)"
    unfolding n Let_def using live by (subst dispatch_space) (simp_all add: Let_def)
  moreover have "task_space (tk (sched_of (snd (schedule k))) n) = task_space (tk s n)"
    by (simp add: n task_space_def dispatch_context)
  moreover have "current_user_pgd (mmu_of k) = ttbr0_el1 (mmu_of k)" using assms(2) by (simp add: space_ok_def)
  ultimately show ?thesis
    using user by (auto simp: space_ok_def n dispatch_context Let_def)
qed

text \<open>
  C25: address spaces follow tasks: after a scheduler tick the processor translates user addresses
  with the tables of the task that is now current (none for a kernel task), and whenever the
  tables changed, the stale translations were invalidated.
\<close>
theorem schedule_switches_space:
  assumes "rr_rel (sched_of k) (c, run, ts, q)" "space_ok k"
  shows "space_ok (snd (schedule k)) \<and>
    (ttbr0_el1 (mmu_of (snd (schedule k))) = ttbr0_el1 (mmu_of k) \<or>
     (\<exists>l. maint_log (mmu_of (snd (schedule k))) = l @ [TLBI_VMALLE1IS, DSB, ISB]))"
  by (rule schedule_space [OF assms])

text \<open>One tick later the slice of task 0 is down to its last tick.\<close>

definition duo_sys1 :: sys where
  "duo_sys1 = snd (schedule duo_sys)"

lemma duo_rel1: "rr_rel (sched_of duo_sys1) (0, True, 1, [1])" "fst (schedule duo_sys1)"
proof -
  show 1: "rr_rel (sched_of duo_sys1) (0, True, 1, [1])"
    using schedule_refines_rr [OF duo_rel] by (simp add: duo_sys1_def)
  show "fst (schedule duo_sys1)" using schedule_refines_rr [OF 1] by simp
qed

lemma duo_space: "space_ok duo_sys1"
proof -
  have "schedule duo_sys = (False, duo_sys\<lparr>sched_of := upd_task 0 (\<lambda>t. t\<lparr>time_slice := time_slice t - 1\<rparr>) duo\<rparr>)"
    by (simp add: schedule_def duo_sys_def duo_def task_zero_def)
  then show ?thesis
    by (simp add: duo_sys1_def space_ok_def duo_sys_def duo_def task_zero_def task_space_def mmu_bss_def)
qed

theorem schedule_switches_context_witness:
  "\<exists>n. current_task (sched_of (snd (schedule duo_sys1))) = Some n \<and>
     cpu_of (snd (schedule duo_sys1)) =
       switch_restore (t_context (tk (sched_of (snd (schedule duo_sys1))) n)) (cpu_of duo_sys1)"
  using schedule_switches_context [OF duo_rel1] by (auto simp: Let_def)

theorem schedule_switches_space_witness:
  "space_ok (snd (schedule duo_sys1))"
  using schedule_switches_space [OF duo_rel1(1) duo_space] by blast

end
