(* ===== verification/Tasks.thy ===== *)
theory Tasks
  imports Sched
begin

text \<open>
  \<^verbatim>\<open>sched/sched.c\<close>: creating kernel and user tasks, ending and delaying a task, the scheduler's
  initialisation and its task list, with the ownership of task stacks: every stack is a page the
  allocator has handed out, and no two live tasks share one.
\<close>

section \<open>Creating tasks\<close>

text \<open>The search loop of both creators, from index \<open>i\<close> with \<open>n\<close> slots left.\<close>

fun find_slot :: "sched \<Rightarrow> nat \<Rightarrow> nat \<Rightarrow> nat option" where
  "find_slot s i 0 = None"
| "find_slot s i (Suc n) =
     (if t_state (tk s i) = TASK_TERMINATED then Some i else find_slot s (Suc i) n)"

text \<open>The name-copying loop: at most 31 characters, up to the terminator.\<close>

fun copy_name :: "nat \<Rightarrow> string \<Rightarrow> string" where
  "copy_name 0 name = ''''"
| "copy_name (Suc n) [] = ''''"
| "copy_name (Suc n) (c # cs) = (if of_char c = (0 :: u8) then '''' else c # copy_name n cs)"

definition stack_top :: "u64 \<Rightarrow> u64" where
  "stack_top base = (base + TASK_STACK_SIZE) AND NOT 0xF"

definition task_create :: "string \<Rightarrow> u64 \<Rightarrow> u64 \<Rightarrow> u32 \<Rightarrow> sys \<Rightarrow> (u32 \<times> sys) option" where
  "task_create name func arg priority k =
     (case find_slot (sched_of k) 0 MAX_TASKS of
        None \<Rightarrow> Some (0, say [S ''ERROR: No free task slots'', NL] k)
      | Some i \<Rightarrow> do {
          (stack_page, p) \<leftarrow> alloc_pages 0 (pmm_of k);
          let k = k\<lparr>pmm_of := p\<rparr>;
          case stack_page of
            None \<Rightarrow> Some (0, say [S ''ERROR: Failed to allocate task stack'', NL] k)
          | Some pg \<Rightarrow>
              let base = page_to_phys pg;
                  s = sched_of k;
                  s = upd_task i (\<lambda>t. t\<lparr>kernel_stack_base := base, t_id := next_task_id s,
                        t_name := copy_name 31 name, t_priority := priority,
                        time_slice := DEFAULT_TIME_SLICE, run_count := 0, total_runtime := 0,
                        t_level := TASK_KERNEL, t_page_table := 0, user_stack_base := 0,
                        user_stack_top := 0\<rparr>) s;
                  s = s\<lparr>next_task_id := next_task_id s + 1\<rparr>;
                  context = frame_zero\<lparr>f_elr := func, f_sp := stack_top base, f_spsr := 0x3C5,
                              gpr := (gpr frame_zero)(0 := arg)\<rparr>;
                  s = upd_task i (\<lambda>t. t\<lparr>t_context := context, kernel_stack_top := stack_top base,
                        t_state := TASK_READY\<rparr>) s;
                  s = (if sched_enabled s then add_to_ready_queue i s
                       else upd_task i (\<lambda>t. t\<lparr>t_state := TASK_RUNNING\<rparr>) (s\<lparr>current_task := Some i\<rparr>));
                  t = tk s i
              in Some (t_id t, say [S ''Created task: '', S (t_name t), S '' (ID '', X (ucast (t_id t)),
                        S '', priority '', X (ucast (t_priority t)), S '')'', NL] (k\<lparr>sched_of := s\<rparr>))
        })"

text \<open>\<^verbatim>\<open>while (order_pages < num_pages && order < 3)\<close>\<close>

fun order_loop :: "nat \<Rightarrow> u64 \<Rightarrow> u64 \<Rightarrow> nat \<times> u64" where
  "order_loop 0 n op = (3, op)"
| "order_loop (Suc left) n op = (if op < n then order_loop left n (op * 2) else (3 - Suc left, op))"

definition USER_PROG_BASE :: u64 where "USER_PROG_BASE = 0x400000"
definition USER_STACK_BASE :: u64 where "USER_STACK_BASE = 0x7FFFF000"

definition task_create_user ::
    "linker \<Rightarrow> string \<Rightarrow> u64 \<Rightarrow> u64 \<Rightarrow> u32 \<Rightarrow> sys \<Rightarrow> (u32 \<times> sys) option" where
  "task_create_user lk name binary binary_size priority k =
     (case find_slot (sched_of k) 0 MAX_TASKS of
        None \<Rightarrow> Some (0, say [S ''ERROR: No free task slots'', NL] k)
      | Some i \<Rightarrow> do {
          (kernel_stack_page, p) \<leftarrow> alloc_pages 0 (pmm_of k);
          let k = k\<lparr>pmm_of := p\<rparr>;
          case kernel_stack_page of
            None \<Rightarrow> Some (0, say [S ''ERROR: Failed to allocate kernel stack'', NL] k)
          | Some kpg \<Rightarrow> do {
              let kbase = page_to_phys kpg;
              let k = on_sched (upd_task i (\<lambda>t. t\<lparr>kernel_stack_base := kbase\<rparr>)) k;
              (user_stack_page, p) \<leftarrow> alloc_pages 0 (pmm_of k);
              let k = k\<lparr>pmm_of := p\<rparr>;
              case user_stack_page of
                None \<Rightarrow> do {
                  let k = say [S ''ERROR: Failed to allocate user stack'', NL] k;
                  p \<leftarrow> free_pages (Some kpg) 0 (pmm_of k);
                  Some (0, k\<lparr>pmm_of := p\<rparr>)
                }
              | Some upg \<Rightarrow> do {
                  let ubase = page_to_phys upg;
                  let k = on_sched (upd_task i (\<lambda>t. t\<lparr>user_stack_base := ubase\<rparr>)) k;
                  let num_pages = (binary_size + PAGE_SIZE - 1) div PAGE_SIZE;
                  let num_pages = (if num_pages = 0 then 1 else num_pages);
                  let (order, order_pages) = order_loop 3 num_pages 1;
                  (prog_pages, p) \<leftarrow> alloc_pages (int order) (pmm_of k);
                  let k = k\<lparr>pmm_of := p\<rparr>;
                  case prog_pages of
                    None \<Rightarrow> do {
                      let k = say [S ''ERROR: Failed to allocate user program pages'', NL] k;
                      p \<leftarrow> free_pages (Some kpg) 0 (pmm_of k);
                      p \<leftarrow> free_pages (Some upg) 0 p;
                      Some (0, k\<lparr>pmm_of := p\<rparr>)
                    }
                  | Some ppg \<Rightarrow> do {
                      let prog_phys = page_to_phys ppg;
                      let k = k\<lparr>mem_of := fst (memcpy (mem_of k) prog_phys binary binary_size)\<rparr>;
                      (user_pgd, v) \<leftarrow> mmu_create_user_table lk (vm_of k);
                      let k = set_vm v k;
                      if user_pgd = 0 then do {
                        let k = say [S ''ERROR: Failed to create user page table'', NL] k;
                        p \<leftarrow> free_pages (Some kpg) 0 (pmm_of k);
                        p \<leftarrow> free_pages (Some upg) 0 p;
                        p \<leftarrow> free_pages (Some ppg) (int order) p;
                        Some (0, k\<lparr>pmm_of := p\<rparr>)
                      } else do {
                        v \<leftarrow> mmu_map_user_range lk user_pgd USER_PROG_BASE prog_phys (order_pages * PAGE_SIZE)
                               PAGE_USER_RX (vm_of k);
                        v \<leftarrow> mmu_map_user_page lk user_pgd USER_STACK_BASE ubase PAGE_USER_RW v;
                        let k = set_vm v k;
                        let s = sched_of k;
                        let s = upd_task i (\<lambda>t. t\<lparr>user_stack_top := USER_STACK_BASE + PAGE_SIZE,
                              t_id := next_task_id s, t_name := copy_name 31 name,
                              t_priority := priority, time_slice := DEFAULT_TIME_SLICE,
                              run_count := 0, total_runtime := 0, t_level := TASK_USER,
                              t_page_table := user_pgd\<rparr>) s;
                        let s = s\<lparr>next_task_id := next_task_id s + 1\<rparr>;
                        let context = frame_zero\<lparr>f_elr := USER_PROG_BASE,
                              f_sp := USER_STACK_BASE + PAGE_SIZE, f_spsr := 0x3C0,
                              gpr := (gpr frame_zero)(0 := 0, 1 := 0)\<rparr>;
                        let s = upd_task i (\<lambda>t. t\<lparr>t_context := context,
                              kernel_stack_top := stack_top kbase, t_state := TASK_READY\<rparr>) s;
                        let s = (if sched_enabled s then add_to_ready_queue i s else s);
                        let t = tk s i;
                        Some (t_id t, say [S ''Created user task: '', S (t_name t), S '' (ID '',
                              X (ucast (t_id t)), S '', size '', X binary_size, S '' bytes)'', NL]
                            (k\<lparr>sched_of := s\<rparr>))
                      }
                    }
                }
            }
        })"

section \<open>Ending and delaying a task, initialisation, the task list\<close>

text \<open>
  \<open>task_exit\<close> does not return: control leaves by the switch in \<^verbatim>\<open>schedule\<close>, or stays in the final
  endless loop, which is \<open>None\<close>. Without a current task it returns at once.
\<close>

definition release_stack :: "u64 \<Rightarrow> sys \<Rightarrow> sys option" where
  "release_stack base k = do {
     p \<leftarrow> free_pages (phys_to_page (pmm_of k) base) 0 (pmm_of k);
     Some (k\<lparr>pmm_of := p\<rparr>)
   }"

definition task_exit :: "sys \<Rightarrow> (bool \<times> sys) option" where
  "task_exit k =
     (case current_task (sched_of k) of
        None \<Rightarrow> Some (False, k)
      | Some c \<Rightarrow> do {
          let k = say [S ''Task '', S (t_name (tk (sched_of k) c)), S '' exiting'', NL] k;
          let k = on_sched (upd_task c (\<lambda>t. t\<lparr>t_state := TASK_TERMINATED\<rparr>)) k;
          let base = kernel_stack_base (tk (sched_of k) c);
          k \<leftarrow> (if base \<noteq> 0 then do {
                  k \<leftarrow> release_stack base k;
                  Some (on_sched (upd_task c (\<lambda>t. t\<lparr>kernel_stack_base := 0\<rparr>)) k)
                } else Some k);
          let ubase = user_stack_base (tk (sched_of k) c);
          k \<leftarrow> (if ubase \<noteq> 0 then do {
                  k \<leftarrow> release_stack ubase k;
                  Some (on_sched (upd_task c (\<lambda>t. t\<lparr>user_stack_base := 0\<rparr>)) k)
                } else Some k);
          let k = on_sched (upd_task c (\<lambda>t. t\<lparr>time_slice := 0\<rparr>)) k;
          let (switched, k) = schedule k;
          if switched then Some (True, k) else None
        })"

text \<open>
  \<open>clock n\<close> is the value of the volatile tick counter at its \<open>n\<close>-th read. The uptime is that of
  \<^verbatim>\<open>timer_get_uptime_ms\<close>.
\<close>

definition TIMER_HZ :: u64 where "TIMER_HZ = 100"

definition uptime_ms :: "u64 \<Rightarrow> u64" where
  "uptime_ms n = n * 1000 div TIMER_HZ"

partial_function (option) sleep_loop ::
    "(nat \<Rightarrow> u64) \<Rightarrow> u64 \<Rightarrow> u32 \<Rightarrow> nat \<Rightarrow> sys \<Rightarrow> sys option" where
  "sleep_loop clock start ms n k =
     (if uptime_ms (clock n) - start < ucast ms
      then sleep_loop clock start ms (Suc n) (task_yield k)
      else Some k)"

definition task_sleep :: "(nat \<Rightarrow> u64) \<Rightarrow> u32 \<Rightarrow> sys \<Rightarrow> sys option" where
  "task_sleep clock ms k = sleep_loop clock (uptime_ms (clock 0)) ms 1 k"

fun init_pool :: "nat \<Rightarrow> nat \<Rightarrow> sched \<Rightarrow> sched" where
  "init_pool i 0 s = s"
| "init_pool i (Suc n) s = init_pool (Suc i) n (upd_task i (\<lambda>t. t\<lparr>t_state := TASK_TERMINATED, t_id := 0,
     kernel_stack_base := 0, kernel_stack_top := 0, user_stack_base := 0, user_stack_top := 0,
     t_page_table := 0, t_level := TASK_KERNEL\<rparr>) s)"

text \<open>\<open>idle\<close> is the address of \<^verbatim>\<open>idle_task_func\<close>.\<close>

definition sched_init :: "u64 \<Rightarrow> sys \<Rightarrow> sys option" where
  "sched_init idle k = do {
     let k = say [NL, S ''========================================'', NL,
                  S ''Initializing Scheduler'', NL,
                  S ''========================================'', NL] k;
     let k = on_sched (init_pool 0 MAX_TASKS) k;
     (tid, k) \<leftarrow> task_create ''idle'' idle 0 255 k;
     let k = say [S ''Scheduler initialized'', NL, S ''Time slice: '', X DEFAULT_TIME_SLICE,
                  S '' ticks'', NL, S ''========================================'', NL, NL] k;
     Some (on_sched (\<lambda>s. s\<lparr>sched_enabled := True\<rparr>) k)
   }"

definition state_name :: "task_state \<Rightarrow> string" where
  "state_name st = (case st of TASK_READY \<Rightarrow> ''READY'' | TASK_RUNNING \<Rightarrow> ''RUNNING''
     | TASK_BLOCKED \<Rightarrow> ''BLOCKED'' | TASK_TERMINATED \<Rightarrow> ''TERMINATED'')"

fun dump_loop :: "nat \<Rightarrow> nat \<Rightarrow> sched \<Rightarrow> item list" where
  "dump_loop i 0 s = []"
| "dump_loop i (Suc n) s =
     (let t = tk s i
      in (if t_state t \<noteq> TASK_TERMINATED
          then [S ''  ['', X (ucast (t_id t)), S ''] '', S (t_name t), S '' - '', S (state_name (t_state t)),
                S '' (runs: '', X (run_count t), S '', pri: '', X (ucast (t_priority t)), S '')'', NL]
          else []) @ dump_loop (Suc i) n s)"

definition sched_dump_tasks :: "sys \<Rightarrow> sys" where
  "sched_dump_tasks k =
     (let s = sched_of k
      in say ([NL, S ''Task List:'', NL, S ''=========='', NL] @ dump_loop 0 MAX_TASKS s @
              (case current_task s of None \<Rightarrow> []
               | Some c \<Rightarrow> [NL, S ''Current: '', S (t_name (tk s c)), NL])) k)"

section \<open>Ownership of stacks\<close>

text \<open>
  The stack pages of live tasks: \<open>(i, u)\<close> is the kernel (\<open>u\<close> false) or user stack of task \<open>i\<close>.
  \<open>stacks_ok\<close>: the allocator is well-formed, every live task has a kernel stack, every stack of a
  live task is a frame the allocator holds for it alone, and no two of them are the same.
\<close>

definition stack_at :: "sched \<Rightarrow> nat \<times> bool \<Rightarrow> u64" where
  "stack_at s x = (if snd x then user_stack_base (tk s (fst x)) else kernel_stack_base (tk s (fst x)))"

definition live :: "sched \<Rightarrow> nat \<Rightarrow> bool" where
  "live s i \<longleftrightarrow> i < MAX_TASKS \<and> t_state (tk s i) \<noteq> TASK_TERMINATED"

definition stacks :: "sched \<Rightarrow> (nat \<times> bool) set" where
  "stacks s = {x. live s (fst x) \<and> stack_at s x \<noteq> 0}"

definition owns :: "pmm \<Rightarrow> sched \<Rightarrow> bool" where
  "owns p s \<longleftrightarrow> pmm_wf p \<and> stack_at s ` stacks s \<subseteq> page_to_phys ` held_set p \<and>
     inj_on (stack_at s) (stacks s) \<and> (\<forall>i. live s i \<longrightarrow> (i, False) \<in> stacks s)"

definition stacks_ok :: "sys \<Rightarrow> bool" where
  "stacks_ok k \<longleftrightarrow> owns (pmm_of k) (sched_of k)"

lemma page_to_phys_inj: "inj_on page_to_phys {..<PAGES_LEN}"
proof (rule inj_onI)
  fix p q assume "p \<in> {..<PAGES_LEN}" "q \<in> {..<PAGES_LEN}" "page_to_phys p = page_to_phys q"
  then have "0x40000000 + p * 4096 = 0x40000000 + q * 4096"
    using unat_page_to_phys by (metis lessThan_iff)
  then show "p = q" by simp
qed

lemma page_to_phys_nonzero: "p < PAGES_LEN \<Longrightarrow> page_to_phys p \<noteq> 0"
  using unat_page_to_phys [of p] by (auto simp: unat_eq_zero)

text \<open>Ownership depends on which tasks live and where their stacks are.\<close>

lemma owns_cong:
  assumes "\<And>i. i < MAX_TASKS \<Longrightarrow> (t_state (tk s' i) = TASK_TERMINATED) = (t_state (tk s i) = TASK_TERMINATED)"
    and "\<And>i. kernel_stack_base (tk s' i) = kernel_stack_base (tk s i)"
    "\<And>i. user_stack_base (tk s' i) = user_stack_base (tk s i)"
  shows "owns p s' = owns p s"
proof -
  have l: "live s' = live s" using assms(1) by (auto simp: live_def fun_eq_iff)
  have a: "stack_at s' = stack_at s" using assms(2,3) by (auto simp: stack_at_def fun_eq_iff)
  show ?thesis by (simp add: owns_def stacks_def l a)
qed

lemma inj_on_disjoint_Un:
  assumes "inj_on f A" "inj_on f B" "f ` A \<inter> f ` B = {}"
  shows "inj_on f (A \<union> B)"
proof -
  have "f ` (A - B) \<inter> f ` (B - A) \<subseteq> f ` A \<inter> f ` B" by (intro Int_mono image_mono Diff_subset)
  then show ?thesis using assms by (simp add: inj_on_Un)
qed

text \<open>A dead slot brought to life with fresh frames as stacks.\<close>

lemma stacks_add:
  assumes i: "\<not> live s i" "i < MAX_TASKS" and st: "t_state (tk s' i) \<noteq> TASK_TERMINATED"
    and other: "\<And>j. j < MAX_TASKS \<Longrightarrow> j \<noteq> i \<Longrightarrow> (t_state (tk s' j) = TASK_TERMINATED) = (t_state (tk s j) = TASK_TERMINATED) \<and>
      kernel_stack_base (tk s' j) = kernel_stack_base (tk s j) \<and> user_stack_base (tk s' j) = user_stack_base (tk s j)"
  shows "live s' j \<longleftrightarrow> live s j \<or> j = i" "x \<in> stacks s \<Longrightarrow> stack_at s' x = stack_at s x"
    "stacks s' = stacks s \<union> {x \<in> {(i, False), (i, True)}. stack_at s' x \<noteq> 0}"
proof -
  show live: "live s' j \<longleftrightarrow> live s j \<or> j = i" for j using other [of j] st i by (auto simp: live_def)
  show "stack_at s' x = stack_at s x" if "x \<in> stacks s" for x
    using that i(1) other [of "fst x"] by (cases "fst x = i") (auto simp: stacks_def live_def stack_at_def)
  have "x \<in> stacks s' \<longleftrightarrow> x \<in> stacks s \<or> x \<in> {(i, False), (i, True)} \<and> stack_at s' x \<noteq> 0" for x
  proof (cases "fst x = i")
    case True
    then have "x = (i, False) \<or> x = (i, True)" by (cases x) auto
    moreover have "x \<notin> stacks s" using True i(1) by (simp add: stacks_def)
    moreover have "x \<in> stacks s' \<longleftrightarrow> stack_at s' x \<noteq> 0" using True live by (simp add: stacks_def)
    ultimately show ?thesis by blast
  next
    case False
    then have "live s (fst x) \<Longrightarrow> stack_at s' x = stack_at s x"
      using other [of "fst x"] by (simp add: live_def stack_at_def)
    moreover have "x \<notin> {(i, False), (i, True)}" using False by (cases x) auto
    moreover have "live s' (fst x) \<longleftrightarrow> live s (fst x)" using False live by blast
    ultimately show ?thesis unfolding stacks_def mem_Collect_eq by metis
  qed
  then show "stacks s' = stacks s \<union> {x \<in> {(i, False), (i, True)}. stack_at s' x \<noteq> 0}" by blast
qed

text \<open>An injective map stays injective when fresh values are added.\<close>

lemma inj_on_fresh:
  assumes phys: "inj_on h H'" and H: "H \<subseteq> H'" and A: "inj_on f A" "f ` A \<subseteq> h ` H"
    and B: "inj_on f B" "f ` B \<subseteq> h ` (H' - H)"
  shows "inj_on f (A \<union> B)" "f ` (A \<union> B) \<subseteq> h ` H'"
proof -
  have b: "h ` H \<inter> h ` (H' - H) = {}"
    using inj_on_image_Int [OF phys H, of "H' - H"] by (simp add: Int_Diff)
  have "f ` A \<inter> f ` B = {}" using Int_mono [OF A(2) B(2)] unfolding b by (rule subset_empty [THEN iffD1])
  then show "inj_on f (A \<union> B)" using A B by (intro inj_on_disjoint_Un)
  show "f ` (A \<union> B) \<subseteq> h ` H'" unfolding image_Un using A(2) B(2) H by blast
qed

lemma owns_add:
  assumes o: "owns p s" and i: "\<not> live s i" "i < MAX_TASKS"
    and wf: "pmm_wf p'" and h: "held_set p \<subseteq> held_set p'" and f: "f \<in> held_set p' - held_set p"
    and k: "kernel_stack_base (tk s' i) = page_to_phys f"
    and u: "user_stack_base (tk s' i) = 0 \<or>
      (\<exists>g \<in> held_set p' - held_set p - {f}. user_stack_base (tk s' i) = page_to_phys g)"
    and st: "t_state (tk s' i) \<noteq> TASK_TERMINATED"
    and other: "\<And>j. j < MAX_TASKS \<Longrightarrow> j \<noteq> i \<Longrightarrow> (t_state (tk s' j) = TASK_TERMINATED) = (t_state (tk s j) = TASK_TERMINATED) \<and>
      kernel_stack_base (tk s' j) = kernel_stack_base (tk s j) \<and> user_stack_base (tk s' j) = user_stack_base (tk s j)"
  shows "owns p' s'"
proof -
  let ?new = "{x \<in> {(i, False), (i, True)}. stack_at s' x \<noteq> 0}"
  have new: "\<And>j. live s' j \<longleftrightarrow> live s j \<or> j = i" "\<And>x. x \<in> stacks s \<Longrightarrow> stack_at s' x = stack_at s x"
    "stacks s' = stacks s \<union> ?new"
    using stacks_add [OF i st] other by blast+
  have O: "pmm_wf p" "stack_at s ` stacks s \<subseteq> page_to_phys ` held_set p" "inj_on (stack_at s) (stacks s)"
    "\<And>i. live s i \<Longrightarrow> (i, False) \<in> stacks s" using o by (auto simp: owns_def)
  have phys: "inj_on page_to_phys (held_set p')"
    using inj_on_subset [OF page_to_phys_inj] held_set_bound [OF wf] by blast
  have img: "stack_at s' ` ?new \<subseteq> page_to_phys ` (held_set p' - held_set p)"
    using u k f by (auto simp: stack_at_def)
  have ne: "page_to_phys f \<noteq> page_to_phys g" if "g \<in> held_set p' - held_set p - {f}" for g
    using inj_onD [OF phys, of f g] that f by blast
  have "stack_at s' (i, False) \<noteq> stack_at s' (i, True) \<or> stack_at s' (i, True) = 0"
    using u by (elim disjE bexE) (use ne k in \<open>simp_all add: stack_at_def\<close>)
  then have "inj_on (stack_at s') ?new" unfolding inj_on_def by auto
  moreover have "inj_on (stack_at s') (stacks s)" using inj_on_cong [of "stacks s" "stack_at s'"] new(2) O(3) by blast
  moreover have "stack_at s' ` stacks s \<subseteq> page_to_phys ` held_set p"
    using O(2) image_cong [OF refl new(2), of "stacks s"] by simp
  ultimately have "inj_on (stack_at s') (stacks s')" "stack_at s' ` stacks s' \<subseteq> page_to_phys ` held_set p'"
    unfolding new(3) by - (erule (2) inj_on_fresh [OF phys h _ _ _ img])+
  moreover have "(j, False) \<in> stacks s'" if "live s' j" for j
  proof (cases "live s j")
    case False
    then have "j = i" using that new(1) by blast
    moreover have "f < PAGES_LEN" using f held_set_bound [OF wf] by blast
    ultimately show ?thesis using k page_to_phys_nonzero unfolding new(3) by (simp add: stack_at_def)
  qed (use O(4) new(3) in blast)
  ultimately show ?thesis using wf by (simp add: owns_def)
qed

text \<open>A live task ended, its stacks released.\<close>

lemma owns_remove:
  assumes o: "owns p s" and wf: "pmm_wf p'"
    and h: "held_set p' = held_set p - {f. \<exists>u. (i, u) \<in> stacks s \<and> page_to_phys f = stack_at s (i, u)}"
    and dead: "t_state (tk s' i) = TASK_TERMINATED"
    and other: "\<And>j. j < MAX_TASKS \<Longrightarrow> j \<noteq> i \<Longrightarrow> (t_state (tk s' j) = TASK_TERMINATED) = (t_state (tk s j) = TASK_TERMINATED) \<and>
      kernel_stack_base (tk s' j) = kernel_stack_base (tk s j) \<and> user_stack_base (tk s' j) = user_stack_base (tk s j)"
  shows "owns p' s'"
proof -
  have O: "stack_at s ` stacks s \<subseteq> page_to_phys ` held_set p" "inj_on (stack_at s) (stacks s)"
    "\<And>i. live s i \<Longrightarrow> (i, False) \<in> stacks s" using o by (auto simp: owns_def)
  have live: "live s' j \<longleftrightarrow> live s j \<and> j \<noteq> i" for j
    using other [of j] dead by (cases "j = i") (auto simp: live_def)
  have same: "stack_at s' x = stack_at s x" if "live s' (fst x)" for x
    using other [of "fst x"] that live by (simp add: stack_at_def live_def)
  have new: "x \<in> stacks s' \<longleftrightarrow> x \<in> stacks s \<and> fst x \<noteq> i" for x
    using live same [of x] unfolding stacks_def mem_Collect_eq by metis
  then have sub: "stacks s' \<subseteq> stacks s" by blast
  have eq: "stack_at s' x = stack_at s x" if "x \<in> stacks s'" for x
    using that by (intro same) (simp add: stacks_def)
  have "inj_on (stack_at s') (stacks s')"
    using inj_on_subset [OF O(2) sub] eq by (simp add: inj_on_def)
  moreover have "stack_at s' x \<in> page_to_phys ` held_set p'" if x: "x \<in> stacks s'" for x
  proof -
    have xs: "x \<in> stacks s" "fst x \<noteq> i" using new x by blast+
    then obtain f where f: "stack_at s x = page_to_phys f" "f \<in> held_set p" using O(1) by blast
    have "page_to_phys f \<noteq> stack_at s (i, u)" if "(i, u) \<in> stacks s" for u
      using inj_onD [OF O(2) _ xs(1) that] xs(2) f(1) by auto
    then have "f \<in> held_set p'" unfolding h using f(2) by blast
    then show ?thesis using f(1) eq [OF x] by simp
  qed
  moreover have "(j, False) \<in> stacks s'" if "live s' j" for j
    using that live O(3) new by simp
  ultimately show ?thesis using wf by (auto simp: owns_def)
qed

section \<open>Creating a kernel task\<close>

lemma find_slot_None: "find_slot s i n = None \<longleftrightarrow> (\<forall>j. i \<le> j \<and> j < i + n \<longrightarrow> t_state (tk s j) \<noteq> TASK_TERMINATED)"
proof (induction n arbitrary: i)
  case (Suc n)
  have split: "i \<le> j \<and> j < i + Suc n \<longleftrightarrow> j = i \<or> Suc i \<le> j \<and> j < Suc i + n" for j by auto
  show ?case
  proof (cases "t_state (tk s i) = TASK_TERMINATED")
    case False
    then have "find_slot s i (Suc n) = find_slot s (Suc i) n" by simp
    then show ?thesis using Suc.IH [of "Suc i"] False unfolding split by metis
  qed auto
qed auto

lemma find_slot_Some:
  "find_slot s i n = Some j \<Longrightarrow> i \<le> j \<and> j < i + n \<and> t_state (tk s j) = TASK_TERMINATED \<and>
     (\<forall>j'. i \<le> j' \<and> j' < j \<longrightarrow> t_state (tk s j') \<noteq> TASK_TERMINATED)"
proof (induction n arbitrary: i)
  case (Suc n)
  show ?case
  proof (cases "t_state (tk s i) = TASK_TERMINATED")
    case False
    then have "find_slot s (Suc i) n = Some j" using Suc.prems by simp
    from Suc.IH [OF this] False have "Suc i \<le> j \<and> j < Suc i + n \<and> t_state (tk s j) = TASK_TERMINATED"
      "\<And>j'. Suc i \<le> j' \<Longrightarrow> j' < j \<Longrightarrow> t_state (tk s j') \<noteq> TASK_TERMINATED" by auto
    then show ?thesis using False by (metis Suc_leD Suc_leI add_Suc_shift le_eq_less_or_eq)
  qed (use Suc.prems in auto)
qed simp

text \<open>
  Filling slot \<open>i\<close> (dead, so not queued) and queueing it: the scheduler's part of both creators,
  for any update that leaves the links alone.
\<close>

lemma queue_new_task:
  assumes rel: "rr_rel s (c, True, ts, q)" and i: "i < MAX_TASKS" "t_state (tk s i) = TASK_TERMINATED"
    and s': "\<And>j. tk s' j = (if j = i then t else tk s j)" "current_task s' = current_task s"
      "ready_queue_head s' = ready_queue_head s" "ready_queue_tail s' = ready_queue_tail s"
      "sched_enabled s' = sched_enabled s"
    and t: "t_next t = t_next (tk s i)" "t_prev t = t_prev (tk s i)" "t_state t = TASK_READY"
      "time_slice t = DEFAULT_TIME_SLICE"
  shows "rr_rel (add_to_ready_queue i s') (c, True, ts, q @ [i])" "same_core s' (add_to_ready_queue i s')"
proof -
  have inv: "sched_inv s q" and cur: "current_task s = Some c" and run: "t_state (tk s c) = TASK_RUNNING"
    and ts: "ts = unat (time_slice (tk s c))" using rel by (simp_all add: rr_rel_def)
  note I = sched_invD [OF inv]
  have iq: "i \<notin> set q" unfolding I(3) using i(2) by simp
  have ic: "i \<noteq> c" using i(2) run by (metis task_state.distinct(9) task_state.distinct(11))
  have d: "dlist s' q" using I(1) by (subst dlist_links [of s' s]) (simp_all add: s' t)
  note add = add_to_ready_queue_spec [OF d iq]
  show core: "same_core s' (add_to_ready_queue i s')" by (rule add(2))
  note C = same_coreD [OF core]
  have c: "c < MAX_TASKS" using I(7) [OF cur] by simp
  have "set (q @ [i]) = {j. j < MAX_TASKS \<and> t_state (tk s' j) = TASK_READY}"
    using I(3) i t by (auto simp: s')
  moreover have "(t_state (tk s' j) = TASK_RUNNING \<longrightarrow> current_task s = Some j) \<and>
      t_state (tk s' j) \<noteq> TASK_BLOCKED \<and> time_slice (tk s' j) \<le> DEFAULT_TIME_SLICE" if "j < MAX_TASKS" for j
    using I(4) [OF that] I(5) [OF that] I(6) [OF that] t(3,4) by (cases "j = i") (simp_all add: s'(1))
  moreover have "t_state (tk s' c) = TASK_RUNNING" using run ic by (simp add: s'(1))
  ultimately have "sched_inv (add_to_ready_queue i s') (q @ [i])"
    unfolding sched_inv_def C s'(2,5) using add(1) I(2) cur c by blast
  then show "rr_rel (add_to_ready_queue i s') (c, True, ts, q @ [i])"
    using cur ts run ic by (simp add: rr_rel_def C s')
qed

lemma say_simps [simp]:
  "sched_of (say xs k) = sched_of k" "pmm_of (say xs k) = pmm_of k" "cpu_of (say xs k) = cpu_of k"
  "mem_of (say xs k) = mem_of k" "mmu_of (say xs k) = mmu_of k"
  by (simp_all add: say_def)

lemma and_not_15: "(x :: u64) AND NOT 0xF = x - take_bit 4 x"
proof -
  have "x = (x AND NOT 0xF) + (x AND 0xF)"
    by (subst disjunctive_add) (auto simp: bit_simps bit.conj_disj_distrib [symmetric])
  then show ?thesis unfolding and_0xF by (metis add_diff_cancel_right')
qed

lemma stack_top_frame:
  assumes "p < PAGES_LEN"
  shows "stack_top (page_to_phys p) = page_to_phys p + 0x1000"
proof -
  have u: "unat (page_to_phys p + 0x1000) = 0x40001000 + p * 4096"
    using unat_page_to_phys [OF assms] assms by (subst unat_add_no_wrap) (simp_all add: PAGES_LEN_def)
  have "(0x40001000 + p * 4096) mod 16 = 0"
    by (simp add: mod_add_eq [symmetric] mod_mult_left_eq)
  then have "take_bit 4 (page_to_phys p + 0x1000) = 0"
    unfolding u [symmetric] by (simp add: word_unat_eq_iff take_bit_eq_mod unat_mod)
  then show ?thesis unfolding stack_top_def and_not_15 by (simp add: TASK_STACK_SIZE_def)
qed

text \<open>The context a kernel task starts with.\<close>

definition start_context :: "u64 \<Rightarrow> u64 \<Rightarrow> u64 \<Rightarrow> frame" where
  "start_context func arg sp = frame_zero\<lparr>f_elr := func, f_sp := sp, f_spsr := 0x3C5,
     gpr := (gpr frame_zero)(0 := arg)\<rparr>"

lemma stacks_okD:
  assumes "stacks_ok k"
  shows "pmm_wf (pmm_of k)"
  using assms by (simp add: stacks_ok_def owns_def)

lemma task_create_spec:
  assumes rel: "rr_rel (sched_of k) (c, True, ts, q)" and st: "stacks_ok k"
    and slot: "find_slot (sched_of k) 0 MAX_TASKS = Some i" and free: "free_set (pmm_of k) \<noteq> {}"
  shows "\<exists>f k'. task_create name func arg priority k = Some (next_task_id (sched_of k), k') \<and>
    f \<in> free_set (pmm_of k) \<and> free_set (pmm_of k') = free_set (pmm_of k) - {f} \<and>
    rr_rel (sched_of k') (c, True, ts, q @ [i]) \<and> stacks_ok k' \<and>
    held_set (pmm_of k') = insert f (held_set (pmm_of k)) \<and> num_pages (pmm_of k') = num_pages (pmm_of k) \<and>
    (let t = tk (sched_of k') i in t_id t = next_task_id (sched_of k) \<and> t_name t = copy_name 31 name \<and>
       t_level t = TASK_KERNEL \<and> t_page_table t = 0 \<and> kernel_stack_base t = page_to_phys f \<and> user_stack_base t = 0 \<and>
       t_context t = start_context func arg (page_to_phys f + 0x1000)) \<and>
    (\<forall>j. j \<noteq> i \<longrightarrow> core (tk (sched_of k') j) = core (tk (sched_of k) j)) \<and>
    cpu_of k' = cpu_of k \<and> mmu_of k' = mmu_of k \<and> mem_of k' = mem_of k"
proof -
  have wf: "pmm_wf (pmm_of k)" using st by (rule stacks_okD)
  obtain f p where p: "alloc_pages 0 (pmm_of k) = Some (Some f, p)" "f \<in> free_set (pmm_of k)" "pmm_wf p"
    "free_set p = free_set (pmm_of k) - {f}" "held_set p = insert f (held_set (pmm_of k))"
    "num_pages p = num_pages (pmm_of k)"
    using alloc_pages_single_held [OF wf free] by blast
  note fb = free_set_bound [OF wf p(2)]
  have i: "i < MAX_TASKS" "t_state (tk (sched_of k) i) = TASK_TERMINATED" using find_slot_Some [OF slot] by auto
  have en: "sched_enabled (sched_of k)" using rel by (simp add: rr_rel_def sched_inv_def)
  let ?t = "(tk (sched_of k) i)\<lparr>kernel_stack_base := page_to_phys f, t_id := next_task_id (sched_of k),
      t_name := copy_name 31 name, t_priority := priority, time_slice := DEFAULT_TIME_SLICE,
      run_count := 0, total_runtime := 0, t_level := TASK_KERNEL, t_page_table := 0,
      user_stack_base := 0, user_stack_top := 0, t_context := start_context func arg (page_to_phys f + 0x1000),
      kernel_stack_top := page_to_phys f + 0x1000, t_state := TASK_READY\<rparr>"
  define s where "s = upd_task i (\<lambda>_. ?t) ((sched_of k)\<lparr>next_task_id := next_task_id (sched_of k) + 1\<rparr>)"
  have ss: "tk s j = (if j = i then ?t else tk (sched_of k) j)" "current_task s = current_task (sched_of k)"
    "ready_queue_head s = ready_queue_head (sched_of k)" "ready_queue_tail s = ready_queue_tail (sched_of k)"
    "sched_enabled s = sched_enabled (sched_of k)" for j by (simp_all add: s_def)
  note queue = queue_new_task [OF rel i ss, simplified]
  note C = same_coreD [OF queue(2)]
  let ?k' = "say [S ''Created task: '', S (t_name (tk (add_to_ready_queue i s) i)), S '' (ID '',
      X (ucast (t_id (tk (add_to_ready_queue i s) i))), S '', priority '',
      X (ucast (t_priority (tk (add_to_ready_queue i s) i))), S '')'', NL]
    (k\<lparr>pmm_of := p, sched_of := add_to_ready_queue i s\<rparr>)"
  have run: "task_create name func arg priority k = Some (next_task_id (sched_of k), ?k')"
  proof -
    have "task_create name func arg priority k = Some (t_id (tk (add_to_ready_queue i s) i), ?k')"
      using slot p(1) en stack_top_frame [OF fb]
      by (simp add: task_create_def Let_def s_def upd_task_def start_context_def)
    then show ?thesis by (simp add: C ss(1))
  qed
  have "owns p (add_to_ready_queue i s)"
  proof (rule owns_add [where i = i and f = f])
    show "owns (pmm_of k) (sched_of k)" using st by (simp add: stacks_ok_def)
    have "f \<notin> held_set (pmm_of k)" using pmm0.avail_held [OF wf] p(2) by blast
    then show "f \<in> held_set p - held_set (pmm_of k)" using p(5) by simp
  qed (use i p(3,5) in \<open>auto simp: live_def C ss\<close>)
  then have "stacks_ok ?k'" by (simp add: stacks_ok_def)
  moreover have "core (tk (add_to_ready_queue i s) j) = core (tk (sched_of k) j)" if "j \<noteq> i" for j
    using queue(2) that by (simp add: same_core_def ss)
  ultimately show ?thesis
    using run p(2,4-6) queue(1) by (intro exI [of _ f] exI [of _ ?k']) (simp add: Let_def C ss)
qed

section \<open>Ending a task\<close>

text \<open>The live tasks of a scheduler state, by the abstract state.\<close>

lemma rr_live: "rr_rel s (c, run, ts, q) \<Longrightarrow> live s i \<longleftrightarrow> i \<in> set q \<or> run \<and> i = c"
proof -
  assume rel: "rr_rel s (c, run, ts, q)"
  then have inv: "sched_inv s q" and cur: "current_task s = Some c" and run: "run = (t_state (tk s c) = TASK_RUNNING)"
    by (simp_all add: rr_rel_def)
  note I = sched_invD [OF inv]
  have "i < MAX_TASKS \<Longrightarrow> t_state (tk s i) \<noteq> TASK_TERMINATED \<Longrightarrow> t_state (tk s i) = TASK_READY \<or> t_state (tk s i) = TASK_RUNNING \<and> i = c"
    using I(4) [of i] I(5) [of i] cur by (cases "t_state (tk s i)") auto
  moreover have "c < MAX_TASKS" using I(7) [OF cur] by simp
  ultimately show ?thesis unfolding I(3) run by (auto simp: live_def)
qed

lemma rr_step_live:
  "rr_step (c, run, ts, q) = (c', run', ts', q') \<Longrightarrow> i \<in> set q' \<or> run' \<and> i = c' \<longleftrightarrow> i \<in> set q \<or> run \<and> i = c"
  by (cases run; cases q) (auto split: if_splits)

text \<open>The table pointer and the registers that switching address spaces leaves alone.\<close>

definition fixed_regs :: "mmu \<Rightarrow> u64 \<times> u64 \<times> u64 \<times> u64 \<times> u64 \<times> u64" where
  "fixed_regs u = (next_page_table u, kernel_pgd u, ttbr1_el1 u, tcr_el1 u, mair_el1 u, sctlr_el1 u)"

lemma schedule_keeps:
  assumes rel: "rr_rel (sched_of k) (c, run, ts, q)"
  shows "live (sched_of (snd (schedule k))) i = live (sched_of k) i"
    "kernel_stack_base (tk (sched_of (snd (schedule k))) i) = kernel_stack_base (tk (sched_of k) i)"
    "user_stack_base (tk (sched_of (snd (schedule k))) i) = user_stack_base (tk (sched_of k) i)"
    "t_level (tk (sched_of (snd (schedule k))) i) = t_level (tk (sched_of k) i)"
    "t_page_table (tk (sched_of (snd (schedule k))) i) = t_page_table (tk (sched_of k) i)"
    "pmm_of (snd (schedule k)) = pmm_of k" "mem_of (snd (schedule k)) = mem_of k"
    "fixed_regs (mmu_of (snd (schedule k))) = fixed_regs (mmu_of k)"
proof -
  let ?s' = "sched_of (snd (schedule k))"
  obtain c' run' ts' q' where step: "rr_step (c, run, ts, q) = (c', run', ts', q')" by (metis prod_cases4)
  have rel': "rr_rel ?s' (c', run', ts', q')" using schedule_refines_rr [OF rel] step by simp
  from schedule_dispatches [OF rr_rel_current [OF rel]] obtain s where
    s: "\<And>i. fixed (tk s i) = fixed (tk (sched_of k) i)" and
    r: "if fst (schedule k) then \<exists>n. snd (schedule k) = dispatch c n (k\<lparr>sched_of := s\<rparr>)
        else snd (schedule k) = k\<lparr>sched_of := s\<rparr>" by blast
  note F = fixedD [OF s]
  show "kernel_stack_base (tk ?s' i) = kernel_stack_base (tk (sched_of k) i)"
    "user_stack_base (tk ?s' i) = user_stack_base (tk (sched_of k) i)"
    "t_level (tk ?s' i) = t_level (tk (sched_of k) i)"
    "t_page_table (tk ?s' i) = t_page_table (tk (sched_of k) i)"
    using r F(2-5) by (auto simp: dispatch_def switch_tasks_def Let_def split: if_splits)
  show "live ?s' i = live (sched_of k) i"
    unfolding rr_live [OF rel] rr_live [OF rel'] by (rule rr_step_live [OF step])
  show "pmm_of (snd (schedule k)) = pmm_of k" using r dispatch_mmu(2) by (auto split: if_splits)
  have "mem_of (dispatch c n k') = mem_of k' \<and> fixed_regs (mmu_of (dispatch c n k')) = fixed_regs (mmu_of k')"
    for n k'
    by (auto simp: fixed_regs_def dispatch_def switch_tasks_def Let_def mmu_switch_user_table_def set_vm_def vm_of_def)
  then show "mem_of (snd (schedule k)) = mem_of k"
    "fixed_regs (mmu_of (snd (schedule k))) = fixed_regs (mmu_of k)"
    using r by (auto split: if_splits)
qed

lemma schedule_stacks:
  assumes rel: "rr_rel (sched_of k) (c, run, ts, q)" and st: "stacks_ok k"
  shows "stacks_ok (snd (schedule k))" "pmm_of (snd (schedule k)) = pmm_of k"
proof -
  note keep = schedule_keeps [OF rel]
  show "pmm_of (snd (schedule k)) = pmm_of k" by (rule keep(6))
  have "owns (pmm_of k) (sched_of (snd (schedule k))) = owns (pmm_of k) (sched_of k)"
    using keep(1) by (intro owns_cong) (auto simp: keep(2,3) live_def)
  then show "stacks_ok (snd (schedule k))" using st by (simp add: stacks_ok_def keep(6))
qed

lemma phys_to_page_frame: "pmm_wf p \<Longrightarrow> f \<in> held_set p \<Longrightarrow> phys_to_page p (page_to_phys f) = Some f"
  by (subst phys_to_page_spec) (auto simp: pmm_wf_def held_set_def intro: exI [of _ 0])

lemma release_stack_frame:
  assumes "pmm_wf (pmm_of k)" "f \<in> held_set (pmm_of k)"
  obtains p where "release_stack (page_to_phys f) k = Some (k\<lparr>pmm_of := p\<rparr>)" "pmm_wf p"
    "free_set p = insert f (free_set (pmm_of k))" "held_set p = held_set (pmm_of k) - {f}"
    "num_pages p = num_pages (pmm_of k)"
  using free_pages_single [OF assms] phys_to_page_frame [OF assms] by (auto simp: release_stack_def)

definition task_frames :: "sched \<Rightarrow> nat \<Rightarrow> nat set" where
  "task_frames s i = {f. f < PAGES_LEN \<and> (\<exists>u. (i, u) \<in> stacks s \<and> page_to_phys f = stack_at s (i, u))}"

lemma owns_frame:
  assumes "owns p s" "x \<in> stacks s"
  obtains f where "stack_at s x = page_to_phys f" "f \<in> held_set p" "f < PAGES_LEN"
proof -
  have "pmm_wf p" "stack_at s x \<in> page_to_phys ` held_set p" using assms by (auto simp: owns_def)
  then show thesis using that held_set_bound by blast
qed

lemma task_frames_cases:
  assumes o: "owns p s" and l: "live s i"
  obtains fk where "kernel_stack_base (tk s i) = page_to_phys fk" "fk \<in> held_set p" "page_to_phys fk \<noteq> 0"
    "user_stack_base (tk s i) = 0" "task_frames s i = {fk}"
  | fk fu where "kernel_stack_base (tk s i) = page_to_phys fk" "fk \<in> held_set p" "page_to_phys fk \<noteq> 0"
    "user_stack_base (tk s i) = page_to_phys fu" "fu \<in> held_set p - {fk}" "page_to_phys fu \<noteq> 0"
    "task_frames s i = {fk, fu}"
proof -
  have k: "(i, False) \<in> stacks s" using o l by (simp add: owns_def)
  obtain fk where fk: "kernel_stack_base (tk s i) = page_to_phys fk" "fk \<in> held_set p" "fk < PAGES_LEN"
    using owns_frame [OF o k] by (auto simp: stack_at_def)
  note same = inj_onD [OF page_to_phys_inj, unfolded lessThan_iff]
  have z: "page_to_phys fk \<noteq> 0" using fk(3) by (rule page_to_phys_nonzero)
  show thesis
  proof (cases "user_stack_base (tk s i) = 0")
    case True
    then have "(i, u) \<in> stacks s \<longleftrightarrow> \<not> u" for u using k l by (auto simp: stacks_def stack_at_def)
    then have "task_frames s i = {fk}"
      using fk same [of _ fk] by (auto simp: task_frames_def stack_at_def)
    then show thesis using that(1) fk z True by blast
  next
    case False
    then have u: "(i, True) \<in> stacks s" using l by (simp add: stacks_def stack_at_def)
    obtain fu where fu: "user_stack_base (tk s i) = page_to_phys fu" "fu \<in> held_set p" "fu < PAGES_LEN"
      using owns_frame [OF o u] by (auto simp: stack_at_def)
    have "stack_at s (i, True) \<noteq> stack_at s (i, False)"
      using o inj_onD [of "stack_at s" "stacks s" "(i, True)" "(i, False)"] u k by (auto simp: owns_def)
    then have ne: "fu \<noteq> fk" using fu(1) fk(1) by (auto simp: stack_at_def)
    have "(i, b) \<in> stacks s" for b using k u by (cases b) auto
    then have "task_frames s i = {f. f < PAGES_LEN \<and> (\<exists>b. page_to_phys f = stack_at s (i, b))}"
      by (simp add: task_frames_def)
    also have "\<dots> = {f. f < PAGES_LEN \<and> (page_to_phys f = page_to_phys fu \<or> page_to_phys f = page_to_phys fk)}"
      by (simp add: stack_at_def ex_bool_eq fu(1) fk(1))
    also have "\<dots> = {fk, fu}" using fk(3) fu(3) same by blast
    finally show thesis using that(2) fk z fu ne page_to_phys_nonzero [OF fu(3)] by blast
  qed
qed

lemma owns_remove_frames:
  assumes "owns p s" "pmm_wf p'" "held_set p' = held_set p - task_frames s i" "t_state (tk s' i) = TASK_TERMINATED"
    and "\<And>j. j < MAX_TASKS \<Longrightarrow> j \<noteq> i \<Longrightarrow> tk s' j = tk s j"
  shows "owns p' s'"
proof (rule owns_remove [OF assms(1,2) _ assms(4)])
  have "pmm_wf p" using assms(1) by (simp add: owns_def)
  then show "held_set p' = held_set p - {f. \<exists>u. (i, u) \<in> stacks s \<and> page_to_phys f = stack_at s (i, u)}"
    unfolding assms(3) task_frames_def using held_set_bound by blast
qed (simp add: assms(5))

text \<open>What \<^verbatim>\<open>task_exit\<close> has done when it calls \<^verbatim>\<open>schedule\<close>.\<close>

definition exited :: "nat \<Rightarrow> sys \<Rightarrow> sys \<Rightarrow> bool" where
  "exited c k k' \<longleftrightarrow>
     (\<exists>f. sched_of k' = upd_task c f (sched_of k) \<and> (let t = f (tk (sched_of k) c) in t_state t = TASK_TERMINATED \<and> time_slice t = 0 \<and>
        t_next t = t_next (tk (sched_of k) c) \<and> t_prev t = t_prev (tk (sched_of k) c) \<and>
        t_level t = t_level (tk (sched_of k) c) \<and> t_page_table t = t_page_table (tk (sched_of k) c))) \<and>
     pmm_wf (pmm_of k') \<and> free_set (pmm_of k') = free_set (pmm_of k) \<union> task_frames (sched_of k) c \<and>
     held_set (pmm_of k') = held_set (pmm_of k) - task_frames (sched_of k) c \<and>
     num_pages (pmm_of k') = num_pages (pmm_of k) \<and> cpu_of k' = cpu_of k \<and> mmu_of k' = mmu_of k \<and> mem_of k' = mem_of k"

lemma upd_task_twice [simp]: "upd_task i f (upd_task i g s) = upd_task i (\<lambda>t. f (g t)) s"
  by (simp add: upd_task_def)

lemma task_exit_schedules:
  assumes cur: "current_task (sched_of k) = Some c" and l: "live (sched_of k) c" and st: "stacks_ok k"
  obtains k' where "exited c k k'"
    "task_exit k = (let (switched, k') = schedule k' in if switched then Some (True, k') else None)"
proof -
  have o: "owns (pmm_of k) (sched_of k)" and wf: "pmm_wf (pmm_of k)"
    using st by (simp_all add: stacks_ok_def owns_def)
  define k1 where "k1 = on_sched (upd_task c (\<lambda>t. t\<lparr>t_state := TASK_TERMINATED\<rparr>))
    (say [S ''Task '', S (t_name (tk (sched_of k) c)), S '' exiting'', NL] k)"
  have k1: "pmm_of k1 = pmm_of k" "sched_of k1 = upd_task c (\<lambda>t. t\<lparr>t_state := TASK_TERMINATED\<rparr>) (sched_of k)"
    "cpu_of k1 = cpu_of k" "mmu_of k1 = mmu_of k" "mem_of k1 = mem_of k"
    by (simp_all add: k1_def)
  from task_frames_cases [OF o l] show thesis
  proof cases
    case (1 fk)
    have "pmm_wf (pmm_of k1)" "fk \<in> held_set (pmm_of k1)" using wf 1(2) by (simp_all add: k1)
    then obtain p where p: "release_stack (page_to_phys fk) k1 = Some (k1\<lparr>pmm_of := p\<rparr>)" "pmm_wf p"
      "free_set p = insert fk (free_set (pmm_of k1))" "held_set p = held_set (pmm_of k1) - {fk}"
      "num_pages p = num_pages (pmm_of k1)"
      by (rule release_stack_frame)
    let ?f = "\<lambda>t. t\<lparr>t_state := TASK_TERMINATED, kernel_stack_base := 0, time_slice := 0\<rparr>"
    let ?k' = "k1\<lparr>pmm_of := p, sched_of := upd_task c ?f (sched_of k)\<rparr>"
    show thesis
    proof (rule that)
      show "exited c k ?k'"
        unfolding exited_def using p(2-5) 1
        by (intro conjI exI [of _ ?f]) (simp_all add: k1 Let_def)
      show "task_exit k = (let (switched, k') = schedule ?k' in if switched then Some (True, k') else None)"
        using cur 1(1,3,4) p(1)
        by (simp add: task_exit_def Let_def k1_def [symmetric] k1(2)) (simp add: on_sched_def k1(2))
    qed
  next
    case (2 fk fu)
    have "pmm_wf (pmm_of k1)" "fk \<in> held_set (pmm_of k1)" using wf 2(2) by (simp_all add: k1)
    then obtain p where p: "release_stack (page_to_phys fk) k1 = Some (k1\<lparr>pmm_of := p\<rparr>)" "pmm_wf p"
      "free_set p = insert fk (free_set (pmm_of k1))" "held_set p = held_set (pmm_of k1) - {fk}"
      "num_pages p = num_pages (pmm_of k1)"
      by (rule release_stack_frame)
    define k2 where "k2 = k1\<lparr>pmm_of := p, sched_of := upd_task c (\<lambda>t. t\<lparr>t_state := TASK_TERMINATED,
        kernel_stack_base := 0\<rparr>) (sched_of k)\<rparr>"
    have "pmm_wf (pmm_of k2)" "fu \<in> held_set (pmm_of k2)" using p(2,4) 2(5) by (simp_all add: k1 k2_def)
    then obtain p' where p': "release_stack (page_to_phys fu) k2 = Some (k2\<lparr>pmm_of := p'\<rparr>)" "pmm_wf p'"
      "free_set p' = insert fu (free_set (pmm_of k2))" "held_set p' = held_set (pmm_of k2) - {fu}"
      "num_pages p' = num_pages (pmm_of k2)"
      by (rule release_stack_frame)
    let ?f = "\<lambda>t. t\<lparr>t_state := TASK_TERMINATED, kernel_stack_base := 0, user_stack_base := 0, time_slice := 0\<rparr>"
    let ?k' = "k2\<lparr>pmm_of := p', sched_of := upd_task c ?f (sched_of k)\<rparr>"
    show thesis
    proof (rule that)
      show "exited c k ?k'"
        unfolding exited_def using p'(2-5) p(3-5) 2
        by (intro conjI exI [of _ ?f]) (auto simp: k1 k2_def Let_def)
      have "on_sched (upd_task c (\<lambda>t. t\<lparr>kernel_stack_base := 0\<rparr>)) (k1\<lparr>pmm_of := p\<rparr>) = k2"
        by (simp add: k2_def on_sched_def k1)
      then show "task_exit k = (let (switched, k') = schedule ?k' in if switched then Some (True, k') else None)"
        using cur 2(1,3,4,6) p(1) p'(1)
        by (simp add: task_exit_def Let_def k1_def [symmetric] k1(2))
           (simp add: k2_def on_sched_def)
    qed
  qed
qed

lemma exited_rel:
  assumes rel: "rr_rel (sched_of k) (c, True, ts, q)" and e: "exited c k k'" and st: "stacks_ok k"
  shows "rr_rel (sched_of k') (c, False, 0, q)" "stacks_ok k'"
proof -
  have inv: "sched_inv (sched_of k) q" and cur: "current_task (sched_of k) = Some c"
    and run: "t_state (tk (sched_of k) c) = TASK_RUNNING" using rel by (simp_all add: rr_rel_def)
  note I = sched_invD [OF inv]
  obtain f where s': "sched_of k' = upd_task c f (sched_of k)" "t_state (f (tk (sched_of k) c)) = TASK_TERMINATED"
    "time_slice (f (tk (sched_of k) c)) = 0" "t_next (f (tk (sched_of k) c)) = t_next (tk (sched_of k) c)"
    "t_prev (f (tk (sched_of k) c)) = t_prev (tk (sched_of k) c)"
    using e by (auto simp: exited_def Let_def)
  have d: "dlist (sched_of k') q"
    using I(1) by (subst dlist_links [of _ "sched_of k"]) (simp_all add: s')
  have "c \<notin> set q" unfolding I(3) using run by simp
  then have "set q = {i. i < MAX_TASKS \<and> t_state (tk (sched_of k') i) = TASK_READY}"
    unfolding s'(1) upd_task_simps using I(3) s'(2) by (auto split: if_splits)
  moreover have "(t_state (tk (sched_of k') i) = TASK_RUNNING \<longrightarrow> current_task (sched_of k') = Some i) \<and>
      t_state (tk (sched_of k') i) \<noteq> TASK_BLOCKED \<and> time_slice (tk (sched_of k') i) \<le> DEFAULT_TIME_SLICE"
    if "i < MAX_TASKS" for i
    using I(4) [OF that] I(5) [OF that] I(6) [OF that] by (cases "i = c") (simp_all add: s')
  moreover have "c < MAX_TASKS" using I(7) [OF cur] by simp
  moreover have "t_state (tk (sched_of k') c) = TASK_TERMINATED" "sched_enabled (sched_of k')"
    "current_task (sched_of k') = Some c" using I(2) cur by (simp_all add: s')
  ultimately have "sched_inv (sched_of k') q" using d unfolding sched_inv_def by blast
  then show "rr_rel (sched_of k') (c, False, 0, q)"
    using cur by (simp add: rr_rel_def s')
  have "owns (pmm_of k') (sched_of k')"
  proof (rule owns_remove_frames)
    show "owns (pmm_of k) (sched_of k)" using st by (simp add: stacks_ok_def)
  qed (use e in \<open>auto simp: exited_def s'\<close>)
  then show "stacks_ok k'" by (simp add: stacks_ok_def)
qed

lemma task_exit_spec:
  assumes rel: "rr_rel (sched_of k) (c, True, ts, q)" and st: "stacks_ok k"
  shows "if q = [] then task_exit k = None
    else \<exists>k1. exited c k k1 \<and> fst (schedule k1) \<and> task_exit k = Some (True, snd (schedule k1)) \<and>
      rr_rel (sched_of k1) (c, False, 0, q) \<and> rr_rel (sched_of (snd (schedule k1))) (hd q, True, 10, tl q) \<and>
      stacks_ok (snd (schedule k1)) \<and> pmm_of (snd (schedule k1)) = pmm_of k1"
proof -
  have l: "live (sched_of k) c" using rr_live [OF rel] by simp
  obtain k1 where k1: "exited c k k1"
    "task_exit k = (let (switched, k') = schedule k1 in if switched then Some (True, k') else None)"
    by (rule task_exit_schedules [OF rr_rel_current [OF rel] l st])
  note r1 = exited_rel [OF rel k1(1) st]
  note step = schedule_refines_rr [OF r1(1)]
  show ?thesis
  proof (cases q)
    case Nil
    then show ?thesis using k1(2) step by (simp add: split_beta)
  next
    case (Cons n q')
    then have "fst (schedule k1)" "rr_rel (sched_of (snd (schedule k1))) (n, True, 10, q')" using step by simp_all
    moreover have "task_exit k = Some (True, snd (schedule k1))"
      using k1(2) \<open>fst (schedule k1)\<close> by (simp add: split_beta)
    ultimately show ?thesis using k1(1) r1 schedule_stacks [OF r1] Cons by auto
  qed
qed

text \<open>
  C16: \<^verbatim>\<open>task_exit\<close> never returns to the task: with no other task ready the processor hangs;
  otherwise the first ready task runs next with a fresh slice and its saved context, the exiting
  task's slot is free, exactly its stack frames are back with the allocator, and the ownership of
  all other stacks is intact.
\<close>
theorem task_exit_releases:
  assumes "rr_rel (sched_of k) (c, True, ts, q)" "stacks_ok k"
  shows "if q = [] then task_exit k = None
    else \<exists>k'. task_exit k = Some (True, k') \<and> rr_rel (sched_of k') (hd q, True, 10, tl q) \<and> stacks_ok k' \<and>
      \<not> live (sched_of k') c \<and> free_set (pmm_of k') = free_set (pmm_of k) \<union> task_frames (sched_of k) c \<and>
      task_frames (sched_of k) c \<noteq> {} \<and>
      cpu_of k' = switch_restore (t_context (tk (sched_of k) (hd q))) (cpu_of k)"
proof (cases "q = []")
  case False
  obtain k1 where e: "exited c k k1" and sw: "fst (schedule k1)" and run: "task_exit k = Some (True, snd (schedule k1))"
    and r1: "rr_rel (sched_of k1) (c, False, 0, q)"
    and r2: "rr_rel (sched_of (snd (schedule k1))) (hd q, True, 10, tl q)"
    and st: "stacks_ok (snd (schedule k1))" "pmm_of (snd (schedule k1)) = pmm_of k1"
    using task_exit_spec [OF assms] False by auto
  have inv: "sched_inv (sched_of k) q" and cs: "t_state (tk (sched_of k) c) = TASK_RUNNING"
    using assms(1) by (simp_all add: rr_rel_def)
  have cq: "c \<notin> set q" unfolding sched_invD(3) [OF inv] using cs by simp
  then have n: "hd q \<noteq> c" "c \<notin> set (tl q)" using False by (metis hd_in_set, metis list.set_sel(2))
  have dead: "\<not> live (sched_of (snd (schedule k1))) c" using rr_live [OF r2] n by auto
  obtain s m where s: "\<And>i. fixed (tk s i) = fixed (tk (sched_of k1) i)"
    and m: "snd (schedule k1) = dispatch c m (k1\<lparr>sched_of := s\<rparr>)"
    using schedule_switch_shape [OF r1 sw] by metis
  have "m = hd q" using rr_rel_current [OF r2] by (simp add: m dispatch_context)
  then have "cpu_of (snd (schedule k1)) = switch_restore (t_context (tk s (hd q))) (cpu_of k1)"
    using dispatch_cpu(1) [OF n(1)] by (simp add: m)
  also have "t_context (tk s (hd q)) = t_context (tk (sched_of k) (hd q))"
    using fixedD(1) [OF s] e n(1) by (auto simp: exited_def)
  also have "cpu_of k1 = cpu_of k" using e by (simp add: exited_def)
  finally have cpu: "cpu_of (snd (schedule k1)) = switch_restore (t_context (tk (sched_of k) (hd q))) (cpu_of k)" .
  have "owns (pmm_of k) (sched_of k)" "live (sched_of k) c"
    using assms rr_live by (auto simp: stacks_ok_def)
  then have "task_frames (sched_of k) c \<noteq> {}" by (rule task_frames_cases) auto
  then show ?thesis using False run r2 st dead cpu e by (auto simp: exited_def)
qed (use task_exit_spec [OF assms] in simp)

section \<open>Initialisation\<close>

definition pool_entry :: "task \<Rightarrow> task" where
  "pool_entry t = t\<lparr>t_state := TASK_TERMINATED, t_id := 0, kernel_stack_base := 0, kernel_stack_top := 0,
     user_stack_base := 0, user_stack_top := 0, t_page_table := 0, t_level := TASK_KERNEL\<rparr>"

lemma init_pool_fields [simp]:
  "current_task (init_pool i n s) = current_task s" "ready_queue_head (init_pool i n s) = ready_queue_head s"
  "ready_queue_tail (init_pool i n s) = ready_queue_tail s" "next_task_id (init_pool i n s) = next_task_id s"
  "sched_enabled (init_pool i n s) = sched_enabled s"
  by (induction n arbitrary: i s) simp_all

lemma init_pool_tasks:
  "tk (init_pool i n s) j = (if i \<le> j \<and> j < i + n then pool_entry (tk s j) else tk s j)"
proof (induction n arbitrary: i s)
  case (Suc n)
  then show ?case by (cases "j = i") (auto simp: pool_entry_def)
qed auto

lemma find_slot_first: "t_state (tk s i) = TASK_TERMINATED \<Longrightarrow> find_slot s i (Suc n) = Some i"
  by simp

lemma sched_init_spec:
  assumes s: "sched_of k = sched_bss" and wf: "pmm_wf (pmm_of k)" and free: "free_set (pmm_of k) \<noteq> {}"
    and u: "ttbr0_el1 (mmu_of k) = 0" "current_user_pgd (mmu_of k) = 0"
  shows "\<exists>k' f. sched_init idle k = Some k' \<and> rr_rel (sched_of k') (0, True, 10, []) \<and> stacks_ok k' \<and>
    space_ok k' \<and> f \<in> free_set (pmm_of k) \<and> free_set (pmm_of k') = free_set (pmm_of k) - {f} \<and>
    t_context (tk (sched_of k') 0) = start_context idle 0 (page_to_phys f + 0x1000) \<and>
    held_set (pmm_of k') = insert f (held_set (pmm_of k)) \<and> num_pages (pmm_of k') = num_pages (pmm_of k) \<and>
    (\<forall>i. live (sched_of k') i \<longrightarrow> t_level (tk (sched_of k') i) = TASK_KERNEL) \<and>
    t_id (tk (sched_of k') 0) = 1 \<and> next_task_id (sched_of k') = 2 \<and>
    cpu_of k' = cpu_of k \<and> mmu_of k' = mmu_of k \<and> mem_of k' = mem_of k"
proof -
  define k1 where "k1 = on_sched (init_pool 0 MAX_TASKS) (say [NL, S ''========================================'', NL,
      S ''Initializing Scheduler'', NL, S ''========================================'', NL] k)"
  have k1: "pmm_of k1 = pmm_of k" "sched_of k1 = init_pool 0 MAX_TASKS sched_bss" "cpu_of k1 = cpu_of k"
    "mmu_of k1 = mmu_of k" "mem_of k1 = mem_of k" by (simp_all add: k1_def s)
  obtain f p where p: "alloc_pages 0 (pmm_of k) = Some (Some f, p)" "f \<in> free_set (pmm_of k)" "pmm_wf p"
    "free_set p = free_set (pmm_of k) - {f}" "held_set p = insert f (held_set (pmm_of k))" "num_pages p = num_pages (pmm_of k)"
    using alloc_pages_single_held [OF wf free] by blast
  note fb = free_set_bound [OF wf p(2)]
  have pool: "tk (sched_of k1) j = (if j < MAX_TASKS then pool_entry task_zero else task_zero)" for j
    by (simp add: k1 init_pool_tasks) (simp add: sched_bss_def)
  have z: "MAX_TASKS = Suc 31" by (simp add: MAX_TASKS_def)
  have slot: "find_slot (sched_of k1) 0 MAX_TASKS = Some 0"
    unfolding z by (rule find_slot_first) (simp add: pool pool_entry_def MAX_TASKS_def)
  let ?t = "(pool_entry task_zero)\<lparr>kernel_stack_base := page_to_phys f, t_id := 1,
      t_name := copy_name 31 ''idle'', t_priority := 255, time_slice := DEFAULT_TIME_SLICE,
      run_count := 0, total_runtime := 0, t_level := TASK_KERNEL, t_page_table := 0,
      user_stack_base := 0, user_stack_top := 0, t_context := start_context idle 0 (page_to_phys f + 0x1000),
      kernel_stack_top := page_to_phys f + 0x1000, t_state := TASK_RUNNING\<rparr>"
  have b: "next_task_id (sched_of k1) = 1" "ready_queue_head (sched_of k1) = None"
    "ready_queue_tail (sched_of k1) = None" "\<not> sched_enabled (sched_of k1)"
    by (simp_all add: k1(2)) (simp_all add: sched_bss_def)
  have 0: "tk (sched_of k1) 0 = pool_entry task_zero" by (simp add: pool MAX_TASKS_def)
  define k2 where "k2 = snd (the (task_create ''idle'' idle 0 255 k1))"
  have run: "\<exists>id. task_create ''idle'' idle 0 255 k1 = Some (id, k2)"
    by (simp add: k2_def task_create_def slot Let_def p(1) k1(1))
  have k2: "pmm_of k2 = p" "cpu_of k2 = cpu_of k" "mmu_of k2 = mmu_of k" "mem_of k2 = mem_of k"
    "current_task (sched_of k2) = Some 0" "next_task_id (sched_of k2) = 2"
    "ready_queue_head (sched_of k2) = None" "ready_queue_tail (sched_of k2) = None"
    by (simp_all add: k2_def task_create_def slot p(1) Let_def k1(1,3-5) b)
  have tk2: "tk (sched_of k2) j = (if j = 0 then ?t else tk (sched_of k1) j)" for j
    by (simp add: k2_def task_create_def slot p(1) Let_def k1(1) b 0 stack_top_frame [OF fb] start_context_def)
  let ?k' = "on_sched (\<lambda>s. s\<lparr>sched_enabled := True\<rparr>) (say [S ''Scheduler initialized'', NL, S ''Time slice: '',
      X DEFAULT_TIME_SLICE, S '' ticks'', NL, S ''========================================'', NL, NL] k2)"
  have "sched_init idle k = Some ?k'"
    using run by (auto simp: sched_init_def Let_def k1_def [symmetric])
  moreover have dead: "t_state (tk (sched_of ?k') j) = (if j = 0 then TASK_RUNNING else TASK_TERMINATED)" if "j < MAX_TASKS" for j
    using that by (simp add: tk2 pool pool_entry_def)
  have slice: "time_slice (tk (sched_of ?k') j) \<le> DEFAULT_TIME_SLICE" if "j < MAX_TASKS" for j
    using that by (simp add: tk2 pool pool_entry_def task_zero_def)
  have "sched_inv (sched_of ?k') []"
    unfolding sched_inv_def using k2 dead slice z by (auto simp: dlist_def)
  then have "rr_rel (sched_of ?k') (0, True, 10, [])"
    unfolding rr_rel_def using k2 by (simp add: tk2) (simp add: DEFAULT_TIME_SLICE_def)
  moreover have "stacks_ok ?k'"
  proof -
    have "owns p (sched_of ?k')"
    proof (rule owns_add [where i = 0 and f = f and s = "sched_of k1"])
      show "owns (pmm_of k) (sched_of k1)"
        using wf by (auto simp: owns_def stacks_def live_def pool pool_entry_def)
      have "f \<notin> held_set (pmm_of k)" using pmm0.avail_held [OF wf] p(2) by blast
      then show "f \<in> held_set p - held_set (pmm_of k)" using p(5) by simp
    qed (use p(3,5) in \<open>auto simp: live_def tk2 pool pool_entry_def MAX_TASKS_def\<close>)
    then show ?thesis using k2(1) by (simp add: stacks_ok_def)
  qed
  moreover have "space_ok ?k'"
    using k2 u by (auto simp: space_ok_def tk2 task_space_def pool pool_entry_def)
  moreover have "t_level (tk (sched_of ?k') i) = TASK_KERNEL" if "live (sched_of ?k') i" for i
    using that by (auto simp: live_def tk2 pool pool_entry_def)
  ultimately show ?thesis using p(2,4-) k2
    by (intro exI [of _ ?k'] exI [of _ f]) (simp add: tk2)
qed

section \<open>Sleeping\<close>

lemma task_yield_twice [simp]: "task_yield (task_yield k) = task_yield k"
  by (auto simp: task_yield_def on_sched_def split: option.split)

lemma sleep_loop_returns:
  "\<not> uptime_ms (clock (n + d)) - start < ucast ms \<Longrightarrow>
    sleep_loop clock start ms n k =
      Some (if uptime_ms (clock n) - start < ucast ms then task_yield k else k)"
proof (induction d arbitrary: n k)
  case 0
  then show ?case by (subst sleep_loop.simps) simp
next
  case (Suc d)
  show ?case
  proof (cases "uptime_ms (clock n) - start < ucast ms")
    case True
    have "\<not> uptime_ms (clock (Suc n + d)) - start < ucast ms" using Suc.prems by simp
    from Suc.IH [OF this, of "task_yield k"] True show ?thesis
      by (subst sleep_loop.simps) simp
  qed (subst sleep_loop.simps, simp)
qed

lemma sleep_loop_passes:
  assumes "sleep_loop clock start ms n k = Some k'"
  shows "\<exists>m \<ge> n. \<not> uptime_ms (clock m) - start < ucast ms"
proof (rule sleep_loop.raw_induct
    [where P = "\<lambda>clock start ms n k k'. \<exists>m \<ge> n. \<not> uptime_ms (clock m) - start < ucast ms", OF _ assms])
  fix f :: "(nat \<Rightarrow> u64) \<Rightarrow> u64 \<Rightarrow> u32 \<Rightarrow> nat \<Rightarrow> sys \<Rightarrow> sys option" and clock :: "nat \<Rightarrow> u64" and start ms n k k'
  assume IH: "\<And>clock start ms n k k'. f clock start ms n k = Some k' \<Longrightarrow>
      \<exists>m \<ge> n. \<not> uptime_ms (clock m) - start < ucast ms"
    and eq: "(if uptime_ms (clock n) - start < ucast ms then f clock start ms (Suc n) (task_yield k)
      else Some k) = Some k'"
  show "\<exists>m \<ge> n. \<not> uptime_ms (clock m) - start < ucast ms"
  proof (cases "uptime_ms (clock n) - start < ucast ms")
    case True
    then have "f clock start ms (Suc n) (task_yield k) = Some k'" using eq by simp
    then show ?thesis using IH Suc_leD by blast
  qed blast
qed

lemma sleep_loop_eq:
  "sleep_loop clock start ms n k =
     (if \<exists>m \<ge> n. \<not> uptime_ms (clock m) - start < ucast ms
      then Some (if uptime_ms (clock n) - start < ucast ms then task_yield k else k) else None)"
proof (cases "\<exists>m \<ge> n. \<not> uptime_ms (clock m) - start < ucast ms")
  case True
  then obtain d where "\<not> uptime_ms (clock (n + d)) - start < ucast ms" by (metis le_Suc_ex)
  with sleep_loop_returns [of clock n d start ms k] True show ?thesis by simp
next
  case False
  then have "sleep_loop clock start ms n k = None" using sleep_loop_passes by (metis not_None_eq)
  with False show ?thesis by simp
qed

text \<open>
  \<^verbatim>\<open>task_sleep\<close> returns exactly when some later reading of the tick counter shows that the time
  has passed, and then has at most given up the rest of the task's slice: it never blocks the
  task, and while the counter stands still (as with interrupts masked) it never returns.
\<close>
theorem task_sleep_returns:
  "task_sleep clock ms k =
     (if \<exists>n \<ge> 1. ucast ms \<le> uptime_ms (clock n) - uptime_ms (clock 0)
      then Some (if ucast ms \<le> uptime_ms (clock 1) - uptime_ms (clock 0) then k else task_yield k)
      else None)"
proof -
  have swap: "(if a < b then x else y) = (if b \<le> a then y else x)" for a b :: u64 and x y :: sys
    by auto
  show ?thesis unfolding task_sleep_def sleep_loop_eq swap not_less ..
qed

section \<open>Properties\<close>

text \<open>
  \<^verbatim>\<open>sched_init\<close> from zeroed static storage starts the scheduler with one task, the idle task:
  it is the current task with a full slice, its stack is a frame taken from the allocator, its
  saved context enters \<^verbatim>\<open>idle_task_func\<close> on that stack, the ready queue is empty and scheduling is on.
\<close>
theorem sched_init_starts:
  assumes "sched_of k = sched_bss" "pmm_wf (pmm_of k)" "free_set (pmm_of k) \<noteq> {}"
    "ttbr0_el1 (mmu_of k) = 0" "current_user_pgd (mmu_of k) = 0"
  shows "\<exists>k' f. sched_init idle k = Some k' \<and> rr_rel (sched_of k') (0, True, 10, []) \<and> stacks_ok k' \<and>
    space_ok k' \<and> f \<in> free_set (pmm_of k) \<and> free_set (pmm_of k') = free_set (pmm_of k) - {f} \<and>
    t_context (tk (sched_of k') 0) = start_context idle 0 (page_to_phys f + 0x1000)"
  using sched_init_spec [OF assms, of idle] by blast

lemma task_create_full:
  "find_slot (sched_of k) 0 MAX_TASKS = None \<Longrightarrow>
    task_create name func arg priority k = Some (0, say [S ''ERROR: No free task slots'', NL] k)"
  by (simp add: task_create_def)

lemma task_create_no_memory:
  assumes "pmm_wf (pmm_of k)" "free_set (pmm_of k) = {}" "find_slot (sched_of k) 0 MAX_TASKS = Some i"
  shows "task_create name func arg priority k = Some (0, say [S ''ERROR: Failed to allocate task stack'', NL] k)"
proof -
  have "alloc_pages 0 (pmm_of k) = Some (None, pmm_of k)" by (rule pmm0.alloc_null [OF assms(1,2)])
  then show ?thesis using assms(3) by (simp add: task_create_def)
qed

text \<open>
  C31: \<^verbatim>\<open>task_create\<close> on a running scheduler: with no dead slot, or no free frame, it reports the
  error, returns 0 and changes nothing; otherwise it takes the lowest dead slot and a free frame
  as stack, gives the task the next id, a context that enters the function with its argument on
  top of the stack, appends it to the ready queue, and leaves every other task alone.
\<close>
theorem task_create_queues:
  assumes "rr_rel (sched_of k) (c, True, ts, q)" "stacks_ok k"
  shows "if \<forall>i < MAX_TASKS. live (sched_of k) i
    then task_create name func arg priority k = Some (0, say [S ''ERROR: No free task slots'', NL] k)
    else if free_set (pmm_of k) = {}
    then task_create name func arg priority k = Some (0, say [S ''ERROR: Failed to allocate task stack'', NL] k)
    else \<exists>i f k'. i < MAX_TASKS \<and> \<not> live (sched_of k) i \<and> (\<forall>j < i. live (sched_of k) j) \<and>
      task_create name func arg priority k = Some (next_task_id (sched_of k), k') \<and>
      f \<in> free_set (pmm_of k) \<and> free_set (pmm_of k') = free_set (pmm_of k) - {f} \<and>
      rr_rel (sched_of k') (c, True, ts, q @ [i]) \<and> stacks_ok k' \<and>
      kernel_stack_base (tk (sched_of k') i) = page_to_phys f \<and>
      t_context (tk (sched_of k') i) = start_context func arg (page_to_phys f + 0x1000) \<and>
      (\<forall>j. j \<noteq> i \<longrightarrow> core (tk (sched_of k') j) = core (tk (sched_of k) j))"
proof (cases "find_slot (sched_of k) 0 MAX_TASKS")
  case None
  then have "\<forall>i < MAX_TASKS. live (sched_of k) i"
    using find_slot_None [of "sched_of k" 0 MAX_TASKS] by (simp add: live_def)
  then show ?thesis using task_create_full [OF None] by simp
next
  case (Some i)
  from find_slot_Some [OF Some] have i: "i < MAX_TASKS" "\<not> live (sched_of k) i" "\<forall>j < i. live (sched_of k) j"
    by (auto simp: live_def)
  then have dead: "\<not> (\<forall>i < MAX_TASKS. live (sched_of k) i)" by blast
  show ?thesis
  proof (cases "free_set (pmm_of k) = {}")
    case True
    show ?thesis unfolding if_not_P [OF dead] if_P [OF True]
      by (rule task_create_no_memory [OF stacks_okD [OF assms(2)] True Some])
  next
    case False
    from task_create_spec [OF assms Some False, of name func arg priority] i dead False show ?thesis
      unfolding Let_def by (simp only: if_False) blast
  qed
qed

section \<open>Witnesses\<close>

text \<open>The system as it is when \<^verbatim>\<open>sched_init\<close> is called, and what it leaves.\<close>

definition boot_sys :: sys where
  "boot_sys = set_vm boot_vm \<lparr>pmm_of = boot_pmm, mmu_of = mmu_bss 0, mem_of = (\<lambda>_. 0), con_of = [],
     sched_of = sched_bss, cpu_of = cpu_start\<rparr>"

definition started :: sys where
  "started = the (sched_init 0x40401000 boot_sys)"

lemma boot_sys_simps [simp]:
  "sched_of boot_sys = sched_bss" "pmm_of boot_sys = boot_pmm" "cpu_of boot_sys = cpu_start"
  "vm_of boot_sys = boot_vm"
  by (simp_all add: boot_sys_def set_vm_def vm_of_def split_beta)

lemma boot_mmu: "ttbr0_el1 (mmu_of boot_sys) = 0" "current_user_pgd (mmu_of boot_sys) = 0"
proof -
  have "next_page_table (mmu_bss 0) = 0" "38 \<le> cap lk0" by (simp_all add: mmu_bss_def lk0_ok)
  then obtain u m con where i: "mmu_init lk0 (mmu_bss 0, (\<lambda>_. 0), []) = Some (u, m, con)"
    "ttbr0_el1 u = 0" "current_user_pgd u = current_user_pgd (mmu_bss 0)"
    using mmu_init_spec [OF lk0_ok(1), of "mmu_bss 0" "\<lambda>_. 0" "[]"] by blast
  then have "mmu_of boot_sys = u" by (simp add: boot_sys_def boot_vm_def set_vm_def)
  then show "ttbr0_el1 (mmu_of boot_sys) = 0" "current_user_pgd (mmu_of boot_sys) = 0"
    using i by (simp_all add: mmu_bss_def)
qed

lemma boot_free: "free_set (pmm_of boot_sys) \<noteq> {}"
proof -
  have "(0 :: nat) \<in> free_set (pmm_of boot_sys)" by (simp add: boot_pmm_facts)
  then show ?thesis by blast
qed

lemma boot_wf: "pmm_wf (pmm_of boot_sys)"
  by (simp add: boot_pmm_facts)

lemma started_facts:
  "sched_init 0x40401000 boot_sys = Some started" "rr_rel (sched_of started) (0, True, 10, [])"
  "stacks_ok started" "space_ok started" "mmu_of started = mmu_of boot_sys" "mem_of started = mem_of boot_sys"
  "\<exists>f. f \<in> free_set boot_pmm \<and> free_set (pmm_of started) = free_set boot_pmm - {f}"
  "next_task_id (sched_of started) = 2"
proof -
  obtain k' f where k': "sched_init 0x40401000 boot_sys = Some k'" "rr_rel (sched_of k') (0, True, 10, [])"
    "stacks_ok k'" "space_ok k'" "mmu_of k' = mmu_of boot_sys" "mem_of k' = mem_of boot_sys"
    "f \<in> free_set (pmm_of boot_sys)" "free_set (pmm_of k') = free_set (pmm_of boot_sys) - {f}"
    "next_task_id (sched_of k') = 2"
    using sched_init_spec [OF boot_sys_simps(1) boot_wf boot_free boot_mmu, of "0x40401000"] by blast
  moreover from this(1) have s: "started = k'" by (simp add: started_def)
  ultimately show "sched_init 0x40401000 boot_sys = Some started" "rr_rel (sched_of started) (0, True, 10, [])"
    "stacks_ok started" "space_ok started" "mmu_of started = mmu_of boot_sys" "mem_of started = mem_of boot_sys"
    "\<exists>f. f \<in> free_set boot_pmm \<and> free_set (pmm_of started) = free_set boot_pmm - {f}"
    "next_task_id (sched_of started) = 2"
    unfolding s boot_sys_simps by blast+
qed

lemma started_live: "live (sched_of started) i \<longleftrightarrow> i = 0"
  using rr_live [OF started_facts(2)] by simp

lemma started_slot: "\<not> (\<forall>i < MAX_TASKS. live (sched_of started) i)"
proof -
  have "(1 :: nat) < MAX_TASKS" by (simp add: MAX_TASKS_def)
  then show ?thesis using started_live [of 1] by auto
qed

lemma started_free: "free_set (pmm_of started) \<noteq> {}"
proof -
  obtain f where f: "free_set (pmm_of started) = free_set boot_pmm - {f}" using started_facts(7) by blast
  have "(0 :: nat) \<in> free_set boot_pmm" "(1 :: nat) \<in> free_set boot_pmm" by (simp_all add: boot_pmm_facts)
  then show ?thesis unfolding f by (metis Diff_iff empty_iff singletonD zero_neq_one)
qed

theorem sched_init_starts_witness:
  "\<exists>k'. sched_init 0x40401000 boot_sys = Some k' \<and> current_task (sched_of k') = Some 0"
  using sched_init_starts [OF boot_sys_simps(1) boot_wf boot_free boot_mmu, of "0x40401000"]
  by (auto simp: rr_rel_def)

theorem task_create_queues_witness:
  "\<exists>i k'. task_create ''Task1'' 0x40402000 7 1 started = Some (next_task_id (sched_of started), k') \<and>
     rr_rel (sched_of k') (0, True, 10, [i])"
  using task_create_queues [OF started_facts(2,3), of "''Task1''" "0x40402000" 7 1]
  unfolding if_not_P [OF started_slot] if_not_P [OF started_free] by auto

text \<open>The started system with a second task that waits.\<close>

definition started2 :: sys where
  "started2 = snd (the (task_create ''Task1'' 0x40402000 7 1 started))"

lemma started2_facts: "\<exists>i. rr_rel (sched_of started2) (0, True, 10, [i])" "stacks_ok started2"
proof -
  obtain i where slot: "find_slot (sched_of started) 0 MAX_TASKS = Some i"
    using find_slot_None [of "sched_of started" 0 MAX_TASKS] started_slot
    by (cases "find_slot (sched_of started) 0 MAX_TASKS") (auto simp: live_def)
  from task_create_spec [OF started_facts(2,3) slot started_free, of "''Task1''" "0x40402000" 7 1]
  obtain k' where "task_create ''Task1'' 0x40402000 7 1 started = Some (next_task_id (sched_of started), k')"
    "rr_rel (sched_of k') (0, True, 10, [] @ [i])" "stacks_ok k'" by blast
  then show "\<exists>i. rr_rel (sched_of started2) (0, True, 10, [i])" "stacks_ok started2"
    by (auto simp: started2_def)
qed

theorem task_exit_releases_witness:
  "\<exists>k'. task_exit started2 = Some (True, k') \<and>
     free_set (pmm_of k') = free_set (pmm_of started2) \<union> task_frames (sched_of started2) 0"
proof -
  obtain i where "rr_rel (sched_of started2) (0, True, 10, [i])" using started2_facts(1) by blast
  from task_exit_releases [OF this started2_facts(2)] show ?thesis by auto
qed

end
