(* ===== verification/User_Tasks.thy ===== *)
theory User_Tasks
  imports Tasks
begin

text \<open>
  User tasks (\<^verbatim>\<open>task_create_user\<close> in \<^verbatim>\<open>sched/sched.c\<close>): what a new address space holds, the program
  image, the error paths and the memory they give back.
\<close>

section \<open>Page tables and the rest of memory\<close>

text \<open>The abstract tables depend on table memory only.\<close>

lemma entry_load_cong:
  fixes m m' :: mem
  assumes lk: "lk_ok lk" and m: "\<And>x. in_space lk x \<Longrightarrow> m' x = m x" and k: "k < cap lk" "unat i < 512"
  shows "load64 m' (entry_addr (tbl lk k) i) = load64 m (entry_addr (tbl lk k) i)"
proof (rule load64_cong)
  fix j :: nat assume j: "j < 8"
  note e = unat_entry [OF lk k]
  have "unat (of_nat j :: u64) = j" using j by (intro unat_of_nat_small) simp
  then have "unat (entry_addr (tbl lk k) i + of_nat j) = unat (entry_addr (tbl lk k) i) + j"
    using e j by (subst unat_add_no_wrap) simp_all
  then show "m' (entry_addr (tbl lk k) i + of_nat j) = m (entry_addr (tbl lk k) i + of_nat j)"
    using e j by (intro m) (simp add: in_space_def)
qed

lemma vm_rel_mem:
  fixes m m' :: mem
  assumes rel: "vm_rel lk (u, m, con) L F" and m: "\<And>x. in_space lk x \<Longrightarrow> m' x = m x"
  shows "vm_rel lk (u, m', con) L F"
proof -
  obtain lab n where ok: "next_ok lk u n" and links: "links lk m lab n" and L: "L = lab ` {..<n}"
    using rel by (auto simp: vm_rel_def tree_def)
  have lk: "lk_ok lk" and n: "n \<le> cap lk" using ok by (auto simp: next_ok_def)
  have load: "load64 m' (entry_addr (tbl lk k) i) = load64 m (entry_addr (tbl lk k) i)"
    if "k < n" "unat i < 512" for k i
    using that n by (intro entry_load_cong [OF lk m]) auto
  have links': "links lk m' lab n" using links unfolding links_def by (auto simp: load)
  have "pte_of m' (tbl lk r) va = F r (vpn va)" if r: "(r, 0, 0) \<in> L" for r va
  proof -
    have r': "(r, 0, 0) \<in> lab ` {..<n}" using r L by simp
    have "pte_of m' (tbl lk r) va = pte_of m (tbl lk r) va"
      unfolding pte_of_links [OF ok links r'] pte_of_links [OF ok links' r']
      using at_label(1) VA_INDEX_less(4) load by (auto simp: L)
    then show ?thesis using vm_rel_pte [OF rel r] by simp
  qed
  moreover have "tree lk (u, m', con) lab n" using ok links' by (simp add: tree_def)
  ultimately show ?thesis unfolding vm_rel_def L by auto
qed

section \<open>The address space of a user task\<close>

text \<open>
  The abstract page tables with the root of a user task whose program block of \<open>n\<close> pages starts
  at \<open>prog\<close> and whose stack page is \<open>stack\<close>: nothing else is mapped under it.
\<close>

definition user_ptes :: "u64 \<Rightarrow> nat \<Rightarrow> u64 \<Rightarrow> nat \<Rightarrow> u64" where
  "user_ptes prog n stack p =
     (if 0x400 \<le> p \<and> p < 0x400 + n then (prog + of_nat (4096 * (p - 0x400))) OR PAGE_USER_RX OR PTE_TYPE_PAGE
      else if p = 0x7FFFF then stack OR PAGE_USER_RW OR PTE_TYPE_PAGE
      else 0)"

text \<open>A root, one table at the first level and two at each of the next: six tables in all.\<close>

definition user_labels :: "nat \<Rightarrow> label set" where
  "user_labels r = {(r, 0, 0), (r, 1, 0), (r, 2, 0), (r, 2, 1), (r, 3, 2), (r, 3, 1023)}"

lemma card_user_labels: "card (user_labels r) = 6"
  by (simp add: user_labels_def)

lemma user_paths:
  assumes "0 < n" "n \<le> 8"
  shows "{(r, 0, 0)} \<union> range_paths r 0x400 n \<union> path r 0x7FFFF = user_labels r"
proof -
  have d: "(0x400 + n - 1) div 512 ^ 3 = 0" "(0x400 + n - 1) div 512 ^ 2 = 0" "(0x400 + n - 1) div 512 = 2"
    using assms by simp_all
  have "range_paths r 0x400 n = {(r, 1, 0), (r, 2, 0), (r, 3, 2)}"
    unfolding range_paths_intervals [OF assms(1)] d by auto
  moreover have "path r 0x7FFFF = {(r, 1, 0), (r, 2, 1), (r, 3, 1023)}"
    by (simp add: path_def label_at_def region_def)
  ultimately show ?thesis by (auto simp: user_labels_def)
qed

lemma aligned_plus:
  assumes "take_bit 12 (a :: u64) = 0"
  shows "(a + of_nat (4096 * j)) AND PAGE_MASK = a + of_nat (4096 * j)"
proof (rule and_PAGE_MASK_aligned)
  have "unat (a + of_nat (4096 * j)) = (unat a + 4096 * j) mod 2 ^ 64"
    by (simp add: unat_word_ariths(1) unat_of_nat mod_simps del: of_nat_mult)
  then have "unat (a + of_nat (4096 * j)) mod 4096 = (unat a + 4096 * j) mod 2 ^ 64 mod 4096" by simp
  also have "\<dots> = (unat a + 4096 * j) mod 4096" by (rule mod_mod_cancel) simp
  also have "\<dots> = 0" using assms by (simp add: aligned_unat)
  finally show "take_bit 12 (a + of_nat (4096 * j)) = 0" by (simp only: aligned_unat)
qed

lemma user_ptes_eq:
  assumes "take_bit 12 prog = 0" "take_bit 12 stack = 0" "n \<le> 8"
  shows "set_pte r 0x7FFFF (stack AND PAGE_MASK OR PAGE_USER_RW OR PTE_TYPE_PAGE)
    (fill_ptes r 0x400 n (page_align_down prog) PAGE_USER_RX (F(r := (\<lambda>_. 0)))) = F(r := user_ptes prog n stack)"
  (is "?l = ?r")
proof (intro ext)
  fix r' p
  have "page_align_down prog = prog" using assms(1) by (simp add: page_align_down_def and_PAGE_MASK_aligned)
  then show "?l r' p = ?r r' p"
    using assms aligned_plus [OF assms(1), of "p - 0x400"]
    by (simp add: set_pte_def fill_ptes_def user_ptes_def and_PAGE_MASK_aligned del: of_nat_mult)
qed

lemma user_page_count: "unat sz = 4096 * n \<Longrightarrow> page_count 0x400000 sz = n"
  by (simp add: page_count_def)

text \<open>Building the address space stops in the endless loop of the table allocator only for want of tables.\<close>

definition user_space_stuck :: "linker \<Rightarrow> u64 \<Rightarrow> u64 \<Rightarrow> u64 \<Rightarrow> vm \<Rightarrow> bool" where
  "user_space_stuck lk prog sz stack v \<longleftrightarrow> mmu_create_user_table lk v = None \<or>
     (\<exists>pgd v1. mmu_create_user_table lk v = Some (pgd, v1) \<and> pgd \<noteq> 0 \<and>
       (mmu_map_user_range lk pgd USER_PROG_BASE prog sz PAGE_USER_RX v1 = None \<or>
        (\<exists>v2. mmu_map_user_range lk pgd USER_PROG_BASE prog sz PAGE_USER_RX v1 = Some v2 \<and>
          mmu_map_user_page lk pgd USER_STACK_BASE stack PAGE_USER_RW v2 = None)))"

lemma user_space_built:
  assumes rel: "vm_rel lk v L F"
    and n: "0 < n" "n \<le> 8" "unat sz = 4096 * n" and al: "take_bit 12 prog = 0" "take_bit 12 stack = 0"
  obtains (none) "user_space_stuck lk prog sz stack v" "cap lk < card L + 6"
  | (built) v1 v2 v3 where "mmu_create_user_table lk v = Some (tbl lk (card L), v1)" "tbl lk (card L) \<noteq> 0"
    "mmu_map_user_range lk (tbl lk (card L)) USER_PROG_BASE prog sz PAGE_USER_RX v1 = Some v2"
    "mmu_map_user_page lk (tbl lk (card L)) USER_STACK_BASE stack PAGE_USER_RW v2 = Some v3"
    "vm_rel lk v3 (L \<union> user_labels (card L)) (F(card L := user_ptes prog n stack))"
    "\<exists>x. fst v3 = (fst v)\<lparr>next_page_table := x\<rparr>" "\<And>x. \<not> in_space lk x \<Longrightarrow> fst (snd v3) x = fst (snd v) x"
proof -
  let ?r = "card L"
  have fin: "finite L" using rel by (rule vm_rel_used)
  show thesis
  proof (cases "card L < cap lk")
    case False
    then have "mmu_create_user_table lk v = None" using alloc_root_refines [OF rel] by (simp add: mmu_create_user_table_def)
    then show thesis using none False by (simp add: user_space_stuck_def)
  next
  case True
  with alloc_root_refines [OF rel] obtain v0 where
    v0: "alloc_page_table lk v = Some (tbl lk ?r, v0)"
      "vm_rel lk v0 (insert (?r, 0, 0) L) (F(?r := (\<lambda>_. 0)))" "tables_only lk v v0" by auto
  obtain u0 m0 c0 where v0e: "v0 = (u0, m0, c0)" by (cases v0)
  let ?v1 = "(u0, m0, print [S ''Created user page table at '', X (tbl lk ?r), NL] c0)"
  have nz: "tbl lk ?r \<noteq> 0" using tbl_nonzero [OF v0(2)] by simp
  have c: "mmu_create_user_table lk v = Some (tbl lk ?r, ?v1)"
    using v0(1) nz by (simp add: mmu_create_user_table_def v0e)
  have r1: "vm_rel lk ?v1 (insert (?r, 0, 0) L) (F(?r := (\<lambda>_. 0)))"
    using v0(2) vm_rel_cong [of u0 u0] unfolding v0e by blast
  have labels: "insert (?r, 0, 0) L \<union> range_paths ?r 0x400 n \<union> path ?r 0x7FFFF = L \<union> user_labels ?r"
    using user_paths [OF n(1,2), of ?r] by blast
  let ?L2 = "insert (?r, 0, 0) L \<union> range_paths ?r 0x400 n"
  have six: "card (?L2 \<union> path ?r 0x7FFFF) \<le> card L + 6"
    unfolding labels using card_Un_le [of L "user_labels ?r"] card_user_labels [of ?r] by simp
  have fewer: "card ?L2 \<le> card (?L2 \<union> path ?r 0x7FFFF)"
    by (rule card_mono) (use fin in \<open>auto simp: path_def\<close>)
  have b: "unat USER_PROG_BASE + unat sz \<le> 2 ^ 39" using n by (simp add: USER_PROG_BASE_def)
  have pc: "unat USER_PROG_BASE div 4096 = 0x400" "page_count USER_PROG_BASE sz = n"
    using user_page_count [OF n(3)] by (simp_all add: USER_PROG_BASE_def)
  note range = map_user_range_refines [OF r1 insertI1 b, of prog PAGE_USER_RX, unfolded pc]
  show thesis
  proof (cases "card ?L2 \<le> cap lk")
    case False
    then have "mmu_map_user_range lk (tbl lk ?r) USER_PROG_BASE prog sz PAGE_USER_RX ?v1 = None" using range by simp
    then show thesis using none c nz False six fewer by (simp add: user_space_stuck_def)
  next
  case card2: True
  obtain v2 where v2: "mmu_map_user_range lk (tbl lk ?r) USER_PROG_BASE prog sz PAGE_USER_RX ?v1 = Some v2"
    "vm_rel lk v2 ?L2
      (fill_ptes ?r 0x400 n (page_align_down prog) PAGE_USER_RX (F(?r := (\<lambda>_. 0))))" "tables_only lk ?v1 v2"
    using range card2 by auto
  have va: "unat USER_STACK_BASE < 2 ^ 39" and vp: "vpn USER_STACK_BASE = 0x7FFFF"
    by (simp_all add: USER_STACK_BASE_def vpn_def)
  have root: "(?r, 0, 0) \<in> ?L2" by simp
  note page = user_map.map1_refines [OF v2(2) root TrueI va, of stack PAGE_USER_RW, unfolded vp]
  show thesis
  proof (cases "card (?L2 \<union> path ?r 0x7FFFF) \<le> cap lk")
    case False
    then have "mmu_map_user_page lk (tbl lk ?r) USER_STACK_BASE stack PAGE_USER_RW v2 = None" using page by simp
    then show thesis using none c nz v2(1) False six by (cases v2) (simp add: user_space_stuck_def)
  next
  case card3: True
  obtain v3 where v3: "mmu_map_user_page lk (tbl lk ?r) USER_STACK_BASE stack PAGE_USER_RW v2 = Some v3"
    "vm_rel lk v3 (L \<union> user_labels ?r) (F(?r := user_ptes prog n stack))" "tables_only lk v2 v3"
    using page card3 unfolding labels user_ptes_eq [OF al n(2)] by auto
  show thesis
  proof (rule built [OF c nz v2(1) v3(1,2)])
    show "\<exists>x. fst v3 = (fst v)\<lparr>next_page_table := x\<rparr>"
      using v0(3) v2(3) v3(3) by (auto simp: tables_only_def v0e)
    show "fst (snd v3) x = fst (snd v) x" if "\<not> in_space lk x" for x
      using v0(3) v2(3) v3(3) that by (simp add: tables_only_def v0e)
  qed
  qed qed qed
qed

section \<open>The program block\<close>

lemma order_loop_spec:
  obtains ord where "order_loop 3 n 1 = (ord, 2 ^ ord)" "ord \<le> 3" "unat n \<le> 8 \<Longrightarrow> unat n \<le> 2 ^ ord"
proof -
  have *: "order_loop 3 n 1 = (if 1 < n then if 2 < n then if 4 < n then (3, 8) else (2, 4) else (1, 2) else (0, 1))"
    by (simp add: numeral_3_eq_3)
  have c: "1 < n \<longleftrightarrow> 1 < unat n" "2 < n \<longleftrightarrow> 2 < unat n" "4 < n \<longleftrightarrow> 4 < unat n"
    by (simp_all add: word_less_nat_alt)
  show thesis
    by (rule that [of "fst (order_loop 3 n 1)"]) (auto simp: * c)
qed

lemma in_block_frame:
  assumes "in_block f n x" "{f..<f + n} \<subseteq> free_set p" "pmm_wf p"
  obtains g where "g \<in> free_set p" "in_block g 1 x"
proof -
  have n: "0 < n" using assms(1) by (cases n) (auto simp: in_block_def)
  have b: "g < PAGES_LEN" if "g \<in> {f..<f + n}" for g using that assms(2) free_set_bound [OF assms(3)] by blast
  have f: "unat (page_to_phys f) = 0x40000000 + f * 4096" using b [of f] n by (intro unat_page_to_phys) simp
  obtain z where z: "unat x = unat (page_to_phys f) + z" using assms(1) le_Suc_ex unfolding in_block_def by blast
  define d where "d = z div 4096"
  have "z < n * 4096" using assms(1) z by (simp add: in_block_def)
  then have "d < n" unfolding d_def by (rule less_mult_imp_div_less)
  then have g: "f + d \<in> {f..<f + n}" by simp
  have "unat (page_to_phys (f + d)) = 0x40000000 + (f + d) * 4096" using b [OF g] by (rule unat_page_to_phys)
  moreover have "z = d * 4096 + z mod 4096" "z mod 4096 < 4096" by (simp_all add: d_def)
  ultimately have "in_block (f + d) 1 x" unfolding in_block_def z f by simp
  then show thesis using that g assms(2) by blast
qed

text \<open>
  What the creator needs of its surroundings: frames the allocator may hand out are not table
  memory, and the image to load does not lie in them.
\<close>

definition frames_apart :: "linker \<Rightarrow> pmm \<Rightarrow> bool" where
  "frames_apart lk p \<longleftrightarrow> (\<forall>f \<in> free_set p. \<forall>x. in_block f 1 x \<longrightarrow> \<not> in_space lk x)"

definition image_apart :: "pmm \<Rightarrow> u64 \<Rightarrow> u64 \<Rightarrow> bool" where
  "image_apart p src n \<longleftrightarrow> (\<forall>f \<in> free_set p. \<forall>j < unat n. \<not> in_block f 1 (src + of_nat j))"

lemma in_range_block:
  assumes "{f..<f + n} \<subseteq> free_set p" "pmm_wf p" "0 < n" "l \<le> 4096 * n" "in_range x (page_to_phys f) l"
  shows "in_block f n x"
proof -
  have l: "f + n - 1 \<in> {f..<f + n}" using assms(3) unfolding atLeastLessThan_iff by linarith
  have "f + n - 1 \<in> free_set p" by (rule subsetD [OF assms(1) l])
  then have "f + n - 1 < PAGES_LEN" using free_set_bound [OF assms(2)] by blast
  then have fn: "f + n \<le> 16384" using assms(3) by (simp add: PAGES_LEN_def)
  then have f: "unat (page_to_phys f) = 0x40000000 + f * 4096"
    using assms(3) by (intro unat_page_to_phys) (simp add: PAGES_LEN_def)
  have "unat (page_to_phys f) + l \<le> 2 ^ 64" using f fn assms(4) by simp
  from in_range_iff [OF this] assms(5) show ?thesis using assms(4) by (auto simp: in_block_def)
qed

lemma load_image:
  assumes fr: "{f..<f + n} \<subseteq> free_set p" "pmm_wf p" "0 < n" and len: "unat sz \<le> 4096 * n"
    and img: "image_apart p src sz"
  shows "j < unat sz \<Longrightarrow> fst (memcpy m (page_to_phys f) src sz) (page_to_phys f + of_nat j) = m (src + of_nat j)"
    and "\<not> in_block f n x \<Longrightarrow> fst (memcpy m (page_to_phys f) src sz) x = m x"
proof -
  have s64: "unat sz < 2 ^ 64" by simp
  have "\<not> in_range (page_to_phys f) src (unat sz)"
  proof
    assume r: "in_range (page_to_phys f) src (unat sz)"
    let ?j = "unat (page_to_phys f - src)"
    have j: "?j < unat sz" "src + of_nat ?j = page_to_phys f" using r by (simp_all add: in_range_def)
    have "in_block f n (page_to_phys f)" using fr(3) by (simp add: in_block_def)
    then obtain g where "g \<in> free_set p" "in_block g 1 (page_to_phys f)" by (rule in_block_frame [OF _ fr(1,2)])
    then show False using img j unfolding image_apart_def by metis
  qed
  then show "j < unat sz \<Longrightarrow> fst (memcpy m (page_to_phys f) src sz) (page_to_phys f + of_nat j) = m (src + of_nat j)"
    using memcpy_loop_copies [OF s64] by (simp add: memcpy_def)
  show "fst (memcpy m (page_to_phys f) src sz) x = m x" if "\<not> in_block f n x"
    using memcpy_loop_other [OF s64, of x "page_to_phys f" m src] in_range_block [OF fr len, of x] that
    by (simp add: memcpy_def) blast
qed

section \<open>Running the creator\<close>

definition user_context :: frame where
  "user_context = frame_zero\<lparr>f_elr := USER_PROG_BASE, f_sp := USER_STACK_BASE + PAGE_SIZE, f_spsr := 0x3C0,
     gpr := (gpr frame_zero)(0 := 0, 1 := 0)\<rparr>"

definition image_pages :: "u64 \<Rightarrow> u64" where
  "image_pages sz = (let n = (sz + PAGE_SIZE - 1) div PAGE_SIZE in if n = 0 then 1 else n)"

definition new_user :: "string \<Rightarrow> u32 \<Rightarrow> u32 \<Rightarrow> u64 \<Rightarrow> u64 \<Rightarrow> u64 \<Rightarrow> task \<Rightarrow> task" where
  "new_user name priority tid kbase ubase pgd t = t\<lparr>kernel_stack_base := kbase, user_stack_base := ubase,
     user_stack_top := USER_STACK_BASE + PAGE_SIZE, t_id := tid, t_name := copy_name 31 name,
     t_priority := priority, time_slice := DEFAULT_TIME_SLICE, run_count := 0, total_runtime := 0,
     t_level := TASK_USER, t_page_table := pgd, t_context := user_context,
     kernel_stack_top := stack_top kbase, t_state := TASK_READY\<rparr>"

lemma task_create_user_run:
  assumes slot: "find_slot (sched_of k) 0 MAX_TASKS = Some i"
    and p1: "alloc_pages 0 (pmm_of k) = Some (Some fk, p1)" and p2: "alloc_pages 0 p1 = Some (Some fu, p2)"
    and ord: "order_loop 3 (image_pages sz) 1 = (ord, opages)"
    and p3: "alloc_pages (int ord) p2 = Some (Some fp, p3)"
    and v: "mmu_create_user_table lk (mmu_of k, fst (memcpy (mem_of k) (page_to_phys fp) binary sz), con_of k) = Some (pgd, v1)"
      "pgd \<noteq> 0" "mmu_map_user_range lk pgd USER_PROG_BASE (page_to_phys fp) (opages * PAGE_SIZE) PAGE_USER_RX v1 = Some v2"
      "mmu_map_user_page lk pgd USER_STACK_BASE (page_to_phys fu) PAGE_USER_RW v2 = Some v3"
    and en: "sched_enabled (sched_of k)"
  obtains k' s where "task_create_user lk name binary sz priority k = Some (next_task_id (sched_of k), k')"
    "pmm_of k' = p3" "mmu_of k' = fst v3" "mem_of k' = fst (snd v3)" "cpu_of k' = cpu_of k"
    "sched_of k' = add_to_ready_queue i s"
    "\<And>j. tk s j = (if j = i then new_user name priority (next_task_id (sched_of k)) (page_to_phys fk)
       (page_to_phys fu) pgd (tk (sched_of k) i) else tk (sched_of k) j)"
    "current_task s = current_task (sched_of k)" "ready_queue_head s = ready_queue_head (sched_of k)"
    "ready_queue_tail s = ready_queue_tail (sched_of k)" "sched_enabled s = sched_enabled (sched_of k)"
proof -
  let ?s1 = "upd_task i (\<lambda>t. t\<lparr>kernel_stack_base := page_to_phys fk, user_stack_base := page_to_phys fu\<rparr>) (sched_of k)"
  let ?s = "upd_task i (\<lambda>_. new_user name priority (next_task_id (sched_of k)) (page_to_phys fk)
       (page_to_phys fu) pgd (tk (sched_of k) i)) ((sched_of k)\<lparr>next_task_id := next_task_id (sched_of k) + 1\<rparr>)"
  obtain u3 m3 c3 where v3: "v3 = (u3, m3, c3)" by (cases v3)
  obtain u1 m1 c1 where v1: "v1 = (u1, m1, c1)" by (cases v1)
  define r where "r = task_create_user lk name binary sz priority k"
  have ord': "order_loop 3 (if (sz + PAGE_SIZE - 1) div PAGE_SIZE = 0 then 1 else (sz + PAGE_SIZE - 1) div PAGE_SIZE) 1 = (ord, opages)"
    using ord by (simp add: image_pages_def Let_def)
  have eq: "sched_of (snd (the r)) = add_to_ready_queue i ?s" "pmm_of (snd (the r)) = p3"
    "mmu_of (snd (the r)) = u3" "mem_of (snd (the r)) = m3" "cpu_of (snd (the r)) = cpu_of k" "r = Some (fst (the r), snd (the r))"
    "fst (the r) = t_id (tk (add_to_ready_queue i ?s) i)"
    unfolding r_def task_create_user_def slot option.case p1 bind.bind_lunit prod.case Let_def
    using p2 p3 v en v3 v1 ord'
    by (simp_all add: vm_of_def set_vm_def upd_task_def new_user_def user_context_def on_sched_def)
  have "fst (the r) = next_task_id (sched_of k)"
    using eq(7) by (simp add: same_coreD(1) [OF add_to_ready_queue_core] new_user_def)
  then have run: "task_create_user lk name binary sz priority k = Some (next_task_id (sched_of k), snd (the r))"
    using eq(6) by (simp add: r_def [symmetric])
  show thesis
    by (rule that [OF run, of ?s]) (simp_all add: eq(1-5) v3)
qed

lemma task_create_user_stuck:
  assumes "find_slot (sched_of k) 0 MAX_TASKS = Some i"
    and "alloc_pages 0 (pmm_of k) = Some (Some fk, p1)" "alloc_pages 0 p1 = Some (Some fu, p2)"
    and ord: "order_loop 3 (image_pages sz) 1 = (ord, opages)"
    and "alloc_pages (int ord) p2 = Some (Some fp, p3)"
    and stuck: "user_space_stuck lk (page_to_phys fp) (opages * PAGE_SIZE) (page_to_phys fu)
      (mmu_of k, fst (memcpy (mem_of k) (page_to_phys fp) binary sz), con_of k)"
  shows "task_create_user lk name binary sz priority k = None"
proof -
  have ord': "order_loop 3 (if (sz + PAGE_SIZE - 1) div PAGE_SIZE = 0 then 1 else (sz + PAGE_SIZE - 1) div PAGE_SIZE) 1 = (ord, opages)"
    using ord by (simp add: image_pages_def Let_def)
  show ?thesis
    using assms(1-3,5) stuck ord' unfolding user_space_stuck_def
    by (auto simp: task_create_user_def vm_of_def set_vm_def on_sched_def Let_def)
qed

text \<open>Changing a dead slot's other fields changes neither the schedule nor the ownership.\<close>

lemma dead_slot_update:
  assumes i: "t_state (tk s i) = TASK_TERMINATED"
    and f: "t_state (f (tk s i)) = TASK_TERMINATED" "time_slice (f (tk s i)) = time_slice (tk s i)"
      "t_next (f (tk s i)) = t_next (tk s i)" "t_prev (f (tk s i)) = t_prev (tk s i)"
  shows "rr_rel (upd_task i f s) a = rr_rel s a"
    and "owns p s \<Longrightarrow> pmm_wf p' \<Longrightarrow> held_set p' = held_set p \<Longrightarrow> owns p' (upd_task i f s)"
proof -
  have tk: "t_state (tk (upd_task i f s) j) = t_state (tk s j)" "time_slice (tk (upd_task i f s) j) = time_slice (tk s j)"
    "t_next (tk (upd_task i f s) j) = t_next (tk s j)" "t_prev (tk (upd_task i f s) j) = t_prev (tk s j)" for j
    using i f by simp_all
  have "dlist (upd_task i f s) q = dlist s q" for q by (rule dlist_links) (simp_all only: tk upd_task_simps(2-6))
  then show "rr_rel (upd_task i f s) a = rr_rel s a"
    unfolding rr_rel_def sched_inv_def tk upd_task_simps(2-6) by simp
  assume o: "owns p s" "pmm_wf p'" "held_set p' = held_set p"
  have l: "live (upd_task i f s) = live s" by (rule ext) (simp only: live_def tk)
  have a: "stack_at (upd_task i f s) x = stack_at s x" if "live s (fst x)" for x
    using that i by (auto simp: stack_at_def live_def)
  then have st: "stacks (upd_task i f s) = stacks s" unfolding stacks_def l by (intro Collect_cong) auto
  have eq: "stack_at (upd_task i f s) x = stack_at s x" if "x \<in> stacks s" for x
    using that by (intro a) (simp add: stacks_def)
  have img: "stack_at (upd_task i f s) ` stacks s = stack_at s ` stacks s" by (rule image_cong [OF refl eq])
  have inj: "inj_on (stack_at (upd_task i f s)) (stacks s) = inj_on (stack_at s) (stacks s)"
    by (rule inj_on_cong [OF eq])
  show "owns p' (upd_task i f s)"
    using o unfolding owns_def st l img inj by simp
qed

section \<open>Outcomes\<close>

text \<open>
  What a failed creation leaves: the schedule, the live tasks, the free and the held frames, the
  tables and memory are as before.
\<close>

definition create_failed :: "sys \<Rightarrow> sys \<Rightarrow> bool" where
  "create_failed k k' \<longleftrightarrow>
     (\<forall>a. rr_rel (sched_of k) a \<longrightarrow> rr_rel (sched_of k') a) \<and> (stacks_ok k \<longrightarrow> stacks_ok k') \<and>
     (space_ok k \<longrightarrow> space_ok k') \<and>
     (\<forall>j. live (sched_of k) j \<longrightarrow> tk (sched_of k') j = tk (sched_of k) j) \<and>
     pmm_wf (pmm_of k') \<and> free_set (pmm_of k') = free_set (pmm_of k) \<and> held_set (pmm_of k') = held_set (pmm_of k) \<and>
     num_pages (pmm_of k') = num_pages (pmm_of k) \<and>
     mmu_of k' = mmu_of k \<and> mem_of k' = mem_of k \<and> cpu_of k' = cpu_of k"

lemma create_failedI:
  assumes i: "t_state (tk (sched_of k) i) = TASK_TERMINATED"
    and s: "sched_of k' = upd_task i (\<lambda>t. t\<lparr>kernel_stack_base := a, user_stack_base := b\<rparr>) (sched_of k) \<or>
      sched_of k' = upd_task i (\<lambda>t. t\<lparr>kernel_stack_base := a\<rparr>) (sched_of k) \<or> sched_of k' = sched_of k"
    and p: "pmm_wf (pmm_of k')" "free_set (pmm_of k') = free_set (pmm_of k)"
      "held_set (pmm_of k') = held_set (pmm_of k)" "num_pages (pmm_of k') = num_pages (pmm_of k)"
    and o: "mmu_of k' = mmu_of k" "mem_of k' = mem_of k" "cpu_of k' = cpu_of k"
  shows "create_failed k k'"
proof -
  have "\<exists>f. sched_of k' = upd_task i f (sched_of k) \<and> (\<forall>t. t_state (f t) = t_state t \<and> time_slice (f t) = time_slice t \<and>
      t_next (f t) = t_next t \<and> t_prev (f t) = t_prev t \<and> t_level (f t) = t_level t \<and> t_page_table (f t) = t_page_table t)"
    using s
  proof (elim disjE)
    assume "sched_of k' = sched_of k"
    then show ?thesis by (intro exI [of _ "\<lambda>t. t"]) (simp add: upd_task_def)
  qed (rule exI, erule conjI, simp)+
  then obtain f where f: "sched_of k' = upd_task i f (sched_of k)" "\<And>t. t_state (f t) = t_state t"
    "\<And>t. time_slice (f t) = time_slice t" "\<And>t. t_next (f t) = t_next t" "\<And>t. t_prev (f t) = t_prev t"
    "\<And>t. t_level (f t) = t_level t" "\<And>t. t_page_table (f t) = t_page_table t" by blast
  have d: "t_state (f (tk (sched_of k) i)) = TASK_TERMINATED" using i f(2) by simp
  note dead = dead_slot_update [where f = f, OF i d f(3-5)]
  have lv: "t_level (tk (upd_task i f s) j) = t_level (tk s j)"
    "t_page_table (tk (upd_task i f s) j) = t_page_table (tk s j)" for s j using f(6,7) by simp_all
  have "space_ok k' = space_ok k"
    unfolding space_ok_def task_space_def f(1) o lv upd_task_simps(2) ..
  then show ?thesis
    unfolding create_failed_def stacks_ok_def f(1) dead(1) using dead(2) [OF _ p(1,3)] p o i
    by (auto simp: live_def)
qed

lemma alloc_frame_cases:
  assumes wf: "pmm_wf s"
  obtains (none) "alloc_pages 0 s = Some (None, s)" "free_set s = {}"
  | (frame) f s' where "alloc_pages 0 s = Some (Some f, s')" "f \<in> free_set s" "f \<notin> held_set s" "pmm_wf s'"
      "free_set s' = free_set s - {f}" "held_set s' = insert f (held_set s)" "num_pages s' = num_pages s"
proof (cases "free_set s = {}")
  case True
  then show thesis using none pmm0.alloc_null [OF wf] by blast
next
  case False
  then obtain f s' where s': "alloc_pages 0 s = Some (Some f, s')" "f \<in> free_set s" "pmm_wf s'"
    "free_set s' = free_set s - {f}" "held_set s' = insert f (held_set s)"
    using alloc_pages_single_held [OF wf] by blast
  then have "num_pages s' = num_pages s" using alloc_single_spec [OF wf] False by auto
  moreover have "f \<notin> held_set s" using s'(2) pmm0.avail_held [OF wf] by blast
  ultimately show thesis using frame s' by blast
qed

text \<open>The three ways to fail for want of frames.\<close>

lemma task_create_user_fails:
  assumes slot: "find_slot (sched_of k) 0 MAX_TASKS = Some i" and wf: "pmm_wf (pmm_of k)"
    and n: "8 \<le> unat (num_pages (pmm_of k))"
    and ord: "order_loop 3 (image_pages sz) 1 = (ord, opages)" "ord \<le> 3"
  obtains (failed) k' where "task_create_user lk name binary sz priority k = Some (0, k')" "create_failed k k'"
    "card (free_set (pmm_of k)) < 2 \<or> (\<exists>f g. f \<in> free_set (pmm_of k) \<and> g \<in> free_set (pmm_of k) \<and>
       (\<forall>b. \<not> {b..<b + 2 ^ ord} \<subseteq> free_set (pmm_of k) - {f, g}))"
  | (frames) fk fu fp p1 p2 p3 where "alloc_pages 0 (pmm_of k) = Some (Some fk, p1)"
    "alloc_pages 0 p1 = Some (Some fu, p2)" "alloc_pages (int ord) p2 = Some (Some fp, p3)"
    "fk \<in> free_set (pmm_of k)" "fu \<in> free_set (pmm_of k) - {fk}" "fk \<notin> held_set (pmm_of k)" "fu \<notin> held_set (pmm_of k)"
    "{fp..<fp + 2 ^ ord} \<subseteq> free_set (pmm_of k) - {fk, fu}" "pmm_wf p3"
    "free_set p3 = free_set (pmm_of k) - {fk, fu} - {fp..<fp + 2 ^ ord}"
    "held_set p3 = held_set (pmm_of k) \<union> {fk, fu} \<union> {fp..<fp + 2 ^ ord}" "num_pages p3 = num_pages (pmm_of k)"
proof -
  have dead: "t_state (tk (sched_of k) i) = TASK_TERMINATED" using find_slot_Some [OF slot] by simp
  have ord': "order_loop 3 (if (sz + PAGE_SIZE - 1) div PAGE_SIZE = 0 then 1 else (sz + PAGE_SIZE - 1) div PAGE_SIZE) 1 = (ord, opages)"
    using ord by (simp add: image_pages_def Let_def)
  from wf show thesis
  proof (cases rule: alloc_frame_cases)
    case none
    have run: "task_create_user lk name binary sz priority k =
        Some (0, say [S ''ERROR: Failed to allocate kernel stack'', NL] (k\<lparr>pmm_of := pmm_of k\<rparr>))"
      using slot none by (simp add: task_create_user_def)
    show thesis by (rule failed [OF run]) (use none wf in \<open>auto intro!: create_failedI [OF dead]\<close>)
  next
    case (frame fk p1)
    note 1 = frame
    from 1(4) show thesis
    proof (cases rule: alloc_frame_cases)
      case none
      obtain p where p: "free_pages (Some fk) 0 p1 = Some p" "pmm_wf p" "free_set p = insert fk (free_set p1)"
        "held_set p = held_set p1 - {fk}" "num_pages p = num_pages p1"
        using free_pages_single [OF 1(4), of fk] 1(6) by auto
      let ?k' = "say [S ''ERROR: Failed to allocate user stack'', NL]
        ((on_sched (upd_task i (\<lambda>t. t\<lparr>kernel_stack_base := page_to_phys fk\<rparr>)) k)\<lparr>pmm_of := p1\<rparr>)\<lparr>pmm_of := p\<rparr>"
      have run: "task_create_user lk name binary sz priority k = Some (0, ?k')"
        using slot 1(1) none p(1) by (simp add: task_create_user_def Let_def on_sched_def)
      show thesis
      proof (rule failed [OF run])
        show "create_failed k ?k'"
          by (rule create_failedI [OF dead]) (use p 1 in auto)
        have "free_set (pmm_of k) = {fk}" using none 1(2,5) by auto
        then show "card (free_set (pmm_of k)) < 2 \<or> (\<exists>f g. f \<in> free_set (pmm_of k) \<and> g \<in> free_set (pmm_of k) \<and>
            (\<forall>b. \<not> {b..<b + 2 ^ ord} \<subseteq> free_set (pmm_of k) - {f, g}))" by simp
      qed
    next
      case (frame fu p2)
      note 2 = frame
      have n2: "2 ^ ord \<le> unat (num_pages p2)"
        using n power_increasing [OF ord(2), of "2 :: nat"] by (simp add: 1(7) 2(7))
      have o10: "ord \<le> 10" using ord(2) by simp
      from alloc_block_held [OF 2(4) o10 n2] show thesis
      proof (elim disjE conjE exE)
        assume none: "alloc_pages (int ord) p2 = Some (None, p2)" "\<forall>b. \<not> block p2 b (2 ^ ord)"
        obtain p where p: "free_pages (Some fk) 0 p2 = Some p" "pmm_wf p" "free_set p = insert fk (free_set p2)"
          "held_set p = held_set p2 - {fk}" "num_pages p = num_pages p2"
          using free_pages_single [OF 2(4), of fk] 1(6) 2(6) by auto
        have "fu \<noteq> fk" using 1(5) 2(2) by auto
        then obtain p' where p': "free_pages (Some fu) 0 p = Some p'" "pmm_wf p'" "free_set p' = insert fu (free_set p)"
          "held_set p' = held_set p - {fu}" "num_pages p' = num_pages p"
          using free_pages_single [OF p(2), of fu] p(4) 2(6) by auto
        let ?k' = "say [S ''ERROR: Failed to allocate user program pages'', NL]
          ((on_sched (upd_task i (\<lambda>t. t\<lparr>kernel_stack_base := page_to_phys fk, user_stack_base := page_to_phys fu\<rparr>)) k)
            \<lparr>pmm_of := p2\<rparr>)\<lparr>pmm_of := p'\<rparr>"
        have run: "task_create_user lk name binary sz priority k = Some (0, ?k')"
          using slot 1(1) 2(1) none(1) p(1) p'(1) ord' by (simp add: task_create_user_def Let_def on_sched_def)
        show thesis
        proof (rule failed [OF run])
          show "create_failed k ?k'"
            by (rule create_failedI [OF dead]) (use p p' 1 2 in auto)
          have "\<not> {b..<b + 2 ^ ord} \<subseteq> free_set (pmm_of k) - {fk, fu}" for b
            using none(2) 1(5) 2(5) by (auto simp: block_def)
          then show "card (free_set (pmm_of k)) < 2 \<or> (\<exists>f g. f \<in> free_set (pmm_of k) \<and> g \<in> free_set (pmm_of k) \<and>
              (\<forall>b. \<not> {b..<b + 2 ^ ord} \<subseteq> free_set (pmm_of k) - {f, g}))" using 1(2,5) 2(2) by blast
        qed
      next
        fix fp p3
        assume 3: "alloc_pages (int ord) p2 = Some (Some fp, p3)" "{fp..<fp + 2 ^ ord} \<subseteq> free_set p2" "pmm_wf p3"
          "free_set p3 = free_set p2 - {fp..<fp + 2 ^ ord}" "held_set p3 = held_set p2 \<union> {fp..<fp + 2 ^ ord}"
          "num_pages p3 = num_pages p2"
        show thesis
          by (rule frames [OF 1(1) 2(1) 3(1)]) (use 1 2 3 in auto)
      qed
    qed
  qed
qed

lemma image_pages_bound:
  assumes "unat sz \<le> 0x8000"
  shows "unat (image_pages sz) \<le> 8" "unat sz \<le> 4096 * unat (image_pages sz)" "0 < unat (image_pages sz)"
proof -
  have eq: "sz + PAGE_SIZE - 1 = sz + 4095" by (simp add: PAGE_SIZE_eq)
  have "unat (sz + 4095) = unat sz + 4095" using assms by (subst unat_add_no_wrap) simp_all
  then have d: "unat ((sz + PAGE_SIZE - 1) div PAGE_SIZE) = (unat sz + 4095) div 4096"
    unfolding eq by (simp add: PAGE_SIZE_eq unat_div)
  have n: "unat (image_pages sz) = (if unat sz = 0 then 1 else (unat sz + 4095) div 4096)"
  proof (cases "(sz + PAGE_SIZE - 1) div PAGE_SIZE = 0")
    case True
    then have "(unat sz + 4095) div 4096 = 0" using d by simp
    then have "unat sz = 0" by (simp add: div_eq_0_iff)
    then show ?thesis using True by (simp add: image_pages_def Let_def)
  next
    case False
    then have "(unat sz + 4095) div 4096 \<noteq> 0" unfolding d [symmetric] by (simp add: unat_eq_zero)
    then have "unat sz \<noteq> 0" by auto
    then show ?thesis using False d by (simp add: image_pages_def Let_def)
  qed
  show "unat (image_pages sz) \<le> 8" using assms unfolding n by auto
  show "unat sz \<le> 4096 * unat (image_pages sz)" unfolding n by auto
  show "0 < unat (image_pages sz)" unfolding n by auto
qed

lemma frame_aligned: "f < PAGES_LEN \<Longrightarrow> take_bit 12 (page_to_phys f) = 0"
  by (simp add: aligned_unat unat_page_to_phys)

text \<open>
  What a successful creation leaves: task \<open>i\<close> on stacks \<open>fk\<close> and \<open>fu\<close> with the image in the \<open>n\<close>
  frames from \<open>fp\<close>, all of them free before.
\<close>

definition user_created ::
    "linker \<Rightarrow> string \<Rightarrow> u32 \<Rightarrow> u64 \<Rightarrow> u64 \<Rightarrow> label set \<Rightarrow> ptes \<Rightarrow> nat \<Rightarrow> nat \<Rightarrow> nat \<Rightarrow> nat \<Rightarrow> nat \<Rightarrow> sys \<Rightarrow> sys \<Rightarrow> bool" where
  "user_created lk name priority src sz L F i fk fu fp n k k' \<longleftrightarrow>
     core (tk (sched_of k') i) = core (new_user name priority (next_task_id (sched_of k)) (page_to_phys fk)
       (page_to_phys fu) (tbl lk (card L)) (tk (sched_of k) i)) \<and>
     (\<forall>j. j \<noteq> i \<longrightarrow> core (tk (sched_of k') j) = core (tk (sched_of k) j)) \<and>
     fk \<in> free_set (pmm_of k) \<and> fu \<in> free_set (pmm_of k) - {fk} \<and> {fp..<fp + n} \<subseteq> free_set (pmm_of k) - {fk, fu} \<and>
     free_set (pmm_of k') = free_set (pmm_of k) - {fk, fu} - {fp..<fp + n} \<and>
     held_set (pmm_of k') = held_set (pmm_of k) \<union> {fk, fu} \<union> {fp..<fp + n} \<and>
     num_pages (pmm_of k') = num_pages (pmm_of k) \<and> cpu_of k' = cpu_of k \<and>
     (\<exists>x. mmu_of k' = (mmu_of k)\<lparr>next_page_table := x\<rparr>) \<and>
     vm_rel lk (vm_of k') (L \<union> user_labels (card L))
       (F(card L := user_ptes (page_to_phys fp) n (page_to_phys fu))) \<and>
     (\<forall>j < unat sz. mem_of k' (page_to_phys fp + of_nat j) = mem_of k (src + of_nat j)) \<and>
     (\<forall>x. \<not> in_space lk x \<and> \<not> in_block fp n x \<longrightarrow> mem_of k' x = mem_of k x)"

text \<open>Loading the program leaves the tables alone, so the new address space is built as from the old state.\<close>

lemma user_space_cases:
  fixes ord fp :: nat and src sz :: u64 and k :: sys
  defines "m1 \<equiv> fst (memcpy (mem_of k) (page_to_phys fp) src sz)"
  assumes vm: "vm_rel lk (vm_of k) L F" and wf: "pmm_wf (pmm_of k)" and ord: "ord \<le> 3" and len: "unat sz \<le> 4096 * 2 ^ ord"
    and fr: "{fp..<fp + 2 ^ ord} \<subseteq> free_set (pmm_of k)" and fu: "fu \<in> free_set (pmm_of k)"
    and ap: "frames_apart lk (pmm_of k)" "image_apart (pmm_of k) src sz"
  obtains (stuck) "user_space_stuck lk (page_to_phys fp) (2 ^ ord * PAGE_SIZE) (page_to_phys fu) (mmu_of k, m1, con_of k)"
    "cap lk < card L + 6"
  | (built) v1 v2 v3 x where "mmu_create_user_table lk (mmu_of k, m1, con_of k) = Some (tbl lk (card L), v1)" "tbl lk (card L) \<noteq> 0"
    "mmu_map_user_range lk (tbl lk (card L)) USER_PROG_BASE (page_to_phys fp) (2 ^ ord * PAGE_SIZE) PAGE_USER_RX v1 = Some v2"
    "mmu_map_user_page lk (tbl lk (card L)) USER_STACK_BASE (page_to_phys fu) PAGE_USER_RW v2 = Some v3"
    "vm_rel lk v3 (L \<union> user_labels (card L)) (F(card L := user_ptes (page_to_phys fp) (2 ^ ord) (page_to_phys fu)))"
    "fst v3 = (mmu_of k)\<lparr>next_page_table := x\<rparr>"
    "\<And>j. j < unat sz \<Longrightarrow> fst (snd v3) (page_to_phys fp + of_nat j) = mem_of k (src + of_nat j)"
    "\<And>y. \<not> in_space lk y \<Longrightarrow> \<not> in_block fp (2 ^ ord) y \<Longrightarrow> fst (snd v3) y = mem_of k y"
proof -
  let ?n = "2 ^ ord :: nat"
  have n: "0 < ?n" "?n \<le> 8" using power_increasing [OF ord, of "2 :: nat"] by simp_all
  note img = load_image [OF fr wf n(1) len ap(2), where m = "mem_of k", folded m1_def]
  have apart: "\<not> in_space lk x" if "in_block fp ?n x" for x
    using in_block_frame [OF that fr wf] ap(1) unfolding frames_apart_def by metis
  have rel: "vm_rel lk (mmu_of k, m1, con_of k) L F"
  proof (rule vm_rel_mem)
    show "vm_rel lk (mmu_of k, mem_of k, con_of k) L F" using vm by (simp add: vm_of_def)
    show "m1 x = mem_of k x" if "in_space lk x" for x using img(2) apart that by auto
  qed
  have "unat (2 ^ ord :: u64) = ?n" using ord by (intro unat_pow2) simp
  then have sz: "unat (2 ^ ord * PAGE_SIZE) = 4096 * ?n" using n by (simp add: PAGE_SIZE_eq unat_word_ariths)
  have "fp \<in> free_set (pmm_of k)" using fr n(1) by (auto simp: subset_iff)
  then have al: "take_bit 12 (page_to_phys fp) = 0" "take_bit 12 (page_to_phys fu) = 0"
    using free_set_bound [OF wf] fu by (auto intro!: frame_aligned)
  have image: "m1 (page_to_phys fp + of_nat j) = mem_of k (src + of_nat j) \<and> \<not> in_space lk (page_to_phys fp + of_nat j)"
    if j: "j < unat sz" for j
  proof -
    have "unat (of_nat j :: u64) = j"
      using j less_trans [OF j unsigned_less [of sz]] by (intro unat_of_nat_small) simp
    then have "in_range (page_to_phys fp + of_nat j) (page_to_phys fp) (unat sz)" using j by (simp add: in_range_def)
    then have "in_block fp ?n (page_to_phys fp + of_nat j)" by (rule in_range_block [OF fr wf n(1) len])
    then show ?thesis using apart img(1) [OF j] by blast
  qed
  from rel n sz al show thesis
  proof (cases rule: user_space_built)
    case none
    then show thesis by (rule stuck)
  next
    case (built v1 v2 v3)
    then obtain x where "fst v3 = (mmu_of k)\<lparr>next_page_table := x\<rparr>" by auto
    from \<open>vm_rel lk v3 _ _\<close> \<open>tbl lk (card L) \<noteq> 0\<close> this image img(2) built(1-4,7) show thesis
      by (intro that(2) [of v1 v2 v3 x]) simp_all
  qed
qed

text \<open>The task's slot filled and queued: what the scheduler and the owners of stacks see.\<close>

lemma user_task_queued:
  assumes rel: "rr_rel (sched_of k) (c, True, ts, q)" and st: "stacks_ok k" and sp: "space_ok k"
    and slot: "find_slot (sched_of k) 0 MAX_TASKS = Some i" and pgd: "pgd \<noteq> 0"
    and p: "pmm_wf (pmm_of k')" "held_set (pmm_of k) \<subseteq> held_set (pmm_of k')" "fk \<in> held_set (pmm_of k') - held_set (pmm_of k)"
      "fu \<in> held_set (pmm_of k') - held_set (pmm_of k) - {fk}"
    and k': "mmu_of k' = (mmu_of k)\<lparr>next_page_table := x\<rparr>" "sched_of k' = add_to_ready_queue i s"
    and s: "\<And>j. tk s j = (if j = i then new_user name priority (next_task_id (sched_of k)) (page_to_phys fk)
        (page_to_phys fu) pgd (tk (sched_of k) i) else tk (sched_of k) j)"
      "current_task s = current_task (sched_of k)" "ready_queue_head s = ready_queue_head (sched_of k)"
      "ready_queue_tail s = ready_queue_tail (sched_of k)" "sched_enabled s = sched_enabled (sched_of k)"
  shows "rr_rel (sched_of k') (c, True, ts, q @ [i])" "stacks_ok k'" "space_ok k'"
    "core (tk (sched_of k') j) = core (tk s j)"
proof -
  have i: "i < MAX_TASKS" "t_state (tk (sched_of k) i) = TASK_TERMINATED" using find_slot_Some [OF slot] by auto
  note C = same_coreD [OF add_to_ready_queue_core [of s i]]
  show "rr_rel (sched_of k') (c, True, ts, q @ [i])"
    using queue_new_task(1) [OF rel i s, unfolded new_user_def, simplified] by (simp only: k'(2))
  show "core (tk (sched_of k') j) = core (tk s j)"
    using add_to_ready_queue_core [of s i] k'(2) by (simp add: same_core_def)
  have "owns (pmm_of k') (sched_of k')"
  proof (rule owns_add [where i = i and f = fk])
    show "owns (pmm_of k) (sched_of k)" using st by (simp add: stacks_ok_def)
  qed (use p i in \<open>auto simp: live_def k'(2) C s new_user_def\<close>)
  then show "stacks_ok k'" by (simp add: stacks_ok_def)
  have "i \<noteq> c" using i(2) rel by (auto simp: rr_rel_def)
  moreover have "t_level (tk (sched_of k') j) = (if j = i then TASK_USER else t_level (tk (sched_of k) j))"
    "t_page_table (tk (sched_of k') j) = (if j = i then pgd else t_page_table (tk (sched_of k) j))" for j
    by (simp_all add: k'(2) C s new_user_def)
  ultimately show "space_ok k'"
    using sp pgd rr_rel_current [OF rel] by (simp add: space_ok_def task_space_def k' C s(2))
qed

lemma task_create_user_spec:
  assumes rel: "rr_rel (sched_of k) (c, True, ts, q)" and st: "stacks_ok k" and sp: "space_ok k"
    and vm: "vm_rel lk (vm_of k) L F" and np: "8 \<le> unat (num_pages (pmm_of k))"
    and sz: "unat sz \<le> 0x8000" and ap: "frames_apart lk (pmm_of k)" "image_apart (pmm_of k) src sz"
    and slot: "find_slot (sched_of k) 0 MAX_TASKS = Some i"
  obtains (failed) k' where "task_create_user lk name src sz priority k = Some (0, k')" "create_failed k k'"
    "card (free_set (pmm_of k)) < 2 \<or> (\<exists>f g. f \<in> free_set (pmm_of k) \<and> g \<in> free_set (pmm_of k) \<and>
       (\<forall>b. \<not> {b..<b + 8} \<subseteq> free_set (pmm_of k) - {f, g}))"
  | (stuck) "task_create_user lk name src sz priority k = None" "cap lk < card L + 6"
  | (created) k' fk fu fp ord where "ord \<le> 3" "unat sz \<le> 4096 * 2 ^ ord"
    "task_create_user lk name src sz priority k = Some (next_task_id (sched_of k), k')"
    "user_created lk name priority src sz L F i fk fu fp (2 ^ ord) k k'"
    "rr_rel (sched_of k') (c, True, ts, q @ [i])" "stacks_ok k'" "space_ok k'"
proof -
  have wf: "pmm_wf (pmm_of k)" using st by (rule stacks_okD)
  note ib = image_pages_bound [OF sz]
  obtain ord where ord: "order_loop 3 (image_pages sz) 1 = (ord, 2 ^ ord)" "ord \<le> 3" "unat (image_pages sz) \<le> 2 ^ ord"
    using order_loop_spec [of "image_pages sz"] ib(1) by metis
  have len: "unat sz \<le> 4096 * 2 ^ ord" using ib(2) ord(3) by (meson le_trans mult_le_mono2)
  from task_create_user_fails [OF slot wf np ord(1,2), of lk name src priority] show thesis
  proof cases
    case (1 k')
    have "(2 :: nat) ^ ord \<le> 8" using power_increasing [OF ord(2), of "2 :: nat"] by simp
    then have sub: "{b..<b + 2 ^ ord} \<subseteq> {b..<b + 8}" for b :: nat by auto
    have "card (free_set (pmm_of k)) < 2 \<or> (\<exists>f g. f \<in> free_set (pmm_of k) \<and> g \<in> free_set (pmm_of k) \<and>
       (\<forall>b. \<not> {b..<b + 8} \<subseteq> free_set (pmm_of k) - {f, g}))"
      using 1(3) sub by (meson subset_trans)
    then show thesis using failed 1(1,2) by blast
  next
    case (2 fk fu fp p1 p2 p3)
    let ?n = "2 ^ ord :: nat"
    have fr: "{fp..<fp + ?n} \<subseteq> free_set (pmm_of k)" "fu \<in> free_set (pmm_of k)" using 2(5,8) by blast+
    from vm wf ord(2) len fr ap show thesis
    proof (cases rule: user_space_cases)
      case stuck
      from task_create_user_stuck [OF slot 2(1,2) ord(1) 2(3) this(1)] this(2) show thesis by (rule that(2))
    next
      case v: (built v1 v2 v3 x)
      have en: "sched_enabled (sched_of k)" using rel by (simp add: rr_rel_def sched_inv_def)
      obtain k' s where k': "task_create_user lk name src sz priority k = Some (next_task_id (sched_of k), k')"
        "pmm_of k' = p3" "mmu_of k' = fst v3" "mem_of k' = fst (snd v3)" "cpu_of k' = cpu_of k"
        "sched_of k' = add_to_ready_queue i s" and
        s: "\<And>j. tk s j = (if j = i then new_user name priority (next_task_id (sched_of k)) (page_to_phys fk)
           (page_to_phys fu) (tbl lk (card L)) (tk (sched_of k) i) else tk (sched_of k) j)"
        "current_task s = current_task (sched_of k)" "ready_queue_head s = ready_queue_head (sched_of k)"
        "ready_queue_tail s = ready_queue_tail (sched_of k)" "sched_enabled s = sched_enabled (sched_of k)"
        using task_create_user_run [OF slot 2(1,2) ord(1) 2(3) v(1-4) en, of name priority] by blast
      have p: "pmm_wf (pmm_of k')" "held_set (pmm_of k) \<subseteq> held_set (pmm_of k')"
        "fk \<in> held_set (pmm_of k') - held_set (pmm_of k)" "fu \<in> held_set (pmm_of k') - held_set (pmm_of k) - {fk}"
        using 2(4-12) by (auto simp: k'(2))
      note task = user_task_queued [OF rel st sp slot v(2) p k'(3) [unfolded v(6)] k'(6) s]
      have "vm_rel lk (vm_of k') (L \<union> user_labels (card L)) (F(card L := user_ptes (page_to_phys fp) ?n (page_to_phys fu)))"
        using v(5) vm_rel_cong [of "fst v3" "fst v3"] unfolding vm_of_def k'(3,4) by (metis prod.collapse)
      then have "user_created lk name priority src sz L F i fk fu fp ?n k k'"
        unfolding user_created_def using 2(4,5,8,10-12) k'(2-5) v(6-8) by (auto simp: task(4) s)
      with that(3) ord(2) len k'(1) task(1-3) show thesis by blast
    qed
  qed
qed

lemma root_not_next:
  assumes "vm_rel lk v L F" "(r, 0, 0) \<in> L"
  shows "r \<noteq> card L"
proof
  obtain lab n where t: "links lk (fst (snd v)) lab n" "L = lab ` {..<n}"
    using assms(1) by (auto simp: vm_rel_def tree_def)
  then have "card L = n" by (simp add: links_def card_image)
  moreover assume "r = card L"
  ultimately obtain c where "c < n" "lab c = (n, 0, 0)" using assms(2) t(2) by auto
  then show False using no_root_above [OF t(1)] by blast
qed

section \<open>Properties\<close>


text \<open>
  C9: isolation of a new user task: \<^verbatim>\<open>task_create_user\<close>, for a program of at most 32 KB that does not lie in free frames (a larger
  one overruns its block) and with no free frame in the table space, when it succeeds, brings a dead slot to life
  with an address space of its own, under whose root exactly its program block, at \<^verbatim>\<open>0x400000\<close>
  read-only and executable at EL0, and its stack page, at \<^verbatim>\<open>0x7FFFF000\<close>, translate, all of them in
  frames that were free and do not overlap; nothing of the kernel or of another task does, and no
  translation under an older root has changed.
\<close>
theorem user_task_isolated:
  assumes "rr_rel (sched_of k) (c, True, ts, q)" "stacks_ok k" "space_ok k"
    and vm: "vm_rel lk (vm_of k) L F" and "8 \<le> unat (num_pages (pmm_of k))"
    and "unat sz \<le> 0x8000" "frames_apart lk (pmm_of k)" "image_apart (pmm_of k) src sz"
    and run: "task_create_user lk name src sz priority k = Some (tid, k')" "tid \<noteq> 0"
  shows "\<exists>i fu fp n. \<not> live (sched_of k) i \<and> live (sched_of k') i \<and> t_page_table (tk (sched_of k') i) = tbl lk (card L) \<and>
    n \<le> 8 \<and> unat sz \<le> 4096 * n \<and> fu \<in> free_set (pmm_of k) \<and> {fp..<fp + n} \<subseteq> free_set (pmm_of k) - {fu} \<and>
    (\<forall>va. pte_of (mem_of k') (tbl lk (card L)) va = user_ptes (page_to_phys fp) n (page_to_phys fu) (vpn va)) \<and>
    (\<forall>r va. (r, 0, 0) \<in> L \<longrightarrow> pte_of (mem_of k') (tbl lk r) va = pte_of (mem_of k) (tbl lk r) va)"
proof (cases "find_slot (sched_of k) 0 MAX_TASKS")
  case None
  then show ?thesis using run by (simp add: task_create_user_def)
next
  case (Some i)
  have i: "\<not> live (sched_of k) i" "i < MAX_TASKS" using find_slot_Some [OF Some] by (simp_all add: live_def)
  from task_create_user_spec [OF assms(1-8) Some, of name priority] show ?thesis
  proof cases
    case (3 k1 fk fu fp ord)
    let ?n = "2 ^ ord :: nat"
    have "k1 = k'" using 3(3) run(1) by simp
    note U = 3(4) [unfolded user_created_def this]
    have "core (tk (sched_of k') i) = core (new_user name priority (next_task_id (sched_of k)) (page_to_phys fk)
        (page_to_phys fu) (tbl lk (card L)) (tk (sched_of k) i))" using U by blast
    then have "t_page_table (core (tk (sched_of k') i)) = tbl lk (card L)" "t_state (core (tk (sched_of k') i)) = TASK_READY"
      by (simp_all add: core_def new_user_def)
    then have t: "t_page_table (tk (sched_of k') i) = tbl lk (card L)" "live (sched_of k') i"
      using i(2) by (simp_all add: core_def live_def)
    have F: "fu \<in> free_set (pmm_of k)" "{fp..<fp + ?n} \<subseteq> free_set (pmm_of k) - {fu}" using U by blast+
    have n: "?n \<le> 8" using power_increasing [OF 3(1), of "2 :: nat"] by simp
    have V: "vm_rel lk (vm_of k') (L \<union> user_labels (card L)) (F(card L := user_ptes (page_to_phys fp) ?n (page_to_phys fu)))"
      using U by blast
    have new: "pte_of (mem_of k') (tbl lk (card L)) va = user_ptes (page_to_phys fp) ?n (page_to_phys fu) (vpn va)" for va
      using vm_rel_pte [OF V, of "card L" va] by (simp add: user_labels_def vm_of_def)
    have "pte_of (mem_of k') (tbl lk r) va = pte_of (mem_of k) (tbl lk r) va" if r: "(r, 0, 0) \<in> L" for r va
      using vm_rel_pte [OF V, of r va] vm_rel_pte [OF vm r, of va] r root_not_next [OF vm r] by (simp add: vm_of_def)
    then show ?thesis using i(1) t F n new 3(2) by (intro exI conjI) auto
  qed (use run in auto)
qed

section \<open>Witnesses\<close>

text \<open>A 12 byte image in the kernel's own memory, loaded by the system as booted.\<close>

lemma boot_image: "image_apart (pmm_of started) 0x40500000 12"
proof -
  have "\<not> in_block f 1 (0x40500000 + of_nat j)" if f: "f \<in> free_set boot_pmm" and j: "j < 12" for f j
  proof -
    have "unat (of_nat j :: u64) = j" using j by (intro unat_of_nat_small) simp
    then have "unat (0x40500000 + of_nat j :: u64) = 0x40500000 + j" using j by (subst unat_add_no_wrap) simp_all
    moreover have "unat (page_to_phys f) = 0x40000000 + f * 4096" "f < 1024 \<or> 5120 \<le> f"
      using f free_set_bound [OF boot_pmm_facts(1)] by (auto intro!: unat_page_to_phys simp: boot_pmm_facts)
    ultimately show ?thesis using j by (auto simp: in_block_def)
  qed
  then show ?thesis using started_facts(7) by (auto simp: image_apart_def)
qed

lemma boot_apart: "frames_apart lk0 (pmm_of started)"
proof -
  have "\<not> in_space lk0 x" if f: "f \<in> free_set boot_pmm" and x: "in_block f 1 x" for f x
  proof -
    have "unat (page_to_phys f) = 0x40000000 + f * 4096" "f < 1024 \<or> 5120 \<le> f"
      using f free_set_bound [OF boot_pmm_facts(1)] by (auto intro!: unat_page_to_phys simp: boot_pmm_facts)
    then show ?thesis using x by (auto simp: in_block_def in_space_def lk0_def)
  qed
  then show ?thesis using started_facts(7) by (auto simp: frames_apart_def)
qed

lemma started_frames: "8 \<le> unat (num_pages (pmm_of started))"
proof -
  obtain f where f: "free_set (pmm_of started) = free_set boot_pmm - {f}" using started_facts(7) by blast
  have "8 \<in> free_set (pmm_of started) \<or> 9 \<in> free_set (pmm_of started)" unfolding f by (auto simp: boot_pmm_facts)
  then show ?thesis by (auto simp: free_set_def)
qed

lemma frames_room:
  assumes h: "free_set p = {..<1024} \<union> {5120..<16384} - {h}"
  shows "2 \<le> card (free_set p)" "\<exists>b. {b..<b + 8} \<subseteq> free_set p - {f, g}"
proof -
  let ?B = "\<lambda>i. {8 * i..<8 * i + 8 :: nat}"
  have "\<exists>i < 4. f \<notin> ?B i \<and> g \<notin> ?B i \<and> h \<notin> ?B i"
  proof (rule ccontr)
    assume "\<not> ?thesis"
    then have "i = f div 8 \<or> i = g div 8 \<or> i = h div 8" if "i < 4" for i using that by fastforce
    from this [of 0] this [of 1] this [of 2] this [of 3] show False by auto
  qed
  then obtain i where "i < 4" "f \<notin> ?B i" "g \<notin> ?B i" "h \<notin> ?B i" by blast
  then have "?B i \<subseteq> free_set p - {f, g}" unfolding h by auto
  then show "\<exists>b. {b..<b + 8} \<subseteq> free_set p - {f, g}" by blast
  have "{0, 1, 2} - {h} \<subseteq> free_set p" unfolding h by auto
  moreover have "finite (free_set p)" unfolding h by simp
  ultimately have "card ({0, 1, 2} - {h}) \<le> card (free_set p)" by (rule card_mono [rotated])
  moreover have "2 \<le> card ({0, 1, 2 :: nat} - {h})" by (auto simp: card_Diff_singleton_if)
  ultimately show "2 \<le> card (free_set p)" by linarith
qed

lemma started_room:
  "2 \<le> card (free_set (pmm_of started))" "\<exists>b. {b..<b + 8} \<subseteq> free_set (pmm_of started) - {f, g}"
proof -
  obtain h where "free_set (pmm_of started) = {..<1024} \<union> {5120..<16384} - {h}"
    using started_facts(7) unfolding boot_pmm_facts by blast
  note r = frames_room [OF this]
  show "2 \<le> card (free_set (pmm_of started))" by (rule r)
  show "\<exists>b. {b..<b + 8} \<subseteq> free_set (pmm_of started) - {f, g}" by (rule r)
qed

lemma started_vm: "\<exists>F. vm_rel lk0 (vm_of started) id_labels F"
proof -
  obtain F where "vm_rel lk0 boot_vm id_labels F" using boot_vm_rel(1) by blast
  moreover have "boot_vm = (mmu_of boot_sys, mem_of boot_sys, con_of boot_sys)"
    using boot_sys_simps(4) by (simp add: vm_of_def)
  moreover have "vm_of started = (mmu_of boot_sys, mem_of boot_sys, con_of started)"
    using started_facts(5,6) by (simp add: vm_of_def)
  ultimately show ?thesis using vm_rel_cong by metis
qed


theorem user_task_isolated_witness:
  "\<exists>k' i. task_create_user lk0 ''User1'' 0x40500000 12 2 started = Some (next_task_id (sched_of started), k') \<and>
     live (sched_of k') i \<and> pte_of (mem_of k') (t_page_table (tk (sched_of k') i)) 0x40000000 = 0"
proof -
  obtain F where F: "vm_rel lk0 (vm_of started) id_labels F" using started_vm by blast
  have room: "card id_labels + 6 \<le> cap lk0" "unat (12 :: u64) \<le> 0x8000" by (simp_all add: card_id_labels lk0_ok)
  obtain i where slot: "find_slot (sched_of started) 0 MAX_TASKS = Some i"
    using find_slot_None [of "sched_of started" 0 MAX_TASKS] started_slot
    by (cases "find_slot (sched_of started) 0 MAX_TASKS") (auto simp: live_def)
  from task_create_user_spec [OF started_facts(2-4) F started_frames room(2) boot_apart boot_image slot,
      of "''User1''" 2] show ?thesis
  proof cases
    case (1 k')
    then show ?thesis using started_room by fastforce
  next
    case 2
    then show ?thesis using room(1) by simp
  next
    case 2: (3 k' fk fu fp ord)
    have id: "next_task_id (sched_of started) \<noteq> 0" using started_facts(8) by simp
    obtain i fu fp n where "live (sched_of k') i" "t_page_table (tk (sched_of k') i) = tbl lk0 (card id_labels)" "n \<le> 8"
      "\<forall>va. pte_of (mem_of k') (tbl lk0 (card id_labels)) va = user_ptes (page_to_phys fp) n (page_to_phys fu) (vpn va)"
      using user_task_isolated [OF started_facts(2-4) F started_frames room(2) boot_apart boot_image 2(3) id] by blast
    moreover have "vpn 0x40000000 = 0x40000" by (simp add: vpn_def)
    ultimately have "pte_of (mem_of k') (t_page_table (tk (sched_of k') i)) 0x40000000 = 0" by (simp add: user_ptes_def)
    then show ?thesis using 2(3) \<open>live (sched_of k') i\<close> by blast
  qed
qed

end
