(* ===== verification/Kmalloc.thy ===== *)
theory Kmalloc
  imports Kstring Pmm
begin

text \<open>
  \<^verbatim>\<open>mm/kmalloc.c\<close>: the kernel heap. Eight slab caches hand out fixed-size objects cut from single
  pages; larger requests take whole blocks from the page allocator. Object headers, page headers
  and free-list links live in the byte memory, at the offsets the C structures have; pointers are
  addresses, and memory is identity mapped. Shifts by 64 or more, undefined in C, are \<open>None\<close>.
\<close>

section \<open>State\<close>

definition NUM_SLABS :: nat where "NUM_SLABS = 8"
definition KMALLOC_MAGIC :: u32 where "KMALLOC_MAGIC = 0xDEADBEEF"
definition KMALLOC_PAGE_MAGIC :: u32 where "KMALLOC_PAGE_MAGIC = 0xCAFEBABE"

definition slab_sizes :: "nat \<Rightarrow> u64" where
  "slab_sizes i = [16, 32, 64, 128, 256, 512, 1024, 2048] ! i"

record slab =
  sl_size :: u64
  free_list :: u64
  total_objects :: u64
  free_objects :: u64

record heap =
  slabs :: "nat \<Rightarrow> slab"
  total_allocated :: u64
  total_freed :: u64

text \<open>The static variables before any code has run.\<close>

definition heap_bss :: heap where
  "heap_bss = \<lparr>slabs = (\<lambda>_. \<lparr>sl_size = 0, free_list = 0, total_objects = 0, free_objects = 0\<rparr>),
     total_allocated = 0, total_freed = 0\<rparr>"

type_synonym hst = "heap \<times> pmm \<times> mem \<times> console"

definition upd_slab :: "nat \<Rightarrow> (slab \<Rightarrow> slab) \<Rightarrow> heap \<Rightarrow> heap" where
  "upd_slab i f h = h\<lparr>slabs := (slabs h)(i := f (slabs h i))\<rparr>"

text \<open>
  \<^verbatim>\<open>struct obj_header\<close> is \<open>size\<close> at 0, \<open>magic\<close> at 8, \<open>next\<close> at 16, 24 bytes in all;
  \<^verbatim>\<open>struct page_header\<close> is \<open>size\<close> at 0, \<open>magic\<close> at 8, \<open>order\<close> at 12, 16 bytes.
\<close>

definition OBJ_HEADER :: u64 where "OBJ_HEADER = 24"
definition PAGE_HEADER :: u64 where "PAGE_HEADER = 16"

definition obj_size :: "mem \<Rightarrow> u64 \<Rightarrow> u64" where "obj_size m a = load64 m a"
definition obj_magic :: "mem \<Rightarrow> u64 \<Rightarrow> u32" where "obj_magic m a = load32 m (a + 8)"
definition obj_next :: "mem \<Rightarrow> u64 \<Rightarrow> u64" where "obj_next m a = load64 m (a + 16)"
definition page_order :: "mem \<Rightarrow> u64 \<Rightarrow> u32" where "page_order m a = load32 m (a + 12)"

section \<open>Slabs\<close>

fun find_slab_loop :: "u64 \<Rightarrow> nat \<Rightarrow> nat \<Rightarrow> nat option" where
  "find_slab_loop sz i 0 = None"
| "find_slab_loop sz i (Suc n) = (if sz \<le> slab_sizes i then Some i else find_slab_loop sz (Suc i) n)"

definition find_slab :: "u64 \<Rightarrow> nat option" where
  "find_slab sz = find_slab_loop sz 0 NUM_SLABS"

fun kmalloc_init_loop :: "nat \<Rightarrow> nat \<Rightarrow> heap \<times> console \<Rightarrow> heap \<times> console" where
  "kmalloc_init_loop i 0 hc = hc"
| "kmalloc_init_loop i (Suc n) (h, con) = kmalloc_init_loop (Suc i) n
     (upd_slab i (\<lambda>s. s\<lparr>sl_size := slab_sizes i, free_list := 0, total_objects := 0, free_objects := 0\<rparr>) h,
      print [S ''  Slab '', X (slab_sizes i), S '' bytes: initialized'', NL] con)"

definition kmalloc_init :: "heap \<times> console \<Rightarrow> heap \<times> console" where
  "kmalloc_init hc =
     (let (h, con) = hc;
          con = print [NL, S ''========================================'', NL,
                  S ''Initializing Kernel Heap Allocator'', NL,
                  S ''========================================'', NL] con;
          (h, con) = kmalloc_init_loop 0 NUM_SLABS (h, con)
      in (h, print [S ''========================================'', NL, S ''Heap Allocator Ready'', NL,
                    S ''========================================'', NL, NL] con))"

text \<open>The loop that cuts a page into objects, from object \<open>j\<close> with \<open>n\<close> left, and the pop.\<close>

fun carve_loop :: "nat \<Rightarrow> u64 \<Rightarrow> u64 \<Rightarrow> nat \<Rightarrow> nat \<Rightarrow> heap \<times> mem \<Rightarrow> heap \<times> mem" where
  "carve_loop i virt osz j 0 hm = hm"
| "carve_loop i virt osz j (Suc n) (h, m) =
     (let obj = virt + of_nat j * osz;
          m = store64 m obj (sl_size (slabs h i));
          m = store32 m (obj + 8) KMALLOC_MAGIC;
          m = store64 m (obj + 16) (free_list (slabs h i));
          h = upd_slab i (\<lambda>s. s\<lparr>free_list := obj, total_objects := total_objects s + 1,
                              free_objects := free_objects s + 1\<rparr>) h
      in carve_loop i virt osz (Suc j) n (h, m))"

definition pop_object :: "nat \<Rightarrow> heap \<Rightarrow> mem \<Rightarrow> u64 \<times> heap" where
  "pop_object i h m =
     (let obj = free_list (slabs h i);
          h = upd_slab i (\<lambda>s. s\<lparr>free_list := obj_next m obj, free_objects := free_objects s - 1\<rparr>) h
      in (obj + OBJ_HEADER, h))"

definition slab_alloc :: "nat \<Rightarrow> hst \<Rightarrow> (u64 \<times> hst) option" where
  "slab_alloc i st =
     (let (h, p, m, con) = st; osz = sl_size (slabs h i) + OBJ_HEADER
      in if free_list (slabs h i) \<noteq> 0
         then let (ptr, h) = pop_object i h m in Some (ptr, h, p, m, con)
         else do {
           (page, p) \<leftarrow> alloc_pages 0 p;
           case page of
             None \<Rightarrow> Some (0, h, p, m, con)
           | Some pg \<Rightarrow>
               let objects_per_page = PAGE_SIZE div osz;
                   (h, m) = carve_loop i (page_to_phys pg) osz 0 (unat objects_per_page) (h, m);
                   (ptr, h) = pop_object i h m
               in Some (ptr, h, p, m, con)
         })"

definition slab_free :: "u64 \<Rightarrow> hst \<Rightarrow> hst" where
  "slab_free ptr st =
     (let (h, p, m, con) = st
      in if ptr = 0 then st
         else let obj = ptr - OBJ_HEADER
              in if obj_magic m obj \<noteq> KMALLOC_MAGIC
                 then (h, p, m, print [S ''WARNING: kfree() invalid pointer!'', NL] con)
                 else case find_slab (obj_size m obj) of
                        None \<Rightarrow> (h, p, m, print [S ''WARNING: kfree() size not in slab range!'', NL] con)
                      | Some i \<Rightarrow>
                          let m = store64 m (obj + 16) (free_list (slabs h i));
                              h = upd_slab i (\<lambda>s. s\<lparr>free_list := obj, free_objects := free_objects s + 1\<rparr>) h
                          in (h, p, m, con))"

section \<open>Allocation and release\<close>

text \<open>\<^verbatim>\<open>while ((PAGE_SIZE << order) < total_size) order++;\<close>\<close>

function order_for :: "u64 \<Rightarrow> nat \<Rightarrow> nat option" where
  "order_for need order =
     (if order \<ge> 64 then None
      else if push_bit order PAGE_SIZE < need then order_for need (Suc order) else Some order)"
  by auto
termination by (relation "measure (\<lambda>(need, order). 64 - order)") auto

declare order_for.simps [simp del]

definition kmalloc :: "u64 \<Rightarrow> hst \<Rightarrow> (u64 \<times> hst) option" where
  "kmalloc sz st =
     (if sz = 0 then Some (0, st)
      else case find_slab sz of
        None \<Rightarrow> do {
          let (h, p, m, con) = st;
          let total_size = sz + PAGE_HEADER;
          order \<leftarrow> order_for total_size 0;
          (pages, p) \<leftarrow> alloc_pages (int order) p;
          case pages of
            None \<Rightarrow> Some (0, h, p, m, con)
          | Some pg \<Rightarrow>
              let hdr = page_to_phys pg;
                  m = store64 m hdr sz;
                  m = store32 m (hdr + 8) KMALLOC_PAGE_MAGIC;
                  m = store32 m (hdr + 12) (of_nat order);
                  h = h\<lparr>total_allocated := total_allocated h + push_bit order PAGE_SIZE\<rparr>
              in Some (hdr + PAGE_HEADER, h, p, m, con)
        }
      | Some i \<Rightarrow> do {
          (ptr, h, p, m, con) \<leftarrow> slab_alloc i st;
          let h = (if ptr \<noteq> 0 then h\<lparr>total_allocated := total_allocated h + sl_size (slabs h i)\<rparr> else h);
          Some (ptr, h, p, m, con)
        })"

definition kzalloc :: "u64 \<Rightarrow> hst \<Rightarrow> (u64 \<times> hst) option" where
  "kzalloc sz st = do {
     (ptr, h, p, m, con) \<leftarrow> kmalloc sz st;
     let m = (if ptr \<noteq> 0 then fst (memset m ptr 0 sz) else m);
     Some (ptr, h, p, m, con)
   }"

definition kcalloc :: "u64 \<Rightarrow> u64 \<Rightarrow> hst \<Rightarrow> (u64 \<times> hst) option" where
  "kcalloc nmemb sz st = kzalloc (nmemb * sz) st"

definition kfree :: "u64 \<Rightarrow> hst \<Rightarrow> hst option" where
  "kfree ptr st =
     (let (h, p, m, con) = st
      in if ptr = 0 then Some st
         else
           let page_hdr = ptr - PAGE_HEADER
           in if obj_magic m page_hdr = KMALLOC_PAGE_MAGIC
              then let order = page_order m page_hdr
                   in if unat order \<ge> 64 then None
                      else do {
                        let h = h\<lparr>total_freed := total_freed h + push_bit (unat order) PAGE_SIZE\<rparr>;
                        p \<leftarrow> free_pages (phys_to_page p page_hdr) (sint order) p;
                        Some (h, p, m, con)
                      }
              else let obj = ptr - OBJ_HEADER;
                       h = (if obj_magic m obj = KMALLOC_MAGIC
                            then h\<lparr>total_freed := total_freed h + obj_size m obj\<rparr> else h)
                   in Some (slab_free ptr (h, p, m, con)))"

fun stats_loop :: "nat \<Rightarrow> nat \<Rightarrow> heap \<Rightarrow> item list" where
  "stats_loop i 0 h = []"
| "stats_loop i (Suc n) h = [S ''  Slab '', X (slab_sizes i), S '': '', X (total_objects (slabs h i)),
     S '' total, '', X (free_objects (slabs h i)), S '' free'', NL] @ stats_loop (Suc i) n h"

definition kmalloc_dump_stats :: "heap \<Rightarrow> console \<Rightarrow> console" where
  "kmalloc_dump_stats h con =
     print ([NL, S ''Kernel Heap Statistics:'', NL, S ''  Total allocated: '', X (total_allocated h),
             S '' bytes'', NL, S ''  Total freed:     '', X (total_freed h), S '' bytes'', NL,
             S ''  Currently used:  '', X (total_allocated h - total_freed h), S '' bytes'', NL,
             NL, S ''Slab Statistics:'', NL] @ stats_loop 0 NUM_SLABS h) con"

end
