(* ===== verification/Gic.thy ===== *)
theory Gic
  imports Mmu
begin

text \<open>
  \<^verbatim>\<open>drivers/gic.c\<close>: the GICv2 driver, as the sequence of register accesses it makes. Interrupt
  enables are read off the access history as the architecture defines the set-enable and
  clear-enable registers.
\<close>

definition GICD_CTLR :: u32 where "GICD_CTLR = 0x000"
definition GICD_TYPER :: u32 where "GICD_TYPER = 0x004"
definition GICD_IIDR :: u32 where "GICD_IIDR = 0x008"
definition GICD_ISENABLER :: u32 where "GICD_ISENABLER = 0x100"
definition GICD_ICENABLER :: u32 where "GICD_ICENABLER = 0x180"
definition GICD_ICPENDR :: u32 where "GICD_ICPENDR = 0x280"
definition GICD_IPRIORITYR :: u32 where "GICD_IPRIORITYR = 0x400"
definition GICD_ITARGETSR :: u32 where "GICD_ITARGETSR = 0x800"
definition GICD_ICFGR :: u32 where "GICD_ICFGR = 0xC00"
definition GICC_CTLR :: u32 where "GICC_CTLR = 0x000"
definition GICC_PMR :: u32 where "GICC_PMR = 0x004"
definition GICC_BPR :: u32 where "GICC_BPR = 0x008"
definition GICC_IAR :: u32 where "GICC_IAR = 0x00C"
definition GICC_EOIR :: u32 where "GICC_EOIR = 0x010"
definition GICD_CTLR_ENABLE :: u32 where "GICD_CTLR_ENABLE = push_bit 0 1"
definition GICC_CTLR_ENABLE :: u32 where "GICC_CTLR_ENABLE = push_bit 0 1"
definition IRQ_TIMER_PHYS :: u32 where "IRQ_TIMER_PHYS = 30"

definition gicd_reg :: "u32 \<Rightarrow> u64" where
  "gicd_reg offset = GIC_DIST_BASE + ucast offset"

definition gicc_reg :: "u32 \<Rightarrow> u64" where
  "gicc_reg offset = GIC_CPU_BASE + ucast offset"

text \<open>
  \<^verbatim>\<open>for (i = start; i < n; i += step) GICD_REG(base + (i / step) * 4) = v;\<close> the step is one of the
  positive literals of the code.
\<close>

function gicd_fill :: "u32 \<Rightarrow> nat \<Rightarrow> u32 \<Rightarrow> nat \<Rightarrow> nat \<Rightarrow> bus \<Rightarrow> bus" where
  "gicd_fill base step v i n b =
     (if i < n \<and> 0 < step
      then gicd_fill base step v (i + step) n
             (mmio_write (gicd_reg (base + of_nat (i div step) * 4)) v b)
      else b)"
  by auto
termination by (relation "measure (\<lambda>(_, _, _, i, n, _). n - i)") auto

declare gicd_fill.simps [simp del]

definition gicd_init :: "device \<Rightarrow> bus \<times> console \<Rightarrow> bus \<times> console" where
  "gicd_init dev s =
     (let (b, con) = s;
          con = print [S ''Initializing GIC Distributor...'', NL] con;
          b = mmio_write (gicd_reg GICD_CTLR) 0 b;
          (typer, b) = mmio_read dev (gicd_reg GICD_TYPER) b;
          num_irqs = 32 * ((typer AND 0x1F) + 1);
          con = print [S ''  IRQ lines: '', X (ucast num_irqs), NL] con;
          n = unat num_irqs;
          b = gicd_fill GICD_ICENABLER 32 0xFFFFFFFF 0 n b;
          b = gicd_fill GICD_ICPENDR 32 0xFFFFFFFF 0 n b;
          b = gicd_fill GICD_IPRIORITYR 4 0xA0A0A0A0 0 n b;
          b = gicd_fill GICD_ITARGETSR 4 0x01010101 32 n b;
          b = gicd_fill GICD_ICFGR 16 0 0 n b;
          b = mmio_write (gicd_reg GICD_CTLR) GICD_CTLR_ENABLE b
      in (b, print [S ''  GIC Distributor enabled'', NL] con))"

definition gicc_init :: "bus \<times> console \<Rightarrow> bus \<times> console" where
  "gicc_init s =
     (let (b, con) = s;
          con = print [S ''Initializing GIC CPU Interface...'', NL] con;
          b = mmio_write (gicc_reg GICC_PMR) 0xFF b;
          b = mmio_write (gicc_reg GICC_BPR) 0 b;
          b = mmio_write (gicc_reg GICC_CTLR) GICC_CTLR_ENABLE b
      in (b, print [S ''  GIC CPU Interface enabled'', NL] con))"

definition gic_init :: "device \<Rightarrow> bus \<times> console \<Rightarrow> bus \<times> console" where
  "gic_init dev s =
     (let (b, con) = s;
          con = print [NL, S ''========================================'', NL,
                       S ''Initializing GIC'', NL,
                       S ''========================================'', NL] con;
          (iidr, b) = mmio_read dev (gicd_reg GICD_IIDR) b;
          con = print [S ''GIC ID: '', X (ucast iidr), NL] con;
          (b, con) = gicc_init (gicd_init dev (b, con))
      in (b, print [S ''========================================'', NL,
                    S ''GIC Initialization Complete'', NL,
                    S ''========================================'', NL, NL] con))"

definition gic_enable_interrupt :: "u32 \<Rightarrow> bus \<Rightarrow> bus" where
  "gic_enable_interrupt irq b =
     mmio_write (gicd_reg (GICD_ISENABLER + irq div 32 * 4)) (push_bit (unat (irq mod 32)) 1) b"

definition gic_disable_interrupt :: "u32 \<Rightarrow> bus \<Rightarrow> bus" where
  "gic_disable_interrupt irq b =
     mmio_write (gicd_reg (GICD_ICENABLER + irq div 32 * 4)) (push_bit (unat (irq mod 32)) 1) b"

definition gic_set_priority :: "device \<Rightarrow> u32 \<Rightarrow> u8 \<Rightarrow> bus \<Rightarrow> bus" where
  "gic_set_priority dev irq priority b =
     (let reg_offset = irq div 4 * 4;
          shift = unat (irq mod 4 * 8);
          (val, b) = mmio_read dev (gicd_reg (GICD_IPRIORITYR + reg_offset)) b;
          val = val AND NOT (push_bit shift 0xFF);
          val = val OR push_bit shift (ucast priority)
      in mmio_write (gicd_reg (GICD_IPRIORITYR + reg_offset)) val b)"

definition gic_acknowledge_interrupt :: "device \<Rightarrow> bus \<Rightarrow> u32 \<times> bus" where
  "gic_acknowledge_interrupt dev b = mmio_read dev (gicc_reg GICC_IAR) b"

definition gic_end_of_interrupt :: "u32 \<Rightarrow> bus \<Rightarrow> bus" where
  "gic_end_of_interrupt irq b = mmio_write (gicc_reg GICC_EOIR) irq b"

section \<open>Interrupt enables\<close>

text \<open>
  The architecture of the device, not code of the repository. GICv2: for \<open>i \<ge> 16\<close> a 1 written to bit
  \<open>i mod 32\<close> of set-enable register \<open>i div 32\<close> enables interrupt \<open>i\<close>, of the clear-enable register
  disables it; other writes and all reads leave it as it is. Whether software-generated interrupts
  (0 to 15) can be disabled is left to the implementation: \<open>sgi\<close> is any rule for them.
\<close>

type_synonym sgi_rule = "nat \<Rightarrow> access \<Rightarrow> bool \<Rightarrow> bool"

definition enable_step :: "sgi_rule \<Rightarrow> (nat \<Rightarrow> bool) \<Rightarrow> access \<Rightarrow> nat \<Rightarrow> bool" where
  "enable_step sgi E x i =
     (if i < 16 then sgi i x (E i)
      else case x of
        Rd _ _ \<Rightarrow> E i
      | Wr a v \<Rightarrow>
          if a = gicd_reg (GICD_ISENABLER + of_nat (i div 32) * 4) \<and> bit v (i mod 32) then True
          else if a = gicd_reg (GICD_ICENABLER + of_nat (i div 32) * 4) \<and> bit v (i mod 32) then False
          else E i)"

definition irqs_enabled :: "sgi_rule \<Rightarrow> (nat \<Rightarrow> bool) \<Rightarrow> bus \<Rightarrow> nat \<Rightarrow> bool" where
  "irqs_enabled sgi E b = foldl (enable_step sgi) E b"

lemma irqs_enabled_append [simp]: "irqs_enabled sgi E (b @ c) = irqs_enabled sgi (irqs_enabled sgi E b) c"
  by (simp add: irqs_enabled_def)

lemma irqs_enabled_simps [simp]:
  "irqs_enabled sgi E [] = E" "irqs_enabled sgi E [x] = enable_step sgi E x"
  by (simp_all add: irqs_enabled_def fun_eq_iff)

lemma irqs_enabled_Cons: "irqs_enabled sgi E (x # b) = irqs_enabled sgi (enable_step sgi E x) b"
  by (simp add: irqs_enabled_def fun_eq_iff)

lemma enable_step_Rd [simp]: "16 \<le> i \<Longrightarrow> enable_step sgi E (Rd a v) i = E i"
  by (simp add: enable_step_def)

text \<open>Registers of the distributor by their byte offset.\<close>

lemma gicd_reg_eq:
  assumes "x < 0x1000" "y < 0x1000"
  shows "gicd_reg (of_nat x) = gicd_reg (of_nat y) \<longleftrightarrow> x = y"
proof -
  have u: "unat (ucast (of_nat z :: u32) :: u64) = z" if "z < 0x1000" for z
    using that by (simp add: unat_of_nat_u32)
  show ?thesis
    unfolding gicd_reg_def using u [OF assms(1)] u [OF assms(2)] by (metis add_left_cancel)
qed

text \<open>The offset of the register for interrupt \<open>i\<close> in a bank of one bit per interrupt.\<close>

lemma bit_reg_offset:
  "of_nat base + of_nat (i div 32) * 4 = (of_nat (base + 4 * (i div 32)) :: u32)"
  by simp

lemma bank_regs:
  "GICD_ISENABLER = of_nat 0x100" "GICD_ICENABLER = of_nat 0x180" "GICD_ICPENDR = of_nat 0x280"
  "GICD_IPRIORITYR = of_nat 0x400" "GICD_ITARGETSR = of_nat 0x800" "GICD_ICFGR = of_nat 0xC00"
  "GICD_CTLR = of_nat 0"
  by (simp_all add: GICD_ISENABLER_def GICD_ICENABLER_def GICD_ICPENDR_def GICD_IPRIORITYR_def
      GICD_ITARGETSR_def GICD_ICFGR_def GICD_CTLR_def)

lemma enable_bit_regs:
  assumes "i < 1024" "j < 1024"
  shows "gicd_reg (GICD_ISENABLER + of_nat (i div 32) * 4) = gicd_reg (GICD_ISENABLER + of_nat (j div 32) * 4)
      \<longleftrightarrow> i div 32 = j div 32"
    and "gicd_reg (GICD_ICENABLER + of_nat (i div 32) * 4) = gicd_reg (GICD_ICENABLER + of_nat (j div 32) * 4)
      \<longleftrightarrow> i div 32 = j div 32"
    and "gicd_reg (GICD_ISENABLER + of_nat (i div 32) * 4) \<noteq> gicd_reg (GICD_ICENABLER + of_nat (j div 32) * 4)"
proof -
  have "i div 32 < 32" "j div 32 < 32" using assms by (auto simp: div_less_iff_less_mult)
  then show
    "gicd_reg (GICD_ISENABLER + of_nat (i div 32) * 4) = gicd_reg (GICD_ISENABLER + of_nat (j div 32) * 4)
      \<longleftrightarrow> i div 32 = j div 32"
    "gicd_reg (GICD_ICENABLER + of_nat (i div 32) * 4) = gicd_reg (GICD_ICENABLER + of_nat (j div 32) * 4)
      \<longleftrightarrow> i div 32 = j div 32"
    "gicd_reg (GICD_ISENABLER + of_nat (i div 32) * 4) \<noteq> gicd_reg (GICD_ICENABLER + of_nat (j div 32) * 4)"
    unfolding bank_regs bit_reg_offset by (subst gicd_reg_eq; simp)+
qed

lemma irq_bit:
  assumes "unat irq < 1024" "i < 1024"
  shows "of_nat (i div 32) = irq div (32 :: u32) \<longleftrightarrow> i div 32 = unat irq div 32"
    and "bit (push_bit (unat (irq mod 32)) 1 :: u32) (i mod 32) \<longleftrightarrow> i mod 32 = unat irq mod 32"
    and "irq div 32 = of_nat (unat irq div 32)"
proof -
  have m: "unat (irq mod 32) = unat irq mod 32" by (simp add: unat_mod)
  have d: "unat (irq div 32) = unat irq div 32" by (simp add: unat_div)
  show "irq div 32 = of_nat (unat irq div 32)" unfolding d [symmetric] by simp
  have "i div 32 < 2 ^ 32" using assms(2) by (simp add: div_less_iff_less_mult)
  then show "of_nat (i div 32) = irq div (32 :: u32) \<longleftrightarrow> i div 32 = unat irq div 32"
    by (simp add: word_unat_eq_iff unat_div unat_of_nat_u32)
  show "bit (push_bit (unat (irq mod 32)) 1 :: u32) (i mod 32) \<longleftrightarrow> i mod 32 = unat irq mod 32"
    unfolding m by (auto simp: bit_simps)
qed

lemma same_irq: "i div 32 = j div 32 \<and> i mod 32 = j mod 32 \<longleftrightarrow> i = (j :: nat)"
  by (metis div_mult_mod_eq)

text \<open>
  \<^verbatim>\<open>gic_enable_interrupt\<close> and \<^verbatim>\<open>gic_disable_interrupt\<close> each change the enable of exactly the
  interrupt they name, whatever was enabled before.
\<close>
lemma gic_enable_switches:
  assumes "unat irq < 1024" "i < 1024" "16 \<le> i"
  shows "irqs_enabled sgi E (gic_enable_interrupt irq b) i = (if i = unat irq then True else irqs_enabled sgi E b i) \<and>
    irqs_enabled sgi E (gic_disable_interrupt irq b) i = (if i = unat irq then False else irqs_enabled sgi E b i)"
proof -
  note irq = irq_bit [OF assms(1,2)]
  have regs: "gicd_reg (GICD_ISENABLER + irq div 32 * 4) = gicd_reg (GICD_ISENABLER + of_nat (i div 32) * 4)
      \<longleftrightarrow> i div 32 = unat irq div 32"
    "gicd_reg (GICD_ICENABLER + irq div 32 * 4) = gicd_reg (GICD_ICENABLER + of_nat (i div 32) * 4)
      \<longleftrightarrow> i div 32 = unat irq div 32"
    "gicd_reg (GICD_ISENABLER + irq div 32 * 4) \<noteq> gicd_reg (GICD_ICENABLER + of_nat (i div 32) * 4)"
    "gicd_reg (GICD_ICENABLER + irq div 32 * 4) \<noteq> gicd_reg (GICD_ISENABLER + of_nat (i div 32) * 4)"
    unfolding irq(3) using enable_bit_regs [OF assms(1,2)] enable_bit_regs(3) [OF assms(2,1)] by auto
  show ?thesis
    unfolding gic_enable_interrupt_def gic_disable_interrupt_def mmio_write_def irqs_enabled_append
      irqs_enabled_simps enable_step_def access.case
    using regs irq(2) same_irq [of i "unat irq"] assms(3) by auto
qed

text \<open>
  \<^verbatim>\<open>gic_set_priority\<close> reads the priority register of the interrupt and writes it back with the
  interrupt's own byte replaced by the priority and the other three bytes as read.
\<close>
theorem gic_set_priority_byte:
  "\<exists>w v. gic_set_priority dev irq p b =
      b @ [Rd (gicd_reg (GICD_IPRIORITYR + irq div 4 * 4)) w, Wr (gicd_reg (GICD_IPRIORITYR + irq div 4 * 4)) v] \<and>
    (\<forall>k. take_bit 8 (drop_bit (8 * k) v) =
      (if k = unat irq mod 4 then ucast p else take_bit 8 (drop_bit (8 * k) w)))"
proof -
  let ?r = "gicd_reg (GICD_IPRIORITYR + irq div 4 * 4)"
  let ?w = "dev b ?r" and ?s = "8 * (unat irq mod 4)"
  let ?v = "?w AND NOT (push_bit ?s 0xFF) OR push_bit ?s (ucast p)"
  have "unat (irq mod 4 * 8) = ?s"
  proof -
    have "unat (irq mod 4) = unat irq mod 4" by (simp add: unat_mod)
    then show ?thesis by (simp add: unat_word_ariths)
  qed
  then have run: "gic_set_priority dev irq p b = b @ [Rd ?r ?w, Wr ?r ?v]"
    by (simp add: gic_set_priority_def mmio_read_def mmio_write_def Let_def)
  have ff: "(0xFF :: u32) = mask 8" by (simp add: mask_eq_exp_minus_1)
  have bytes: "take_bit 8 (drop_bit (8 * k) ?v) =
      (if k = unat irq mod 4 then ucast p else take_bit 8 (drop_bit (8 * k) ?w))" for k
  proof (cases "k = unat irq mod 4")
    case True
    then have k: "?s = 8 * k" "k < 4" by auto
    have "bit (take_bit 8 (drop_bit (8 * k) ?v)) j = bit (ucast p :: u32) j" for j
      unfolding k(1) ff using k(2) by (auto simp: bit_simps dest: bit_imp_le_length)
    then have "take_bit 8 (drop_bit (8 * k) ?v) = ucast p" by (rule bit_eqI)
    then show ?thesis using True by simp
  next
    case False
    have apart: "\<not> (?s \<le> 8 * k + j \<and> 8 * k + j - ?s < 8)" if "j < 8" for j
    proof
      assume h: "?s \<le> 8 * k + j \<and> 8 * k + j - ?s < 8"
      then have "unat irq mod 4 \<le> k" "k \<le> unat irq mod 4" using that by linarith+
      with False show False by simp
    qed
    have "bit (take_bit 8 (drop_bit (8 * k) ?v)) j = bit (take_bit 8 (drop_bit (8 * k) ?w)) j" for j
      unfolding ff using apart [of j] by (auto simp: bit_simps dest: bit_imp_le_length)
    then have "take_bit 8 (drop_bit (8 * k) ?v) = take_bit 8 (drop_bit (8 * k) ?w)" by (rule bit_eqI)
    then show ?thesis using False by simp
  qed
  show ?thesis using run bytes by blast
qed

section \<open>Initialisation\<close>

lemma gicd_fill_eq:
  assumes "0 < step"
  shows "gicd_fill base step v (step * j) n b =
    b @ map (\<lambda>k. Wr (gicd_reg (base + of_nat k * 4)) v) [j..<(n + step - 1) div step]"
proof -
  let ?m = "(n + step - 1) div step"
  have less: "step * k < n \<longleftrightarrow> k < ?m" for k
  proof -
    have "k < ?m \<longleftrightarrow> Suc k \<le> ?m" by (rule Suc_le_eq [symmetric])
    also have "\<dots> \<longleftrightarrow> Suc k * step \<le> n + step - 1" using assms by (rule less_eq_div_iff_mult_less_eq)
    also have "\<dots> \<longleftrightarrow> step * k < n" using assms by (auto simp: algebra_simps)
    finally show ?thesis by simp
  qed
  show ?thesis
  proof (induction "?m - j" arbitrary: j b)
    case 0
    then show ?case by (subst gicd_fill.simps) (simp add: less)
  next
    case (Suc d)
    then have j: "j < ?m" by simp
    have "gicd_fill base step v (step * j) n b =
        gicd_fill base step v (step * Suc j) n (mmio_write (gicd_reg (base + of_nat j * 4)) v b)"
      using j assms by (subst gicd_fill.simps) (simp add: less add.commute)
    also have "\<dots> = mmio_write (gicd_reg (base + of_nat j * 4)) v b @
        map (\<lambda>k. Wr (gicd_reg (base + of_nat k * 4)) v) [Suc j..<?m]"
      using Suc.hyps(2) by (intro Suc.hyps(1)) simp
    finally show ?case unfolding upt_conv_Cons [OF j] by (simp add: mmio_write_def)
  qed
qed

lemma irqs_enabled_keep:
  "(\<And>x E. x \<in> set c \<Longrightarrow> enable_step sgi E x i = E i) \<Longrightarrow> irqs_enabled sgi E c i = E i"
proof (induction c arbitrary: E)
  case (Cons x c)
  have "irqs_enabled sgi E (x # c) = irqs_enabled sgi (enable_step sgi E x) c" by (simp add: irqs_enabled_def)
  with Cons show ?case by simp
qed simp

lemma irqs_enabled_clear:
  "(\<And>x E. x \<in> set c \<Longrightarrow> enable_step sgi E x i \<longrightarrow> E i) \<Longrightarrow> (\<exists>x \<in> set c. \<forall>E. \<not> enable_step sgi E x i) \<Longrightarrow>
    \<not> irqs_enabled sgi E c i"
proof (induction c arbitrary: E)
  case (Cons x c)
  have step: "irqs_enabled sgi E (x # c) = irqs_enabled sgi (enable_step sgi E x) c" for E by (simp add: irqs_enabled_def)
  have mono: "irqs_enabled sgi E c i \<Longrightarrow> E i" if "\<And>x E. x \<in> set c \<Longrightarrow> enable_step sgi E x i \<longrightarrow> E i" for E c
    using that by (induction c arbitrary: E) (auto simp: irqs_enabled_def)
  show ?case
  proof (cases "\<forall>E. \<not> enable_step sgi E x i")
    case True
    then show ?thesis unfolding step using mono [of c "enable_step sgi E x"] Cons.prems(1) by auto
  next
    case False
    then show ?thesis unfolding step using Cons by auto
  qed
qed simp

lemma enable_reg_offset:
  assumes "i < 1024"
  shows "GICD_ISENABLER + of_nat (i div 32) * 4 = of_nat (0x100 + 4 * (i div 32))" "i div 32 < 32"
  using assms by (simp_all add: bank_regs div_less_iff_less_mult)

lemma other_reg_keeps:
  assumes "i < 1024 \<and> 16 \<le> i" "off = 0 \<or> 0x180 \<le> off" "off < 0x1000"
  shows "enable_step sgi E (Wr (gicd_reg (of_nat off)) v) i \<longrightarrow> E i"
proof -
  note i = enable_reg_offset [OF conjunct1 [OF assms(1)]]
  have "gicd_reg (of_nat off) \<noteq> gicd_reg (GICD_ISENABLER + of_nat (i div 32) * 4)"
    unfolding i(1) using i(2) assms(2,3) by (subst gicd_reg_eq) auto
  then show ?thesis using assms(1) by (simp add: enable_step_def)
qed

lemma cpu_reg_keeps:
  assumes "i < 1024 \<and> 16 \<le> i" "off < 0x1000"
  shows "enable_step sgi E (Wr (gicc_reg (of_nat off)) v) i \<longrightarrow> E i"
proof -
  note i = enable_reg_offset [OF conjunct1 [OF assms(1)]]
  have u: "unat (ucast (of_nat z :: u32) :: u64) = z" if "z < 0x1000" for z
    using that by (simp add: unat_of_nat_u32)
  have "unat (gicc_reg (of_nat off)) = 0x08010000 + off"
    unfolding gicc_reg_def using u [OF assms(2)] assms(2)
    by (subst unat_add_no_wrap) (simp_all add: GIC_CPU_BASE_def)
  moreover have "unat (gicd_reg (of_nat (0x100 + 4 * (i div 32)))) = 0x08000000 + (0x100 + 4 * (i div 32))"
    unfolding gicd_reg_def using u [of "0x100 + 4 * (i div 32)"] i(2)
    by (subst unat_add_no_wrap) (simp_all add: GIC_DIST_BASE_def)
  ultimately have "gicc_reg (of_nat off) \<noteq> gicd_reg (GICD_ISENABLER + of_nat (i div 32) * 4)"
    unfolding i(1) using i(2) by auto
  then show ?thesis using assms(1) by (simp add: enable_step_def)
qed

definition fill_ops :: "u32 \<Rightarrow> u32 \<Rightarrow> nat \<Rightarrow> nat \<Rightarrow> bus" where
  "fill_ops base v j m = map (\<lambda>k. Wr (gicd_reg (base + of_nat k * 4)) v) [j..<m]"

lemma fill_keeps:
  assumes "i < 1024 \<and> 16 \<le> i" "base = of_nat z" "0x180 \<le> z" "z + 4 * m \<le> 0x1000"
    and "x \<in> set (fill_ops base v j m)"
  shows "enable_step sgi E x i \<longrightarrow> E i"
proof -
  obtain k where k: "k < m" "x = Wr (gicd_reg (of_nat z + of_nat k * 4)) v"
    using assms(2,5) by (auto simp: fill_ops_def)
  have eq: "of_nat z + of_nat k * 4 = (of_nat (z + 4 * k) :: u32)" by simp
  show ?thesis
    unfolding k(2) eq using assms(3,4) k(1) by (intro other_reg_keeps [OF assms(1)]) auto
qed

definition gic_lines :: "u32 \<Rightarrow> nat" where
  "gic_lines typer = 32 * (unat (typer AND 0x1F) + 1)"

lemma gic_lines: "unat (32 * ((typer AND 0x1F) + 1)) = gic_lines typer" "gic_lines typer \<le> 1024"
proof -
  have "typer AND 0x1F = take_bit 5 typer" by (simp add: take_bit_eq_mask mask_eq_exp_minus_1)
  then have "unat (typer AND 0x1F) < 32"
    by (simp add: take_bit_eq_mod unat_mod)
  then show "unat (32 * ((typer AND 0x1F) + 1)) = gic_lines typer" "gic_lines typer \<le> 1024"
    by (auto simp: gic_lines_def unat_word_ariths)
qed

text \<open>The accesses of \<^verbatim>\<open>gic_init\<close> when \<open>n\<close> lines are reported.\<close>

definition init_ops :: "u32 \<Rightarrow> u32 \<Rightarrow> nat \<Rightarrow> bus" where
  "init_ops iidr typer n =
     [Rd (gicd_reg GICD_IIDR) iidr, Wr (gicd_reg GICD_CTLR) 0, Rd (gicd_reg GICD_TYPER) typer] @
     fill_ops GICD_ICENABLER 0xFFFFFFFF 0 ((n + 31) div 32) @ fill_ops GICD_ICPENDR 0xFFFFFFFF 0 ((n + 31) div 32) @
     fill_ops GICD_IPRIORITYR 0xA0A0A0A0 0 ((n + 3) div 4) @ fill_ops GICD_ITARGETSR 0x01010101 8 ((n + 3) div 4) @
     fill_ops GICD_ICFGR 0 0 ((n + 15) div 16) @
     [Wr (gicd_reg GICD_CTLR) GICD_CTLR_ENABLE, Wr (gicc_reg GICC_PMR) 0xFF, Wr (gicc_reg GICC_BPR) 0,
      Wr (gicc_reg GICC_CTLR) GICC_CTLR_ENABLE]"

lemma gic_init_bus:
  assumes "\<And>h. dev h (gicd_reg GICD_TYPER) = typer"
  defines "n \<equiv> gic_lines typer"
  shows "\<exists>iidr. fst (gic_init dev (b, con)) = b @ init_ops iidr typer n"
proof -
  note f = gicd_fill_eq [of 32 _ _ 0] gicd_fill_eq [of 4 _ _ 0] gicd_fill_eq [of 4 _ _ 8] gicd_fill_eq [of 16 _ _ 0]
  show ?thesis
    unfolding gic_init_def gicd_init_def gicc_init_def mmio_read_def mmio_write_def Let_def prod.case
      assms(1) gic_lines(1) n_def [symmetric] fst_conv init_ops_def
    using f by (simp add: fill_ops_def add.commute)
qed

lemma fills_keep:
  assumes i: "i < 1024 \<and> 16 \<le> i" and n: "n \<le> 1024"
    and x: "x \<in> set (fill_ops GICD_ICENABLER u 0 ((n + 31) div 32)) \<union> set (fill_ops GICD_ICPENDR v 0 ((n + 31) div 32)) \<union>
      set (fill_ops GICD_IPRIORITYR w 0 ((n + 3) div 4)) \<union> set (fill_ops GICD_ITARGETSR y 8 ((n + 3) div 4)) \<union>
      set (fill_ops GICD_ICFGR z 0 ((n + 15) div 16))"
  shows "enable_step sgi E x i \<longrightarrow> E i"
proof -
  have m: "(n + 31) div 32 \<le> 32" "(n + 3) div 4 \<le> 256" "(n + 15) div 16 \<le> 64" using n by simp_all
  have f: "x \<in> set (fill_ops GICD_ICENABLER v j m) \<Longrightarrow> m \<le> 32 \<Longrightarrow> enable_step sgi E x i \<longrightarrow> E i"
    "x \<in> set (fill_ops GICD_ICPENDR v j m) \<Longrightarrow> m \<le> 32 \<Longrightarrow> enable_step sgi E x i \<longrightarrow> E i"
    "x \<in> set (fill_ops GICD_IPRIORITYR v j m) \<Longrightarrow> m \<le> 256 \<Longrightarrow> enable_step sgi E x i \<longrightarrow> E i"
    "x \<in> set (fill_ops GICD_ITARGETSR v j m) \<Longrightarrow> m \<le> 256 \<Longrightarrow> enable_step sgi E x i \<longrightarrow> E i"
    "x \<in> set (fill_ops GICD_ICFGR v j m) \<Longrightarrow> m \<le> 64 \<Longrightarrow> enable_step sgi E x i \<longrightarrow> E i" for v j m
    using fill_keeps [OF i bank_regs(2) _ _, of m x v j sgi E] fill_keeps [OF i bank_regs(3) _ _, of m x v j sgi E]
      fill_keeps [OF i bank_regs(4) _ _, of m x v j sgi E] fill_keeps [OF i bank_regs(5) _ _, of m x v j sgi E]
      fill_keeps [OF i bank_regs(6) _ _, of m x v j sgi E] by simp_all
  show ?thesis using x by (elim UnE) (erule f, rule m)+
qed

lemma control_keeps:
  assumes "i < 1024 \<and> 16 \<le> i" "x \<in> {Rd r v, Wr (gicd_reg GICD_CTLR) c, Rd s w, Wr (gicd_reg GICD_CTLR) d,
    Wr (gicc_reg GICC_PMR) e, Wr (gicc_reg GICC_BPR) f, Wr (gicc_reg GICC_CTLR) g}"
  shows "enable_step sgi E x i \<longrightarrow> E i"
proof -
  have gicc: "GICC_PMR = of_nat 4" "GICC_BPR = of_nat 8" "GICC_CTLR = of_nat 0"
    by (simp_all add: GICC_PMR_def GICC_BPR_def GICC_CTLR_def)
  show ?thesis
    using assms(2) other_reg_keeps [OF assms(1), of 0 sgi E] cpu_reg_keeps [OF assms(1), of 0 sgi E]
      cpu_reg_keeps [OF assms(1), of 4 sgi E] cpu_reg_keeps [OF assms(1), of 8 sgi E]
    unfolding bank_regs(7) gicc using assms(1) by (elim insertE) auto
qed

lemma fill_clears:
  assumes i: "i < 1024 \<and> 16 \<le> i" and n: "i div 32 < n"
  shows "\<exists>x \<in> set (fill_ops GICD_ICENABLER 0xFFFFFFFF 0 n). \<forall>E. \<not> enable_step sgi E x i"
proof
  let ?x = "Wr (gicd_reg (GICD_ICENABLER + of_nat (i div 32) * 4)) 0xFFFFFFFF"
  show "?x \<in> set (fill_ops GICD_ICENABLER 0xFFFFFFFF 0 n)" using n by (auto simp: fill_ops_def)
  have ones: "(0xFFFFFFFF :: u32) = mask 32" by (simp add: mask_eq_exp_minus_1)
  have "bit (0xFFFFFFFF :: u32) (i mod 32)" unfolding ones by (simp add: bit_mask_iff)
  then show "\<forall>E. \<not> enable_step sgi E ?x i" using enable_bit_regs(3) [of i i] i by (auto simp: enable_step_def)
qed

lemma init_ops_clear:
  assumes "i < gic_lines typer" "16 \<le> i"
  shows "\<not> irqs_enabled sgi E (init_ops iidr typer (gic_lines typer)) i"
proof -
  let ?n = "gic_lines typer"
  have i: "i < 1024 \<and> 16 \<le> i" and n: "?n \<le> 1024" using assms gic_lines(2) [of typer] by auto
  have "i div 32 < (?n + 31) div 32" using assms(1) by (simp add: gic_lines_def div_less_iff_less_mult)
  note clears = fill_clears [OF i this, of sgi]
  show ?thesis
    unfolding init_ops_def using clears fills_keep [OF i n, where sgi = sgi] control_keeps [OF i, where sgi = sgi]
    by (intro irqs_enabled_clear) (simp only: set_append Un_iff list.set, blast)+
qed

section \<open>Calls of the driver\<close>

datatype gic_call = Enable u32 | Disable u32 | Set_priority u32 u8 | Acknowledge | End_of_interrupt u32

primrec gic_do :: "device \<Rightarrow> gic_call \<Rightarrow> bus \<Rightarrow> bus" where
  "gic_do dev (Enable irq) b = gic_enable_interrupt irq b"
| "gic_do dev (Disable irq) b = gic_disable_interrupt irq b"
| "gic_do dev (Set_priority irq p) b = gic_set_priority dev irq p b"
| "gic_do dev Acknowledge b = snd (gic_acknowledge_interrupt dev b)"
| "gic_do dev (End_of_interrupt irq) b = gic_end_of_interrupt irq b"

text \<open>Interrupt numbers of the GIC are below 1024; the value ended is any word.\<close>

fun call_ok :: "gic_call \<Rightarrow> bool" where
  "call_ok (Enable irq) = (unat irq < 1024)"
| "call_ok (Disable irq) = (unat irq < 1024)"
| "call_ok (Set_priority irq p) = (unat irq < 1024)"
| "call_ok _ = True"

text \<open>Whether the last call that enables or disables \<open>i\<close> enables it; \<open>e\<close> when there is none.\<close>

fun last_enables :: "nat \<Rightarrow> bool \<Rightarrow> gic_call list \<Rightarrow> bool" where
  "last_enables i e [] = e"
| "last_enables i e (Enable irq # cs) = last_enables i (unat irq = i \<or> e) cs"
| "last_enables i e (Disable irq # cs) = last_enables i (unat irq \<noteq> i \<and> e) cs"
| "last_enables i e (_ # cs) = last_enables i e cs"

lemma priority_reg_keeps:
  assumes "unat irq < 1024" "i < 1024" "16 \<le> i"
  shows "enable_step sgi E (Wr (gicd_reg (GICD_IPRIORITYR + irq div 4 * 4)) v) i = E i"
proof -
  have "unat (irq div 4 * 4) = unat irq div 4 * 4" using assms(1) by (simp add: unat_word_ariths unat_div)
  moreover have "unat (of_nat (unat irq div 4 * 4) :: u32) = unat irq div 4 * 4"
    using assms(1) by (subst unat_of_nat_u32) auto
  ultimately have "irq div 4 * 4 = of_nat (unat irq div 4 * 4)" by (simp only: word_unat_eq_iff)
  then have p: "GICD_IPRIORITYR + irq div 4 * 4 = of_nat (0x400 + unat irq div 4 * 4)" by (simp add: bank_regs)
  have b: "0x400 + unat irq div 4 * 4 < 0x1000" "i div 32 < 32" using assms(1,2) by (auto simp: div_less_iff_less_mult)
  have "gicd_reg (of_nat (0x400 + unat irq div 4 * 4)) \<noteq> gicd_reg (GICD_ISENABLER + of_nat (i div 32) * 4)"
    "gicd_reg (of_nat (0x400 + unat irq div 4 * 4)) \<noteq> gicd_reg (GICD_ICENABLER + of_nat (i div 32) * 4)"
    unfolding bank_regs(1,2) bit_reg_offset using b by (subst gicd_reg_eq; linarith)+
  then show ?thesis unfolding p using assms(3) by (simp add: enable_step_def)
qed

lemma eoi_reg_keeps:
  assumes "i < 1024" "16 \<le> i"
  shows "enable_step sgi E (Wr (gicc_reg GICC_EOIR) v) i = E i"
proof -
  have i: "i div 32 < 32" using assms(1) by (simp add: div_less_iff_less_mult)
  have u: "unat (gicd_reg (of_nat z)) = 0x08000000 + z" if "z < 0x1000" for z
    unfolding gicd_reg_def using that by (subst unat_add_no_wrap) (simp_all add: GIC_DIST_BASE_def unat_of_nat_u32)
  have "unat (gicc_reg GICC_EOIR) = 0x08010010" by (simp add: gicc_reg_def GIC_CPU_BASE_def GICC_EOIR_def)
  then have "gicc_reg GICC_EOIR \<noteq> gicd_reg (of_nat z)" if "z < 0x1000" for z using u [OF that] that by auto
  from this [of "0x100 + 4 * (i div 32)"] this [of "0x180 + 4 * (i div 32)"] i show ?thesis
    using assms(2) unfolding enable_step_def bank_regs(1,2) bit_reg_offset by simp
qed

lemma gic_call_enables:
  assumes "call_ok c" "i < 1024" "16 \<le> i"
  shows "irqs_enabled sgi E (gic_do dev c b) i = last_enables i (irqs_enabled sgi E b i) [c]"
proof (cases c)
  case (Set_priority irq p)
  obtain w v where "gic_set_priority dev irq p b =
      b @ [Rd (gicd_reg (GICD_IPRIORITYR + irq div 4 * 4)) w] @ [Wr (gicd_reg (GICD_IPRIORITYR + irq div 4 * 4)) v]"
    using gic_set_priority_byte [of dev irq p b] by auto
  then show ?thesis using assms unfolding Set_priority by (simp add: priority_reg_keeps irqs_enabled_Cons)
qed (use assms gic_enable_switches [of _ i] in \<open>auto simp: gic_acknowledge_interrupt_def mmio_read_def Let_def
    gic_end_of_interrupt_def mmio_write_def eoi_reg_keeps\<close>)

lemma gic_calls_enable:
  assumes "\<forall>c \<in> set cs. call_ok c" "i < 1024" "16 \<le> i"
  shows "irqs_enabled sgi E (fold (gic_do dev) cs b) i = last_enables i (irqs_enabled sgi E b i) cs"
  using assms(1)
proof (induction cs arbitrary: b)
  case (Cons c cs)
  have "last_enables i (last_enables i e [c]) cs = last_enables i e (c # cs)" for e by (cases c) auto
  then show ?case using Cons gic_call_enables [OF _ assms(2,3), of c sgi E dev b] by simp
qed simp

text \<open>
  C35: \<^verbatim>\<open>gic_init\<close> leaves every peripheral interrupt (16 and up) among the lines the distributor reports
  disabled, whatever was enabled before; after any further calls of the driver with interrupt numbers below 1024, such an interrupt
  is enabled exactly when the last call of \<^verbatim>\<open>gic_enable_interrupt\<close> or \<^verbatim>\<open>gic_disable_interrupt\<close> for it
  was the former. The enable registers are those of GICv2; whether software-generated interrupts (0 to 15) can be disabled
  is left open there, and here.
\<close>
theorem gic_init_disables_all:
  assumes "\<And>h. dev h (gicd_reg GICD_TYPER) = typer" "i < gic_lines typer" "16 \<le> i"
    and "\<forall>c \<in> set cs. call_ok c"
  shows "\<not> irqs_enabled sgi E (fst (gic_init dev (b, con))) i \<and>
    irqs_enabled sgi E (fold (gic_do dev) cs (fst (gic_init dev (b, con)))) i = last_enables i False cs"
proof -
  obtain iidr where bus: "fst (gic_init dev (b, con)) = b @ init_ops iidr typer (gic_lines typer)"
    using gic_init_bus [of dev typer b con, OF assms(1)] by blast
  have off: "\<not> irqs_enabled sgi E (fst (gic_init dev (b, con))) i"
    unfolding bus using init_ops_clear [OF assms(2,3)] by (subst irqs_enabled_append)
  have "i < 1024" using assms(2) gic_lines(2) [of typer] by simp
  from gic_calls_enable [OF assms(4) this assms(3), of sgi E dev] off show ?thesis by simp
qed

section \<open>Witnesses\<close>

definition idle_gic :: device where
  "idle_gic = (\<lambda>h a. 1)"

theorem gic_init_disables_all_witness:
  "irqs_enabled (\<lambda>_ _ e. e) (\<lambda>_. True) (fold (gic_do idle_gic) [Enable 30, Disable 31] (fst (gic_init idle_gic ([], [])))) 30 \<and>
   \<not> irqs_enabled (\<lambda>_ _ e. e) (\<lambda>_. True) (fold (gic_do idle_gic) [Enable 30, Disable 31] (fst (gic_init idle_gic ([], [])))) 33"
proof -
  have t: "idle_gic h (gicd_reg GICD_TYPER) = 1" for h by (simp add: idle_gic_def)
  have i: "30 < gic_lines 1" "33 < gic_lines 1" "(16 :: nat) \<le> 30" "(16 :: nat) \<le> 33" by (simp_all add: gic_lines_def)
  have c: "\<forall>c \<in> set [Enable 30, Disable 31]. call_ok c" by simp
  show ?thesis
    using gic_init_disables_all [of idle_gic 1, OF t i(1,3) c, of "\<lambda>_ _ e. e" "\<lambda>_. True" "[]" "[]"]
      gic_init_disables_all [of idle_gic 1, OF t i(2,4) c, of "\<lambda>_ _ e. e" "\<lambda>_. True" "[]" "[]"] by simp
qed

end
