(* ===== verification/Machine.thy ===== *)
theory Machine
  imports User_Tasks Kmalloc Gic
begin

text \<open>
  The whole kernel state: the system of \<open>Sched\<close> (allocator, page tables, memory, console, tasks,
  processor), the heap, the interrupt table, the timer, the hypervisor statistics, and the device
  and system registers that the boot code and the handlers read and write. Function pointers and
  the addresses of functions are numbers.
\<close>

text \<open>\<^verbatim>\<open>struct irq_handler\<close>: \<open>handler\<close> is NULL (0) or the address of the function.\<close>

record irq_handler =
  handler :: u64
  handler_data :: u64
  handler_name :: string
  handler_count :: u32

type_synonym irq_table = "nat \<Rightarrow> irq_handler"

record hyp_stats =
  hvc_count :: u64
  trap_count :: u64
  wfi_count :: u64
  wfe_count :: u64
  data_abort_count :: u64
  inst_abort_count :: u64

record machine =
  sys_of :: sys
  heap_of :: heap
  irq_handlers :: irq_table
  system_ticks :: u64
  stats :: hyp_stats
  gic_bus :: bus
  uart_bus :: bus
  cntfrq_el0 :: u64
  cntp_tval_el0 :: u64
  cntp_ctl_el0 :: u64
  CurrentEL :: u64
  hcr_el2 :: u64
  vtcr_el2 :: u64
  vttbr_el2 :: u64
  midr_el1 :: u64
  mpidr_el1 :: u64

definition on_sys :: "(sys \<Rightarrow> sys) \<Rightarrow> machine \<Rightarrow> machine" where
  "on_sys f mc = mc\<lparr>sys_of := f (sys_of mc)\<rparr>"

definition tell :: "item list \<Rightarrow> machine \<Rightarrow> machine" where
  "tell items mc = on_sys (say items) mc"

lemma on_sys_simps [simp]:
  "sys_of (on_sys f mc) = f (sys_of mc)" "heap_of (on_sys f mc) = heap_of mc"
  "irq_handlers (on_sys f mc) = irq_handlers mc" "system_ticks (on_sys f mc) = system_ticks mc"
  "stats (on_sys f mc) = stats mc" "gic_bus (on_sys f mc) = gic_bus mc"
  "uart_bus (on_sys f mc) = uart_bus mc" "cntfrq_el0 (on_sys f mc) = cntfrq_el0 mc"
  "cntp_tval_el0 (on_sys f mc) = cntp_tval_el0 mc" "cntp_ctl_el0 (on_sys f mc) = cntp_ctl_el0 mc"
  "CurrentEL (on_sys f mc) = CurrentEL mc" "hcr_el2 (on_sys f mc) = hcr_el2 mc"
  by (simp_all add: on_sys_def)

lemma tell_simps [simp]:
  "sys_of (tell is mc) = say is (sys_of mc)" "heap_of (tell is mc) = heap_of mc"
  "irq_handlers (tell is mc) = irq_handlers mc" "system_ticks (tell is mc) = system_ticks mc"
  "stats (tell is mc) = stats mc" "gic_bus (tell is mc) = gic_bus mc"
  "uart_bus (tell is mc) = uart_bus mc" "cntfrq_el0 (tell is mc) = cntfrq_el0 mc"
  "cntp_tval_el0 (tell is mc) = cntp_tval_el0 mc" "cntp_ctl_el0 (tell is mc) = cntp_ctl_el0 mc"
  "CurrentEL (tell is mc) = CurrentEL mc" "hcr_el2 (tell is mc) = hcr_el2 mc"
  by (simp_all add: tell_def)

text \<open>
  How a handler ends: it returns to its caller, it left by a context switch (its caller goes on
  only when its task is resumed), or it halted the processor. The outer \<open>option\<close> of an operation
  is \<open>None\<close> when it never ends, as elsewhere.
\<close>

datatype 'a outcome = Returned 'a | Switched 'a | Halted 'a

primrec state_after :: "'a outcome \<Rightarrow> 'a" where
  "state_after (Returned s) = s"
| "state_after (Switched s) = s"
| "state_after (Halted s) = s"

primrec continue :: "('a \<Rightarrow> 'b outcome) \<Rightarrow> ('a \<Rightarrow> 'b) \<Rightarrow> 'a outcome \<Rightarrow> 'b outcome" where
  "continue f g (Returned s) = f s"
| "continue f g (Switched s) = Switched (g s)"
| "continue f g (Halted s) = Halted (g s)"

text \<open>A system with the other static variables zeroed and the registers as the virtual board has them.\<close>

definition machine_of :: "sys \<Rightarrow> machine" where
  "machine_of k = \<lparr>sys_of = k, heap_of = heap_bss,
     irq_handlers = (\<lambda>_. \<lparr>handler = 0, handler_data = 0, handler_name = '''', handler_count = 0\<rparr>), system_ticks = 0,
     stats = \<lparr>hvc_count = 0, trap_count = 0, wfi_count = 0, wfe_count = 0, data_abort_count = 0, inst_abort_count = 0\<rparr>,
     gic_bus = [], uart_bus = [], cntfrq_el0 = 62500000, cntp_tval_el0 = 0, cntp_ctl_el0 = 0, CurrentEL = 4,
     hcr_el2 = 0, vtcr_el2 = 0, vttbr_el2 = 0, midr_el1 = 0, mpidr_el1 = 0\<rparr>"

end
