(* ===== verification/Irq.thy ===== *)
theory Irq
  imports Machine
begin

text \<open>
  \<^verbatim>\<open>core/irq.c\<close>: registration and dispatch of interrupt handlers. The call through the function
  pointer is a parameter: \<open>call f irq data\<close> is what the function at address \<open>f\<close> does.
\<close>

definition MAX_IRQS :: nat where "MAX_IRQS = 288"

definition no_handler :: irq_handler where
  "no_handler = \<lparr>handler = 0, handler_data = 0, handler_name = '''', handler_count = 0\<rparr>"

fun irq_init_loop :: "nat \<Rightarrow> nat \<Rightarrow> irq_table \<Rightarrow> irq_table" where
  "irq_init_loop i 0 t = t"
| "irq_init_loop i (Suc n) t = irq_init_loop (Suc i) n (t(i := no_handler))"

definition irq_init :: "machine \<Rightarrow> machine" where
  "irq_init mc =
     (let mc = tell [NL, S ''========================================'', NL,
                     S ''Initializing IRQ Subsystem'', NL,
                     S ''========================================'', NL] mc;
          mc = mc\<lparr>irq_handlers := irq_init_loop 0 MAX_IRQS (irq_handlers mc)\<rparr>
      in tell [S ''IRQ subsystem initialized'', NL, S ''Maximum IRQs: '', X (of_nat MAX_IRQS), NL,
               S ''========================================'', NL] mc)"

definition irq_register_handler :: "u32 \<Rightarrow> u64 \<Rightarrow> u64 \<Rightarrow> string \<Rightarrow> machine \<Rightarrow> int \<times> machine" where
  "irq_register_handler irq h data name mc =
     (if unat irq \<ge> MAX_IRQS then (-1, mc)
      else if handler (irq_handlers mc (unat irq)) \<noteq> 0
      then (-1, tell [S ''Warning: IRQ '', X (ucast irq), S '' already has a handler'', NL] mc)
      else
        let e = irq_handlers mc (unat irq);
            e = e\<lparr>handler := h, handler_data := data, handler_name := name, handler_count := 0\<rparr>;
            mc = mc\<lparr>irq_handlers := (irq_handlers mc)(unat irq := e)\<rparr>
        in (0, tell [S ''Registered IRQ '', X (ucast irq), S '': '', S name, NL] mc))"

definition irq_unregister_handler :: "u32 \<Rightarrow> machine \<Rightarrow> machine" where
  "irq_unregister_handler irq mc =
     (if unat irq \<ge> MAX_IRQS then mc
      else mc\<lparr>irq_handlers := (irq_handlers mc)(unat irq := no_handler)\<rparr>)"

type_synonym calls = "u64 \<Rightarrow> u32 \<Rightarrow> u64 \<Rightarrow> machine \<Rightarrow> machine outcome option"

definition irq_handle :: "calls \<Rightarrow> u32 \<Rightarrow> machine \<Rightarrow> machine outcome option" where
  "irq_handle call irq mc =
     (if unat irq \<ge> MAX_IRQS
      then Some (Returned (tell [S ''Invalid IRQ number: '', X (ucast irq), NL] mc))
      else if handler (irq_handlers mc (unat irq)) = 0
      then Some (Returned (tell [S ''No handler for IRQ '', X (ucast irq), NL] mc))
      else
        let e = irq_handlers mc (unat irq);
            e = e\<lparr>handler_count := handler_count e + 1\<rparr>;
            mc = mc\<lparr>irq_handlers := (irq_handlers mc)(unat irq := e)\<rparr>
        in call (handler e) irq (handler_data e) mc)"

fun irq_stats_loop :: "nat \<Rightarrow> nat \<Rightarrow> irq_table \<Rightarrow> item list" where
  "irq_stats_loop i 0 t = []"
| "irq_stats_loop i (Suc n) t =
     (if handler (t i) \<noteq> 0
      then [S ''IRQ '', X (of_nat i), S '': '', S (handler_name (t i)), S '' (count: '',
            X (ucast (handler_count (t i))), S '')'', NL]
      else []) @ irq_stats_loop (Suc i) n t"

definition irq_dump_stats :: "machine \<Rightarrow> machine" where
  "irq_dump_stats mc =
     tell ([NL, S ''IRQ Statistics:'', NL, S ''==============='', NL] @
           irq_stats_loop 0 MAX_IRQS (irq_handlers mc)) mc"

section \<open>Properties\<close>

lemma all_fields:
  "e\<lparr>handler := h, handler_data := d, handler_name := n, handler_count := c\<rparr> =
    \<lparr>handler = h, handler_data = d, handler_name = n, handler_count = c\<rparr>"
  by (cases e) simp

text \<open>
  A handler can be registered for an interrupt number below 288 that has none; otherwise the call
  fails with -1 and no handler changes. After a successful registration, the interrupt calls that
  function with that argument and a count of one, no other entry has changed, and a second
  registration fails until the handler is unregistered; then the interrupt is only reported.
\<close>
theorem irq_register_dispatch:
  assumes "irq_register_handler irq h d name mc = (r, mc')" "h \<noteq> 0"
  shows "if unat irq < MAX_IRQS \<and> handler (irq_handlers mc (unat irq)) = 0
    then r = 0 \<and>
      irq_handle call irq mc' = call h irq d (mc'\<lparr>irq_handlers := (irq_handlers mc)
        (unat irq := \<lparr>handler = h, handler_data = d, handler_name = name, handler_count = 1\<rparr>)\<rparr>) \<and>
      fst (irq_register_handler irq h' d' name' mc') = -1 \<and>
      irq_handle call irq (irq_unregister_handler irq mc') = Some (Returned
        (tell [S ''No handler for IRQ '', X (ucast irq), NL] (irq_unregister_handler irq mc')))
    else r = -1 \<and> irq_handlers mc' = irq_handlers mc"
proof (cases "unat irq < MAX_IRQS \<and> handler (irq_handlers mc (unat irq)) = 0")
  case True
  then have "r = 0" and mc': "mc' = tell [S ''Registered IRQ '', X (ucast irq), S '': '', S name, NL]
      (mc\<lparr>irq_handlers := (irq_handlers mc)(unat irq := (irq_handlers mc (unat irq))\<lparr>handler := h, handler_data := d,
        handler_name := name, handler_count := 0\<rparr>)\<rparr>)"
    using assms(1) by (auto simp: irq_register_handler_def Let_def split: if_splits)
  then show ?thesis using True assms(2)
    by (simp add: irq_handle_def irq_register_handler_def irq_unregister_handler_def Let_def no_handler_def all_fields)
next
  case False
  then show ?thesis using assms by (auto simp: irq_register_handler_def split: if_splits)
qed

theorem irq_register_dispatch_witness:
  "\<exists>mc'. irq_register_handler 30 0x40401000 7 ''timer'' (machine_of duo_sys) = (0, mc') \<and>
     irq_handle (\<lambda>f irq d mc. Some (Returned (mc\<lparr>system_ticks := f + d\<rparr>))) 30 mc' \<noteq> None"
proof -
  obtain r mc' where r: "irq_register_handler 30 0x40401000 7 ''timer'' (machine_of duo_sys) = (r, mc')" by fastforce
  have "(0x40401000 :: u64) \<noteq> 0" "unat (30 :: u32) < MAX_IRQS \<and> handler (irq_handlers (machine_of duo_sys) (unat (30 :: u32))) = 0"
    by (simp_all add: MAX_IRQS_def machine_of_def)
  with irq_register_dispatch [OF r this(1), of "\<lambda>f irq d mc. Some (Returned (mc\<lparr>system_ticks := f + d\<rparr>))" 1 0 "''x''"]
  show ?thesis using r by auto
qed

end
