(* ===== verification/Timer.thy ===== *)
theory Timer
  imports Irq
begin

text \<open>
  \<^verbatim>\<open>drivers/timer.c\<close>: the generic timer. The tick counter is volatile: in the busy wait,
  \<open>clock n\<close> is its value at the \<open>n\<close>-th read.
\<close>

definition TIMER_FREQ :: u64 where "TIMER_FREQ = 62500000"
definition TIMER_INTERVAL :: u64 where "TIMER_INTERVAL = TIMER_FREQ div TIMER_HZ"
definition TIMER_CTRL_ENABLE :: u64 where "TIMER_CTRL_ENABLE = push_bit 0 1"

text \<open>
  A switch in \<^verbatim>\<open>schedule\<close> leaves the handler before it has armed the timer again.
\<close>

definition timer_irq_handler :: "u32 \<Rightarrow> u64 \<Rightarrow> machine \<Rightarrow> machine outcome" where
  "timer_irq_handler irq data mc =
     (let mc = mc\<lparr>system_ticks := system_ticks mc + 1\<rparr>;
          (switched, k) = schedule (sys_of mc);
          mc = mc\<lparr>sys_of := k\<rparr>
      in if switched then Switched mc
         else Returned (mc\<lparr>cntp_tval_el0 := TIMER_INTERVAL\<rparr>))"

text \<open>\<open>isr\<close> is the address of \<^verbatim>\<open>timer_irq_handler\<close>.\<close>

definition timer_init :: "u64 \<Rightarrow> machine \<Rightarrow> machine" where
  "timer_init isr mc =
     (let mc = tell [NL, S ''========================================'', NL,
                     S ''Initializing ARM Generic Timer'', NL,
                     S ''========================================'', NL] mc;
          freq = cntfrq_el0 mc;
          mc = tell [S ''Timer frequency: '', X freq, S '' Hz ('', X (freq div 1000000), S '' MHz)'', NL] mc;
          mc = (if freq \<noteq> TIMER_FREQ
                then tell [S ''WARNING: Expected '', X TIMER_FREQ, S '' Hz, got '', X freq, S '' Hz'', NL] mc
                else mc);
          mc = tell [S ''Timer interval: '', X TIMER_INTERVAL, S '' ticks ('', X TIMER_HZ, S '' Hz)'', NL] mc;
          (_, mc) = irq_register_handler IRQ_TIMER_PHYS isr 0 ''ARM Generic Timer'' mc;
          mc = mc\<lparr>cntp_tval_el0 := TIMER_INTERVAL\<rparr>;
          ctrl = TIMER_CTRL_ENABLE;
          mc = mc\<lparr>cntp_ctl_el0 := ctrl\<rparr>
      in tell [S ''Timer enabled and running'', NL,
               S ''========================================'', NL, NL] mc)"

definition timer_get_ticks :: "machine \<Rightarrow> u64" where
  "timer_get_ticks mc = system_ticks mc"

definition timer_get_uptime_ms :: "machine \<Rightarrow> u64" where
  "timer_get_uptime_ms mc = uptime_ms (system_ticks mc)"

text \<open>The wait, as the number of the read of the counter that ends it.\<close>

partial_function (option) delay_loop :: "(nat \<Rightarrow> u64) \<Rightarrow> u64 \<Rightarrow> u32 \<Rightarrow> nat \<Rightarrow> nat option" where
  "delay_loop clock start ms n =
     (if uptime_ms (clock n) - start < ucast ms then delay_loop clock start ms (Suc n) else Some n)"

definition timer_delay_ms :: "(nat \<Rightarrow> u64) \<Rightarrow> u32 \<Rightarrow> nat option" where
  "timer_delay_ms clock ms = delay_loop clock (uptime_ms (clock 0)) ms 1"

end
