(* ===== verification/Syscall.thy ===== *)
theory Syscall
  imports Machine
begin

text \<open>
  \<^verbatim>\<open>core/syscall.c\<close>: the system call dispatcher. \<open>xlate u m\<close> is the address translation the
  processor applies to a data access under the translation registers and tables in force; it is
  only used to read the string of \<^verbatim>\<open>SYS_WRITE\<close> through the caller's pointer. \<open>clock\<close> is the tick
  counter as the busy wait of \<^verbatim>\<open>task_sleep\<close> reads it.
\<close>

definition SYS_YIELD :: u64 where "SYS_YIELD = 0"
definition SYS_EXIT :: u64 where "SYS_EXIT = 1"
definition SYS_SLEEP :: u64 where "SYS_SLEEP = 2"
definition SYS_GETPID :: u64 where "SYS_GETPID = 3"
definition SYS_WRITE :: u64 where "SYS_WRITE = 4"

type_synonym translation = "mmu \<Rightarrow> mem \<Rightarrow> u64 \<Rightarrow> u64"

text \<open>\<^verbatim>\<open>uart_puts\<close> of a string in memory, on the console.\<close>

partial_function (option) puts_mem :: "mem \<Rightarrow> u64 \<Rightarrow> console \<Rightarrow> console option" where
  "puts_mem m s con =
     (if m s \<noteq> 0 then puts_mem m (s + 1) (print [C (m s)] con) else Some con)"

definition syscall_handler ::
    "translation \<Rightarrow> (nat \<Rightarrow> u64) \<Rightarrow> u64 \<Rightarrow> u64 \<Rightarrow> u64 \<Rightarrow> u64 \<Rightarrow> u64 \<Rightarrow> machine
      \<Rightarrow> (u64 \<times> machine) outcome option" where
  "syscall_handler xlate clock num arg0 arg1 arg2 arg3 mc =
     (if num = SYS_YIELD then Some (Returned (0, on_sys task_yield mc))
      else if num = SYS_EXIT then do {
        (switched, k) \<leftarrow> task_exit (sys_of mc);
        let mc = mc\<lparr>sys_of := k\<rparr>;
        Some (if switched then Switched (0, mc) else Returned (0, mc))
      }
      else if num = SYS_SLEEP then do {
        k \<leftarrow> task_sleep clock (ucast arg0) (sys_of mc);
        Some (Returned (0, mc\<lparr>sys_of := k\<rparr>))
      }
      else if num = SYS_GETPID then
        Some (Returned (case sched_get_current (sys_of mc) of
                          None \<Rightarrow> 0
                        | Some c \<Rightarrow> ucast (t_id (tk (sched_of (sys_of mc)) c)), mc))
      else if num = SYS_WRITE then do {
        let k = sys_of mc;
        con \<leftarrow> puts_mem (\<lambda>a. mem_of k (xlate (mmu_of k) (mem_of k) a)) arg0 (con_of k);
        Some (Returned (0, mc\<lparr>sys_of := k\<lparr>con_of := con\<rparr>\<rparr>))
      }
      else Some (Returned (-1, tell [S ''Unknown syscall: '', X num, NL] mc)))"

end
