(* ===== verification/Hypervisor.thy ===== *)
theory Hypervisor
  imports Machine
begin

text \<open>
  \<^verbatim>\<open>core/hypervisor.c\<close>: the EL2 start-up, hypervisor calls, the trap report and the statistics.
\<close>

definition HYPERVISOR_VERSION_MAJOR :: u64 where "HYPERVISOR_VERSION_MAJOR = 1"
definition HYPERVISOR_VERSION_MINOR :: u64 where "HYPERVISOR_VERSION_MINOR = 0"
definition HCR_EL2_RW :: u64 where "HCR_EL2_RW = push_bit 31 1"
definition HVC_GET_VERSION :: u64 where "HVC_GET_VERSION = 0x0000"
definition HVC_CONSOLE_PUTC :: u64 where "HVC_CONSOLE_PUTC = 0x0001"
definition HVC_VM_INFO :: u64 where "HVC_VM_INFO = 0x0010"
definition HVC_TRAP_INFO :: u64 where "HVC_TRAP_INFO = 0x0011"
definition ESR_EL2_EC_SHIFT :: nat where "ESR_EL2_EC_SHIFT = 26"
definition ESR_EL2_EC_MASK :: u64 where "ESR_EL2_EC_MASK = 0x3F"
definition ESR_EL2_ISS_MASK :: u64 where "ESR_EL2_ISS_MASK = 0x1FFFFFF"
definition ESR_EC_UNKNOWN :: u64 where "ESR_EC_UNKNOWN = 0x00"
definition ESR_EC_WFI_WFE :: u64 where "ESR_EC_WFI_WFE = 0x01"
definition ESR_EC_HVC :: u64 where "ESR_EC_HVC = 0x16"
definition ESR_EC_SMC :: u64 where "ESR_EC_SMC = 0x17"
definition ESR_EC_IABT_LOW :: u64 where "ESR_EC_IABT_LOW = 0x20"
definition ESR_EC_DABT_LOW :: u64 where "ESR_EC_DABT_LOW = 0x24"

lemmas ESR_EC_defs = ESR_EC_UNKNOWN_def ESR_EC_WFI_WFE_def ESR_EC_HVC_def ESR_EC_SMC_def ESR_EC_IABT_LOW_def ESR_EC_DABT_LOW_def

definition hypervisor_get_el :: "machine \<Rightarrow> u64" where
  "hypervisor_get_el mc = drop_bit 2 (CurrentEL mc) AND 3"

text \<open>\<^verbatim>\<open>'0' + d\<close>, passed as a char.\<close>

definition digit :: "u64 \<Rightarrow> u8" where
  "digit d = ucast (of_char (CHR ''0'') + d)"

definition hypervisor_configure_hcr :: "u64 \<Rightarrow> machine \<Rightarrow> machine" where
  "hypervisor_configure_hcr flags mc =
     (let hcr = hcr_el2 mc;
          mc = tell [S ''  Current HCR_EL2: '', X hcr, NL] mc;
          hcr = flags;
          mc = mc\<lparr>hcr_el2 := hcr\<rparr>;
          hcr = hcr_el2 mc
      in tell [S ''  New HCR_EL2:     '', X hcr, NL] mc)"

definition hypervisor_init :: "machine \<Rightarrow> machine" where
  "hypervisor_init mc =
     (let el = hypervisor_get_el mc;
          mc = tell [NL, S ''========================================'', NL,
                     S ''Hypervisor Initialization'', NL,
                     S ''========================================'', NL,
                     S ''Current Exception Level: EL'', C (digit el), NL] mc
      in if el \<noteq> 2
         then tell [S ''ERROR: Not running at EL2!'', NL,
                    S ''Hypervisor requires EL2 privilege level.'', NL] mc
         else
           let mc = tell [S ''Hypervisor Version: '', C (digit HYPERVISOR_VERSION_MAJOR),
                          C (of_char (CHR ''.'')), C (digit HYPERVISOR_VERSION_MINOR), NL, NL] mc;
               mc = tell [S ''Configuring HCR_EL2...'', NL] mc;
               hcr_flags = HCR_EL2_RW;
               mc = hypervisor_configure_hcr hcr_flags mc
           in tell [NL, S ''Hypervisor Features:'', NL,
                    S ''  [*] Running at EL2 (Hypervisor mode)'', NL,
                    S ''  [*] AArch64 execution state'', NL,
                    S ''  [*] HVC (Hypervisor Call) support'', NL,
                    S ''  [*] Trap handling capability'', NL,
                    S ''  [ ] Stage-2 page tables (not enabled)'', NL,
                    S ''  [ ] Full VM isolation (not enabled)'', NL,
                    NL, S ''Hypervisor initialized successfully!'', NL,
                    S ''========================================'', NL, NL] mc)"

definition hypervisor_handle_hvc :: "u64 \<Rightarrow> u64 \<Rightarrow> u64 \<Rightarrow> u64 \<Rightarrow> machine \<Rightarrow> u64 \<times> machine" where
  "hypervisor_handle_hvc func arg0 arg1 arg2 mc =
     (let mc = mc\<lparr>stats := (stats mc)\<lparr>hvc_count := hvc_count (stats mc) + 1\<rparr>\<rparr>
      in if func = HVC_GET_VERSION
         then (push_bit 16 HYPERVISOR_VERSION_MAJOR OR HYPERVISOR_VERSION_MINOR, mc)
         else if func = HVC_CONSOLE_PUTC then (0, tell [C (ucast arg0)] mc)
         else if func = HVC_VM_INFO then (hypervisor_get_el mc, mc)
         else if func = HVC_TRAP_INFO then (trap_count (stats mc), mc)
         else (-1, tell [S ''[HYP] Unknown HVC function: '', X func, NL] mc))"

text \<open>The switch of \<^verbatim>\<open>hypervisor_handle_trap\<close> on the exception class: what it prints and counts.\<close>

definition trap_class :: "u64 \<Rightarrow> u64 \<Rightarrow> hyp_stats \<Rightarrow> string \<times> hyp_stats" where
  "trap_class ec iss st =
     (if ec = ESR_EC_UNKNOWN then (''Unknown'', st)
      else if ec = ESR_EC_WFI_WFE then
        (''WFI/WFE'', if iss AND 1 \<noteq> 0 then st\<lparr>wfe_count := wfe_count st + 1\<rparr>
                      else st\<lparr>wfi_count := wfi_count st + 1\<rparr>)
      else if ec = ESR_EC_HVC then (''HVC'', st)
      else if ec = ESR_EC_SMC then (''SMC'', st)
      else if ec = ESR_EC_IABT_LOW then (''Instruction Abort'', st\<lparr>inst_abort_count := inst_abort_count st + 1\<rparr>)
      else if ec = ESR_EC_DABT_LOW then (''Data Abort'', st\<lparr>data_abort_count := data_abort_count st + 1\<rparr>)
      else (''Other'', st))"

definition hypervisor_handle_trap :: "u64 \<Rightarrow> u64 \<Rightarrow> u64 \<Rightarrow> machine \<Rightarrow> machine" where
  "hypervisor_handle_trap esr far elr mc =
     (let ec = drop_bit ESR_EL2_EC_SHIFT esr AND ESR_EL2_EC_MASK;
          iss = esr AND ESR_EL2_ISS_MASK;
          mc = mc\<lparr>stats := (stats mc)\<lparr>trap_count := trap_count (stats mc) + 1\<rparr>\<rparr>;
          mc = tell [S ''[HYP] Trap to EL2:'', NL, S ''  ESR_EL2: '', X esr, NL,
                     S ''  EC:      '', X ec, S '' (''] mc;
          (name, st) = trap_class ec iss (stats mc);
          mc = tell [S name] (mc\<lparr>stats := st\<rparr>)
      in tell [S '')'', NL, S ''  FAR_EL2: '', X far, NL, S ''  ELR_EL2: '', X elr, NL] mc)"

text \<open>\<open>out\<close> is whether the pointer is not NULL.\<close>

definition hypervisor_get_stats :: "bool \<Rightarrow> machine \<Rightarrow> hyp_stats option" where
  "hypervisor_get_stats out mc = (if out then Some (stats mc) else None)"

definition hypervisor_dump_state :: "machine \<Rightarrow> machine" where
  "hypervisor_dump_state mc =
     (let el = hypervisor_get_el mc; hcr = hcr_el2 mc; vtcr = vtcr_el2 mc; vttbr = vttbr_el2 mc;
          st = stats mc
      in tell [NL, S ''========================================'', NL, S ''Hypervisor State'', NL,
               S ''========================================'', NL,
               S ''Exception Level:  EL'', C (digit el), NL,
               S ''HCR_EL2:          '', X hcr, NL,
               S ''VTCR_EL2:         '', X vtcr, NL,
               S ''VTTBR_EL2:        '', X vttbr, NL,
               NL, S ''Statistics:'', NL,
               S ''  HVC calls:      '', X (hvc_count st), NL,
               S ''  Total traps:    '', X (trap_count st), NL,
               S ''  WFI traps:      '', X (wfi_count st), NL,
               S ''  WFE traps:      '', X (wfe_count st), NL,
               S ''  Data aborts:    '', X (data_abort_count st), NL,
               S ''  Inst aborts:    '', X (inst_abort_count st), NL,
               S ''========================================'', NL, NL] mc)"

section \<open>Properties\<close>

text \<open>A trap as the three registers the handler gets, and the classes that have a counter.\<close>

type_synonym trap = "u64 \<times> u64 \<times> u64"

definition trap_ec :: "trap \<Rightarrow> u64" where
  "trap_ec t = drop_bit 26 (fst t) AND 0x3F"

definition is_wfe :: "trap \<Rightarrow> bool" where "is_wfe t \<longleftrightarrow> trap_ec t = 0x01 \<and> bit (fst t) 0"
definition is_wfi :: "trap \<Rightarrow> bool" where "is_wfi t \<longleftrightarrow> trap_ec t = 0x01 \<and> \<not> bit (fst t) 0"

definition count :: "(trap \<Rightarrow> bool) \<Rightarrow> trap list \<Rightarrow> u64" where
  "count P ts = of_nat (length (filter P ts))"

definition traps :: "trap list \<Rightarrow> machine \<Rightarrow> machine" where
  "traps ts mc = fold (\<lambda>(esr, far, elr). hypervisor_handle_trap esr far elr) ts mc"

lemma iss_wfe: "(esr AND ESR_EL2_ISS_MASK) AND 1 \<noteq> 0 \<longleftrightarrow> bit esr 0"
proof -
  have "(esr AND ESR_EL2_ISS_MASK) AND 1 = esr AND 1" by (simp add: ESR_EL2_ISS_MASK_def and.assoc)
  also have "\<dots> = (if bit esr 0 then 1 else 0)" by (simp add: and_one_eq bit_0 odd_iff_mod_2_eq_one)
  finally show ?thesis by simp
qed

lemma iss_wfe0: "(esr AND ESR_EL2_ISS_MASK) AND 1 = 0 \<longleftrightarrow> \<not> bit esr 0"
  using iss_wfe by blast

lemma one_trap:
  "stats (hypervisor_handle_trap esr far elr mc) =
    (let s = stats mc; t = (esr, far, elr) in
     s\<lparr>trap_count := trap_count s + 1,
       wfi_count := wfi_count s + (if is_wfi t then 1 else 0),
       wfe_count := wfe_count s + (if is_wfe t then 1 else 0),
       data_abort_count := data_abort_count s + (if trap_ec t = 0x24 then 1 else 0),
       inst_abort_count := inst_abort_count s + (if trap_ec t = 0x20 then 1 else 0)\<rparr>)"
  unfolding hypervisor_handle_trap_def Let_def trap_class_def ESR_EC_defs iss_wfe
  by (simp add: ESR_EL2_EC_SHIFT_def ESR_EL2_EC_MASK_def is_wfi_def is_wfe_def trap_ec_def iss_wfe0 split: prod.split)

lemma traps_stats:
  "stats (traps ts mc) =
    (let s = stats mc in
     s\<lparr>trap_count := trap_count s + of_nat (length ts), wfi_count := wfi_count s + count is_wfi ts,
       wfe_count := wfe_count s + count is_wfe ts,
       data_abort_count := data_abort_count s + count (\<lambda>t. trap_ec t = 0x24) ts,
       inst_abort_count := inst_abort_count s + count (\<lambda>t. trap_ec t = 0x20) ts\<rparr>)"
proof (induction ts arbitrary: mc)
  case Nil
  then show ?case by (simp add: traps_def count_def Let_def)
next
  case (Cons t ts)
  obtain esr far elr where t: "t = (esr, far, elr)" by (cases t) auto
  have "traps (t # ts) mc = traps ts (hypervisor_handle_trap esr far elr mc)" by (simp add: traps_def t)
  then show ?case using Cons by (simp add: one_trap Let_def t count_def)
qed

lemma classes_exclusive:
  "length (filter is_wfi ts) + length (filter is_wfe ts) + length (filter (\<lambda>t. trap_ec t = 0x24) ts) +
     length (filter (\<lambda>t. trap_ec t = 0x20) ts) \<le> length ts"
  by (induction ts) (auto simp: is_wfi_def is_wfe_def)

text \<open>
  after any sequence of fewer than \<open>2 ^ 64\<close> traps from the start, the trap counter is the number of
  traps, each class counter is the number of traps of its class, the class counters together do
  not exceed the trap counter, and no hypervisor call has been counted.
\<close>
theorem trap_counters:
  assumes "length ts < 2 ^ 64" "stats mc = \<lparr>hvc_count = 0, trap_count = 0, wfi_count = 0, wfe_count = 0,
    data_abort_count = 0, inst_abort_count = 0\<rparr>"
  shows "let s = stats (traps ts mc) in
    unat (trap_count s) = length ts \<and> unat (wfi_count s) = length (filter is_wfi ts) \<and>
    unat (wfe_count s) = length (filter is_wfe ts) \<and>
    unat (wfi_count s) + unat (wfe_count s) + unat (data_abort_count s) + unat (inst_abort_count s) \<le>
      unat (trap_count s) \<and> hvc_count s = 0"
proof -
  have u: "unat (of_nat (length (filter P ts)) :: u64) = length (filter P ts)" for P
    using assms(1) length_filter_le [of P ts] by (intro unat_of_nat_small) linarith
  show ?thesis using classes_exclusive [of ts] assms
    by (simp add: traps_stats count_def u unat_of_nat_small Let_def)
qed

theorem trap_counters_witness:
  "unat (trap_count (stats (traps [(0x04000000, 0, 0), (0x04000001, 0, 0), (0x90000000, 1, 2)] (machine_of duo_sys)))) = 3 \<and>
   unat (wfe_count (stats (traps [(0x04000000, 0, 0), (0x04000001, 0, 0), (0x90000000, 1, 2)] (machine_of duo_sys)))) = 1"
proof -
  let ?ts = "[(0x04000000, 0, 0), (0x04000001, 0, 0), (0x90000000, 1, 2)] :: trap list"
  have "length ?ts < 2 ^ 64" "stats (machine_of duo_sys) = \<lparr>hvc_count = 0, trap_count = 0, wfi_count = 0, wfe_count = 0,
    data_abort_count = 0, inst_abort_count = 0\<rparr>" by (simp_all add: machine_of_def)
  from trap_counters [OF this] have "unat (trap_count (stats (traps ?ts (machine_of duo_sys)))) = length ?ts"
    "unat (wfe_count (stats (traps ?ts (machine_of duo_sys)))) = length (filter is_wfe ?ts)" by (simp_all add: Let_def)
  moreover have "filter is_wfe ?ts = [(0x04000001, 0, 0)]" by (simp add: is_wfe_def trap_ec_def bit_0)
  ultimately show ?thesis by simp
qed

end
