(* ===== verification/Exceptions.thy ===== *)
theory Exceptions
  imports Timer Syscall Hypervisor
begin

text \<open>
  \<^verbatim>\<open>core/exception.c\<close> and the exception entry and exit of \<^verbatim>\<open>arch/aarch64/entry.S\<close>: the saved
  registers are a \<^verbatim>\<open>struct exception_frame\<close> of 272 bytes in memory, on the stack of the
  interrupted task; the C handlers read it and write the result of a call to its \<open>x0\<close>.
\<close>

section \<open>The exception frame in memory\<close>

definition EXC_FRAME :: u64 where "EXC_FRAME = 272"

definition frame_reg :: "mem \<Rightarrow> u64 \<Rightarrow> nat \<Rightarrow> u64" where
  "frame_reg m fp i = load64 m (fp + 8 * of_nat i)"

definition frame_sp :: "mem \<Rightarrow> u64 \<Rightarrow> u64" where "frame_sp m fp = load64 m (fp + 248)"
definition frame_elr :: "mem \<Rightarrow> u64 \<Rightarrow> u64" where "frame_elr m fp = load64 m (fp + 256)"
definition frame_spsr :: "mem \<Rightarrow> u64 \<Rightarrow> u64" where "frame_spsr m fp = load64 m (fp + 264)"

text \<open>\<^verbatim>\<open>stp\<close>/\<^verbatim>\<open>str\<close> of registers 0 to \<open>n - 1\<close>, from the lowest.\<close>

fun store_regs :: "(nat \<Rightarrow> u64) \<Rightarrow> u64 \<Rightarrow> nat \<Rightarrow> nat \<Rightarrow> mem \<Rightarrow> mem" where
  "store_regs x fp i 0 m = m"
| "store_regs x fp i (Suc n) m = store_regs x fp (Suc i) n (store64 m (fp + 8 * of_nat i) (x i))"

definition save_context :: "cpu \<times> mem \<Rightarrow> cpu \<times> mem" where
  "save_context cm =
     (let (c, m) = cm;
          c = c\<lparr>sp_el1 := sp_el1 c - EXC_FRAME\<rparr>;
          m = store_regs (xreg c) (sp_el1 c) 0 31 m;
          c = c\<lparr>xreg := (xreg c)(0 := sp_el1 c + EXC_FRAME)\<rparr>;
          m = store64 m (sp_el1 c + 248) (xreg c 0);
          c = c\<lparr>xreg := (xreg c)(0 := elr_el1 c, 1 := spsr_el1 c)\<rparr>;
          m = store64 m (sp_el1 c + 256) (xreg c 0);
          m = store64 m (sp_el1 c + 264) (xreg c 1)
      in (c, m))"

definition restore_context :: "cpu \<times> mem \<Rightarrow> cpu \<times> mem" where
  "restore_context cm =
     (let (c, m) = cm;
          c = c\<lparr>xreg := (xreg c)(0 := frame_elr m (sp_el1 c), 1 := frame_spsr m (sp_el1 c))\<rparr>;
          c = c\<lparr>elr_el1 := xreg c 0\<rparr>;
          c = c\<lparr>spsr_el1 := xreg c 1\<rparr>;
          c = c\<lparr>xreg := save_regs (frame_reg m (sp_el1 c)) (xreg c)\<rparr>;
          c = c\<lparr>sp_el1 := sp_el1 c + EXC_FRAME\<rparr>
      in (c, m))"

section \<open>Reports\<close>

definition ec_names :: "string list" where
  "ec_names =
    [''Unknown'', ''Trapped WFI/WFE'', ''Unknown'', ''Trapped MCR/MRC (CP15)'',
     ''Trapped MCRR/MRRC (CP15)'', ''Trapped MCR/MRC (CP14)'', ''Trapped LDC/STC'',
     ''SVE/SIMD/FP trapped'', ''Unknown'', ''Unknown'', ''Trapped VMRS'', ''Unknown'',
     ''Trapped MRRC (CP14)'', ''Unknown'', ''Illegal Execution State'', ''Unknown'',
     ''Unknown'', ''Unknown'', ''SVC (AArch32)'', ''Unknown'', ''Unknown'', ''Unknown'',
     ''SVC (AArch64)'', ''HVC (AArch64)'', ''SMC (AArch64)'', ''Trapped MSR/MRS/System'',
     ''Unknown'', ''Unknown'', ''Unknown'', ''Unknown'', ''Unknown'', ''Unknown'', ''Unknown'',
     ''Instruction Abort (lower EL)'', ''Instruction Abort (same EL)'', ''PC alignment fault'',
     ''Unknown'', ''Data Abort (lower EL)'', ''Data Abort (same EL)'', ''SP alignment fault'',
     ''Unknown'', ''FP exception (AArch32)'', ''Unknown'', ''Unknown'', ''Unknown'',
     ''FP exception (AArch64)'', ''Unknown'', ''Unknown'', ''SError'',
     ''Breakpoint (lower EL)'', ''Breakpoint (same EL)'', ''Software Step (lower EL)'',
     ''Software Step (same EL)'', ''Watchpoint (lower EL)'', ''Watchpoint (same EL)'',
     ''Unknown'', ''Unknown'', ''BKPT (AArch32)'', ''Unknown'', ''Vector Catch (AArch32)'',
     ''Unknown'', ''BRK (AArch64)'']"

definition get_exception_class_name :: "u32 \<Rightarrow> string" where
  "get_exception_class_name ec =
     (if unat ec < length ec_names then ec_names ! unat ec else ''Unknown Exception Class'')"

definition frame_items :: "mem \<Rightarrow> u64 \<Rightarrow> item list" where
  "frame_items m fp =
     (let x = frame_reg m fp in
      [NL, S ''Exception Frame:'', NL,
       S ''  x0:  '', X (x 0), S ''  x1:  '', X (x 1), NL, S ''  x2:  '', X (x 2), S ''  x3:  '', X (x 3), NL,
       S ''  x4:  '', X (x 4), S ''  x5:  '', X (x 5), NL, S ''  x6:  '', X (x 6), S ''  x7:  '', X (x 7), NL,
       S ''  x8:  '', X (x 8), S ''  x9:  '', X (x 9), NL, S ''  x10: '', X (x 10), S ''  x11: '', X (x 11), NL,
       S ''  x12: '', X (x 12), S ''  x13: '', X (x 13), NL, S ''  x14: '', X (x 14), S ''  x15: '', X (x 15), NL,
       S ''  x16: '', X (x 16), S ''  x17: '', X (x 17), NL, S ''  x18: '', X (x 18), S ''  x19: '', X (x 19), NL,
       S ''  x20: '', X (x 20), S ''  x21: '', X (x 21), NL, S ''  x22: '', X (x 22), S ''  x23: '', X (x 23), NL,
       S ''  x24: '', X (x 24), S ''  x25: '', X (x 25), NL, S ''  x26: '', X (x 26), S ''  x27: '', X (x 27), NL,
       S ''  x28: '', X (x 28), S ''  x29: '', X (x 29), NL,
       S ''  x30: '', X (x 30), S ''  SP:  '', X (frame_sp m fp), NL,
       S ''  ELR: '', X (frame_elr m fp), S ''  SPSR:'', X (frame_spsr m fp), NL])"

definition dump_exception_frame :: "u64 \<Rightarrow> machine \<Rightarrow> machine" where
  "dump_exception_frame fp mc = tell (frame_items (mem_of (sys_of mc)) fp) mc"

section \<open>The handlers\<close>

text \<open>\<^verbatim>\<open>frame->x0 = result;\<close>\<close>

definition set_result :: "u64 \<Rightarrow> u64 \<Rightarrow> machine \<Rightarrow> machine" where
  "set_result fp r mc = on_sys (\<lambda>k. k\<lparr>mem_of := store64 (mem_of k) fp r\<rparr>) mc"

definition handle_sync_exception ::
    "translation \<Rightarrow> (nat \<Rightarrow> u64) \<Rightarrow> u64 \<Rightarrow> u64 \<Rightarrow> u64 \<Rightarrow> machine \<Rightarrow> machine outcome option" where
  "handle_sync_exception xlate clock fp esr far mc =
     (let ec = ucast (drop_bit 26 esr AND 0x3F) :: u32;
          iss = ucast (esr AND 0x1FFFFFF) :: u32;
          x = frame_reg (mem_of (sys_of mc)) fp
      in if ec = 0x15 then do {
           r \<leftarrow> syscall_handler xlate clock (x 8) (x 0) (x 1) (x 2) (x 3) mc;
           Some (continue (\<lambda>(result, mc). Returned (set_result fp result mc)) snd r)
         }
         else if ec = 0x16 then
           let (result, mc) = hypervisor_handle_hvc (x 0) (x 1) (x 2) (x 3) mc
           in Some (Returned (set_result fp result mc))
         else
           let mc = tell [NL, S ''*** SYNCHRONOUS EXCEPTION ***'', NL,
                          S ''ESR:   '', X esr, NL, S ''FAR:   '', X far, NL,
                          S ''Class: '', S (get_exception_class_name ec),
                          S '' (0x'', X (ucast ec), S '')'', NL,
                          S ''ISS:   '', X (ucast iss), NL] mc;
               mc = dump_exception_frame fp mc
           in Some (Halted (tell [NL, S ''System halted.'', NL] mc)))"

definition handle_irq_exception :: "device \<Rightarrow> calls \<Rightarrow> machine \<Rightarrow> machine outcome option" where
  "handle_irq_exception dev call mc =
     (let (irq, b) = gic_acknowledge_interrupt dev (gic_bus mc);
          mc = mc\<lparr>gic_bus := b\<rparr>
      in if irq \<ge> 1020 then Some (Returned mc)
         else do {
           r \<leftarrow> irq_handle call irq mc;
           Some (continue (\<lambda>mc. Returned (mc\<lparr>gic_bus := gic_end_of_interrupt irq (gic_bus mc)\<rparr>)) id r)
         })"

definition handle_fiq_exception :: "u64 \<Rightarrow> machine \<Rightarrow> machine outcome" where
  "handle_fiq_exception fp mc =
     (let mc = tell [NL, S ''*** FIQ EXCEPTION ***'', NL] mc;
          mc = dump_exception_frame fp mc
      in Halted (tell [NL, S ''System halted.'', NL] mc))"

definition handle_serror_exception :: "u64 \<Rightarrow> u64 \<Rightarrow> u64 \<Rightarrow> machine \<Rightarrow> machine outcome" where
  "handle_serror_exception fp esr far mc =
     (let mc = tell [NL, S ''*** SERROR EXCEPTION ***'', NL,
                     S ''ESR: '', X esr, NL, S ''FAR: '', X far, NL] mc;
          mc = dump_exception_frame fp mc
      in Halted (tell [NL, S ''System halted.'', NL] mc))"

section \<open>The vectors\<close>

text \<open>
  The EL1 entries: save, call, restore, return. \<open>regs\<close> is what the compiled handler leaves in the
  registers; by the procedure call standard it keeps the stack pointer, and by the code the
  exception return registers are written only by a switch.
\<close>

definition enter :: "machine \<Rightarrow> machine" where
  "enter mc = on_sys (\<lambda>k. let (c, m) = save_context (cpu_of k, mem_of k)
                          in k\<lparr>cpu_of := c, mem_of := m\<rparr>) mc"

definition leave :: "machine \<Rightarrow> machine" where
  "leave mc = on_sys (\<lambda>k. let (c, m) = restore_context (cpu_of k, mem_of k)
                          in k\<lparr>cpu_of := eret c, mem_of := m\<rparr>) mc"

definition exc_frame :: "machine \<Rightarrow> u64" where
  "exc_frame mc = sp_el1 (cpu_of (sys_of mc))"

definition clobber :: "(nat \<Rightarrow> u64) \<Rightarrow> machine \<Rightarrow> machine" where
  "clobber regs mc = on_sys (\<lambda>k. k\<lparr>cpu_of := (cpu_of k)\<lparr>xreg := regs\<rparr>\<rparr>) mc"

definition sync_exception_el1 ::
    "translation \<Rightarrow> (nat \<Rightarrow> u64) \<Rightarrow> (nat \<Rightarrow> u64) \<Rightarrow> u64 \<Rightarrow> u64 \<Rightarrow> machine \<Rightarrow> machine outcome option" where
  "sync_exception_el1 xlate clock regs esr far mc = do {
     let mc = clobber regs (enter mc);
     r \<leftarrow> handle_sync_exception xlate clock (exc_frame mc) esr far mc;
     Some (continue (\<lambda>mc. Returned (leave mc)) id r)
   }"

definition irq_exception_el1 ::
    "device \<Rightarrow> calls \<Rightarrow> (nat \<Rightarrow> u64) \<Rightarrow> machine \<Rightarrow> machine outcome option" where
  "irq_exception_el1 dev call regs mc = do {
     let mc = clobber regs (enter mc);
     r \<leftarrow> handle_irq_exception dev call mc;
     Some (continue (\<lambda>mc. Returned (leave mc)) id r)
   }"

definition fiq_exception_el1 :: "(nat \<Rightarrow> u64) \<Rightarrow> machine \<Rightarrow> machine outcome" where
  "fiq_exception_el1 regs mc =
     (let mc = clobber regs (enter mc)
      in continue (\<lambda>mc. Returned (leave mc)) id (handle_fiq_exception (exc_frame mc) mc))"

definition serror_exception_el1 :: "(nat \<Rightarrow> u64) \<Rightarrow> u64 \<Rightarrow> u64 \<Rightarrow> machine \<Rightarrow> machine outcome" where
  "serror_exception_el1 regs esr far mc =
     (let mc = clobber regs (enter mc)
      in continue (\<lambda>mc. Returned (leave mc)) id (handle_serror_exception (exc_frame mc) esr far mc))"

section \<open>The frame holds the registers\<close>

lemma frame_offset:
  fixes fp c :: u64
  assumes "unat fp + 272 \<le> 2 ^ 64" "unat c < 272"
  shows "unat (fp + c) = unat fp + unat c"
  using assms by (intro unat_add_no_wrap) simp

lemma frame_reg_addr:
  fixes fp :: u64
  assumes "unat fp + 272 \<le> 2 ^ 64" "k \<le> 30"
  shows "unat (fp + 8 * of_nat k) = unat fp + 8 * k"
proof -
  have eq: "8 * of_nat k = (of_nat (8 * k) :: u64)" by simp
  have "unat (of_nat (8 * k) :: u64) = 8 * k" using assms(2) by (intro unat_of_nat_small) simp
  then show ?thesis unfolding eq using assms by (subst unat_add_no_wrap) simp_all
qed

lemma frame_reg_outside:
  assumes "same_outside m m' lo n" "unat fp + 272 \<le> 2 ^ 64" "k \<le> 30"
    "unat fp + 8 * k + 8 \<le> lo \<or> lo + n \<le> unat fp + 8 * k"
  shows "frame_reg m' fp k = frame_reg m fp k"
  unfolding frame_reg_def
  by (rule load64_outside [OF assms(1)]) (use frame_reg_addr [OF assms(2,3)] assms in linarith)+

lemma store_regs_spec:
  assumes "unat fp + 272 \<le> 2 ^ 64" "i + n \<le> 31"
  shows "same_outside m (store_regs x fp i n m) (unat fp + 8 * i) (8 * n) \<and>
    (\<forall>k. i \<le> k \<and> k < i + n \<longrightarrow> frame_reg (store_regs x fp i n m) fp k = x k)"
  using assms(2)
proof (induction n arbitrary: i m)
  case (Suc n)
  let ?m = "store64 m (fp + 8 * of_nat i) (x i)"
  have i: "i \<le> 30" using Suc.prems by simp
  note u = frame_reg_addr [OF assms(1) i]
  have 1: "same_outside m ?m (unat fp + 8 * i) (8 * Suc n)"
    by (rule same_outside_store64) (use u assms(1) i in simp_all)
  have IH: "same_outside ?m (store_regs x fp (Suc i) n ?m) (unat fp + 8 * Suc i) (8 * n)"
    "\<forall>k. Suc i \<le> k \<and> k < Suc i + n \<longrightarrow> frame_reg (store_regs x fp (Suc i) n ?m) fp k = x k"
    using Suc.IH [of "Suc i" ?m] Suc.prems by auto
  have "frame_reg (store_regs x fp (Suc i) n ?m) fp i = frame_reg ?m fp i"
    by (rule frame_reg_outside [OF IH(1) assms(1) i]) simp
  also have "\<dots> = x i" by (simp add: frame_reg_def)
  finally have "frame_reg (store_regs x fp i (Suc n) m) fp i = x i" by simp
  then have "frame_reg (store_regs x fp i (Suc n) m) fp k = x k" if "i \<le> k \<and> k < i + Suc n" for k
    using IH(2) that by (cases "k = i") auto
  moreover have "same_outside m (store_regs x fp i (Suc n) m) (unat fp + 8 * i) (8 * Suc n)"
    using same_outside_trans [OF 1 same_outside_mono [OF IH(1)]] by simp
  ultimately show ?case by blast
qed auto

lemma save_context_spec:
  assumes "272 \<le> unat (sp_el1 c)"
  defines "fp \<equiv> sp_el1 c - EXC_FRAME"
  shows "\<exists>m1. save_context (c, m) = (c\<lparr>sp_el1 := fp, xreg := (xreg c)(0 := elr_el1 c, 1 := spsr_el1 c)\<rparr>, m1) \<and>
    unat fp + 272 = unat (sp_el1 c) \<and> same_outside m m1 (unat fp) 272 \<and>
    (\<forall>k \<le> 30. frame_reg m1 fp k = xreg c k) \<and> frame_sp m1 fp = sp_el1 c \<and>
    frame_elr m1 fp = elr_el1 c \<and> frame_spsr m1 fp = spsr_el1 c"
proof -
  have f: "unat fp + 272 = unat (sp_el1 c)"
    using assms(1) by (simp add: fp_def EXC_FRAME_def unat_sub_no_wrap)
  then have b: "unat fp + 272 \<le> 2 ^ 64" using less_imp_le [OF unat_u64_lt [of "sp_el1 c"]] by simp
  have sp: "fp + EXC_FRAME = sp_el1 c" by (simp add: fp_def)
  define m0 where "m0 = store_regs (xreg c) fp 0 31 m"
  define m1 where "m1 = store64 m0 (fp + 248) (sp_el1 c)"
  define m2 where "m2 = store64 m1 (fp + 256) (elr_el1 c)"
  define m3 where "m3 = store64 m2 (fp + 264) (spsr_el1 c)"
  have u: "unat (fp + 248) = unat fp + 248" "unat (fp + 256) = unat fp + 256" "unat (fp + 264) = unat fp + 264"
    using frame_offset [OF b, of 248] frame_offset [OF b, of 256] frame_offset [OF b, of 264] by simp_all
  have r0: "same_outside m m0 (unat fp) 248" "\<And>k. k \<le> 30 \<Longrightarrow> frame_reg m0 fp k = xreg c k"
    using store_regs_spec [OF b, of 0 31 m "xreg c"] by (simp_all add: m0_def)
  have s1: "same_outside m0 m1 (unat fp + 248) 8" unfolding m1_def by (rule same_outside_store64) (use u b in linarith)+
  have s2: "same_outside m1 m2 (unat fp + 256) 8" unfolding m2_def by (rule same_outside_store64) (use u b in linarith)+
  have s3: "same_outside m2 m3 (unat fp + 264) 8" unfolding m3_def by (rule same_outside_store64) (use u b in linarith)+
  have run: "save_context (c, m) = (c\<lparr>sp_el1 := fp, xreg := (xreg c)(0 := elr_el1 c, 1 := spsr_el1 c)\<rparr>, m3)"
    by (simp add: save_context_def Let_def fp_def [symmetric] sp m0_def m1_def m2_def m3_def)
  have "same_outside m m0 (unat fp) 272" "same_outside m0 m1 (unat fp) 272" "same_outside m1 m2 (unat fp) 272"
    "same_outside m2 m3 (unat fp) 272"
    using same_outside_mono [OF r0(1)] same_outside_mono [OF s1] same_outside_mono [OF s2] same_outside_mono [OF s3]
    by simp_all
  then have so: "same_outside m m3 (unat fp) 272" by (blast intro: same_outside_trans)
  have regs: "frame_reg m3 fp k = xreg c k" if k: "k \<le> 30" for k
    using frame_reg_outside [OF s3 b k] frame_reg_outside [OF s2 b k] frame_reg_outside [OF s1 b k] r0(2) [OF k] k
    by simp
  have "load64 m3 (fp + 248) = load64 m2 (fp + 248)" "load64 m2 (fp + 248) = load64 m1 (fp + 248)"
    "load64 m3 (fp + 256) = load64 m2 (fp + 256)"
    by (rule load64_outside [OF s3] load64_outside [OF s2]; use u b in linarith)+
  then have "frame_sp m3 fp = sp_el1 c" "frame_elr m3 fp = elr_el1 c" "frame_spsr m3 fp = spsr_el1 c"
    by (simp_all add: frame_sp_def frame_elr_def frame_spsr_def m1_def m2_def m3_def)
  then show ?thesis using run f so regs by blast
qed

text \<open>The exception frame read back, whatever the handler did to the other registers.\<close>

lemma restore_context_spec:
  "restore_context (c, m) = (c\<lparr>elr_el1 := frame_elr m (sp_el1 c), spsr_el1 := frame_spsr m (sp_el1 c),
     xreg := save_regs (frame_reg m (sp_el1 c)) ((xreg c)(0 := frame_elr m (sp_el1 c), 1 := frame_spsr m (sp_el1 c))),
     sp_el1 := sp_el1 c + EXC_FRAME\<rparr>, m)"
  by (simp add: restore_context_def Let_def)

definition frame_kept :: "u64 \<Rightarrow> mem \<Rightarrow> mem \<Rightarrow> bool" where
  "frame_kept fp m m' \<longleftrightarrow> (\<forall>x. unat fp + 8 \<le> unat x \<and> unat x < unat fp + 272 \<longrightarrow> m' x = m x)"

lemma frame_kept_load:
  assumes k: "frame_kept fp m m'" and b: "unat fp + 272 \<le> 2 ^ 64" and a: "unat fp + 8 \<le> unat a" "unat a + 8 \<le> unat fp + 272"
  shows "load64 m' a = load64 m a"
proof (rule load64_cong)
  fix j :: nat assume j: "j < 8"
  have "unat a + 8 \<le> 2 ^ 64" using a b by simp
  then have "unat (a + of_nat j) = unat a + j" using j by (rule unat_offset)
  then show "m' (a + of_nat j) = m (a + of_nat j)" using k a j by (simp add: frame_kept_def)
qed

lemma restore_after:
  assumes sp: "272 \<le> unat (sp_el1 c)" and s: "save_context (c, m) = (c1, m1)"
    and c2: "sp_el1 c2 = sp_el1 c1" and m2: "frame_kept (sp_el1 c1) m1 m2"
  obtains c3 where "restore_context (c2, m2) = (c3, m2)" "sp_el1 c3 = sp_el1 c" "elr_el1 c3 = elr_el1 c"
    "spsr_el1 c3 = spsr_el1 c" "xreg c3 0 = load64 m2 (sp_el1 c1)" "\<And>k. 1 \<le> k \<Longrightarrow> k \<le> 30 \<Longrightarrow> xreg c3 k = xreg c k"
    "sp_el0 c3 = sp_el0 c2" "unat (sp_el1 c1) + 272 = unat (sp_el1 c)"
proof -
  let ?fp = "sp_el1 c - EXC_FRAME"
  obtain m' where S: "save_context (c, m) = (c\<lparr>sp_el1 := ?fp, xreg := (xreg c)(0 := elr_el1 c, 1 := spsr_el1 c)\<rparr>, m')"
    "unat ?fp + 272 = unat (sp_el1 c)" "\<forall>k \<le> 30. frame_reg m' ?fp k = xreg c k"
    "frame_elr m' ?fp = elr_el1 c" "frame_spsr m' ?fp = spsr_el1 c"
    using save_context_spec [OF sp] by blast
  have e: "c1 = c\<lparr>sp_el1 := ?fp, xreg := (xreg c)(0 := elr_el1 c, 1 := spsr_el1 c)\<rparr>" "m1 = m'" using s S(1) by simp_all
  then have fp: "sp_el1 c1 = ?fp" by simp
  have b: "unat ?fp + 272 \<le> 2 ^ 64" using S(2) less_imp_le [OF unat_u64_lt [of "sp_el1 c"]] by simp
  have kept: "frame_kept ?fp m1 m2" using m2 fp by simp
  have regs: "frame_reg m2 ?fp k = xreg c k" if k: "1 \<le> k" "k \<le> 30" for k
    using frame_kept_load [OF kept b, of "?fp + 8 * of_nat k"] frame_reg_addr [OF b k(2)] k S(3) e(2)
    by (simp add: frame_reg_def)
  have elr: "frame_elr m2 ?fp = elr_el1 c" "frame_spsr m2 ?fp = spsr_el1 c"
    using frame_kept_load [OF kept b, of "?fp + 256"] frame_kept_load [OF kept b, of "?fp + 264"]
      frame_offset [OF b, of 256] frame_offset [OF b, of 264] S(4,5) e(2)
    by (simp_all add: frame_elr_def frame_spsr_def)
  let ?c3 = "c2\<lparr>elr_el1 := frame_elr m2 ?fp, spsr_el1 := frame_spsr m2 ?fp,
     xreg := save_regs (frame_reg m2 ?fp) ((xreg c2)(0 := frame_elr m2 ?fp, 1 := frame_spsr m2 ?fp)),
     sp_el1 := ?fp + EXC_FRAME\<rparr>"
  have "restore_context (c2, m2) = (?c3, m2)" using c2 fp by (simp add: restore_context_spec)
  moreover have "frame_reg m2 ?fp 0 = load64 m2 (sp_el1 c1)" by (simp add: frame_reg_def fp)
  ultimately show thesis using regs elr S(2) fp by (intro that [of ?c3]) (simp_all add: save_regs_def)
qed

section \<open>System calls do not disturb their caller\<close>

lemma sleep_keeps:
  assumes "task_sleep clock ms k = Some k'"
  shows "mem_of k' = mem_of k \<and> cpu_of k' = cpu_of k"
proof -
  have "k' = k \<or> k' = task_yield k"
    using assms by (auto simp: task_sleep_def sleep_loop_eq split: if_splits)
  then show ?thesis by (auto simp: task_yield_def split: option.splits)
qed

lemma syscall_keeps:
  assumes "num \<noteq> SYS_EXIT" "syscall_handler xlate clock num a0 a1 a2 a3 mc = Some r"
  obtains v mc' where "r = Returned (v, mc')" "mem_of (sys_of mc') = mem_of (sys_of mc)"
    "cpu_of (sys_of mc') = cpu_of (sys_of mc)"
proof -
  consider "num = SYS_YIELD" | "num = SYS_SLEEP" | "num = SYS_GETPID" | "num = SYS_WRITE"
    | "num \<noteq> SYS_YIELD" "num \<noteq> SYS_SLEEP" "num \<noteq> SYS_GETPID" "num \<noteq> SYS_WRITE" by blast
  then show thesis
  proof cases
    case 1
    then show ?thesis using assms that [of 0 "on_sys task_yield mc"]
      by (simp add: syscall_handler_def task_yield_def split: option.split_asm option.split)
  next
    case 2
    then obtain k where k: "task_sleep clock (ucast a0) (sys_of mc) = Some k" "r = Returned (0, mc\<lparr>sys_of := k\<rparr>)"
      using assms by (auto simp: syscall_handler_def SYS_YIELD_def SYS_EXIT_def SYS_SLEEP_def bind_eq_Some_conv)
    then show ?thesis using that [of 0 "mc\<lparr>sys_of := k\<rparr>"] sleep_keeps [OF k(1)] by simp
  next
    case 3
    then show ?thesis using assms that [of _ mc]
      by (auto simp: syscall_handler_def SYS_YIELD_def SYS_EXIT_def SYS_SLEEP_def SYS_GETPID_def)
  next
    case 4
    then obtain con where "r = Returned (0, mc\<lparr>sys_of := (sys_of mc)\<lparr>con_of := con\<rparr>\<rparr>)"
      using assms by (auto simp: syscall_handler_def SYS_YIELD_def SYS_EXIT_def SYS_SLEEP_def SYS_GETPID_def
          SYS_WRITE_def bind_eq_Some_conv Let_def)
    then show ?thesis using that [of 0 "mc\<lparr>sys_of := (sys_of mc)\<lparr>con_of := con\<rparr>\<rparr>"] by simp
  next
    case 5
    then show ?thesis using assms that [of "-1" "tell [S ''Unknown syscall: '', X num, NL] mc"]
      by (simp add: syscall_handler_def)
  qed
qed

text \<open>The machine at the call of a C handler from the EL1 entry.\<close>

lemma enter_spec:
  assumes sp: "272 \<le> unat (sp_el1 (cpu_of (sys_of mc)))"
  obtains c1 m1 where "save_context (cpu_of (sys_of mc), mem_of (sys_of mc)) = (c1, m1)"
    "clobber regs (enter mc) = on_sys (\<lambda>k. k\<lparr>cpu_of := c1\<lparr>xreg := regs\<rparr>, mem_of := m1\<rparr>) mc"
    "exc_frame (clobber regs (enter mc)) = sp_el1 c1" "sp_el1 c1 = sp_el1 (cpu_of (sys_of mc)) - EXC_FRAME"
    "unat (sp_el1 c1) + 272 = unat (sp_el1 (cpu_of (sys_of mc)))"
    "\<And>k. k \<le> 30 \<Longrightarrow> frame_reg m1 (sp_el1 c1) k = xreg (cpu_of (sys_of mc)) k"
    "same_outside (mem_of (sys_of mc)) m1 (unat (sp_el1 c1)) 272" "sp_el0 c1 = sp_el0 (cpu_of (sys_of mc))"
proof -
  let ?c = "cpu_of (sys_of mc)"
  let ?fp = "sp_el1 ?c - EXC_FRAME"
  obtain m1 where S: "save_context (?c, mem_of (sys_of mc)) =
      (?c\<lparr>sp_el1 := ?fp, xreg := (xreg ?c)(0 := elr_el1 ?c, 1 := spsr_el1 ?c)\<rparr>, m1)"
    "unat ?fp + 272 = unat (sp_el1 ?c)" "same_outside (mem_of (sys_of mc)) m1 (unat ?fp) 272"
    "\<forall>k \<le> 30. frame_reg m1 ?fp k = xreg ?c k"
    using save_context_spec [OF sp, of "mem_of (sys_of mc)"] by blast
  show thesis
    by (rule that [OF S(1)]) (use S in \<open>simp_all add: enter_def clobber_def exc_frame_def on_sys_def\<close>)
qed

section \<open>Properties\<close>

text \<open>
  C12: exception entry and exit are inverse: whatever the handler does to the registers (but the stack
  pointer) and to memory outside the frame, leaving the exception gives the interrupted code its
  registers 1 to 30, its stack pointer, return address and status back as they were, and in
  \<^verbatim>\<open>x0\<close> what the frame holds for it.
\<close>
theorem exception_frame_roundtrip:
  assumes "272 \<le> unat (sp_el1 c)" "save_context (c, m) = (c1, m1)"
    and "sp_el1 c2 = sp_el1 c1" "frame_kept (sp_el1 c1) m1 m2" "restore_context (c2, m2) = (c3, m3)"
  shows "(\<forall>k. 1 \<le> k \<and> k \<le> 30 \<longrightarrow> xreg c3 k = xreg c k) \<and> sp_el1 c3 = sp_el1 c \<and> elr_el1 c3 = elr_el1 c \<and>
    spsr_el1 c3 = spsr_el1 c \<and> xreg c3 0 = load64 m2 (sp_el1 c1) \<and> m3 = m2"
  using restore_after [OF assms(1-4)] assms(5) by (metis Pair_inject)

definition ec_of :: "u64 \<Rightarrow> u64" where
  "ec_of esr = drop_bit 26 esr AND 0x3F"

lemma svc_run:
  fixes regs :: "nat \<Rightarrow> u64"
  assumes sp: "272 \<le> unat (sp_el1 (cpu_of (sys_of mc)))" and ec: "ec_of esr = 0x15"
  defines "x \<equiv> xreg (cpu_of (sys_of mc))" and "mc1 \<equiv> clobber regs (enter mc)"
  shows "sync_exception_el1 xlate clock regs esr far mc = do {
    r \<leftarrow> syscall_handler xlate clock (x 8) (x 0) (x 1) (x 2) (x 3) mc1;
    Some (continue (\<lambda>mc. Returned (leave mc)) id
      (continue (\<lambda>(v, mc). Returned (set_result (exc_frame mc1) v mc)) snd r))
  }"
proof -
  obtain c1 m1 where E: "mc1 = on_sys (\<lambda>k. k\<lparr>cpu_of := c1\<lparr>xreg := regs\<rparr>, mem_of := m1\<rparr>) mc"
    "exc_frame mc1 = sp_el1 c1" "\<And>k. k \<le> 30 \<Longrightarrow> frame_reg m1 (sp_el1 c1) k = x k"
    using enter_spec [OF sp, of regs] unfolding mc1_def x_def by metis
  have "frame_reg (mem_of (sys_of mc1)) (exc_frame mc1) k = x k" if "k \<le> 30" for k
    unfolding E(2) using E(3) [OF that] by (simp add: E(1))
  then show ?thesis using ec
    by (simp add: sync_exception_el1_def handle_sync_exception_def Let_def ec_of_def mc1_def [symmetric]
        Option.bind_assoc)
qed

lemma svc_returns:
  assumes sp: "272 \<le> unat (sp_el1 (cpu_of (sys_of mc)))" and ec: "ec_of esr = 0x15"
    and x: "x = xreg (cpu_of (sys_of mc))" "x 8 \<noteq> SYS_EXIT"
    and run: "syscall_handler xlate clock (x 8) (x 0) (x 1) (x 2) (x 3) (clobber regs (enter mc)) = Some (Returned (r, mc2))"
  shows "\<exists>mc'. sync_exception_el1 xlate clock regs esr far mc = Some (Returned mc') \<and>
    (let c = cpu_of (sys_of mc); c' = cpu_of (sys_of mc') in
       xreg c' 0 = r \<and> (\<forall>k. 1 \<le> k \<and> k \<le> 30 \<longrightarrow> xreg c' k = x k) \<and> sp_el1 c' = sp_el1 c \<and>
       pc c' = elr_el1 c \<and> pstate c' = spsr_el1 c \<and>
       same_outside (mem_of (sys_of mc)) (mem_of (sys_of mc')) (unat (sp_el1 c) - 272) 272) \<and>
    con_of (sys_of mc') = con_of (sys_of mc2) \<and> mmu_of (sys_of mc') = mmu_of (sys_of mc2) \<and>
    sched_of (sys_of mc') = sched_of (sys_of mc2)"
proof -
  let ?c = "cpu_of (sys_of mc)"
  obtain c1 m1 where E: "save_context (?c, mem_of (sys_of mc)) = (c1, m1)"
    "clobber regs (enter mc) = on_sys (\<lambda>k. k\<lparr>cpu_of := c1\<lparr>xreg := regs\<rparr>, mem_of := m1\<rparr>) mc"
    "exc_frame (clobber regs (enter mc)) = sp_el1 c1" "unat (sp_el1 c1) + 272 = unat (sp_el1 ?c)"
    "same_outside (mem_of (sys_of mc)) m1 (unat (sp_el1 c1)) 272"
    using enter_spec [OF sp, of regs] by metis
  have K: "mem_of (sys_of mc2) = m1" "cpu_of (sys_of mc2) = c1\<lparr>xreg := regs\<rparr>"
    using syscall_keeps [OF x(2) run] by (auto simp: E(2))
  let ?mc3 = "set_result (sp_el1 c1) r mc2"
  let ?m = "store64 m1 (sp_el1 c1) r"
  have out: "sync_exception_el1 xlate clock regs esr far mc = Some (Returned (leave ?mc3))"
    using svc_run [OF sp ec, of xlate clock regs far] run E(3) by (simp add: x(1))
  have st: "cpu_of (sys_of ?mc3) = c1\<lparr>xreg := regs\<rparr>" "mem_of (sys_of ?mc3) = ?m"
    by (simp_all add: set_result_def K)
  have b: "unat (sp_el1 c1) + 272 \<le> 2 ^ 64" using E(4) less_imp_le [OF unat_u64_lt [of "sp_el1 ?c"]] by simp
  have so: "same_outside m1 ?m (unat (sp_el1 c1)) 8" by (rule same_outside_store64) (use b in simp_all)
  have kept: "frame_kept (sp_el1 c1) m1 ?m" using so by (simp add: frame_kept_def same_outside_def)
  obtain c3 where
    R: "restore_context (c1\<lparr>xreg := regs\<rparr>, ?m) = (c3, ?m)" "sp_el1 c3 = sp_el1 ?c" "elr_el1 c3 = elr_el1 ?c"
    "spsr_el1 c3 = spsr_el1 ?c" "xreg c3 0 = r" "\<forall>k. 1 \<le> k \<and> k \<le> 30 \<longrightarrow> xreg c3 k = xreg ?c k"
    by (rule restore_after [OF sp E(1) _ kept, of "c1\<lparr>xreg := regs\<rparr>"]) (simp, rule that, auto)
  have fin: "cpu_of (sys_of (leave ?mc3)) = eret c3" "mem_of (sys_of (leave ?mc3)) = ?m"
    using R(1) st by (simp_all add: leave_def)
  have "same_outside m1 ?m (unat (sp_el1 c1)) 272" by (rule same_outside_mono [OF so]) simp_all
  with E(5) have "same_outside (mem_of (sys_of mc)) ?m (unat (sp_el1 c1)) 272" by (rule same_outside_trans)
  moreover have "unat (sp_el1 ?c) - 272 = unat (sp_el1 c1)" using E(4) by simp
  moreover have "con_of (sys_of (leave ?mc3)) = con_of (sys_of mc2)" "mmu_of (sys_of (leave ?mc3)) = mmu_of (sys_of mc2)"
    "sched_of (sys_of (leave ?mc3)) = sched_of (sys_of mc2)"
    using R(1) st by (simp_all add: leave_def set_result_def)
  ultimately show ?thesis using out R(2-6) by (simp add: fin eret_def x(1) Let_def)
qed

lemma sleep_hangs:
  assumes sp: "272 \<le> unat (sp_el1 (cpu_of (sys_of mc)))" and ec: "ec_of esr = 0x15"
    and x: "xreg (cpu_of (sys_of mc)) 8 = SYS_SLEEP" "ucast (xreg (cpu_of (sys_of mc)) 0) \<noteq> (0 :: u32)"
    and still: "\<And>n. clock n = clock 0"
  shows "sync_exception_el1 xlate clock regs esr far mc = None"
proof -
  let ?ms = "ucast (xreg (cpu_of (sys_of mc)) 0) :: u32"
  have pos: "0 < (ucast ?ms :: u64)" using x(2) by (simp add: word_gt_0 unat_eq_zero [symmetric] del: unat_eq_zero)
  have z: "uptime_ms (clock n) - uptime_ms (clock 0) = 0" for n using still [of n] by simp
  have "sleep_loop clock (uptime_ms (clock 0)) ?ms 1 k = None" for k
    unfolding sleep_loop_eq using pos by (simp add: z)
  then have "task_sleep clock ?ms k = None" for k by (simp add: task_sleep_def)
  then show ?thesis using svc_run [OF sp ec, of xlate clock regs far] x(1)
    by (simp add: syscall_handler_def SYS_SLEEP_def SYS_YIELD_def SYS_EXIT_def)
qed

text \<open>
  C14: a system call (but exit) that its handler completes with result \<open>r\<close> returns to its caller: with \<open>r\<close>
  in \<^verbatim>\<open>x0\<close>, every other register, the stack pointer and the status as they were, at the address the
  exception was taken from, and with no byte of memory changed outside the 272 bytes below the
  stack pointer. The handler gets the call number from \<^verbatim>\<open>x8\<close> and the arguments from \<^verbatim>\<open>x0\<close> to \<^verbatim>\<open>x3\<close>.
\<close>
theorem svc_returns_to_caller:
  assumes sp: "272 \<le> unat (sp_el1 (cpu_of (sys_of mc)))" and ec: "ec_of esr = 0x15"
    and x: "x = xreg (cpu_of (sys_of mc))" "x 8 \<noteq> SYS_EXIT"
    and run: "syscall_handler xlate clock (x 8) (x 0) (x 1) (x 2) (x 3) (clobber regs (enter mc)) = Some (Returned (r, mc2))"
  shows "\<exists>mc'. sync_exception_el1 xlate clock regs esr far mc = Some (Returned mc') \<and>
    (let c = cpu_of (sys_of mc); c' = cpu_of (sys_of mc') in
       xreg c' 0 = r \<and> (\<forall>k. 1 \<le> k \<and> k \<le> 30 \<longrightarrow> xreg c' k = x k) \<and> sp_el1 c' = sp_el1 c \<and>
       pc c' = elr_el1 c \<and> pstate c' = spsr_el1 c \<and>
       same_outside (mem_of (sys_of mc)) (mem_of (sys_of mc')) (unat (sp_el1 c) - 272) 272)"
  using svc_returns [OF assms] by blast

text \<open>
  C32: the sleep call never returns when it asks for at least a millisecond and the tick counter stands
  still, as it does here: the handler runs with interrupts masked and the counter is advanced only
  by the timer interrupt.
\<close>
theorem sleep_call_hangs:
  assumes sp: "272 \<le> unat (sp_el1 (cpu_of (sys_of mc)))" and ec: "ec_of esr = 0x15"
    and x: "xreg (cpu_of (sys_of mc)) 8 = SYS_SLEEP" "ucast (xreg (cpu_of (sys_of mc)) 0) \<noteq> (0 :: u32)"
    and still: "\<And>n. clock n = clock 0"
  shows "sync_exception_el1 xlate clock regs esr far mc = None"
  using sp ec x by (rule sleep_hangs) (rule still)

lemma tell_tell: "tell b (tell a mc) = tell (a @ b) mc"
  by (simp add: tell_def on_sys_def say_def print_def)

lemma tell_mem [simp]: "mem_of (sys_of (tell is mc)) = mem_of (sys_of mc)"
  by (simp add: say_def)

text \<open>
  The branch of \<^verbatim>\<open>handle_sync_exception\<close> for an exception that is neither a system call nor a hypervisor call.
\<close>
lemma unexpected_exception_halts:
  assumes "ec_of esr \<noteq> 0x15" "ec_of esr \<noteq> 0x16"
  shows "handle_sync_exception xlate clock fp esr far mc = Some (Halted (tell
    ([NL, S ''*** SYNCHRONOUS EXCEPTION ***'', NL, S ''ESR:   '', X esr, NL, S ''FAR:   '', X far, NL,
      S ''Class: '', S (get_exception_class_name (ucast (ec_of esr))), S '' (0x'', X (ec_of esr), S '')'', NL,
      S ''ISS:   '', X (esr AND 0x1FFFFFF), NL] @ frame_items (mem_of (sys_of mc)) fp @
      [NL, S ''System halted.'', NL]) mc))"
proof -
  have "ec_of esr = take_bit 6 (drop_bit 26 esr)"
    by (simp add: ec_of_def take_bit_eq_mask mask_eq_exp_minus_1)
  then have ec: "ucast (ucast (ec_of esr) :: u32) = ec_of esr"
    by (intro bit_eqI) (auto simp: bit_simps)
  have "esr AND 0x1FFFFFF = take_bit 25 esr" by (simp add: take_bit_eq_mask mask_eq_exp_minus_1)
  then have iss: "ucast (ucast (esr AND 0x1FFFFFF) :: u32) = esr AND 0x1FFFFFF"
    by (intro bit_eqI) (simp, auto simp: bit_simps)
  have ne: "ucast (ec_of esr) \<noteq> (0x15 :: u32)" "ucast (ec_of esr) \<noteq> (0x16 :: u32)"
    using assms ec by auto
  show ?thesis using ne
    by (simp add: handle_sync_exception_def Let_def ec_of_def [symmetric] dump_exception_frame_def tell_tell ec iss)
qed

text \<open>
  C27: a timer interrupt counts a tick and runs the scheduler. If no other task is chosen, the timer is
  armed again, the interrupt is ended at the GIC and the handler returns; if the scheduler
  switches, it has only been acknowledged: it is neither ended nor the timer armed until the
  interrupted task runs again.
\<close>
theorem timer_interrupt:
  assumes ack: "dev (gic_bus mc) (gicc_reg GICC_IAR) = IRQ_TIMER_PHYS"
    and isr: "handler (irq_handlers mc 30) = isr" "isr \<noteq> 0"
    and call: "\<And>irq d s. call isr irq d s = Some (timer_irq_handler irq d s)"
  shows "\<exists>mc'. handle_irq_exception dev call mc =
      Some (if fst (schedule (sys_of mc)) then Switched mc' else Returned mc') \<and>
    sys_of mc' = snd (schedule (sys_of mc)) \<and> system_ticks mc' = system_ticks mc + 1 \<and>
    handler_count (irq_handlers mc' 30) = handler_count (irq_handlers mc 30) + 1 \<and>
    (if fst (schedule (sys_of mc))
     then gic_bus mc' = gic_bus mc @ [Rd (gicc_reg GICC_IAR) 30] \<and> cntp_tval_el0 mc' = cntp_tval_el0 mc
     else gic_bus mc' = gic_bus mc @ [Rd (gicc_reg GICC_IAR) 30, Wr (gicc_reg GICC_EOIR) 30] \<and>
       cntp_tval_el0 mc' = TIMER_INTERVAL)"
proof -
  obtain sw k where s: "schedule (sys_of mc) = (sw, k)" by fastforce
  let ?e = "irq_handlers mc 30"
  let ?mc = "mc\<lparr>gic_bus := gic_bus mc @ [Rd (gicc_reg GICC_IAR) 30],
    irq_handlers := (irq_handlers mc)(30 := ?e\<lparr>handler_count := handler_count ?e + 1\<rparr>),
    system_ticks := system_ticks mc + 1, sys_of := k\<rparr>"
  let ?mc' = "if sw then ?mc else ?mc\<lparr>cntp_tval_el0 := TIMER_INTERVAL,
      gic_bus := gic_bus mc @ [Rd (gicc_reg GICC_IAR) 30, Wr (gicc_reg GICC_EOIR) 30]\<rparr>"
  have "handle_irq_exception dev call mc = Some (if sw then Switched ?mc' else Returned ?mc')"
    using ack isr call s
    by (simp add: handle_irq_exception_def gic_acknowledge_interrupt_def mmio_read_def Let_def IRQ_TIMER_PHYS_def
        irq_handle_def MAX_IRQS_def timer_irq_handler_def gic_end_of_interrupt_def mmio_write_def)
  then show ?thesis by (intro exI [of _ ?mc']) (simp add: s)
qed

section \<open>The report of an unexpected exception\<close>

text \<open>The names that the comments in the table give the exception classes.\<close>

definition class_comments :: "(nat \<times> string) list" where
  "class_comments = [(0x01, ''Trapped WFI/WFE''), (0x03, ''Trapped MCR/MRC (CP15)''), (0x04, ''Trapped MCRR/MRRC (CP15)''),
     (0x05, ''Trapped MCR/MRC (CP14)''), (0x06, ''Trapped LDC/STC''), (0x07, ''SVE/SIMD/FP trapped''),
     (0x0A, ''Trapped VMRS''), (0x0C, ''Trapped MRRC (CP14)''), (0x0E, ''Illegal Execution State''),
     (0x11, ''SVC (AArch32)''), (0x15, ''SVC (AArch64)''), (0x16, ''HVC (AArch64)''), (0x17, ''SMC (AArch64)''),
     (0x18, ''Trapped MSR/MRS/System''), (0x20, ''Instruction Abort (lower EL)''),
     (0x21, ''Instruction Abort (same EL)''), (0x22, ''PC alignment fault''), (0x24, ''Data Abort (lower EL)''),
     (0x25, ''Data Abort (same EL)''), (0x26, ''SP alignment fault''), (0x28, ''FP exception (AArch32)''),
     (0x2C, ''FP exception (AArch64)''), (0x2F, ''SError''), (0x30, ''Breakpoint (lower EL)''),
     (0x31, ''Breakpoint (same EL)''), (0x32, ''Software Step (lower EL)''), (0x33, ''Software Step (same EL)''),
     (0x34, ''Watchpoint (lower EL)''), (0x35, ''Watchpoint (same EL)''), (0x38, ''BKPT (AArch32)''),
     (0x3A, ''Vector Catch (AArch32)''), (0x3C, ''BRK (AArch64)'')]"

definition class_name :: "nat \<Rightarrow> string" where
  "class_name c = (case map_of class_comments c of Some n \<Rightarrow> n | None \<Rightarrow> ''Unknown'')"

text \<open>
  The name under which a class is reported: up to \<^verbatim>\<open>0x10\<close> its own; from \<^verbatim>\<open>0x11\<close> to \<^verbatim>\<open>0x3D\<close> that of the class
  before it, because the table has an entry too many; above, the fallback.
\<close>

definition reported_class :: "nat \<Rightarrow> string" where
  "reported_class c = (if c \<le> 0x10 then class_name c else if c \<le> 0x3D then class_name (c - 1)
     else ''Unknown Exception Class'')"

lemma class_reported:
  assumes "unat ec < 64"
  shows "get_exception_class_name ec = reported_class (unat ec)"
proof -
  have "map (\<lambda>c. get_exception_class_name (of_nat c)) [0..<64] = map reported_class [0..<64]"
    by code_simp
  then have "\<forall>c \<in> set [0..<64]. get_exception_class_name (of_nat c) = reported_class c" by (simp only: map_eq_conv)
  then show ?thesis using assms by (auto dest!: bspec [of _ _ "unat ec"])
qed

text \<open>The label of a general register in the dump: two blanks, the name, a colon, to a width of seven.\<close>

definition decimal :: "nat \<Rightarrow> string" where
  "decimal n = (if n < 10 then [''0123456789'' ! n] else [''0123456789'' ! (n div 10), ''0123456789'' ! (n mod 10)])"

definition reg_label :: "nat \<Rightarrow> string" where
  "reg_label k = (let s = ''  x'' @ decimal k @ '':'' in s @ replicate (7 - length s) (CHR '' ''))"

text \<open>The text has the label followed at once by the value in hexadecimal.\<close>

definition shows_value :: "u8 list \<Rightarrow> string \<Rightarrow> u64 \<Rightarrow> bool" where
  "shows_value text label v \<longleftrightarrow> (\<exists>pre post. text = pre @ map of_char label @ hex_buffer v @ post)"

definition shows_text :: "u8 list \<Rightarrow> string \<Rightarrow> bool" where
  "shows_text text s \<longleftrightarrow> (\<exists>pre post. text = pre @ map of_char s @ post)"

text \<open>Items next to each other are next to each other in the text.\<close>

definition items_text :: "item list \<Rightarrow> u8 list" where
  "items_text is = expand_nl (concat (map item_bytes is))"

lemma hex_buffer_no_newline: "10 \<notin> set (hex_buffer v)"
proof -
  have "hex_chars ! unat (drop_bit (60 - i * 4) v AND 0xF) \<noteq> 10" for i
    by (rule hex_digits_no_newline) (rule nibble_lt)
  then show ?thesis by (auto simp: hex_buffer_def)
qed

lemma items_text_append [simp]: "items_text (a @ b) = items_text a @ items_text b"
  by (simp add: items_text_def)

lemma neighbours: "(a, b) \<in> set (zip is (tl is)) \<Longrightarrow> \<exists>pre post. is = pre @ [a, b] @ post"
proof (induction "is")
  case (Cons x xs)
  show ?case
  proof (cases "xs \<noteq> [] \<and> a = x \<and> b = hd xs")
    case True
    then have "x # xs = [] @ [a, b] @ tl xs" by simp
    then show ?thesis by blast
  next
    case False
    then have "(a, b) \<in> set (zip xs (tl xs))" using Cons.prems by (cases xs) auto
    then obtain pre post where "xs = pre @ [a, b] @ post" using Cons.IH by blast
    then have "x # xs = (x # pre) @ [a, b] @ post" by simp
    then show ?thesis by blast
  qed
qed simp

lemma neighbours_shown:
  assumes "(S l, X v) \<in> set (zip is (tl is))" "10 \<notin> set (map of_char l :: u8 list)"
  shows "shows_value (items_text is) l v"
proof -
  obtain pre post where "is = pre @ [S l, X v] @ post" using neighbours [OF assms(1)] by blast
  moreover have "items_text [S l, X v] = map of_char l @ hex_buffer v"
    using assms(2) hex_buffer_no_newline [of v] by (simp add: items_text_def expand_nl_no_newline)
  ultimately have "items_text is = items_text pre @ map of_char l @ hex_buffer v @ items_text post"
    by (simp only: items_text_append append_assoc)
  then show ?thesis unfolding shows_value_def by blast
qed

lemma shows_value_append:
  "shows_value b l v \<Longrightarrow> shows_value (a @ b) l v" "shows_value a l v \<Longrightarrow> shows_value (a @ b) l v"
  unfolding shows_value_def by (metis append_assoc)+

text \<open>The dump of a frame shows every register under its label.\<close>

lemma dump_shows_regs:
  assumes "k \<le> 30"
  shows "shows_value (items_text (frame_items m fp)) (reg_label k) (frame_reg m fp k)"
proof -
  let ?is = "frame_items m fp"
  have two_blanks: "replicate 2 (CHR '' '') = ''  ''" by (simp add: numeral_2_eq_2)
  have "\<forall>k \<in> {0, 1, 2, 3, 4, 5, 6, 7, 8, 9, 10, 11, 12, 13, 14, 15, 16, 17, 18, 19, 20, 21, 22, 23, 24, 25, 26, 27, 28, 29, 30}.
      (S (reg_label k), X (frame_reg m fp k)) \<in> set (zip ?is (tl ?is)) \<and>
      10 \<notin> set (map of_char (reg_label k) :: u8 list)"
    by (simp add: frame_items_def Let_def reg_label_def decimal_def two_blanks)
  moreover have "k \<in> {0, 1, 2, 3, 4, 5, 6, 7, 8, 9, 10, 11, 12, 13, 14, 15, 16, 17, 18, 19, 20, 21, 22, 23, 24, 25, 26, 27, 28, 29, 30}"
    using assms by (simp, arith)
  ultimately have "(S (reg_label k), X (frame_reg m fp k)) \<in> set (zip ?is (tl ?is)) \<and>
      10 \<notin> set (map of_char (reg_label k) :: u8 list)" by (rule bspec)
  then show ?thesis by (intro neighbours_shown) auto
qed

lemma dump_shows_special:
  "shows_value (items_text (frame_items m fp)) ''  SP:  '' (frame_sp m fp)"
  "shows_value (items_text (frame_items m fp)) ''  ELR: '' (frame_elr m fp)"
  "shows_value (items_text (frame_items m fp)) ''  SPSR:'' (frame_spsr m fp)"
  by (rule neighbours_shown; simp add: frame_items_def Let_def)+

text \<open>The header of the report, and the whole report.\<close>

definition header_items :: "u64 \<Rightarrow> u64 \<Rightarrow> item list" where
  "header_items esr far =
     [NL, S ''*** SYNCHRONOUS EXCEPTION ***'', NL, S ''ESR:   '', X esr, NL, S ''FAR:   '', X far, NL,
      S ''Class: '', S (get_exception_class_name (ucast (ec_of esr))), S '' (0x'', X (ec_of esr), S '')'', NL,
      S ''ISS:   '', X (esr AND 0x1FFFFFF), NL]"

lemma halts_with:
  assumes "ec_of esr \<noteq> 0x15" "ec_of esr \<noteq> 0x16"
  shows "handle_sync_exception xlate clock fp esr far mc = Some (Halted (tell
    (header_items esr far @ frame_items (mem_of (sys_of mc)) fp @ [NL, S ''System halted.'', NL]) mc))"
  using unexpected_exception_halts [OF assms] by (simp add: header_items_def)

lemma header_shows:
  "shows_value (items_text (header_items esr far)) ''ESR:   '' esr"
  "shows_value (items_text (header_items esr far)) ''FAR:   '' far"
  by (rule neighbours_shown; simp add: header_items_def)+

lemma ec_lt: "unat (ec_of esr) < 64"
proof -
  have "ec_of esr = take_bit 6 (drop_bit 26 esr)" by (simp add: ec_of_def take_bit_eq_mask mask_eq_exp_minus_1)
  then show ?thesis by (simp add: take_bit_eq_mod unat_mod)
qed

lemma header_shows_class:
  "shows_text (items_text (header_items esr far)) (''Class: '' @ reported_class (unat (ec_of esr)) @ '' (0x'')"
proof -
  have "ec_of esr = take_bit 6 (drop_bit 26 esr)" by (simp add: ec_of_def take_bit_eq_mask mask_eq_exp_minus_1)
  then have u: "unat (ucast (ec_of esr) :: u32) = unat (ec_of esr)"
    using ec_lt [of esr] by (simp add: unsigned_ucast_eq take_bit_nat_eq_self_iff)
  have name: "get_exception_class_name (ucast (ec_of esr)) = reported_class (unat (ec_of esr))"
    using class_reported [of "ucast (ec_of esr)"] ec_lt [of esr] by (simp add: u)
  have "\<forall>c \<in> set [0..<64]. 10 \<notin> set (map of_char (reported_class c) :: u8 list)" by code_simp
  then have nl: "10 \<notin> set (map of_char (reported_class (unat (ec_of esr))) :: u8 list)" using ec_lt [of esr] by simp
  let ?l = "[NL, S ''*** SYNCHRONOUS EXCEPTION ***'', NL, S ''ESR:   '', X esr, NL, S ''FAR:   '', X far, NL]"
  let ?c = "[S ''Class: '', S (reported_class (unat (ec_of esr))), S '' (0x'']"
  let ?r = "[X (ec_of esr), S '')'', NL, S ''ISS:   '', X (esr AND 0x1FFFFFF), NL]"
  have "header_items esr far = ?l @ ?c @ ?r" by (simp add: header_items_def name)
  moreover have "items_text ?c = map of_char (''Class: '' @ reported_class (unat (ec_of esr)) @ '' (0x'')"
    using nl by (simp add: items_text_def expand_nl_no_newline)
  ultimately show ?thesis unfolding shows_text_def by (metis items_text_append)
qed

text \<open>
  C34: a synchronous exception taken at EL1 that is neither a system call nor a hypervisor call ends, through
  the entry code and the handler, in a halted processor, whatever the compiled handler left in the registers. The text sent
  to the console shows the syndrome, the fault address, and every register of the interrupted code under its own label: each of
  \<^verbatim>\<open>x0\<close> to \<^verbatim>\<open>x30\<close> (\<open>reg_label\<close> builds the label), the stack pointer the exception was taken on, the return address and
  the status. The class line has the name of the class as \<open>reported_class\<close> gives it: from \<^verbatim>\<open>0x11\<close> to \<^verbatim>\<open>0x3D\<close> that of the class before,
  against the comments of the table. No byte of memory changes but the 272 below the stack pointer; tasks, allocator and heap stay.
\<close>
theorem unexpected_exception_reported:
  assumes sp: "272 \<le> unat (sp_el1 (cpu_of (sys_of mc)))" and ec: "ec_of esr \<noteq> 0x15" "ec_of esr \<noteq> 0x16"
  defines "c \<equiv> cpu_of (sys_of mc)"
  shows "\<exists>mc' text. sync_exception_el1 xlate clock regs esr far mc = Some (Halted mc') \<and>
    con_of (sys_of mc') = con_of (sys_of mc) @ text \<and>
    shows_value text ''ESR:   '' esr \<and> shows_value text ''FAR:   '' far \<and>
    shows_text text (''Class: '' @ reported_class (unat (ec_of esr)) @ '' (0x'') \<and>
    (\<forall>k \<le> 30. shows_value text (reg_label k) (xreg c k)) \<and> shows_value text ''  SP:  '' (sp_el1 c) \<and>
    shows_value text ''  ELR: '' (elr_el1 c) \<and> shows_value text ''  SPSR:'' (spsr_el1 c) \<and>
    same_outside (mem_of (sys_of mc)) (mem_of (sys_of mc')) (unat (sp_el1 c) - 272) 272 \<and>
    sched_of (sys_of mc') = sched_of (sys_of mc) \<and> pmm_of (sys_of mc') = pmm_of (sys_of mc) \<and> heap_of mc' = heap_of mc"
proof -
  let ?fp = "sp_el1 c - EXC_FRAME"
  obtain m1 where S: "save_context (c, mem_of (sys_of mc)) =
      (c\<lparr>sp_el1 := ?fp, xreg := (xreg c)(0 := elr_el1 c, 1 := spsr_el1 c)\<rparr>, m1)"
    "unat ?fp + 272 = unat (sp_el1 c)" "same_outside (mem_of (sys_of mc)) m1 (unat ?fp) 272"
    "\<forall>k \<le> 30. frame_reg m1 ?fp k = xreg c k" "frame_sp m1 ?fp = sp_el1 c"
    "frame_elr m1 ?fp = elr_el1 c" "frame_spsr m1 ?fp = spsr_el1 c"
    using save_context_spec [OF sp, of "mem_of (sys_of mc)"] unfolding c_def by blast
  define mc1 where "mc1 = clobber regs (enter mc)"
  have mc1: "exc_frame mc1 = ?fp" "mem_of (sys_of mc1) = m1" "con_of (sys_of mc1) = con_of (sys_of mc)"
    "sched_of (sys_of mc1) = sched_of (sys_of mc)" "pmm_of (sys_of mc1) = pmm_of (sys_of mc)" "heap_of mc1 = heap_of mc"
    using S(1) by (simp_all add: mc1_def clobber_def enter_def exc_frame_def c_def [symmetric])
  let ?dump = "frame_items m1 ?fp"
  let ?text = "items_text (header_items esr far) @ items_text ?dump @ items_text [NL, S ''System halted.'', NL]"
  let ?mc = "tell (header_items esr far @ ?dump @ [NL, S ''System halted.'', NL]) mc1"
  have run: "sync_exception_el1 xlate clock regs esr far mc = Some (Halted ?mc)"
    using halts_with [OF ec, of xlate clock ?fp far mc1]
    by (simp add: sync_exception_el1_def mc1_def [symmetric] mc1(1,2))
  have con: "con_of (sys_of ?mc) = con_of (sys_of mc) @ ?text"
    unfolding items_text_append [symmetric] by (simp add: say_def print_def items_text_def mc1(3))
  have head: "shows_value ?text l v" if "shows_value (items_text (header_items esr far)) l v" for l v
    using that by (rule shows_value_append(2))
  have dump: "shows_value ?text l v" if "shows_value (items_text ?dump) l v" for l v
    by (rule shows_value_append(1), rule shows_value_append(2), rule that)
  have class_: "shows_text ?text (''Class: '' @ reported_class (unat (ec_of esr)) @ '' (0x'')"
    using header_shows_class [of esr far] unfolding shows_text_def by (metis append_assoc)
  have regs: "shows_value ?text (reg_label k) (xreg c k)" if "k \<le> 30" for k
    using dump [OF dump_shows_regs [OF that]] S(4) that by simp
  have rest: "sched_of (sys_of ?mc) = sched_of (sys_of mc)" "pmm_of (sys_of ?mc) = pmm_of (sys_of mc)"
    "heap_of ?mc = heap_of mc" "mem_of (sys_of ?mc) = m1"
    by (simp_all add: say_def mc1)
  have so: "same_outside (mem_of (sys_of mc)) m1 (unat (sp_el1 c) - 272) 272" using S(2,3) by (metis add_diff_cancel_right')
  show ?thesis
    by (intro exI [of _ ?mc] exI [of _ ?text] conjI run con class_ head [OF header_shows(1)] head [OF header_shows(2)])
      (use regs rest so dump [OF dump_shows_special(1)] dump [OF dump_shows_special(2)]
        dump [OF dump_shows_special(3)] S(5-7) in simp_all)
qed

section \<open>Witnesses\<close>

text \<open>A machine that has just executed \<^verbatim>\<open>svc\<close> with call number \<open>n\<close>.\<close>

definition svc_machine :: "u64 \<Rightarrow> u64 \<Rightarrow> machine" where
  "svc_machine n a = machine_of (duo_sys\<lparr>cpu_of := cpu_start\<lparr>xreg := (\<lambda>r. of_nat r)(8 := n, 0 := a),
     elr_el1 := 0x400010\<rparr>\<rparr>)"

lemma svc_machine_sp: "272 \<le> unat (sp_el1 (cpu_of (sys_of (svc_machine n a))))"
  by (simp add: svc_machine_def machine_of_def cpu_start_def)

theorem exception_frame_roundtrip_witness:
  "\<exists>c1 m1 c3 m3. save_context (cpu_start, \<lambda>_. 0) = (c1, m1) \<and>
     restore_context (c1\<lparr>xreg := (\<lambda>_. 0)\<rparr>, m1) = (c3, m3) \<and> xreg c3 7 = 7"
proof -
  obtain c1 m1 where s: "save_context (cpu_start, \<lambda>_. 0) = (c1, m1)" by fastforce
  obtain c3 m3 where r: "restore_context (c1\<lparr>xreg := (\<lambda>_. 0)\<rparr>, m1) = (c3, m3)" by fastforce
  have "272 \<le> unat (sp_el1 cpu_start)" "sp_el1 (c1\<lparr>xreg := (\<lambda>_. 0)\<rparr>) = sp_el1 c1" "frame_kept (sp_el1 c1) m1 m1"
    by (simp_all add: cpu_start_def frame_kept_def)
  from exception_frame_roundtrip [OF this(1) s this(2,3) r] have "xreg c3 7 = xreg cpu_start 7" by simp
  then show ?thesis using s r by (auto simp: cpu_start_def)
qed

theorem svc_returns_to_caller_witness:
  "\<exists>mc'. sync_exception_el1 (\<lambda>_ _ a. a) (\<lambda>_. 0) (\<lambda>_. 0) 0x56000000 0 (svc_machine SYS_GETPID 5) = Some (Returned mc') \<and>
     xreg (cpu_of (sys_of mc')) 0 = ucast (t_id (tk duo 0)) \<and> pc (cpu_of (sys_of mc')) = 0x400010"
proof -
  let ?mc = "svc_machine SYS_GETPID 5"
  have ec: "ec_of 0x56000000 = 0x15" by (simp add: ec_of_def)
  have x: "xreg (cpu_of (sys_of ?mc)) 8 = SYS_GETPID" "SYS_GETPID \<noteq> SYS_EXIT"
    by (simp_all add: svc_machine_def machine_of_def SYS_GETPID_def SYS_EXIT_def)
  have cur: "sched_of (sys_of ?mc) = duo" "current_task duo = Some 0"
    by (simp_all add: svc_machine_def machine_of_def duo_sys_def duo_def)
  have "sched_of (sys_of (clobber (\<lambda>_. 0) (enter ?mc))) = duo"
    by (simp add: clobber_def enter_def cur(1) split: prod.split)
  then have run: "syscall_handler (\<lambda>_ _ a. a) (\<lambda>_. 0) SYS_GETPID (xreg (cpu_of (sys_of ?mc)) 0) (xreg (cpu_of (sys_of ?mc)) 1)
      (xreg (cpu_of (sys_of ?mc)) 2) (xreg (cpu_of (sys_of ?mc)) 3) (clobber (\<lambda>_. 0) (enter ?mc)) =
    Some (Returned (ucast (t_id (tk duo 0)), clobber (\<lambda>_. 0) (enter ?mc)))"
    by (simp add: syscall_handler_def SYS_GETPID_def SYS_YIELD_def SYS_EXIT_def SYS_SLEEP_def sched_get_current_def cur(2))
  have "xreg (cpu_of (sys_of ?mc)) 8 \<noteq> SYS_EXIT" using x by simp
  from svc_returns_to_caller [OF svc_machine_sp ec refl this, of "\<lambda>_ _ a. a" "\<lambda>_. 0" "\<lambda>_. 0" _ _ 0, unfolded x(1), OF run]
  show ?thesis by (auto simp: Let_def svc_machine_def machine_of_def cpu_start_def)
qed

theorem sleep_call_hangs_witness:
  "sync_exception_el1 (\<lambda>_ _ a. a) (\<lambda>_. 7) (\<lambda>_. 0) 0x56000000 0 (svc_machine SYS_SLEEP 500) = None"
  by (rule sleep_call_hangs [OF svc_machine_sp])
    (simp_all add: ec_of_def svc_machine_def machine_of_def)

text \<open>A data abort of the kernel: the dump shows 7 as register 7, and the class as an abort from EL0.\<close>

theorem unexpected_exception_reported_witness:
  "\<exists>mc' text. sync_exception_el1 (\<lambda>_ _ a. a) (\<lambda>_. 0) (\<lambda>_. 0) 0x96000004 0x10 (svc_machine 0 0) = Some (Halted mc') \<and>
     con_of (sys_of mc') = con_of (sys_of (svc_machine 0 0)) @ text \<and> shows_value text ''  x7:  '' 7 \<and>
     shows_text text ''Class: Data Abort (lower EL) (0x''"
proof -
  have ec: "ec_of 0x96000004 = 0x25" by (simp add: ec_of_def)
  have lab: "reg_label 7 = ''  x7:  ''" "reported_class 0x25 = ''Data Abort (lower EL)''" by code_simp+
  have x: "xreg (cpu_of (sys_of (svc_machine 0 0))) 7 = 7" by (simp add: svc_machine_def machine_of_def)
  show ?thesis
    using unexpected_exception_reported [OF svc_machine_sp, of "0x96000004" "\<lambda>_ _ a. a" "\<lambda>_. 0" "\<lambda>_. 0" "0x10" 0 0]
    unfolding ec by (auto simp: lab x dest!: spec [of _ "7 :: nat"])
qed

theorem timer_interrupt_witness:
  "\<exists>mc'. handle_irq_exception (\<lambda>_ _. 30) (\<lambda>_ irq d s. Some (timer_irq_handler irq d s))
      ((machine_of duo_sys1)\<lparr>irq_handlers := (\<lambda>_. no_handler)(30 := no_handler\<lparr>handler := 0x40401000\<rparr>)\<rparr>) = Some (Switched mc') \<and>
     gic_bus mc' = [Rd (gicc_reg GICC_IAR) 30]"
proof -
  let ?mc = "(machine_of duo_sys1)\<lparr>irq_handlers := (\<lambda>_. no_handler)(30 := no_handler\<lparr>handler := 0x40401000\<rparr>)\<rparr>"
  have m: "sys_of ?mc = duo_sys1" "gic_bus ?mc = []" by (simp_all add: machine_of_def)
  have "handler (irq_handlers ?mc 30) = 0x40401000" "(0x40401000 :: u64) \<noteq> 0" by simp_all
  from timer_interrupt [of "\<lambda>_ _. 30", OF _ this, of "\<lambda>_ irq d s. Some (timer_irq_handler irq d s)"]
  show ?thesis using duo_rel1(2) unfolding m by (auto simp: IRQ_TIMER_PHYS_def)
qed

end
