(* ===== verification/Switch.thy ===== *)
theory Switch
  imports Exceptions
begin

text \<open>
  \<^verbatim>\<open>sched/switch.S\<close> instruction by instruction, on the byte memory: the instructions the routine uses
  with their effect on the processor and the memory, and the routine as the list of its instructions.
  Saving and restoring here go through 272 bytes at an address in \<^verbatim>\<open>x0\<close> or \<^verbatim>\<open>x1\<close>, with \<^verbatim>\<open>x2\<close> as scratch; the
  theorems say that the effect is \<open>switch_save\<close> and \<open>switch_restore\<close>, which the scheduler's model uses.
\<close>

section \<open>Instructions\<close>

text \<open>Registers are numbered; \<^verbatim>\<open>sp\<close> is the stack pointer of EL1, on which the kernel runs.\<close>

datatype insn =
    Stp nat nat nat u64
  | Str nat nat u64
  | Ldp nat nat nat u64
  | Ldr nat nat u64
  | Mov_from_sp nat
  | Mov_to_sp nat
  | Mrs_spsr nat
  | Msr_spsr nat
  | Msr_elr nat
  | Eret

text \<open>\<open>Stp r s b d\<close> is \<^verbatim>\<open>stp xr, xs, [xb, #d]\<close>; the address is computed before a register is loaded.\<close>

primrec step :: "insn \<Rightarrow> cpu \<times> mem \<Rightarrow> cpu \<times> mem" where
  "step (Stp r s b d) cm = (let (c, m) = cm; a = xreg c b + d
     in (c, store64 (store64 m a (xreg c r)) (a + 8) (xreg c s)))"
| "step (Str r b d) cm = (let (c, m) = cm in (c, store64 m (xreg c b + d) (xreg c r)))"
| "step (Ldp r s b d) cm = (let (c, m) = cm; a = xreg c b + d
     in (c\<lparr>xreg := (xreg c)(r := load64 m a, s := load64 m (a + 8))\<rparr>, m))"
| "step (Ldr r b d) cm = (let (c, m) = cm in (c\<lparr>xreg := (xreg c)(r := load64 m (xreg c b + d))\<rparr>, m))"
| "step (Mov_from_sp r) cm = (let (c, m) = cm in (c\<lparr>xreg := (xreg c)(r := sp_el1 c)\<rparr>, m))"
| "step (Mov_to_sp r) cm = (let (c, m) = cm in (c\<lparr>sp_el1 := xreg c r\<rparr>, m))"
| "step (Mrs_spsr r) cm = (let (c, m) = cm in (c\<lparr>xreg := (xreg c)(r := spsr_el1 c)\<rparr>, m))"
| "step (Msr_spsr r) cm = (let (c, m) = cm in (c\<lparr>spsr_el1 := xreg c r\<rparr>, m))"
| "step (Msr_elr r) cm = (let (c, m) = cm in (c\<lparr>elr_el1 := xreg c r\<rparr>, m))"
| "step Eret cm = (let (c, m) = cm in (eret c, m))"

primrec exec :: "insn list \<Rightarrow> cpu \<times> mem \<Rightarrow> cpu \<times> mem" where
  "exec [] cm = cm"
| "exec (i # is) cm = exec is (step i cm)"

lemma exec_append: "exec (is @ js) cm = exec js (exec is cm)"
  by (induction "is" arbitrary: cm) simp_all

section \<open>The routine\<close>

definition save_code :: "insn list" where
  "save_code =
     [Stp 0 1 0 0, Stp 2 3 0 16, Stp 4 5 0 32, Stp 6 7 0 48, Stp 8 9 0 64, Stp 10 11 0 80, Stp 12 13 0 96,
      Stp 14 15 0 112, Stp 16 17 0 128, Stp 18 19 0 144, Stp 20 21 0 160, Stp 22 23 0 176, Stp 24 25 0 192,
      Stp 26 27 0 208, Stp 28 29 0 224, Str 30 0 240,
      Mov_from_sp 2, Str 2 0 248,
      Str 30 0 256,
      Mrs_spsr 2, Str 2 0 264]"

definition restore_code :: "insn list" where
  "restore_code =
     [Ldr 2 1 264, Msr_spsr 2,
      Ldr 2 1 256, Msr_elr 2,
      Ldr 2 1 248, Mov_to_sp 2,
      Ldp 2 3 1 16, Ldp 4 5 1 32, Ldp 6 7 1 48, Ldp 8 9 1 64, Ldp 10 11 1 80, Ldp 12 13 1 96, Ldp 14 15 1 112,
      Ldp 16 17 1 128, Ldp 18 19 1 144, Ldp 20 21 1 160, Ldp 22 23 1 176, Ldp 24 25 1 192, Ldp 26 27 1 208,
      Ldp 28 29 1 224, Ldr 30 1 240,
      Ldp 0 1 1 0,
      Eret]"

definition switch_code :: "insn list" where
  "switch_code = save_code @ restore_code"

section \<open>Its effect\<close>

text \<open>The 272 bytes at an address hold a saved context.\<close>

definition frame_in :: "frame \<Rightarrow> mem \<Rightarrow> u64 \<Rightarrow> bool" where
  "frame_in f m a \<longleftrightarrow> (\<forall>k \<le> 30. frame_reg m a k = gpr f k) \<and> frame_sp m a = f_sp f \<and>
     frame_elr m a = f_elr f \<and> frame_spsr m a = f_spsr f"

text \<open>The pairs store the registers one after the other.\<close>

lemma store_regs_numeral:
  "store_regs x fp i (numeral n) m = store_regs x fp (i + 1) (pred_numeral n) (store64 m (fp + 8 * of_nat i) (x i))"
  by (simp add: numeral_eq_Suc)

lemma save_code_run:
  "exec save_code (c, m) = (c\<lparr>xreg := (xreg c)(2 := spsr_el1 c)\<rparr>,
     (let a = xreg c 0
      in store64 (store64 (store64 (store_regs (xreg c) a 0 31 m) (a + 248) (sp_el1 c)) (a + 256) (xreg c 30))
           (a + 264) (spsr_el1 c)))"
  by (simp add: save_code_def Let_def store_regs_numeral add.commute add.assoc) (simp add: numeral_eq_Suc)

lemma switch_save_frame:
  fixes c :: cpu and m :: mem and a :: u64
  assumes "unat a + 272 \<le> 2 ^ 64"
  defines "m' \<equiv> store64 (store64 (store64 (store_regs (xreg c) a 0 31 m) (a + 248) (sp_el1 c)) (a + 256) (xreg c 30))
           (a + 264) (spsr_el1 c)"
  shows "frame_in (switch_save c old) m' a" "same_outside m m' (unat a) 272"
proof -
  let ?m0 = "store_regs (xreg c) a 0 31 m"
  let ?m1 = "store64 ?m0 (a + 248) (sp_el1 c)"
  let ?m2 = "store64 ?m1 (a + 256) (xreg c 30)"
  note b = assms(1)
  have u: "unat (a + 248) = unat a + 248" "unat (a + 256) = unat a + 256" "unat (a + 264) = unat a + 264"
    using frame_offset [OF b, of 248] frame_offset [OF b, of 256] frame_offset [OF b, of 264] by simp_all
  have r: "same_outside m ?m0 (unat a) 248" "\<And>k. k \<le> 30 \<Longrightarrow> frame_reg ?m0 a k = xreg c k"
    using store_regs_spec [OF b, of 0 31 m "xreg c"] by simp_all
  have s: "same_outside ?m0 ?m1 (unat a + 248) 8" "same_outside ?m1 ?m2 (unat a + 256) 8"
    "same_outside ?m2 m' (unat a + 264) 8"
    unfolding m'_def by (rule same_outside_store64; use u b in linarith)+
  have "same_outside m ?m0 (unat a) 272" "same_outside ?m0 ?m1 (unat a) 272" "same_outside ?m1 ?m2 (unat a) 272"
    "same_outside ?m2 m' (unat a) 272"
    by (rule same_outside_mono [OF r(1)] same_outside_mono [OF s(1)] same_outside_mono [OF s(2)]
        same_outside_mono [OF s(3)]; simp)+
  then show "same_outside m m' (unat a) 272" by (blast intro: same_outside_trans)
  have regs: "frame_reg m' a k = xreg c k" if k: "k \<le> 30" for k
    using frame_reg_outside [OF s(3) b k] frame_reg_outside [OF s(2) b k] frame_reg_outside [OF s(1) b k] r(2) [OF k] k
    by simp
  have "load64 m' (a + 248) = load64 ?m2 (a + 248)" "load64 ?m2 (a + 248) = load64 ?m1 (a + 248)"
    "load64 m' (a + 256) = load64 ?m2 (a + 256)"
    by (rule load64_outside [OF s(3)] load64_outside [OF s(2)]; use u b in linarith)+
  then show "frame_in (switch_save c old) m' a"
    using regs by (simp add: frame_in_def switch_save_def save_regs_def frame_sp_def frame_elr_def frame_spsr_def m'_def)
qed

text \<open>
  The first half of the routine, run on the processor and the memory, leaves in the 272 bytes at \<^verbatim>\<open>x0\<close> the context that
  \<open>switch_save\<close> gives, writes nothing else, and destroys only \<^verbatim>\<open>x2\<close>.
\<close>

lemma save_code_effect:
  assumes "unat (xreg c 0) + 272 \<le> 2 ^ 64"
  obtains m' where "exec save_code (c, m) = (c\<lparr>xreg := (xreg c)(2 := spsr_el1 c)\<rparr>, m')"
    "frame_in (switch_save c old) m' (xreg c 0)" "same_outside m m' (unat (xreg c 0)) 272"
  using switch_save_frame [OF assms] save_code_run [of c m] by (simp add: Let_def)

text \<open>The second half loads the context at \<^verbatim>\<open>x1\<close>, whatever the registers hold.\<close>

lemma restore_code_run:
  "exec restore_code (c, m) = (let a = xreg c 1 in
     (eret (c\<lparr>spsr_el1 := frame_spsr m a, elr_el1 := frame_elr m a, sp_el1 := frame_sp m a,
        xreg := save_regs (frame_reg m a) (xreg c)\<rparr>), m))"
proof -
  have k: "k \<in> {0, 1, 2, 3, 4, 5, 6, 7, 8, 9, 10, 11, 12, 13, 14, 15, 16, 17, 18, 19, 20, 21, 22, 23, 24, 25, 26, 27, 28, 29, 30}
    \<or> 30 < k" for k :: nat by (simp, arith)
  show ?thesis unfolding Let_def
  proof (rule prod_eqI, rule cpu.equality)
    let ?a = "xreg c 1"
    let ?c' = "eret (c\<lparr>spsr_el1 := frame_spsr m ?a, elr_el1 := frame_elr m ?a, sp_el1 := frame_sp m ?a,
        xreg := save_regs (frame_reg m ?a) (xreg c)\<rparr>)"
    show "xreg (fst (exec restore_code (c, m))) = xreg (fst (?c', m))"
      apply (simp add: restore_code_def Let_def eret_def)
      apply (rule ext)
      subgoal for r using k [of r] by (elim disjE insertE) (simp_all add: save_regs_def frame_reg_def add.commute)
      done
  qed (simp_all add: restore_code_def Let_def eret_def frame_spsr_def frame_elr_def frame_sp_def)
qed

lemma restore_code_effect:
  assumes "frame_in f m (xreg c 1)"
  shows "exec restore_code (c, m) = (switch_restore f c, m)"
proof -
  have "save_regs (frame_reg m (xreg c 1)) (xreg c) = save_regs (gpr f) (xreg c)"
    using assms by (auto simp: save_regs_def frame_in_def)
  then show ?thesis
    using assms by (simp add: restore_code_run Let_def frame_in_def switch_restore_def eret_def)
qed

text \<open>What the routine destroys before it loads is loaded again.\<close>

lemma switch_restore_scratch: "switch_restore f (c\<lparr>xreg := (xreg c)(2 := v)\<rparr>) = switch_restore f c"
proof -
  have "save_regs (gpr f) ((xreg c)(2 := v)) = save_regs (gpr f) (xreg c)" by (auto simp: save_regs_def)
  then show ?thesis by (simp add: switch_restore_def eret_def)
qed

lemma frame_in_same_outside:
  assumes "frame_in f m a" "same_outside m m' lo 272" "unat a + 272 \<le> 2 ^ 64"
    "unat a + 272 \<le> lo \<or> lo + 272 \<le> unat a"
  shows "frame_in f m' a"
proof -
  have eq: "load64 m' x = load64 m x" if "unat a \<le> unat x" "unat x + 8 \<le> unat a + 272" for x
    by (rule load64_outside [OF assms(2)]) (use that assms in linarith)+
  have u: "unat (a + 248) = unat a + 248" "unat (a + 256) = unat a + 256" "unat (a + 264) = unat a + 264"
    using frame_offset [OF assms(3), of 248] frame_offset [OF assms(3), of 256] frame_offset [OF assms(3), of 264] by simp_all
  have "frame_reg m' a k = frame_reg m a k" if "k \<le> 30" for k
    unfolding frame_reg_def by (rule eq) (use frame_reg_addr [OF assms(3) that] that in simp_all)
  then show ?thesis using assms(1) eq u by (simp add: frame_in_def frame_sp_def frame_elr_def frame_spsr_def)
qed

lemma frame_in_kept:
  assumes "frame_in f m a" "unat a + 272 \<le> 2 ^ 64" "\<forall>x. unat a \<le> unat x \<and> unat x < unat a + 272 \<longrightarrow> m' x = m x"
  shows "frame_in f m' a"
proof -
  have eq: "load64 m' x = load64 m x" if "unat a \<le> unat x" "unat x + 8 \<le> unat a + 272" for x
  proof (rule load64_cong)
    fix j :: nat assume "j < 8"
    then have "unat (x + of_nat j) = unat x + j" using that assms(2) by (intro unat_offset [of x 8]) simp_all
    then show "m' (x + of_nat j) = m (x + of_nat j)" using assms(3) that \<open>j < 8\<close> by simp
  qed
  have u: "unat (a + 248) = unat a + 248" "unat (a + 256) = unat a + 256" "unat (a + 264) = unat a + 264"
    using frame_offset [OF assms(2), of 248] frame_offset [OF assms(2), of 256] frame_offset [OF assms(2), of 264] by simp_all
  have "frame_reg m' a k = frame_reg m a k" if "k \<le> 30" for k
    unfolding frame_reg_def by (rule eq) (use frame_reg_addr [OF assms(2) that] that in simp_all)
  then show ?thesis using assms(1) eq u by (simp add: frame_in_def frame_sp_def frame_elr_def frame_spsr_def)
qed

text \<open>
  The whole routine: the old context in the frame at \<^verbatim>\<open>x0\<close>, the new one, from the frame at \<^verbatim>\<open>x1\<close>, in the processor. When the
  two frames are one, the context just saved is restored.
\<close>

lemma switch_code_effect:
  assumes a: "unat (xreg c 0) + 272 \<le> 2 ^ 64" and b: "unat (xreg c 1) + 272 \<le> 2 ^ 64"
    and ab: "xreg c 1 = xreg c 0 \<or> unat (xreg c 1) + 272 \<le> unat (xreg c 0) \<or> unat (xreg c 0) + 272 \<le> unat (xreg c 1)"
    and f: "frame_in f m (xreg c 1)"
  obtains m' where "frame_in (switch_save c old) m' (xreg c 0)" "same_outside m m' (unat (xreg c 0)) 272"
    "exec switch_code (c, m) = (switch_restore (if xreg c 1 = xreg c 0 then switch_save c old else f) c, m')"
proof -
  obtain m' where s: "exec save_code (c, m) = (c\<lparr>xreg := (xreg c)(2 := spsr_el1 c)\<rparr>, m')"
    "frame_in (switch_save c old) m' (xreg c 0)" "same_outside m m' (unat (xreg c 0)) 272"
    using save_code_effect [OF a] by blast
  let ?f = "if xreg c 1 = xreg c 0 then switch_save c old else f"
  have "frame_in ?f m' (xreg c 1)"
    using s(2) frame_in_same_outside [OF f s(3) b] ab by auto
  then have "exec restore_code (c\<lparr>xreg := (xreg c)(2 := spsr_el1 c)\<rparr>, m') =
      (switch_restore ?f (c\<lparr>xreg := (xreg c)(2 := spsr_el1 c)\<rparr>), m')"
    by (intro restore_code_effect) simp
  then show thesis using s by (intro that) (simp_all add: switch_code_def exec_append switch_restore_scratch)
qed

section \<open>The scheduler's view\<close>

text \<open>
  In the scheduler's model the saved contexts are fields of the task records. When the memory holds the contexts of the task
  pool at addresses that do not overlap, running the routine with the addresses of two of them does to the processor and to the
  contexts what \<open>switch_tasks\<close> does.
\<close>

definition pool_at :: "(nat \<Rightarrow> u64) \<Rightarrow> sched \<Rightarrow> mem \<Rightarrow> bool" where
  "pool_at ctx s m \<longleftrightarrow> (\<forall>i < MAX_TASKS. frame_in (t_context (tk s i)) m (ctx i))"

definition contexts_apart :: "(nat \<Rightarrow> u64) \<Rightarrow> bool" where
  "contexts_apart ctx \<longleftrightarrow> (\<forall>i < MAX_TASKS. unat (ctx i) + 272 \<le> 2 ^ 64 \<and>
     (\<forall>j < MAX_TASKS. i \<noteq> j \<longrightarrow> unat (ctx i) + 272 \<le> unat (ctx j) \<or> unat (ctx j) + 272 \<le> unat (ctx i)))"

lemma switch_code_refines_switch_tasks:
  assumes p: "pool_at ctx (sched_of k) m" and d: "contexts_apart ctx" and i: "old < MAX_TASKS" "new < MAX_TASKS"
    and x: "xreg (cpu_of k) 0 = ctx old" "xreg (cpu_of k) 1 = ctx new"
  defines "k' \<equiv> switch_tasks old new k"
  shows "\<exists>m'. exec switch_code (cpu_of k, m) = (cpu_of k', m') \<and> pool_at ctx (sched_of k') m' \<and>
    same_outside m m' (unat (ctx old)) 272"
proof -
  let ?c = "cpu_of k" and ?s = "sched_of k"
  let ?f = "switch_save ?c (t_context (tk ?s old))"
  have a: "unat (ctx j) + 272 \<le> 2 ^ 64" if "j < MAX_TASKS" for j using d that by (simp add: contexts_apart_def)
  have ne: "unat (ctx j) + 272 \<le> unat (ctx old) \<or> unat (ctx old) + 272 \<le> unat (ctx j)" if "j < MAX_TASKS" "j \<noteq> old" for j
    using d that i(1) unfolding contexts_apart_def by blast
  have same: "ctx new = ctx old \<longleftrightarrow> new = old" using ne [OF i(2)] by fastforce
  have fr: "frame_in (t_context (tk ?s j)) m (ctx j)" if "j < MAX_TASKS" for j using p that by (simp add: pool_at_def)
  obtain m' where m': "frame_in ?f m' (ctx old)" "same_outside m m' (unat (ctx old)) 272"
    "exec switch_code (?c, m) = (switch_restore (if new = old then ?f else t_context (tk ?s new)) ?c, m')"
    using switch_code_effect [of ?c "t_context (tk ?s new)" m "t_context (tk ?s old)", unfolded x]
      a [OF i(1)] a [OF i(2)] fr [OF i(2)] ne [OF i(2)] unfolding same by blast
  have k': "cpu_of k' = switch_restore (if new = old then ?f else t_context (tk ?s new)) ?c"
    "t_context (tk (sched_of k') j) = (if j = old then ?f else t_context (tk ?s j))" for j
    by (simp_all add: k'_def switch_tasks_def on_sched_def Let_def)
  have "frame_in (t_context (tk (sched_of k') j)) m' (ctx j)" if "j < MAX_TASKS" for j
    unfolding k'(2) using m'(1) frame_in_same_outside [OF fr [OF that] m'(2) a [OF that]] ne [OF that] by simp
  then show ?thesis using m'(2,3) k'(1) by (auto simp: pool_at_def)
qed

section \<open>Properties\<close>

text \<open>
  C26: the routine of \<^verbatim>\<open>switch.S\<close>, run instruction by instruction, saves the caller's context in the 272 bytes at \<^verbatim>\<open>x0\<close> and writes no
  other byte; and when, after any time and with any memory elsewhere, it is run again with the address of that frame in \<^verbatim>\<open>x1\<close>
  (and another frame in \<^verbatim>\<open>x0\<close>), the processor goes on after the first call (at the link register) with the registers 0 to 30 and
  the stack pointer exactly as they were. The status it resumes with is the SPSR that was current at the first call, not the
  status it was running with.
\<close>
theorem switch_roundtrip:
  assumes first: "exec switch_code (c, m) = (c1, m1)" and a: "unat (xreg c 0) + 272 \<le> 2 ^ 64"
    and kept: "\<forall>x. unat (xreg c 0) \<le> unat x \<and> unat x < unat (xreg c 0) + 272 \<longrightarrow> m2 x = m1 x"
    and second: "exec switch_code (c2, m2) = (c3, m3)" and b: "unat (xreg c2 0) + 272 \<le> 2 ^ 64"
    and x1: "xreg c2 1 = xreg c 0"
    and apart: "unat (xreg c2 0) + 272 \<le> unat (xreg c 0) \<or> unat (xreg c 0) + 272 \<le> unat (xreg c2 0)"
  shows "same_outside m m1 (unat (xreg c 0)) 272 \<and> same_outside m2 m3 (unat (xreg c2 0)) 272 \<and>
    pc c3 = xreg c 30 \<and> (\<forall>r \<le> 30. xreg c3 r = xreg c r) \<and> sp_el1 c3 = sp_el1 c \<and> pstate c3 = spsr_el1 c \<and>
    sp_el0 c3 = sp_el0 c2"
proof -
  obtain m' where s: "exec save_code (c, m) = (c\<lparr>xreg := (xreg c)(2 := spsr_el1 c)\<rparr>, m')"
    "frame_in (switch_save c frame_zero) m' (xreg c 0)" "same_outside m m' (unat (xreg c 0)) 272"
    using save_code_effect [OF a] by blast
  have m1: "m1 = m'" using first by (simp add: switch_code_def exec_append s(1) restore_code_run Let_def)
  have f: "frame_in (switch_save c frame_zero) m2 (xreg c2 1)"
    unfolding x1 using s(2) a kept unfolding m1 by (rule frame_in_kept)
  have b': "unat (xreg c2 1) + 272 \<le> 2 ^ 64" using a x1 by simp
  have ab: "xreg c2 1 = xreg c2 0 \<or> unat (xreg c2 1) + 272 \<le> unat (xreg c2 0) \<or> unat (xreg c2 0) + 272 \<le> unat (xreg c2 1)"
    using apart x1 by auto
  have ne: "xreg c2 1 \<noteq> xreg c2 0" using apart x1 by auto
  obtain m'' where r: "same_outside m2 m'' (unat (xreg c2 0)) 272"
    "exec switch_code (c2, m2) = (switch_restore (if xreg c2 1 = xreg c2 0 then switch_save c2 frame_zero
      else switch_save c frame_zero) c2, m'')"
    by (rule switch_code_effect [OF b b' ab f, where old = frame_zero])
  have "c3 = switch_restore (switch_save c frame_zero) c2" "m3 = m''" using second r(2) ne by simp_all
  then show ?thesis using s(3) m1 r(1) by (auto simp: switch_restore_def switch_save_def save_regs_def eret_def)
qed

section \<open>Witnesses\<close>

text \<open>A task switches away and back: its frame is at \<^verbatim>\<open>0x1000\<close>, the other task's at \<^verbatim>\<open>0x2000\<close>.\<close>

definition cpu_calls :: "u64 \<Rightarrow> u64 \<Rightarrow> cpu" where
  "cpu_calls a b = cpu_start\<lparr>xreg := (xreg cpu_start)(0 := a, 1 := b)\<rparr>"

theorem switch_roundtrip_witness:
  "\<exists>c1 m1 c3 m3. exec switch_code (cpu_calls 0x1000 0x2000, \<lambda>_. 0) = (c1, m1) \<and>
     exec switch_code (cpu_calls 0x2000 0x1000, m1) = (c3, m3) \<and> pc c3 = 0x40401000 \<and> xreg c3 7 = 7 \<and>
     el_of (pstate c3) = 0 \<and> el_of (pstate cpu_start) = 1"
proof -
  obtain c1 m1 where 1: "exec switch_code (cpu_calls 0x1000 0x2000, \<lambda>_. 0) = (c1, m1)" by fastforce
  obtain c3 m3 where 2: "exec switch_code (cpu_calls 0x2000 0x1000, m1) = (c3, m3)" by fastforce
  have x: "xreg (cpu_calls a b) 0 = a" "xreg (cpu_calls a b) 1 = b" "xreg (cpu_calls a b) (Suc 0) = b" "xreg (cpu_calls a b) 30 = 0x40401000"
    "xreg (cpu_calls a b) 7 = 7" "spsr_el1 (cpu_calls a b) = 0x3C0" for a b
    by (simp_all add: cpu_calls_def cpu_start_def)
  have "pc c3 = 0x40401000 \<and> xreg c3 7 = 7 \<and> pstate c3 = 0x3C0"
    using switch_roundtrip [OF 1 _ _ 2] by (simp add: x)
  then show ?thesis using 1 2 by (auto simp: el_of_def cpu_start_def)
qed

end
