(* ===== verification/Vectors.thy ===== *)
theory Vectors
  imports Exceptions
begin

text \<open>
  The vector tables of \<^verbatim>\<open>arch/aarch64/entry.S\<close> and the entries for EL2. The kernel boots at EL2 or
  at EL1 and stays there; \<open>sp_el1\<close> of the processor stands for the stack pointer of the level it
  runs at.
\<close>

section \<open>The tables\<close>

datatype exc_type = EXC_SYNC | EXC_IRQ | EXC_FIQ | EXC_SERROR
datatype exc_source = EXC_SRC_CURR_EL_SP0 | EXC_SRC_CURR_EL_SPX | EXC_SRC_LOWER_EL_64 | EXC_SRC_LOWER_EL_32

primrec type_code :: "exc_type \<Rightarrow> nat" where
  "type_code EXC_SYNC = 0" | "type_code EXC_IRQ = 1" | "type_code EXC_FIQ = 2" | "type_code EXC_SERROR = 3"

primrec source_code :: "exc_source \<Rightarrow> nat" where
  "source_code EXC_SRC_CURR_EL_SP0 = 0" | "source_code EXC_SRC_CURR_EL_SPX = 1"
| "source_code EXC_SRC_LOWER_EL_64 = 2" | "source_code EXC_SRC_LOWER_EL_32 = 3"

text \<open>The labels the branches of a table go to, from offset 0 in steps of \<^verbatim>\<open>0x80\<close>.\<close>

datatype vector = sync_exception | irq_exception | fiq_exception | serror_exception

definition exception_vectors_el1 :: "vector list" where
  "exception_vectors_el1 =
    [sync_exception, irq_exception, fiq_exception, serror_exception,
     sync_exception, irq_exception, fiq_exception, serror_exception,
     sync_exception, irq_exception, fiq_exception, serror_exception,
     sync_exception, irq_exception, fiq_exception, serror_exception]"

definition exception_vectors_el2 :: "vector list" where
  "exception_vectors_el2 =
    [sync_exception, irq_exception, fiq_exception, serror_exception,
     sync_exception, irq_exception, fiq_exception, serror_exception,
     sync_exception, irq_exception, fiq_exception, serror_exception,
     sync_exception, irq_exception, fiq_exception, serror_exception]"

definition vector_offset :: "exc_source \<Rightarrow> exc_type \<Rightarrow> nat" where
  "vector_offset src ty = 0x200 * source_code src + 0x80 * type_code ty"

text \<open>What the processor does for an exception to EL1, once it has written the return and syndrome registers.\<close>

definition take_exception_el1 ::
    "device \<Rightarrow> translation \<Rightarrow> (nat \<Rightarrow> u64) \<Rightarrow> calls \<Rightarrow> (nat \<Rightarrow> u64) \<Rightarrow> exc_source \<Rightarrow> exc_type \<Rightarrow> u64 \<Rightarrow> u64 \<Rightarrow> machine
      \<Rightarrow> machine outcome option" where
  "take_exception_el1 dev xlate clock call regs src ty esr far mc =
     (case exception_vectors_el1 ! (vector_offset src ty div 0x80) of
        sync_exception \<Rightarrow> sync_exception_el1 xlate clock regs esr far mc
      | irq_exception \<Rightarrow> irq_exception_el1 dev call regs mc
      | fiq_exception \<Rightarrow> Some (fiq_exception_el1 regs mc)
      | serror_exception \<Rightarrow> Some (serror_exception_el1 regs esr far mc))"

section \<open>The entries for EL2\<close>

text \<open>
  The macros are those of EL1, so they save and restore the return registers of EL1; \<^verbatim>\<open>eret\<close> at EL2
  uses those of EL2, which nothing saves.
\<close>

record el2_regs =
  elr_el2 :: u64
  spsr_el2 :: u64
  esr_el2 :: u64
  far_el2 :: u64

definition leave_el2 :: "el2_regs \<Rightarrow> machine \<Rightarrow> machine" where
  "leave_el2 e mc = on_sys (\<lambda>k. let (c, m) = restore_context (cpu_of k, mem_of k)
                              in k\<lparr>cpu_of := c\<lparr>pc := elr_el2 e, pstate := spsr_el2 e\<rparr>, mem_of := m\<rparr>) mc"

definition sync_exception_el2 ::
    "translation \<Rightarrow> (nat \<Rightarrow> u64) \<Rightarrow> (nat \<Rightarrow> u64) \<Rightarrow> el2_regs \<Rightarrow> machine \<Rightarrow> machine outcome option" where
  "sync_exception_el2 xlate clock regs e mc = do {
     let mc = clobber regs (enter mc);
     r \<leftarrow> handle_sync_exception xlate clock (exc_frame mc) (esr_el2 e) (far_el2 e) mc;
     Some (continue (\<lambda>mc. Returned (leave_el2 e mc)) id r)
   }"

definition irq_exception_el2 ::
    "device \<Rightarrow> calls \<Rightarrow> (nat \<Rightarrow> u64) \<Rightarrow> el2_regs \<Rightarrow> machine \<Rightarrow> machine outcome option" where
  "irq_exception_el2 dev call regs e mc = do {
     let mc = clobber regs (enter mc);
     r \<leftarrow> handle_irq_exception dev call mc;
     Some (continue (\<lambda>mc. Returned (leave_el2 e mc)) id r)
   }"

definition fiq_exception_el2 :: "(nat \<Rightarrow> u64) \<Rightarrow> el2_regs \<Rightarrow> machine \<Rightarrow> machine outcome" where
  "fiq_exception_el2 regs e mc =
     (let mc = clobber regs (enter mc)
      in continue (\<lambda>mc. Returned (leave_el2 e mc)) id (handle_fiq_exception (exc_frame mc) mc))"

definition serror_exception_el2 :: "(nat \<Rightarrow> u64) \<Rightarrow> el2_regs \<Rightarrow> machine \<Rightarrow> machine outcome" where
  "serror_exception_el2 regs e mc =
     (let mc = clobber regs (enter mc)
      in continue (\<lambda>mc. Returned (leave_el2 e mc)) id (handle_serror_exception (exc_frame mc) (esr_el2 e) (far_el2 e) mc))"

definition take_exception_el2 ::
    "device \<Rightarrow> translation \<Rightarrow> (nat \<Rightarrow> u64) \<Rightarrow> calls \<Rightarrow> (nat \<Rightarrow> u64) \<Rightarrow> exc_source \<Rightarrow> exc_type \<Rightarrow> el2_regs \<Rightarrow> machine
      \<Rightarrow> machine outcome option" where
  "take_exception_el2 dev xlate clock call regs src ty e mc =
     (case exception_vectors_el2 ! (vector_offset src ty div 0x80) of
        sync_exception \<Rightarrow> sync_exception_el2 xlate clock regs e mc
      | irq_exception \<Rightarrow> irq_exception_el2 dev call regs e mc
      | fiq_exception \<Rightarrow> Some (fiq_exception_el2 regs e mc)
      | serror_exception \<Rightarrow> Some (serror_exception_el2 regs e mc))"

text \<open>Whatever the source, an exception goes to the entry of its type.\<close>

lemma vector_of_type:
  "exception_vectors_el1 ! (vector_offset src ty div 0x80) =
     (case ty of EXC_SYNC \<Rightarrow> sync_exception | EXC_IRQ \<Rightarrow> irq_exception | EXC_FIQ \<Rightarrow> fiq_exception
      | EXC_SERROR \<Rightarrow> serror_exception)"
  "exception_vectors_el2 = exception_vectors_el1"
  by (cases src; cases ty; simp add: exception_vectors_el1_def vector_offset_def)
    (simp add: exception_vectors_el1_def exception_vectors_el2_def)

lemma take_el1_simps:
  "take_exception_el1 dev xlate clock call regs src EXC_SYNC esr far mc = sync_exception_el1 xlate clock regs esr far mc"
  "take_exception_el1 dev xlate clock call regs src EXC_IRQ esr far mc = irq_exception_el1 dev call regs mc"
  "take_exception_el1 dev xlate clock call regs src EXC_FIQ esr far mc = Some (fiq_exception_el1 regs mc)"
  "take_exception_el1 dev xlate clock call regs src EXC_SERROR esr far mc = Some (serror_exception_el1 regs esr far mc)"
  by (simp_all add: take_exception_el1_def vector_of_type)

text \<open>
  At EL2 the frame holds the return address of the last exception taken to EL1, not the address the
  exception came from: what is reported as \<^verbatim>\<open>ELR\<close> is not the interrupted instruction.
\<close>

lemma el2_frame_elr:
  assumes "272 \<le> unat (sp_el1 (cpu_of (sys_of mc)))"
  shows "frame_elr (mem_of (sys_of (clobber regs (enter mc)))) (exc_frame (clobber regs (enter mc))) =
      elr_el1 (cpu_of (sys_of mc))"
  using save_context_spec [OF assms, of "mem_of (sys_of mc)"]
  by (auto simp: clobber_def enter_def exc_frame_def)

section \<open>Hypervisor calls\<close>

text \<open>Only the console of the kernel state and the statistics change in the handler of a hypervisor call.\<close>

lemma hvc_handled:
  "\<exists>con. sys_of (snd (hypervisor_handle_hvc a b c d mc)) = (sys_of mc)\<lparr>con_of := con\<rparr>"
  "heap_of (snd (hypervisor_handle_hvc a b c d mc)) = heap_of mc"
proof -
  have t: "\<exists>con. sys_of (tell items mc) = (sys_of mc)\<lparr>con_of := con\<rparr>" for items and mc :: machine
    by (auto simp: say_def)
  have r: "\<exists>con. sys_of mc = (sys_of mc)\<lparr>con_of := con\<rparr>" by (rule exI [of _ "con_of (sys_of mc)"]) simp
  show "\<exists>con. sys_of (snd (hypervisor_handle_hvc a b c d mc)) = (sys_of mc)\<lparr>con_of := con\<rparr>"
    using t [of _ "mc\<lparr>stats := (stats mc)\<lparr>hvc_count := hvc_count (stats mc) + 1\<rparr>\<rparr>"] r
    by (simp add: hypervisor_handle_hvc_def Let_def)
  show "heap_of (snd (hypervisor_handle_hvc a b c d mc)) = heap_of mc"
    by (simp add: hypervisor_handle_hvc_def Let_def)
qed

lemma hvc_taken:
  fixes regs :: "nat \<Rightarrow> u64"
  assumes sp: "272 \<le> unat (sp_el1 (cpu_of (sys_of mc)))" and ec: "ec_of (esr_el2 e) = 0x16"
  defines "x \<equiv> xreg (cpu_of (sys_of mc))"
  obtains mc' c m con where "sync_exception_el2 xlate clock regs e mc = Some (Returned mc')"
    "heap_of mc' = heap_of mc" "sys_of mc' = (sys_of mc)\<lparr>cpu_of := c, mem_of := m, con_of := con\<rparr>"
    "xreg c 0 = fst (hypervisor_handle_hvc (x 0) (x 1) (x 2) (x 3) (clobber regs (enter mc)))"
    "\<And>k. 1 \<le> k \<Longrightarrow> k \<le> 30 \<Longrightarrow> xreg c k = x k" "sp_el1 c = sp_el1 (cpu_of (sys_of mc))"
    "pc c = elr_el2 e" "pstate c = spsr_el2 e"
    "same_outside (mem_of (sys_of mc)) m (unat (sp_el1 (cpu_of (sys_of mc))) - 272) 272"
proof -
  let ?k = "sys_of mc" and ?c = "cpu_of (sys_of mc)"
  obtain c1 m1 where E: "save_context (?c, mem_of ?k) = (c1, m1)"
    "clobber regs (enter mc) = on_sys (\<lambda>k. k\<lparr>cpu_of := c1\<lparr>xreg := regs\<rparr>, mem_of := m1\<rparr>) mc"
    "exc_frame (clobber regs (enter mc)) = sp_el1 c1" "unat (sp_el1 c1) + 272 = unat (sp_el1 ?c)"
    "same_outside (mem_of ?k) m1 (unat (sp_el1 c1)) 272" "\<And>k. k \<le> 30 \<Longrightarrow> frame_reg m1 (sp_el1 c1) k = x k"
    using enter_spec [OF sp, of regs] unfolding x_def by metis
  define mc1 where "mc1 = clobber regs (enter mc)"
  have mc1: "sys_of mc1 = ?k\<lparr>cpu_of := c1\<lparr>xreg := regs\<rparr>, mem_of := m1\<rparr>" "heap_of mc1 = heap_of mc"
    by (simp_all add: mc1_def E(2))
  let ?h = "hypervisor_handle_hvc (x 0) (x 1) (x 2) (x 3) mc1"
  define r mc2 where "r = fst ?h" and "mc2 = snd ?h"
  obtain con where h: "sys_of mc2 = (sys_of mc1)\<lparr>con_of := con\<rparr>" "heap_of mc2 = heap_of mc1"
    using hvc_handled [of "x 0" "x 1" "x 2" "x 3" mc1] unfolding mc2_def by blast
  have hr: "?h = (r, mc2)" by (simp add: r_def mc2_def)
  let ?m = "store64 m1 (sp_el1 c1) r"
  have run: "sync_exception_el2 xlate clock regs e mc = Some (Returned (leave_el2 e (set_result (sp_el1 c1) r mc2)))"
    using E(6) ec hr E(3)
    by (simp add: sync_exception_el2_def mc1_def [symmetric] handle_sync_exception_def ec_of_def Let_def mc1)
  have b: "unat (sp_el1 c1) + 272 \<le> 2 ^ 64" using E(4) less_imp_le [OF unat_u64_lt [of "sp_el1 ?c"]] by simp
  have so: "same_outside m1 ?m (unat (sp_el1 c1)) 8" by (rule same_outside_store64) (use b in simp_all)
  have kept: "frame_kept (sp_el1 c1) m1 ?m" using so by (simp add: frame_kept_def same_outside_def)
  have sp': "sp_el1 (c1\<lparr>xreg := regs\<rparr>) = sp_el1 c1" by simp
  obtain c3 where
    R: "restore_context (c1\<lparr>xreg := regs\<rparr>, ?m) = (c3, ?m)" "sp_el1 c3 = sp_el1 ?c" "xreg c3 0 = r"
      "\<And>k. 1 \<le> k \<Longrightarrow> k \<le> 30 \<Longrightarrow> xreg c3 k = x k"
    using restore_after [OF sp E(1) sp' kept] unfolding x_def load64_store64 by metis
  have "same_outside m1 ?m (unat (sp_el1 c1)) 272" by (rule same_outside_mono [OF so]) simp_all
  with E(5) have "same_outside (mem_of ?k) ?m (unat (sp_el1 c1)) 272" by (rule same_outside_trans)
  moreover have "unat (sp_el1 ?c) - 272 = unat (sp_el1 c1)" using E(4) by simp
  ultimately show thesis
    using that [OF run, where c = "c3\<lparr>pc := elr_el2 e, pstate := spsr_el2 e\<rparr>" and m = ?m and con = con] R h
    by (simp add: leave_el2_def set_result_def mc1 r_def mc1_def [symmetric])
qed

section \<open>Properties\<close>

text \<open>
  C36: a hypervisor call from EL2 returns, whichever vector it takes: with the handler's result in \<^verbatim>\<open>x0\<close>,
  every other register and the stack pointer as they were, at the address and with the status
  that the processor noted for EL2, and with no byte of memory changed outside the 272 bytes
  below the stack pointer.
\<close>
theorem hvc_returns_to_caller:
  assumes "272 \<le> unat (sp_el1 (cpu_of (sys_of mc)))" "ec_of (esr_el2 e) = 0x16" "x = xreg (cpu_of (sys_of mc))"
  shows "\<exists>mc'. take_exception_el2 dev xlate clock call regs src EXC_SYNC e mc = Some (Returned mc') \<and>
    (let c = cpu_of (sys_of mc); c' = cpu_of (sys_of mc') in
       xreg c' 0 = fst (hypervisor_handle_hvc (x 0) (x 1) (x 2) (x 3) (clobber regs (enter mc))) \<and>
       (\<forall>k. 1 \<le> k \<and> k \<le> 30 \<longrightarrow> xreg c' k = x k) \<and> sp_el1 c' = sp_el1 c \<and>
       pc c' = elr_el2 e \<and> pstate c' = spsr_el2 e \<and>
       same_outside (mem_of (sys_of mc)) (mem_of (sys_of mc')) (unat (sp_el1 c) - 272) 272)"
proof -
  obtain mc' c m con where r: "sync_exception_el2 xlate clock regs e mc = Some (Returned mc')"
    "sys_of mc' = (sys_of mc)\<lparr>cpu_of := c, mem_of := m, con_of := con\<rparr>"
    "xreg c 0 = fst (hypervisor_handle_hvc (x 0) (x 1) (x 2) (x 3) (clobber regs (enter mc)))"
    "\<And>k. 1 \<le> k \<Longrightarrow> k \<le> 30 \<Longrightarrow> xreg c k = x k" "sp_el1 c = sp_el1 (cpu_of (sys_of mc))"
    "pc c = elr_el2 e" "pstate c = spsr_el2 e"
    "same_outside (mem_of (sys_of mc)) m (unat (sp_el1 (cpu_of (sys_of mc))) - 272) 272"
    using hvc_taken [OF assms(1,2), of xlate clock regs] unfolding assms(3) by metis
  show ?thesis
    by (rule exI [of _ mc']) (use r in \<open>simp add: take_exception_el2_def vector_of_type Let_def\<close>)
qed

text \<open>The version call of the boot sequence.\<close>

theorem hvc_returns_to_caller_witness:
  "\<exists>mc'. take_exception_el2 (\<lambda>_ _. 0) (\<lambda>_ _ a. a) (\<lambda>_. 0) (\<lambda>_ _ _ _. None) (\<lambda>_. 0) EXC_SRC_CURR_EL_SPX EXC_SYNC
      \<lparr>elr_el2 = 0x40400100, spsr_el2 = 0x3C9, esr_el2 = 0x5A000000, far_el2 = 0\<rparr> (svc_machine 0 HVC_GET_VERSION) = Some (Returned mc') \<and>
     xreg (cpu_of (sys_of mc')) 0 = 0x10000 \<and> pc (cpu_of (sys_of mc')) = 0x40400100"
proof -
  let ?e = "\<lparr>elr_el2 = 0x40400100, spsr_el2 = 0x3C9, esr_el2 = 0x5A000000, far_el2 = 0\<rparr>"
  have ec: "ec_of (esr_el2 ?e) = 0x16" by (simp add: ec_of_def)
  have "xreg (cpu_of (sys_of (svc_machine 0 HVC_GET_VERSION))) 0 = HVC_GET_VERSION"
    by (simp add: svc_machine_def machine_of_def)
  moreover have "fst (hypervisor_handle_hvc HVC_GET_VERSION b c d mc) = 0x10000" for b c d mc
    by (simp add: hypervisor_handle_hvc_def HYPERVISOR_VERSION_MAJOR_def HYPERVISOR_VERSION_MINOR_def)
  ultimately show ?thesis
    using hvc_returns_to_caller [OF svc_machine_sp [of 0 HVC_GET_VERSION] ec refl, of "\<lambda>_ _. 0" "\<lambda>_ _ a. a" "\<lambda>_. 0"
        "\<lambda>_ _ _ _. None" "\<lambda>_. 0" EXC_SRC_CURR_EL_SPX] by (auto simp: Let_def)
qed

end
