(* ===== verification/Kernel_Main.thy ===== *)
theory Kernel_Main
  imports Vectors
begin

text \<open>
  \<^verbatim>\<open>core/main.c\<close>: the boot sequence, up to the endless \<^verbatim>\<open>wfi\<close> loop it ends in. The addresses that
  the linker and the compiler choose (functions, embedded user images, the local buffer) are a
  parameter.
\<close>

record symbols =
  idle_task_func :: u64
  timer_isr :: u64
  task_a_func :: u64
  task_b_func :: u64
  task_c_func :: u64
  hello_start :: u64
  hello_end :: u64
  counter_start :: u64
  counter_end :: u64
  stack_buffer :: u64

definition KERNEL_VERSION_MAJOR :: u64 where "KERNEL_VERSION_MAJOR = 0"
definition KERNEL_VERSION_MINOR :: u64 where "KERNEL_VERSION_MINOR = 1"
definition KERNEL_VERSION_PATCH :: u64 where "KERNEL_VERSION_PATCH = 0"

text \<open>Lifting the components' operations to the machine.\<close>

definition on_pmm :: "(pmm \<times> console \<Rightarrow> pmm \<times> console) \<Rightarrow> machine \<Rightarrow> machine" where
  "on_pmm f mc = on_sys (\<lambda>k. let (p, con) = f (pmm_of k, con_of k) in k\<lparr>pmm_of := p, con_of := con\<rparr>) mc"

definition on_gic :: "(bus \<times> console \<Rightarrow> bus \<times> console) \<Rightarrow> machine \<Rightarrow> machine" where
  "on_gic f mc = (let (b, con) = f (gic_bus mc, con_of (sys_of mc))
                  in on_sys (\<lambda>k. k\<lparr>con_of := con\<rparr>) (mc\<lparr>gic_bus := b\<rparr>))"

definition heap_state :: "machine \<Rightarrow> hst" where
  "heap_state mc = (heap_of mc, pmm_of (sys_of mc), mem_of (sys_of mc), con_of (sys_of mc))"

definition set_heap_state :: "hst \<Rightarrow> machine \<Rightarrow> machine" where
  "set_heap_state st mc =
     (let (h, p, m, con) = st
      in on_sys (\<lambda>k. k\<lparr>pmm_of := p, mem_of := m, con_of := con\<rparr>) (mc\<lparr>heap_of := h\<rparr>))"

text \<open>What comes after a call that may not return.\<close>

definition returned :: "'a outcome option \<Rightarrow> 'a option" where
  "returned r = (case r of Some (Returned s) \<Rightarrow> Some s | _ \<Rightarrow> None)"

section \<open>Banner, system information, basic tests\<close>

definition print_banner :: "machine \<Rightarrow> machine" where
  "print_banner mc =
     tell [NL, S ''========================================'', NL, S ''  AArch64 Bare Metal OS'', NL,
           S ''  Version '', C (digit KERNEL_VERSION_MAJOR), C (of_char (CHR ''.'')),
           C (digit KERNEL_VERSION_MINOR), C (of_char (CHR ''.'')), C (digit KERNEL_VERSION_PATCH), NL,
           S ''========================================'', NL, NL] mc"

definition print_system_info :: "u64 \<Rightarrow> u64 \<Rightarrow> machine \<Rightarrow> machine" where
  "print_system_info device_tree current_el mc =
     (let midr = midr_el1 mc; mpidr = mpidr_el1 mc;
          mc = tell [S ''System Information:'', NL, S ''  Exception Level: EL'', C (digit current_el), NL,
                     S ''  CPU ID (MIDR):   '', X midr, NL, S ''  CPU Affinity:    '', X mpidr, NL] mc;
          mc = (if device_tree \<noteq> 0
                then tell [S ''  Device Tree:     '', X device_tree, NL] mc
                else tell [S ''  Device Tree:     Not provided'', NL] mc)
      in tell [NL] mc)"

definition test_basic_functions :: "u64 \<Rightarrow> u64 \<Rightarrow> machine \<Rightarrow> machine" where
  "test_basic_functions buf current_el mc =
     (let mc = tell [S ''Testing basic functions:'', NL, S ''  [1] UART output:      OK'', NL,
                     S ''  [2] String functions: ''] mc;
          mc = on_sys (\<lambda>k. k\<lparr>mem_of := fst (memset (mem_of k) buf (of_char (CHR ''A'')) 16)\<rparr>) mc;
          mc = on_sys (\<lambda>k. k\<lparr>mem_of := (mem_of k)(buf + 15 := 0)\<rparr>) mc;
          m = mem_of (sys_of mc);
          mc = (if m buf = of_char (CHR ''A'') \<and> m (buf + 14) = of_char (CHR ''A'')
                then tell [S ''OK'', NL] mc else tell [S ''FAIL'', NL] mc);
          mc = tell [S ''  [3] Exception level:  ''] mc;
          mc = (if current_el = 2 then tell [S ''EL2 (Hypervisor mode) - Perfect for Type-1 HV'', NL] mc
                else if current_el = 1 then tell [S ''EL1 (Kernel mode)'', NL] mc
                else tell [S ''Unknown'', NL] mc)
      in tell [NL] mc)"

section \<open>The memory test and the hypervisor calls\<close>

definition heap_test :: "machine \<Rightarrow> machine option" where
  "heap_test mc = do {
     let mc = tell [S ''Testing memory allocator:'', NL] mc;
     (ptr1, st) \<leftarrow> kmalloc 64 (heap_state mc);
     let mc = set_heap_state st mc;
     if ptr1 \<noteq> 0 then do {
       let mc = tell [S ''  kmalloc(64): '', X ptr1, S '' - OK'', NL] mc;
       st \<leftarrow> kfree ptr1 (heap_state mc);
       Some (tell [S ''  kfree(): OK'', NL] (set_heap_state st mc))
     } else Some mc
   }"

text \<open>
  \<^verbatim>\<open>hvc #0\<close> at EL2 with \<^verbatim>\<open>x0\<close> and, for some functions, \<^verbatim>\<open>x1\<close> set: the processor notes the
  address after the instruction, the status and the syndrome of an HVC, and takes the
  synchronous vector; the result is \<^verbatim>\<open>x0\<close>.
\<close>

definition hvc_call ::
    "translation \<Rightarrow> (nat \<Rightarrow> u64) \<Rightarrow> (nat \<Rightarrow> u64) \<Rightarrow> u64 \<Rightarrow> u64 option \<Rightarrow> machine \<Rightarrow> (u64 \<times> machine) option" where
  "hvc_call xlate clock regs func arg mc = do {
     let x = xreg (cpu_of (sys_of mc));
     let x = x(0 := func);
     let x = (case arg of None \<Rightarrow> x | Some a \<Rightarrow> x(1 := a));
     let mc = clobber x mc;
     let c = cpu_of (sys_of mc);
     let e = \<lparr>elr_el2 = pc c, spsr_el2 = pstate c, esr_el2 = 0x5A000000, far_el2 = 0\<rparr>;
     mc \<leftarrow> returned (sync_exception_el2 xlate clock regs e mc);
     Some (xreg (cpu_of (sys_of mc)) 0, mc)
   }"

definition hvc_tests ::
    "translation \<Rightarrow> (nat \<Rightarrow> u64) \<Rightarrow> (nat \<Rightarrow> u64) \<Rightarrow> machine \<Rightarrow> machine option" where
  "hvc_tests xlate clock regs mc = do {
     let mc = tell [S ''========================================'', NL, S ''Testing Hypervisor Calls (HVC)'', NL,
                    S ''========================================'', NL, NL] mc;
     (version, mc) \<leftarrow> hvc_call xlate clock regs HVC_GET_VERSION None mc;
     let mc = tell [S ''HVC_GET_VERSION:   '', X version, S '' (v'',
                    C (digit (drop_bit 16 version AND 0xFF)), C (of_char (CHR ''.'')),
                    C (digit (version AND 0xFF)), S '')'', NL] mc;
     let mc = tell [S ''HVC_CONSOLE_PUTC:  ''] mc;
     (_, mc) \<leftarrow> hvc_call xlate clock regs HVC_CONSOLE_PUTC (Some (of_char (CHR ''H''))) mc;
     (_, mc) \<leftarrow> hvc_call xlate clock regs HVC_CONSOLE_PUTC (Some (of_char (CHR ''V''))) mc;
     (_, mc) \<leftarrow> hvc_call xlate clock regs HVC_CONSOLE_PUTC (Some (of_char (CHR ''C''))) mc;
     (_, mc) \<leftarrow> hvc_call xlate clock regs HVC_CONSOLE_PUTC (Some (of_char (CHR ''!''))) mc;
     let mc = tell [NL] mc;
     (vm_info, mc) \<leftarrow> hvc_call xlate clock regs HVC_VM_INFO None mc;
     let mc = tell [S ''HVC_VM_INFO:       EL'', C (digit vm_info), NL] mc;
     Some (hypervisor_dump_state mc)
   }"

section \<open>The boot sequence\<close>

definition create_kernel_tasks :: "symbols \<Rightarrow> sys \<Rightarrow> sys option" where
  "create_kernel_tasks syms k = do {
     let k = say [S ''Creating test tasks...'', NL] k;
     (_, k) \<leftarrow> task_create ''Task-A'' (task_a_func syms) 0 10 k;
     (_, k) \<leftarrow> task_create ''Task-B'' (task_b_func syms) 0 10 k;
     (_, k) \<leftarrow> task_create ''Task-C'' (task_c_func syms) 0 10 k;
     Some (say [NL] k)
   }"

definition create_user_tasks :: "linker \<Rightarrow> symbols \<Rightarrow> sys \<Rightarrow> sys option" where
  "create_user_tasks lk syms k = do {
     let k = say [S ''========================================'', NL, S ''Creating User Mode Tasks'', NL,
                  S ''========================================'', NL] k;
     let hello_size = hello_end syms - hello_start syms;
     let counter_size = counter_end syms - counter_start syms;
     (_, k) \<leftarrow> task_create_user lk ''user-hello'' (hello_start syms) hello_size 10 k;
     (_, k) \<leftarrow> task_create_user lk ''user-counter'' (counter_start syms) counter_size 10 k;
     Some (say [S ''User tasks created!'', NL, S ''========================================'', NL, NL] k)
   }"

definition unmask_irqs :: "sys \<Rightarrow> sys" where
  "unmask_irqs k = k\<lparr>cpu_of := (cpu_of k)\<lparr>pstate := pstate (cpu_of k) AND NOT (push_bit 7 1)\<rparr>\<rparr>"

definition on_sys_opt :: "(sys \<Rightarrow> sys option) \<Rightarrow> machine \<Rightarrow> machine option" where
  "on_sys_opt f mc = do { k \<leftarrow> f (sys_of mc); Some (mc\<lparr>sys_of := k\<rparr>) }"

text \<open>
  Printing goes to the console of the state; what the code in between prints is sent through the UART driver here, \<open>con\<close>
  being the console before it; \<open>dev\<close> answers for the UART and the GIC from the accesses to each. The driver keeps no other state and touches no register but its own, so that sending the bytes
  later changes nothing else; sending them does not end (and the boot sequence with it) if the device never reports room.
\<close>

definition flush_uart :: "device \<Rightarrow> console \<Rightarrow> machine \<Rightarrow> machine option" where
  "flush_uart dev con mc = do {
     b \<leftarrow> transmit dev (drop (length con) (con_of (sys_of mc))) (uart_bus mc);
     Some (mc\<lparr>uart_bus := b\<rparr>)
   }"

text \<open>From the entry to the unmasking of interrupts.\<close>

definition kernel_init :: "linker \<Rightarrow> device \<Rightarrow> symbols \<Rightarrow> u64 \<Rightarrow> u64 \<Rightarrow> machine \<Rightarrow> machine option" where
  "kernel_init lk dev syms dtb el mc = do {
     let con0 = con_of (sys_of mc);
     let mc = mc\<lparr>uart_bus := uart_init (uart_bus mc)\<rparr>;
     let mc = print_banner mc;
     let mc = print_system_info dtb el mc;
     let mc = test_basic_functions (stack_buffer syms) el mc;
     let mc = (if el = 2 then hypervisor_init mc else mc);
     let mc = on_pmm pmm_init mc;
     mc \<leftarrow> on_sys_opt (\<lambda>k. do { v \<leftarrow> mmu_init lk (vm_of k); Some (set_vm v k) }) mc;
     let (h, con) = kmalloc_init (heap_of mc, con_of (sys_of mc));
     let mc = on_sys (\<lambda>k. k\<lparr>con_of := con\<rparr>) (mc\<lparr>heap_of := h\<rparr>);
     let mc = on_gic (gic_init dev) mc;
     let mc = irq_init mc;
     let mc = timer_init (timer_isr syms) mc;
     mc \<leftarrow> on_sys_opt (sched_init (idle_task_func syms)) mc;
     let mc = tell [S ''Enabling IRQs at CPU level...'', NL] mc;
     let mc = on_sys unmask_irqs mc;
     flush_uart dev con0 (tell [S ''IRQs enabled!'', NL, NL] mc)
   }"

definition kernel_main ::
    "linker \<Rightarrow> device \<Rightarrow> translation \<Rightarrow> (nat \<Rightarrow> u64) \<Rightarrow> (nat \<Rightarrow> u64) \<Rightarrow> symbols \<Rightarrow> u64 \<Rightarrow> u64 \<Rightarrow> machine \<Rightarrow> machine option" where
  "kernel_main lk dev xlate clock regs syms dtb el mc = do {
     mc \<leftarrow> kernel_init lk dev syms dtb el mc;
     let con1 = con_of (sys_of mc);
     mc \<leftarrow> heap_test mc;
     let mc = on_sys (\<lambda>k. k\<lparr>con_of := pmm_dump_stats (pmm_of k) (con_of k)\<rparr>) mc;
     let mc = on_sys (\<lambda>k. k\<lparr>con_of := kmalloc_dump_stats (heap_of mc) (con_of k)\<rparr>) mc;
     let mc = tell [NL, S ''========================================'', NL,
                    S ''Kernel initialization complete!'', NL,
                    S ''========================================'', NL, NL] mc;
     mc \<leftarrow> (if el = 2 then hvc_tests xlate clock regs mc else Some mc);
     mc \<leftarrow> on_sys_opt (create_kernel_tasks syms) mc;
     mc \<leftarrow> on_sys_opt (create_user_tasks lk syms) mc;
     let mc = on_sys sched_dump_tasks mc;
     flush_uart dev con1 (tell [NL, S ''========================================'', NL,
                               S ''Starting Preemptive Multitasking!'', NL,
                               S ''========================================'', NL, NL] mc)
   }"

end
