(* ===== verification/Heap_Spec.thy ===== *)
theory Heap_Spec
  imports Prelude
begin

text \<open>
  The contract of a memory allocator, as its callers rely on it, and what follows for any sequence
  of calls. \<open>holds s E\<close>: in state \<open>s\<close> the extents in use are \<open>E\<close> (start and length).
\<close>

definition cells_apart :: "u64 \<times> nat \<Rightarrow> u64 \<times> nat \<Rightarrow> bool" where
  "cells_apart e e' \<longleftrightarrow> unat (fst e) + snd e \<le> unat (fst e') \<or> unat (fst e') + snd e' \<le> unat (fst e)"

text \<open>A caller's calls: a request, or the release of the pointer at a position of those it has.\<close>

datatype heap_op = Malloc u64 | Free nat

fun heap_run ::
    "(u64 \<Rightarrow> 's \<Rightarrow> (u64 \<times> 's) option) \<Rightarrow> (u64 \<Rightarrow> 's \<Rightarrow> 's option) \<Rightarrow> heap_op list \<Rightarrow>
      (u64 \<times> u64) list \<times> 's \<Rightarrow> ((u64 \<times> u64) list \<times> 's) option" where
  "heap_run alloc rel [] (ps, s) = Some (ps, s)"
| "heap_run alloc rel (Malloc n # ops) (ps, s) = do {
     (p, s) \<leftarrow> alloc n s;
     heap_run alloc rel ops (if p = 0 then ps else ps @ [(p, n)], s)
   }"
| "heap_run alloc rel (Free j # ops) (ps, s) =
     (if j < length ps then do {
        s \<leftarrow> rel (fst (ps ! j)) s;
        heap_run alloc rel ops (take j ps @ drop (Suc j) ps, s)
      } else heap_run alloc rel ops (ps, s))"

fun op_fits :: "(u64 \<Rightarrow> bool) \<Rightarrow> heap_op \<Rightarrow> bool" where
  "op_fits fits (Malloc n) = fits n"
| "op_fits fits (Free j) = True"

locale heap_interface =
  fixes holds :: "'s \<Rightarrow> (u64 \<times> nat) set \<Rightarrow> bool"
    and fits :: "u64 \<Rightarrow> bool"
    and alloc :: "u64 \<Rightarrow> 's \<Rightarrow> (u64 \<times> 's) option"
    and rel :: "u64 \<Rightarrow> 's \<Rightarrow> 's option"
  assumes apart: "holds s E \<Longrightarrow> e \<in> E \<Longrightarrow> e' \<in> E \<Longrightarrow> e \<noteq> e' \<Longrightarrow> cells_apart e e'"
    and positive: "holds s E \<Longrightarrow> (p, k) \<in> E \<Longrightarrow> 0 < k"
    and alloc_law: "holds s E \<Longrightarrow> fits n \<Longrightarrow> \<exists>p s'. alloc n s = Some (p, s') \<and>
      (p = 0 \<and> holds s' E \<or> p \<noteq> 0 \<and> (\<exists>k. unat n \<le> k \<and> (p, k) \<notin> E \<and> holds s' (insert (p, k) E)))"
    and rel_law: "holds s E \<Longrightarrow> (p, k) \<in> E \<Longrightarrow> \<exists>s'. rel p s = Some s' \<and> holds s' (E - {(p, k)})"
begin

text \<open>The caller's list of pointers is the set of extents in use.\<close>

definition client :: "(u64 \<times> u64) list \<Rightarrow> (u64 \<Rightarrow> nat) \<Rightarrow> 's \<Rightarrow> bool" where
  "client ps len s \<longleftrightarrow> distinct (map fst ps) \<and> holds s ((\<lambda>p. (p, len p)) ` fst ` set ps) \<and>
     (\<forall>x \<in> set ps. unat (snd x) \<le> len (fst x))"

lemma client_alloc:
  assumes c: "client ps len s" and n: "fits n"
  shows "\<exists>p s' len'. alloc n s = Some (p, s') \<and> client (if p = 0 then ps else ps @ [(p, n)]) len' s'"
proof -
  let ?E = "(\<lambda>p. (p, len p)) ` fst ` set ps"
  have h: "holds s ?E" using c by (simp add: client_def)
  from alloc_law [OF h n] obtain p s' where a: "alloc n s = Some (p, s')"
    "p = 0 \<and> holds s' ?E \<or> p \<noteq> 0 \<and> (\<exists>k. unat n \<le> k \<and> (p, k) \<notin> ?E \<and> holds s' (insert (p, k) ?E))" by blast
  from a(2) show ?thesis
  proof (elim disjE conjE exE)
    assume "p = 0" "holds s' ?E"
    then have "client (if p = 0 then ps else ps @ [(p, n)]) len s'" using c by (simp add: client_def)
    with a(1) show ?thesis by blast
  next
    fix k assume k: "p \<noteq> 0" "unat n \<le> k" "(p, k) \<notin> ?E" "holds s' (insert (p, k) ?E)"
    have new: "p \<notin> fst ` set ps"
    proof
      assume p: "p \<in> fst ` set ps"
      then have i: "(p, len p) \<in> insert (p, k) ?E" by blast
      have "(p, k) \<noteq> (p, len p)" using k(3) p by auto
      then have "cells_apart (p, k) (p, len p)" using apart [OF k(4) insertI1 i] by blast
      moreover have "0 < k" "0 < len p" using positive [OF k(4) insertI1] positive [OF k(4) i] by auto
      ultimately show False by (simp add: cells_apart_def)
    qed
    have "(\<lambda>q. (q, (len(p := k)) q)) ` fst ` set ps = ?E"
      by (rule image_cong [OF refl]) (use new in auto)
    then have "holds s' ((\<lambda>q. (q, (len(p := k)) q)) ` fst ` set (ps @ [(p, n)]))" using k(4) by simp
    moreover have "unat (snd x) \<le> (len(p := k)) (fst x)" if "x \<in> set (ps @ [(p, n)])" for x
      using that c new k(2) by (auto simp: client_def image_iff)
    ultimately have "client (ps @ [(p, n)]) (len(p := k)) s'" using c new by (auto simp: client_def)
    with a(1) k(1) show ?thesis by auto
  qed
qed

lemma client_free:
  assumes c: "client ps len s" and j: "j < length ps"
  shows "\<exists>s'. rel (fst (ps ! j)) s = Some s' \<and> client (take j ps @ drop (Suc j) ps) len s'"
proof -
  let ?E = "(\<lambda>p. (p, len p)) ` fst ` set ps" and ?p = "fst (ps ! j)"
  let ?qs = "take j ps @ drop (Suc j) ps"
  have h: "holds s ?E" using c by (simp add: client_def)
  have "(?p, len ?p) \<in> ?E" using j by auto
  from rel_law [OF h this] obtain s' where s': "rel ?p s = Some s'" "holds s' (?E - {(?p, len ?p)})" by blast
  have ps: "ps = take j ps @ ps ! j # drop (Suc j) ps" by (rule id_take_nth_drop [OF j])
  have "distinct (map fst (take j ps @ ps ! j # drop (Suc j) ps))" using c ps by (simp add: client_def)
  then have d: "distinct (map fst ?qs)" "?p \<notin> fst ` set ?qs" by auto
  have "fst ` set ps = insert ?p (fst ` set ?qs)" by (subst ps) auto
  then have "?E - {(?p, len ?p)} = (\<lambda>p. (p, len p)) ` (fst ` set ?qs)"
    using d(2) by (simp add: image_iff)
  moreover have "set ?qs \<subseteq> set ps" by (subst (2) ps) auto
  ultimately have "client ?qs len s'" using c d(1) s'(2) by (auto simp: client_def)
  with s'(1) show ?thesis by blast
qed

lemma run_client:
  assumes "client ps len s" "\<forall>x \<in> set ops. op_fits fits x"
  shows "\<exists>ps' s' len'. heap_run alloc rel ops (ps, s) = Some (ps', s') \<and> client ps' len' s'"
  using assms
proof (induction ops arbitrary: ps len s)
  case Nil
  then show ?case by auto
next
  case (Cons x ops)
  show ?case
  proof (cases x)
    case (Malloc n)
    then have "fits n" using Cons.prems(2) by simp
    from client_alloc [OF Cons.prems(1) this] obtain p s1 len1 where
      "alloc n s = Some (p, s1)" "client (if p = 0 then ps else ps @ [(p, n)]) len1 s1" by blast
    with Cons.IH [OF this(2)] Cons.prems(2) show ?thesis by (simp add: Malloc)
  next
    case (Free j)
    show ?thesis
    proof (cases "j < length ps")
      case True
      from client_free [OF Cons.prems(1) True] obtain s1 where
        "rel (fst (ps ! j)) s = Some s1" "client (take j ps @ drop (Suc j) ps) len s1" by blast
      with Cons.IH [OF this(2)] Cons.prems(2) True show ?thesis by (simp add: Free)
    next
      case False
      with Cons show ?thesis by (simp add: Free)
    qed
  qed
qed

text \<open>Whatever a caller does, the memory it has asked for and not released does not overlap.\<close>

lemma run_apart:
  assumes "holds s {}" "\<forall>x \<in> set ops. op_fits fits x"
  shows "\<exists>ps s' E. heap_run alloc rel ops ([], s) = Some (ps, s') \<and> holds s' E \<and> distinct (map fst ps) \<and>
    fst ` set ps = fst ` E \<and>
    (\<forall>x \<in> set ps. \<forall>y \<in> set ps. x \<noteq> y \<longrightarrow> cells_apart (fst x, unat (snd x)) (fst y, unat (snd y)))"
proof -
  have "client [] (\<lambda>_. 0) s" using assms(1) by (simp add: client_def)
  from run_client [OF this assms(2)] obtain ps s' len where
    r: "heap_run alloc rel ops ([], s) = Some (ps, s')" "client ps len s'" by blast
  let ?E = "(\<lambda>p. (p, len p)) ` fst ` set ps"
  have h: "holds s' ?E" using r(2) by (simp add: client_def)
  have d: "distinct (map fst ps)" and le: "\<And>x. x \<in> set ps \<Longrightarrow> unat (snd x) \<le> len (fst x)"
    using r(2) by (auto simp: client_def)
  have "cells_apart (fst x, unat (snd x)) (fst y, unat (snd y))" if xy: "x \<in> set ps" "y \<in> set ps" "x \<noteq> y" for x y
  proof -
    have "fst x \<noteq> fst y" using d xy by (auto simp: distinct_map dest: inj_onD)
    then have "cells_apart (fst x, len (fst x)) (fst y, len (fst y))" using xy by (intro apart [OF h]) auto
    then show ?thesis using le [OF xy(1)] le [OF xy(2)] unfolding cells_apart_def fst_conv snd_conv by linarith
  qed
  moreover have "fst ` set ps = fst ` ?E" by (simp add: image_image)
  ultimately show ?thesis using r(1) h d by blast
qed

end

end
