(* ===== verification/Kmalloc_Correct.thy ===== *)
theory Kmalloc_Correct
  imports Kmalloc Heap_Spec
begin

text \<open>
  Correctness of the kernel heap. The objects of slab \<open>i\<close> are the cells its frames are cut into;
  \<open>heap_rel\<close> ties the concrete heap, with its headers and free lists in memory, to the frames and
  blocks it has and the objects that are free. The live extents are what callers may use.
\<close>

section \<open>Objects\<close>

definition osz :: "nat \<Rightarrow> nat" where
  "osz i = 2 ^ (i + 4) + 24"

definition opp :: "nat \<Rightarrow> nat" where
  "opp i = 4096 div osz i"

definition oaddr :: "nat \<Rightarrow> nat \<Rightarrow> nat \<Rightarrow> u64" where
  "oaddr i f j = page_to_phys f + of_nat j * of_nat (osz i)"

definition objs :: "nat \<Rightarrow> nat set \<Rightarrow> u64 set" where
  "objs i F = (\<lambda>(f, j). oaddr i f j) ` (F \<times> {..<opp i})"

lemma less_8_cases: "i < 8 \<Longrightarrow> i = 0 \<or> i = 1 \<or> i = 2 \<or> i = 3 \<or> i = 4 \<or> i = 5 \<or> i = 6 \<or> (i :: nat) = 7"
  by linarith

lemma slab_sizes_eq: "i < 8 \<Longrightarrow> slab_sizes i = 2 ^ (i + 4)"
  by (drule less_8_cases) (auto simp: slab_sizes_def)

lemma unat_slab_sizes: "i < 8 \<Longrightarrow> unat (slab_sizes i) = 2 ^ (i + 4)"
  by (drule less_8_cases) (auto simp: slab_sizes_def)

lemma osz_bounds: "i < 8 \<Longrightarrow> 40 \<le> osz i \<and> osz i \<le> 2072 \<and> 8 dvd osz i \<and> 0 < opp i \<and> opp i < 103"
  by (drule less_8_cases) (auto simp: osz_def opp_def)

lemma osz_word: "i < 8 \<Longrightarrow> slab_sizes i + OBJ_HEADER = of_nat (osz i)"
  by (drule less_8_cases) (auto simp: slab_sizes_def OBJ_HEADER_def osz_def)

lemma opp_word: "i < 8 \<Longrightarrow> unat (PAGE_SIZE div of_nat (osz i)) = opp i"
  by (drule less_8_cases) (auto simp: PAGE_SIZE_eq osz_def opp_def)

lemma opp_fits: "j < opp i \<Longrightarrow> j * osz i + osz i \<le> 4096"
proof -
  assume "j < opp i"
  then have "Suc j * osz i \<le> opp i * osz i" by (intro mult_le_mono1) simp
  also have "\<dots> \<le> 4096" by (simp add: opp_def)
  finally show ?thesis by simp
qed

lemma unat_oaddr:
  assumes "i < 8" "f < PAGES_LEN" "j < opp i"
  shows "unat (oaddr i f j) = 0x40000000 + f * 4096 + j * osz i"
proof -
  have b: "j * osz i + osz i \<le> 4096" using assms(3) by (rule opp_fits)
  have "(of_nat j * of_nat (osz i) :: u64) = of_nat (j * osz i)" by simp
  moreover have "unat (of_nat (j * osz i) :: u64) = j * osz i" using b by (intro unat_of_nat_small) simp
  ultimately show ?thesis
    using assms(2) b unat_page_to_phys [OF assms(2)] unfolding oaddr_def
    by (subst unat_add_no_wrap) (auto simp: PAGES_LEN_def)
qed

lemma objs_cases:
  assumes "a \<in> objs i F" "i < 8" "\<And>f. f \<in> F \<Longrightarrow> f < PAGES_LEN"
  obtains f j where "f \<in> F" "j < opp i" "a = oaddr i f j" "unat a = 0x40000000 + f * 4096 + j * osz i"
    "j * osz i + osz i \<le> 4096"
  using assms unat_oaddr opp_fits unfolding objs_def by force

lemma objs_range:
  assumes "a \<in> objs i F" "i < 8" "\<And>f. f \<in> F \<Longrightarrow> f < PAGES_LEN"
  shows "0x40000000 \<le> unat a" "unat a + osz i \<le> 0x44000000" "unat a mod 8 = 0"
proof -
  obtain f j where fj: "f \<in> F" "unat a = 0x40000000 + f * 4096 + j * osz i" "j * osz i + osz i \<le> 4096"
    using objs_cases [OF assms] by metis
  show "0x40000000 \<le> unat a" using fj(2) by simp
  have "f \<le> 16383" using assms(3) [OF fj(1)] by (simp add: PAGES_LEN_def)
  then show "unat a + osz i \<le> 0x44000000" using fj(2,3) by linarith
  have "8 dvd j * osz i" using osz_bounds [OF assms(2)] by simp
  then show "unat a mod 8 = 0" unfolding fj(2) by presburger
qed

text \<open>Two different cells do not overlap.\<close>

lemma objs_apart:
  assumes a: "a \<in> objs i F" "i < 8" "\<And>f. f \<in> F \<Longrightarrow> f < PAGES_LEN"
    and b: "b \<in> objs k G" "k < 8" "\<And>f. f \<in> G \<Longrightarrow> f < PAGES_LEN"
    and ne: "a \<noteq> b" "i = k \<or> F \<inter> G = {}"
  shows "unat a + osz i \<le> unat b \<or> unat b + osz k \<le> unat a"
proof -
  obtain f j where fj: "f \<in> F" "a = oaddr i f j" "unat a = 0x40000000 + f * 4096 + j * osz i" "j * osz i + osz i \<le> 4096"
    using objs_cases [OF a] by metis
  obtain g l where gl: "g \<in> G" "b = oaddr k g l" "unat b = 0x40000000 + g * 4096 + l * osz k" "l * osz k + osz k \<le> 4096"
    using objs_cases [OF b] by metis
  show ?thesis
  proof (cases "f = g")
    case True
    then have ik: "i = k" using ne(2) fj(1) gl(1) by blast
    then have "j \<noteq> l" using ne(1) fj(2) gl(2) True by auto
    then consider "Suc j \<le> l" | "Suc l \<le> j" by linarith
    then show ?thesis
    proof cases
      case 1
      then have "Suc j * osz i \<le> l * osz i" by (rule mult_le_mono1)
      then show ?thesis using fj(3) gl(3) ik True by simp
    next
      case 2
      then have "Suc l * osz i \<le> j * osz i" by (rule mult_le_mono1)
      then show ?thesis using fj(3) gl(3) ik True by simp
    qed
  next
    case False
    then have "f < g \<or> g < f" by linarith
    then show ?thesis using fj(3,4) gl(3,4) by linarith
  qed
qed

lemma objs_in_frame:
  assumes "a \<in> objs i F" "i < 8" "\<And>f. f \<in> F \<Longrightarrow> f < PAGES_LEN"
  obtains f where "f \<in> F" "0x40000000 + f * 4096 \<le> unat a" "unat a + osz i \<le> 0x40000000 + f * 4096 + 4096"
proof -
  obtain f j where "f \<in> F" "unat a = 0x40000000 + f * 4096 + j * osz i" "j * osz i + osz i \<le> 4096"
    using objs_cases [OF assms] by metis
  then show thesis by (intro that [of f]) auto
qed

lemma objs_Un: "objs i (F \<union> G) = objs i F \<union> objs i G"
  by (auto simp: objs_def)

lemma objs_single: "objs i {f} = oaddr i f ` {..<opp i}"
  by (auto simp: objs_def)

section \<open>Headers and free lists\<close>

definition ptr_of :: "u64 \<Rightarrow> u64 option" where
  "ptr_of a = (if a = 0 then None else Some a)"

definition nxt :: "mem \<Rightarrow> u64 \<Rightarrow> u64 option" where
  "nxt m a = ptr_of (obj_next m a)"

definition hdr_ok :: "mem \<Rightarrow> nat \<Rightarrow> u64 \<Rightarrow> bool" where
  "hdr_ok m i a \<longleftrightarrow> obj_size m a = slab_sizes i \<and> obj_magic m a = KMALLOC_MAGIC \<and>
     unat (obj_next m a) mod 8 = 0"

lemma hdr_outside:
  assumes "same_outside m m' lo n" "unat a + 24 \<le> 2 ^ 64" "unat a + 24 \<le> lo \<or> lo + n \<le> unat a"
  shows "obj_next m' a = obj_next m a" "hdr_ok m' i a = hdr_ok m i a"
proof -
  have u: "unat (a + 8) = unat a + 8" "unat (a + 16) = unat a + 16"
    using unat_offset_num [OF assms(2), of 8] unat_offset_num [OF assms(2), of 16] by simp_all
  show n: "obj_next m' a = obj_next m a" unfolding obj_next_def
    by (rule load64_outside [OF assms(1)]) (use assms(2,3) u in linarith)+
  have "obj_size m' a = obj_size m a" unfolding obj_size_def
    by (rule load64_outside [OF assms(1)]) (use assms(2,3) in linarith)+
  moreover have "obj_magic m' a = obj_magic m a" unfolding obj_magic_def
    by (rule load32_outside [OF assms(1)]) (use assms(2,3) u in linarith)+
  ultimately show "hdr_ok m' i a = hdr_ok m i a" by (simp add: hdr_ok_def n)
qed

lemma chain_outside:
  assumes "chain (nxt m) p xs" "same_outside m m' lo n"
    "\<And>a. a \<in> set xs \<Longrightarrow> unat a + 24 \<le> 2 ^ 64 \<and> (unat a + 24 \<le> lo \<or> lo + n \<le> unat a)"
  shows "chain (nxt m') p xs"
proof -
  have "nxt m' a = nxt m a" if "a \<in> set xs" for a
    using hdr_outside(1) [OF assms(2)] assms(3) [OF that] by (simp add: nxt_def)
  then show ?thesis using assms(1) by (subst seg_cong [where g = "nxt m"]) auto
qed

text \<open>A header as the carving loop writes it.\<close>

lemma write_header:
  fixes a sz nx :: u64 and m :: mem and mg :: u32
  assumes b: "unat a + 24 \<le> 2 ^ 64"
  defines "m' \<equiv> store64 (store32 (store64 m a sz) (a + 8) mg) (a + 16) nx"
  shows "same_outside m m' (unat a) 24" "obj_size m' a = sz" "obj_magic m' a = mg" "obj_next m' a = nx"
proof -
  have u: "unat (a + 8) = unat a + 8" "unat (a + 16) = unat a + 16"
    using unat_offset_num [OF b, of 8] unat_offset_num [OF b, of 16] by simp_all
  let ?m1 = "store64 m a sz"
  let ?m2 = "store32 ?m1 (a + 8) mg"
  have 1: "same_outside m ?m1 (unat a) 8" by (rule same_outside_store64) (use b in linarith)+
  have 2: "same_outside ?m1 ?m2 (unat a + 8) 4" by (rule same_outside_store32) (use b u in linarith)+
  have 3: "same_outside ?m2 m' (unat a + 16) 8" unfolding m'_def
    by (rule same_outside_store64) (use b u in linarith)+
  have "same_outside m ?m1 (unat a) 24" "same_outside ?m1 ?m2 (unat a) 24" "same_outside ?m2 m' (unat a) 24"
    using same_outside_mono [OF 1] same_outside_mono [OF 2] same_outside_mono [OF 3] by simp_all
  then show "same_outside m m' (unat a) 24" by (blast intro: same_outside_trans)
  have "load64 m' a = load64 ?m2 a" "load64 ?m2 a = load64 ?m1 a" "load32 m' (a + 8) = load32 ?m2 (a + 8)"
    by (rule load64_outside [OF 3] load64_outside [OF 2] load32_outside [OF 3]; use b u in linarith)+
  then show "obj_size m' a = sz" "obj_magic m' a = mg" by (simp_all add: obj_size_def obj_magic_def)
  show "obj_next m' a = nx" by (simp add: m'_def obj_next_def)
qed

lemma upd_slab_simps [simp]:
  "slabs (upd_slab i f h) k = (if k = i then f (slabs h i) else slabs h k)"
  "total_allocated (upd_slab i f h) = total_allocated h" "total_freed (upd_slab i f h) = total_freed h"
  "upd_slab i f (upd_slab i g h) = upd_slab i (\<lambda>s. f (g s)) h"
  by (simp_all add: upd_slab_def)

lemma carve_loop_spec:
  assumes "i < 8" "f < PAGES_LEN" "j + n \<le> opp i" "sl_size (slabs h i) = slab_sizes i"
    and "unat (free_list (slabs h i)) mod 8 = 0" "chain (nxt m) (ptr_of (free_list (slabs h i))) xs"
    and "\<forall>a \<in> set xs. unat a + 24 \<le> 2 ^ 64 \<and>
      (unat a + 24 \<le> 0x40000000 + f * 4096 + j * osz i \<or> 0x40000000 + f * 4096 + 4096 \<le> unat a)"
  shows "\<exists>p m'. carve_loop i (page_to_phys f) (of_nat (osz i)) j n (h, m) =
      (upd_slab i (\<lambda>s. s\<lparr>free_list := p, total_objects := total_objects s + of_nat n,
                         free_objects := free_objects s + of_nat n\<rparr>) h, m') \<and>
    same_outside m m' (0x40000000 + f * 4096 + j * osz i) (4096 - j * osz i) \<and>
    chain (nxt m') (ptr_of p) (rev (map (oaddr i f) [j..<j + n]) @ xs) \<and> unat p mod 8 = 0 \<and>
    (\<forall>l \<in> {j..<j + n}. hdr_ok m' i (oaddr i f l))"
  using assms(3-)
proof (induction n arbitrary: j h m xs)
  case 0
  have "upd_slab i (\<lambda>s. s\<lparr>free_list := free_list (slabs h i), total_objects := total_objects s + of_nat 0,
      free_objects := free_objects s + of_nat 0\<rparr>) h = h" by (simp add: upd_slab_def)
  then show ?case using 0 by (auto intro!: exI [of _ "free_list (slabs h i)"] exI [of _ m])
next
  case (Suc n)
  let ?a = "oaddr i f j" and ?B = "0x40000000 + f * 4096"
  have j: "j < opp i" using Suc.prems(1) by simp
  have ua: "unat ?a = ?B + j * osz i" using unat_oaddr [OF assms(1,2) j] .
  have jb: "j * osz i + osz i \<le> 4096" using opp_fits [OF j] .
  have f: "f \<le> 16383" using assms(2) by (simp add: PAGES_LEN_def)
  have b: "unat ?a + 24 \<le> 2 ^ 64" using ua jb f by simp
  have a0: "?a \<noteq> 0" using ua by (auto simp: unat_eq_zero)
  have o24: "24 \<le> osz i" by (simp add: osz_def)
  define m1 where "m1 = store64 (store32 (store64 m ?a (slab_sizes i)) (?a + 8) KMALLOC_MAGIC) (?a + 16) (free_list (slabs h i))"
  define h1 where "h1 = upd_slab i (\<lambda>s. s\<lparr>free_list := ?a, total_objects := total_objects s + 1,
                                          free_objects := free_objects s + 1\<rparr>) h"
  have step: "carve_loop i (page_to_phys f) (of_nat (osz i)) j (Suc n) (h, m) =
      carve_loop i (page_to_phys f) (of_nat (osz i)) (Suc j) n (h1, m1)"
    by (simp add: Let_def oaddr_def [symmetric] m1_def h1_def Suc.prems(2))
  note w = write_header [OF b, of m "slab_sizes i" KMALLOC_MAGIC "free_list (slabs h i)", folded m1_def]
  have xs1: "chain (nxt m1) (ptr_of (free_list (slabs h i))) xs"
    by (rule chain_outside [OF Suc.prems(4) w(1)]) (use Suc.prems(5) ua jb o24 in fastforce)
  have ch1: "chain (nxt m1) (ptr_of (free_list (slabs h1 i))) (?a # xs)"
    using xs1 a0 by (simp add: h1_def ptr_of_def nxt_def w(4))
  have al: "unat ?a mod 8 = 0"
    by (rule objs_range(3) [OF _ assms(1), of _ "{f}"]) (use j assms(2) in \<open>auto simp: objs_single\<close>)
  have prem: "\<forall>a \<in> set (?a # xs). unat a + 24 \<le> 2 ^ 64 \<and>
      (unat a + 24 \<le> ?B + Suc j * osz i \<or> ?B + 4096 \<le> unat a)"
    using Suc.prems(5) ua b o24 by auto
  have "Suc j + n \<le> opp i" "sl_size (slabs h1 i) = slab_sizes i" "unat (free_list (slabs h1 i)) mod 8 = 0"
    using Suc.prems(1,2) al by (simp_all add: h1_def)
  from Suc.IH [OF this ch1 prem] obtain p m' where IH:
    "carve_loop i (page_to_phys f) (of_nat (osz i)) (Suc j) n (h1, m1) =
      (upd_slab i (\<lambda>s. s\<lparr>free_list := p, total_objects := total_objects s + of_nat n,
                         free_objects := free_objects s + of_nat n\<rparr>) h1, m')"
    "same_outside m1 m' (?B + Suc j * osz i) (4096 - Suc j * osz i)"
    "chain (nxt m') (ptr_of p) (rev (map (oaddr i f) [Suc j..<Suc j + n]) @ ?a # xs)" "unat p mod 8 = 0"
    "\<forall>l \<in> {Suc j..<Suc j + n}. hdr_ok m' i (oaddr i f l)"
    by (elim exE conjE) (rule that)
  have "[j..<j + Suc n] = j # [Suc j..<Suc j + n]" by (simp add: upt_rec)
  then have ch: "chain (nxt m') (ptr_of p) (rev (map (oaddr i f) [j..<j + Suc n]) @ xs)" using IH(3) by simp
  have so: "same_outside m m' (?B + j * osz i) (4096 - j * osz i)"
  proof (rule same_outside_trans)
    show "same_outside m m1 (?B + j * osz i) (4096 - j * osz i)"
      by (rule same_outside_mono [OF w(1)]) (use ua jb o24 in linarith)+
    show "same_outside m1 m' (?B + j * osz i) (4096 - j * osz i)"
      by (rule same_outside_mono [OF IH(2)]) (use jb in simp_all)
  qed
  have "hdr_ok m1 i ?a" using w(2-4) Suc.prems(3) by (simp add: hdr_ok_def)
  then have "hdr_ok m' i ?a"
    using hdr_outside(2) [OF IH(2), of ?a i] b ua o24 by simp
  then have hdr: "\<forall>l \<in> {j..<j + Suc n}. hdr_ok m' i (oaddr i f l)"
    using IH(5) by (metis Suc_leI add_Suc_shift atLeastLessThan_iff le_neq_implies_less)
  have "upd_slab i (\<lambda>s. s\<lparr>free_list := p, total_objects := total_objects s + of_nat n,
      free_objects := free_objects s + of_nat n\<rparr>) h1 =
    upd_slab i (\<lambda>s. s\<lparr>free_list := p, total_objects := total_objects s + of_nat (Suc n),
      free_objects := free_objects s + of_nat (Suc n)\<rparr>) h"
    by (simp add: h1_def upd_slab_def ac_simps)
  then show ?case using step IH(1,4) ch so hdr by auto
qed

section \<open>The state of the heap\<close>

text \<open>
  The frames of each slab, its free objects in list order, and the large blocks by their first
  frame. A slab is as it should be when its list is linked through the headers of objects of its
  frames, every header is intact and the counter counts the list.
\<close>

record habs =
  sfr :: "nat \<Rightarrow> nat set"
  sfl :: "nat \<Rightarrow> u64 list"
  blk :: "nat \<Rightarrow> nat option"

definition slab_ok :: "slab \<Rightarrow> mem \<Rightarrow> nat \<Rightarrow> nat set \<Rightarrow> u64 list \<Rightarrow> bool" where
  "slab_ok s m i F xs \<longleftrightarrow> sl_size s = slab_sizes i \<and> chain (nxt m) (ptr_of (free_list s)) xs \<and>
     set xs \<subseteq> objs i F \<and> (\<forall>a \<in> objs i F. hdr_ok m i a) \<and> free_objects s = of_nat (length xs)"

definition blk_ok :: "mem \<Rightarrow> nat \<Rightarrow> nat \<Rightarrow> bool" where
  "blk_ok m f k \<longleftrightarrow> k \<le> 10 \<and> obj_magic m (page_to_phys f) = KMALLOC_PAGE_MAGIC \<and>
     page_order m (page_to_phys f) = of_nat k"

definition heap_rel :: "hst \<Rightarrow> habs \<Rightarrow> bool" where
  "heap_rel st A \<longleftrightarrow> (case st of (h, p, m, con) \<Rightarrow> pmm_wf p \<and> 1024 \<le> unat (num_pages p) \<and>
     (\<forall>i < 8. slab_ok (slabs h i) m i (sfr A i) (sfl A i) \<and> sfr A i \<subseteq> held_set p) \<and>
     (\<forall>i < 8. \<forall>k < 8. i \<noteq> k \<longrightarrow> sfr A i \<inter> sfr A k = {}) \<and>
     (\<forall>f k. blk A f = Some k \<longrightarrow> blk_ok m f k \<and> {f..<f + 2 ^ k} \<subseteq> held_set p \<and>
       (\<forall>i < 8. sfr A i \<inter> {f..<f + 2 ^ k} = {})) \<and>
     (\<forall>f k g l. blk A f = Some k \<and> blk A g = Some l \<and> f \<noteq> g \<longrightarrow> {f..<f + 2 ^ k} \<inter> {g..<g + 2 ^ l} = {}))"

text \<open>The extents in use: start and length.\<close>

definition slab_live :: "habs \<Rightarrow> (u64 \<times> nat) set" where
  "slab_live A = {(a + 24, 2 ^ (i + 4)) |i a. i < 8 \<and> a \<in> objs i (sfr A i) \<and> a \<notin> set (sfl A i)}"

definition blk_live :: "habs \<Rightarrow> (u64 \<times> nat) set" where
  "blk_live A = {(page_to_phys f + 16, 4096 * 2 ^ k - 16) |f k. blk A f = Some k}"

definition live_extents :: "habs \<Rightarrow> (u64 \<times> nat) set" where
  "live_extents A = slab_live A \<union> blk_live A"

definition inside :: "u64 \<Rightarrow> u64 \<times> nat \<Rightarrow> bool" where
  "inside x e \<longleftrightarrow> unat (fst e) \<le> unat x \<and> unat x < unat (fst e) + snd e"

definition keeps :: "(u64 \<times> nat) set \<Rightarrow> mem \<Rightarrow> mem \<Rightarrow> bool" where
  "keeps E m m' \<longleftrightarrow> (\<forall>e \<in> E. \<forall>x. inside x e \<longrightarrow> m' x = m x)"

text \<open>The frames of the heap, and how they come and go with those of the page allocator.\<close>

definition heap_frames :: "habs \<Rightarrow> nat set" where
  "heap_frames A = (\<Union>i < 8. sfr A i) \<union> {g. \<exists>f k. blk A f = Some k \<and> g \<in> {f..<f + 2 ^ k}}"

definition takes_frames :: "pmm \<Rightarrow> habs \<Rightarrow> pmm \<Rightarrow> habs \<Rightarrow> bool" where
  "takes_frames p A p' A' \<longleftrightarrow> (\<exists>N. N \<subseteq> free_set p \<and> free_set p' = free_set p - N \<and>
     held_set p' = held_set p \<union> N \<and> heap_frames A' = heap_frames A \<union> N) \<and> num_pages p' = num_pages p"

definition gives_frames :: "pmm \<Rightarrow> habs \<Rightarrow> pmm \<Rightarrow> habs \<Rightarrow> bool" where
  "gives_frames p A p' A' \<longleftrightarrow> (\<exists>N. N \<subseteq> heap_frames A \<and> free_set p' = free_set p \<union> N \<and>
     held_set p' = held_set p - N \<and> heap_frames A' = heap_frames A - N) \<and> num_pages p' = num_pages p"

lemma heap_relD:
  assumes "heap_rel (h, p, m, con) A"
  shows "pmm_wf p" "1024 \<le> unat (num_pages p)"
    "i < 8 \<Longrightarrow> slab_ok (slabs h i) m i (sfr A i) (sfl A i)" "i < 8 \<Longrightarrow> sfr A i \<subseteq> held_set p"
    "i < 8 \<Longrightarrow> j < 8 \<Longrightarrow> i \<noteq> j \<Longrightarrow> sfr A i \<inter> sfr A j = {}"
    "blk A f = Some k \<Longrightarrow> blk_ok m f k" "blk A f = Some k \<Longrightarrow> {f..<f + 2 ^ k} \<subseteq> held_set p"
    "blk A f = Some k \<Longrightarrow> i < 8 \<Longrightarrow> sfr A i \<inter> {f..<f + 2 ^ k} = {}"
    "blk A f = Some k \<Longrightarrow> blk A g = Some l \<Longrightarrow> f \<noteq> g \<Longrightarrow> {f..<f + 2 ^ k} \<inter> {g..<g + 2 ^ l} = {}"
  using assms unfolding heap_rel_def prod.case by metis+

lemma heap_rel_frame_bound:
  assumes "heap_rel (h, p, m, con) A"
  shows "i < 8 \<Longrightarrow> f \<in> sfr A i \<Longrightarrow> f < PAGES_LEN" "blk A f = Some k \<Longrightarrow> f + 2 ^ k \<le> PAGES_LEN"
proof -
  show "f < PAGES_LEN" if "i < 8" "f \<in> sfr A i"
    using held_set_bound [OF heap_relD(1) [OF assms]] heap_relD(4) [OF assms that(1)] that(2) by blast
  show "f + 2 ^ k \<le> PAGES_LEN" if "blk A f = Some k"
  proof -
    have "(0 :: nat) < 2 ^ k" by simp
    then have "f + 2 ^ k - 1 \<in> {f..<f + 2 ^ k}" unfolding atLeastLessThan_iff by linarith
    then have "f + 2 ^ k - 1 \<in> held_set p" using heap_relD(7) [OF assms that] by blast
    then have "f + 2 ^ k - 1 < PAGES_LEN" by (rule held_set_bound [OF heap_relD(1) [OF assms]])
    moreover have "(0 :: nat) < 2 ^ k" by simp
    ultimately show ?thesis by linarith
  qed
qed

text \<open>What a write outside the frames concerned leaves.\<close>

lemma slab_ok_outside:
  assumes s: "slab_ok s m i F xs" and i: "i < 8" and F: "\<And>f. f \<in> F \<Longrightarrow> f < PAGES_LEN"
    and so: "same_outside m m' lo n"
    and far: "\<And>f. f \<in> F \<Longrightarrow> 0x40000000 + f * 4096 + 4096 \<le> lo \<or> lo + n \<le> 0x40000000 + f * 4096"
  shows "slab_ok s m' i F xs"
proof -
  have a: "unat a + 24 \<le> 2 ^ 64 \<and> (unat a + 24 \<le> lo \<or> lo + n \<le> unat a)" if a: "a \<in> objs i F" for a
  proof -
    obtain f where f: "f \<in> F" "0x40000000 + f * 4096 \<le> unat a" "unat a + osz i \<le> 0x40000000 + f * 4096 + 4096"
      using objs_in_frame [OF a i F] by metis
    have "24 \<le> osz i" by (simp add: osz_def)
    then show ?thesis using f(2,3) far [OF f(1)] F [OF f(1)] unfolding PAGES_LEN_def by simp linarith
  qed
  have "chain (nxt m') (ptr_of (free_list s)) xs"
    by (rule chain_outside [OF _ so]) (use s a in \<open>auto simp: slab_ok_def\<close>)
  moreover have "hdr_ok m' i b" if "b \<in> objs i F" for b
    using hdr_outside(2) [OF so, of b i] a [OF that] s that by (auto simp: slab_ok_def)
  ultimately show ?thesis using s by (simp add: slab_ok_def)
qed

lemma blk_ok_outside:
  assumes "blk_ok m f k" "f < PAGES_LEN" "same_outside m m' lo n"
    "0x40000000 + f * 4096 + 16 \<le> lo \<or> lo + n \<le> 0x40000000 + f * 4096"
  shows "blk_ok m' f k"
proof -
  have u: "unat (page_to_phys f) = 0x40000000 + f * 4096" by (rule unat_page_to_phys [OF assms(2)])
  have b: "unat (page_to_phys f) + 16 \<le> 2 ^ 64" using u assms(2) by (simp add: PAGES_LEN_def)
  have o: "unat (page_to_phys f + 8) = unat (page_to_phys f) + 8" "unat (page_to_phys f + 12) = unat (page_to_phys f) + 12"
    using unat_offset_num [OF b, of 8] unat_offset_num [OF b, of 12] by simp_all
  have "load32 m' (page_to_phys f + 8) = load32 m (page_to_phys f + 8)"
    "load32 m' (page_to_phys f + 12) = load32 m (page_to_phys f + 12)"
    by (rule load32_outside [OF assms(3)]; use u b o assms(4) in linarith)+
  then show ?thesis using assms(1) by (simp add: blk_ok_def obj_magic_def page_order_def)
qed

lemma frames_far:
  fixes f g c :: nat
  shows "g \<notin> {f..<f + c} \<Longrightarrow> 0 < c \<Longrightarrow> 0x40000000 + g * 4096 + 4096 \<le> 0x40000000 + f * 4096 \<or>
    0x40000000 + f * 4096 + 4096 * c \<le> 0x40000000 + g * 4096"
  by auto

section \<open>Live extents\<close>

lemma obj_cell:
  assumes "heap_rel (h, p, m, con) A" "i < 8" "a \<in> objs i (sfr A i)"
  shows "unat (a + 24) = unat a + 24" "unat (a + 16) = unat a + 16" "unat a + 24 \<le> 2 ^ 64" "a \<noteq> 0"
    "a + 24 \<noteq> 0" "unat a mod 8 = 0"
    "\<exists>f \<in> sfr A i. 0x40000000 + f * 4096 \<le> unat a \<and> unat a + osz i \<le> 0x40000000 + f * 4096 + 4096"
proof -
  note r = objs_range [OF assms(3,2) heap_rel_frame_bound(1) [OF assms(1,2)]]
  have b: "unat a + 32 \<le> 2 ^ 64" using r(2) osz_bounds [OF assms(2)] by simp
  show "unat (a + 24) = unat a + 24" "unat (a + 16) = unat a + 16"
    using unat_offset_num [OF b, of 24] unat_offset_num [OF b, of 16] by simp_all
  then show "a + 24 \<noteq> 0" by (auto simp: unat_eq_zero)
  show "a \<noteq> 0" using r(1) by auto
  show "unat a + 24 \<le> 2 ^ 64" using b by simp
  show "unat a mod 8 = 0" by (rule r(3))
  show "\<exists>f \<in> sfr A i. 0x40000000 + f * 4096 \<le> unat a \<and> unat a + osz i \<le> 0x40000000 + f * 4096 + 4096"
    using objs_in_frame [OF assms(3,2) heap_rel_frame_bound(1) [OF assms(1,2)]] by metis
qed

lemma blk_cell:
  assumes "heap_rel (h, p, m, con) A" "blk A f = Some k"
  shows "f < PAGES_LEN" "unat (page_to_phys f) = 0x40000000 + f * 4096"
    "unat (page_to_phys f + 16) = 0x40000000 + f * 4096 + 16" "page_to_phys f + 16 \<noteq> 0"
    "(0x40000000 + f * 4096 + 16) + (4096 * 2 ^ k - 16) = 0x40000000 + f * 4096 + 4096 * 2 ^ k"
proof -
  have "(0 :: nat) < 2 ^ k" by simp
  then show f: "f < PAGES_LEN" using heap_rel_frame_bound(2) [OF assms] by linarith
  then show u: "unat (page_to_phys f) = 0x40000000 + f * 4096" by (rule unat_page_to_phys)
  have "unat (page_to_phys f) + 17 \<le> 2 ^ 64" using u f by (simp add: PAGES_LEN_def)
  then show o: "unat (page_to_phys f + 16) = 0x40000000 + f * 4096 + 16"
    using unat_offset_num [of "page_to_phys f" 17 16] u by simp
  then show "page_to_phys f + 16 \<noteq> 0" by (auto simp: unat_eq_zero)
  show "(0x40000000 + f * 4096 + 16) + (4096 * 2 ^ k - 16) = 0x40000000 + f * 4096 + 4096 * (2 :: nat) ^ k"
    using \<open>0 < 2 ^ k\<close> by simp
qed

lemma live_extents_cases:
  assumes "e \<in> live_extents A"
  obtains (obj) i a where "i < 8" "a \<in> objs i (sfr A i)" "a \<notin> set (sfl A i)" "e = (a + 24, 2 ^ (i + 4))"
  | (block) f k where "blk A f = Some k" "e = (page_to_phys f + 16, 4096 * 2 ^ k - 16)"
  using assms by (auto simp: live_extents_def slab_live_def blk_live_def)

lemma obj_block_apart:
  assumes rel: "heap_rel (h, p, m, con) A" and i: "i < 8" "a \<in> objs i (sfr A i)" and b: "blk A f = Some k"
  shows "unat a + osz i \<le> 0x40000000 + f * 4096 \<or> 0x40000000 + f * 4096 + 4096 * 2 ^ k \<le> unat a"
proof -
  obtain g where g: "g \<in> sfr A i" "0x40000000 + g * 4096 \<le> unat a" "unat a + osz i \<le> 0x40000000 + g * 4096 + 4096"
    using obj_cell(7) [OF rel i] by blast
  have "g \<notin> {f..<f + 2 ^ k}" using heap_relD(8) [OF rel b i(1)] g(1) by blast
  then show ?thesis using frames_far [of g f "2 ^ k"] g(2,3) by auto
qed

lemma blocks_apart:
  assumes "heap_rel (h, p, m, con) A" "blk A f = Some k" "blk A g = Some l" "f \<noteq> g"
  shows "f * 4096 + 4096 * 2 ^ k \<le> g * 4096 \<or> g * 4096 + 4096 * 2 ^ l \<le> f * (4096 :: nat)"
proof -
  have d: "{f..<f + 2 ^ k} \<inter> {g..<g + 2 ^ l} = {}" by (rule heap_relD(9) [OF assms])
  have "(0 :: nat) < 2 ^ k" "(0 :: nat) < 2 ^ l" by simp_all
  then have "f + 2 ^ k \<le> g \<or> g + 2 ^ l \<le> f" using d by (cases "f \<le> g") (auto simp: disjoint_iff)
  then show ?thesis by auto
qed

lemma live_extents_apart:
  assumes rel: "heap_rel (h, p, m, con) A" and e: "e \<in> live_extents A" "e' \<in> live_extents A" "e \<noteq> e'"
  shows "cells_apart e e'"
  using e(1)
proof (cases rule: live_extents_cases)
  case (obj i a)
  note oa = obj_cell [OF rel obj(1,2)]
  have la: "24 + 2 ^ (i + 4) = osz i" by (simp add: osz_def)
  from e(2) show ?thesis
  proof (cases rule: live_extents_cases)
    case (obj k b)
    note ob = obj_cell [OF rel obj(1,2)]
    have lb: "24 + 2 ^ (k + 4) = osz k" by (simp add: osz_def)
    have "a \<noteq> b \<or> i \<noteq> k" using e(3) obj(4) \<open>e = _\<close> by auto
    moreover have "i = k \<or> sfr A i \<inter> sfr A k = {}"
      using heap_relD(5) [OF rel \<open>i < 8\<close> obj(1)] by blast
    moreover have "a \<noteq> b" if ik: "i \<noteq> k"
    proof
      assume "a = b"
      then obtain f g where "f \<in> sfr A i" "0x40000000 + f * 4096 \<le> unat a" "unat a < 0x40000000 + f * 4096 + 4096"
        "g \<in> sfr A k" "0x40000000 + g * 4096 \<le> unat a" "unat a < 0x40000000 + g * 4096 + 4096"
        using oa(7) ob(7) osz_bounds [OF \<open>i < 8\<close>] osz_bounds [OF obj(1)] by force
      moreover from this have "f = g" by linarith
      ultimately show False using heap_relD(5) [OF rel \<open>i < 8\<close> obj(1) ik] by blast
    qed
    ultimately have "unat a + osz i \<le> unat b \<or> unat b + osz k \<le> unat a"
      using objs_apart [OF \<open>a \<in> _\<close> \<open>i < 8\<close> heap_rel_frame_bound(1) [OF rel \<open>i < 8\<close>] obj(2,1)
          heap_rel_frame_bound(1) [OF rel obj(1)]] by blast
    then show ?thesis using oa(1) ob(1) la lb unfolding cells_apart_def \<open>e = _\<close> obj(4) fst_conv snd_conv by linarith
  next
    case (block f k)
    show ?thesis using obj_block_apart [OF rel \<open>i < 8\<close> \<open>a \<in> _\<close> block(1)] blk_cell(3,5) [OF rel block(1)] oa(1) la
      unfolding cells_apart_def \<open>e = _\<close> block(2) fst_conv snd_conv by linarith
  qed
next
  case (block f k)
  from e(2) show ?thesis
  proof (cases rule: live_extents_cases)
    case (obj i a)
    have la: "24 + 2 ^ (i + 4) = osz i" by (simp add: osz_def)
    show ?thesis using obj_block_apart [OF rel obj(1,2) block(1)] blk_cell(3,5) [OF rel block(1)]
        obj_cell(1) [OF rel obj(1,2)] la
      unfolding cells_apart_def \<open>e = _\<close> obj(4) fst_conv snd_conv by linarith
  next
    case (block g l)
    have "f \<noteq> g" using e(3) block \<open>blk A f = Some k\<close> \<open>e = _\<close> by auto
    from blocks_apart [OF rel \<open>blk A f = Some k\<close> block(1) this] show ?thesis
      using blk_cell(3,5) [OF rel \<open>blk A f = Some k\<close>] blk_cell(3,5) [OF rel block(1)]
      unfolding cells_apart_def \<open>e = _\<close> block(2) fst_conv snd_conv by linarith
  qed
qed

text \<open>A write away from the extents keeps their contents.\<close>

lemma header_not_live:
  assumes rel: "heap_rel (h, p, m, con) A" and i: "i < 8" "a \<in> objs i (sfr A i)"
    and x: "unat a \<le> unat x" "unat x < unat a + 24" and e: "e \<in> live_extents A"
  shows "\<not> inside x e"
  using e
proof (cases rule: live_extents_cases)
  case (obj k b)
  have la: "24 + 2 ^ (k + 4) = osz k" "24 + 2 ^ (i + 4) = osz i" by (simp_all add: osz_def)
  show ?thesis
  proof (cases "a = b")
    case True
    then show ?thesis using x obj_cell(1) [OF rel i] unfolding obj(4) inside_def by simp
  next
    case False
    have "i = k \<or> sfr A i \<inter> sfr A k = {}" using heap_relD(5) [OF rel i(1) obj(1)] by blast
    then have "unat a + osz i \<le> unat b \<or> unat b + osz k \<le> unat a"
      using objs_apart [OF i(2,1) heap_rel_frame_bound(1) [OF rel i(1)] obj(2,1)
          heap_rel_frame_bound(1) [OF rel obj(1)] False] by blast
    then show ?thesis using x la obj_cell(1) [OF rel obj(1,2)] unfolding obj(4) inside_def fst_conv snd_conv by linarith
  qed
next
  case (block f k)
  have "24 \<le> osz i" by (simp add: osz_def)
  then show ?thesis using x obj_block_apart [OF rel i block(1)] blk_cell(3,5) [OF rel block(1)]
    unfolding block(2) inside_def fst_conv snd_conv by linarith
qed

lemma block_header_not_live:
  assumes rel: "heap_rel (h, p, m, con) A" and b: "blk A f = Some k"
    and x: "0x40000000 + f * 4096 \<le> unat x" "unat x < 0x40000000 + f * 4096 + 16" and e: "e \<in> live_extents A"
  shows "\<not> inside x e"
  using e
proof (cases rule: live_extents_cases)
  case (obj i a)
  have la: "24 + 2 ^ (i + 4) = osz i" by (simp add: osz_def)
  have "(1 :: nat) \<le> 2 ^ k" by simp
  then have "16 \<le> 4096 * (2 :: nat) ^ k" by linarith
  then show ?thesis using x la obj_block_apart [OF rel obj(1,2) b] obj_cell(1) [OF rel obj(1,2)]
    unfolding obj(4) inside_def fst_conv snd_conv by linarith
next
  case (block g l)
  have k1: "(1 :: nat) \<le> 2 ^ k" by simp
  show ?thesis
  proof (cases "f = g")
    case True
    then show ?thesis using x blk_cell(3) [OF rel block(1)] unfolding block(2) inside_def fst_conv snd_conv by linarith
  next
    case False
    have "16 \<le> 4096 * (2 :: nat) ^ k" using k1 by linarith
    then show ?thesis using x blocks_apart [OF rel b block(1) False] blk_cell(3,5) [OF rel block(1)]
      unfolding block(2) inside_def fst_conv snd_conv by linarith
  qed
qed

lemma keepsI:
  assumes "same_outside m m' lo n" "\<And>e. e \<in> E \<Longrightarrow> unat (fst e) + snd e \<le> lo \<or> lo + n \<le> unat (fst e)"
  shows "keeps E m m'"
  unfolding keeps_def inside_def
proof (intro ballI allI impI)
  fix e and x :: u64 assume "e \<in> E" "unat (fst e) \<le> unat x \<and> unat x < unat (fst e) + snd e"
  then show "m' x = m x" using assms(1) assms(2) [of e] unfolding same_outside_def by force
qed

lemma keeps_refl [simp]: "keeps E m m"
  by (simp add: keeps_def)

lemma keeps_subset: "keeps E m m' \<Longrightarrow> E' \<subseteq> E \<Longrightarrow> keeps E' m m'"
  by (auto simp: keeps_def)

section \<open>Slab operations\<close>

lemma free_list_aligned:
  assumes "slab_ok s m i F xs" "i < 8" "\<And>f. f \<in> F \<Longrightarrow> f < PAGES_LEN"
  shows "unat (free_list s) mod 8 = 0"
proof (cases xs)
  case Nil
  then show ?thesis using assms(1) by (auto simp: slab_ok_def ptr_of_def split: if_splits)
next
  case (Cons a ys)
  then have "free_list s = a" "a \<in> objs i F" using assms(1) by (auto simp: slab_ok_def ptr_of_def split: if_splits)
  then show ?thesis using objs_range(3) [OF _ assms(2,3)] by simp
qed

lemma slab_pop:
  assumes "slab_ok s m i F (a # xs)"
  shows "free_list s = a" "a \<in> objs i F" "a \<notin> set xs"
    "slab_ok (s\<lparr>free_list := obj_next m a, free_objects := free_objects s - 1\<rparr>) m i F xs"
proof -
  have c: "chain (nxt m) (ptr_of (free_list s)) (a # xs)" using assms by (simp add: slab_ok_def)
  then show a: "free_list s = a" by (auto simp: ptr_of_def split: if_splits)
  show "a \<notin> set xs" using chain_distinct [OF c] by simp
  show "a \<in> objs i F" using assms by (simp add: slab_ok_def)
  show "slab_ok (s\<lparr>free_list := obj_next m a, free_objects := free_objects s - 1\<rparr>) m i F xs"
    using assms c by (auto simp: slab_ok_def nxt_def)
qed

lemma slab_push:
  assumes s: "slab_ok s m i F xs" and i: "i < 8" and F: "\<And>f. f \<in> F \<Longrightarrow> f < PAGES_LEN"
    and a: "a \<in> objs i F" "a \<notin> set xs"
  defines "m' \<equiv> store64 m (a + 16) (free_list s)"
  shows "slab_ok (s\<lparr>free_list := a, free_objects := free_objects s + 1\<rparr>) m' i F (a # xs)"
    "same_outside m m' (unat a + 16) 8"
proof -
  note r = objs_range [OF a(1) i F]
  have b: "unat a + 24 \<le> 2 ^ 64" using r(2) osz_bounds [OF i] by simp
  have u: "unat (a + 16) = unat a + 16" "unat (a + 8) = unat a + 8"
    using unat_offset_num [OF b, of 16] unat_offset_num [OF b, of 8] by simp_all
  show so: "same_outside m m' (unat a + 16) 8" unfolding m'_def
    by (rule same_outside_store64) (use u b in linarith)+
  have far: "unat b + 24 \<le> 2 ^ 64 \<and> (unat b + 24 \<le> unat a + 16 \<or> unat a + 16 + 8 \<le> unat b)"
    if "b \<in> objs i F" "b \<noteq> a" for b
    using objs_apart [OF that(1) i F a(1) i F that(2)] objs_range(2) [OF that(1) i F] osz_bounds [OF i] by auto
  have "load64 m' a = load64 m a" "load32 m' (a + 8) = load32 m (a + 8)"
    by (rule load64_outside [OF so] load32_outside [OF so]; use u b in linarith)+
  moreover have n: "obj_next m' a = free_list s" by (simp add: obj_next_def m'_def)
  ultimately have ha: "hdr_ok m' i a"
    using s a(1) free_list_aligned [OF s i F] by (auto simp: slab_ok_def hdr_ok_def obj_size_def obj_magic_def)
  have sub: "set xs \<subseteq> objs i F" using s by (simp add: slab_ok_def)
  have hdr: "hdr_ok m' i b" if "b \<in> objs i F" for b
  proof (cases "b = a")
    case False
    then show ?thesis using hdr_outside(2) [OF so, of b i] far [OF that] s that by (auto simp: slab_ok_def)
  qed (use ha in simp)
  have "chain (nxt m') (ptr_of (free_list s)) xs"
    by (rule chain_outside [OF _ so]) (use s far sub a(2) in \<open>auto simp: slab_ok_def\<close>)
  moreover have "a \<noteq> 0" using r(1) by auto
  ultimately have "chain (nxt m') (ptr_of a) (a # xs)" by (simp add: ptr_of_def nxt_def n)
  then show "slab_ok (s\<lparr>free_list := a, free_objects := free_objects s + 1\<rparr>) m' i F (a # xs)"
    using s hdr sub a(1) by (auto simp: slab_ok_def)
qed

text \<open>An empty slab gets the objects of a new frame.\<close>

lemma slab_grow:
  assumes s: "slab_ok (slabs h i) m i F []" and i: "i < 8" and F: "\<And>f. f \<in> F \<Longrightarrow> f < PAGES_LEN"
    and f: "f < PAGES_LEN" "f \<notin> F"
  shows "\<exists>q m'. carve_loop i (page_to_phys f) (of_nat (osz i)) 0 (opp i) (h, m) =
      (upd_slab i (\<lambda>s. s\<lparr>free_list := q, total_objects := total_objects s + of_nat (opp i),
                         free_objects := free_objects s + of_nat (opp i)\<rparr>) h, m') \<and>
    same_outside m m' (0x40000000 + f * 4096) 4096 \<and>
    slab_ok ((slabs h i)\<lparr>free_list := q, total_objects := total_objects (slabs h i) + of_nat (opp i),
                         free_objects := free_objects (slabs h i) + of_nat (opp i)\<rparr>)
      m' i (insert f F) (rev (map (oaddr i f) [0..<opp i]))"
proof -
  have z: "sl_size (slabs h i) = slab_sizes i" "unat (free_list (slabs h i)) mod 8 = 0"
    "chain (nxt m) (ptr_of (free_list (slabs h i))) []" "free_objects (slabs h i) = 0"
    using s by (auto simp: slab_ok_def ptr_of_def split: if_splits)
  have triv: "0 + opp i \<le> opp i" "\<forall>a \<in> set []. unat (a :: u64) + 24 \<le> 2 ^ 64 \<and>
      (unat a + 24 \<le> 0x40000000 + f * 4096 + 0 * osz i \<or> 0x40000000 + f * 4096 + 4096 \<le> unat a)" by simp_all
  obtain q m' where c: "carve_loop i (page_to_phys f) (of_nat (osz i)) 0 (opp i) (h, m) =
      (upd_slab i (\<lambda>s. s\<lparr>free_list := q, total_objects := total_objects s + of_nat (opp i),
                         free_objects := free_objects s + of_nat (opp i)\<rparr>) h, m')"
    "same_outside m m' (0x40000000 + f * 4096 + 0 * osz i) (4096 - 0 * osz i)"
    "chain (nxt m') (ptr_of q) (rev (map (oaddr i f) [0..<0 + opp i]) @ [])" "unat q mod 8 = 0"
    "\<forall>l \<in> {0..<0 + opp i}. hdr_ok m' i (oaddr i f l)"
    using carve_loop_spec [OF i f(1) triv(1) z(1-3) triv(2)] by (elim exE conjE) (rule that)
  have so: "same_outside m m' (0x40000000 + f * 4096) 4096" using c(2) by simp
  have old: "slab_ok (slabs h i) m' i F []"
  proof (rule slab_ok_outside [OF s i F so])
    fix g assume "g \<in> F"
    then have "g \<noteq> f" using f(2) by blast
    then show "0x40000000 + g * 4096 + 4096 \<le> 0x40000000 + f * 4096 \<or>
        0x40000000 + f * 4096 + 4096 \<le> 0x40000000 + g * (4096 :: nat)" by linarith
  qed
  have eq: "objs i (insert f F) = objs i F \<union> oaddr i f ` {..<opp i}"
    using objs_Un [of i "{f}" F] objs_single [of i f] by auto
  have "\<forall>a \<in> objs i (insert f F). hdr_ok m' i a" using old c(5) unfolding eq slab_ok_def by auto
  moreover have "set (rev (map (oaddr i f) [0..<opp i])) \<subseteq> objs i (insert f F)" unfolding eq by auto
  ultimately have "slab_ok ((slabs h i)\<lparr>free_list := q, total_objects := total_objects (slabs h i) + of_nat (opp i),
                         free_objects := free_objects (slabs h i) + of_nat (opp i)\<rparr>)
      m' i (insert f F) (rev (map (oaddr i f) [0..<opp i]))"
    using c(3) z(1,4) by (simp add: slab_ok_def)
  then show ?thesis using c(1) so by blast
qed

text \<open>A change of one slab, in memory confined to one of its frames, is a change of the heap.\<close>

lemma heap_rel_slab:
  assumes rel: "heap_rel (h, p, m, con) A" and i: "i < 8"
    and s: "slab_ok (slabs h' i) m' i F xs" "\<And>k. k \<noteq> i \<Longrightarrow> slabs h' k = slabs h k"
    and so: "same_outside m m' (0x40000000 + g * 4096) 4096" "g \<in> F"
    and p: "pmm_wf p'" "held_set p \<subseteq> held_set p'" "num_pages p' = num_pages p" "F \<subseteq> held_set p'"
    and dj: "\<And>k. k < 8 \<Longrightarrow> k \<noteq> i \<Longrightarrow> F \<inter> sfr A k = {}"
      "\<And>f k. blk A f = Some k \<Longrightarrow> F \<inter> {f..<f + 2 ^ k} = {}"
  shows "heap_rel (h', p', m', con') (A\<lparr>sfr := (sfr A)(i := F), sfl := (sfl A)(i := xs)\<rparr>)"
proof -
  note R = heap_relD [OF rel]
  have others: "slab_ok (slabs h' k) m' k (sfr A k) (sfl A k)" if "k < 8" "k \<noteq> i" for k
  proof -
    have "0x40000000 + f * 4096 + 4096 \<le> 0x40000000 + g * 4096 \<or>
        0x40000000 + g * 4096 + 4096 \<le> 0x40000000 + f * (4096 :: nat)" if "f \<in> sfr A k" for f
    proof -
      have "f \<noteq> g" using dj(1) [OF \<open>k < 8\<close> \<open>k \<noteq> i\<close>] so(2) that by blast
      then show ?thesis by linarith
    qed
    then show ?thesis unfolding s(2) [OF that(2)]
      by (intro slab_ok_outside [OF R(3) [OF that(1)] that(1) heap_rel_frame_bound(1) [OF rel that(1)] so(1)])
  qed
  have blocks: "blk_ok m' f k" if b: "blk A f = Some k" for f k
  proof (rule blk_ok_outside [OF R(6) [OF b] blk_cell(1) [OF rel b] so(1)])
    have "g \<notin> {f..<f + 2 ^ k}" using dj(2) [OF b] so(2) by blast
    then have "g \<noteq> f" by auto
    then show "0x40000000 + f * 4096 + 16 \<le> 0x40000000 + g * 4096 \<or>
        0x40000000 + g * 4096 + 4096 \<le> 0x40000000 + f * 4096" by linarith
  qed
  show ?thesis unfolding heap_rel_def prod.case
  proof (intro conjI allI impI)
    show "pmm_wf p'" "1024 \<le> unat (num_pages p')" using p R(2) by simp_all
    let ?A = "A\<lparr>sfr := (sfr A)(i := F), sfl := (sfl A)(i := xs)\<rparr>"
    show "slab_ok (slabs h' k) m' k (sfr ?A k) (sfl ?A k)" if "k < 8" for k
      using others [OF that] s(1) by (cases "k = i") simp_all
    show "sfr ?A k \<subseteq> held_set p'" if "k < 8" for k
      using R(4) [OF that] p(2,4) by (cases "k = i") auto
    show "sfr ?A k \<inter> sfr ?A l = {}" if "k < 8" "l < 8" "k \<noteq> l" for k l
    proof (cases "k = i \<or> l = i")
      case True
      then show ?thesis using dj(1) [OF that(1)] dj(1) [OF that(2)] that(3) by auto
    next
      case False
      then show ?thesis using R(5) [OF that] by simp
    qed
    show "blk_ok m' f k" if "blk ?A f = Some k" for f k using blocks that by simp
    show "{f..<f + 2 ^ k} \<subseteq> held_set p'" if "blk ?A f = Some k" for f k
      using R(7) [of f k] p(2) that by auto
    show "sfr ?A l \<inter> {f..<f + 2 ^ k} = {}" if "blk ?A f = Some k" "l < 8" for f k l
    proof (cases "l = i")
      case True
      then show ?thesis using dj(2) [of f k] that(1) by simp
    next
      case False
      then show ?thesis using R(8) [of f k l] that by simp
    qed
    show "{f..<f + 2 ^ k} \<inter> {g..<g + 2 ^ l} = {}" if "blk ?A f = Some k \<and> blk ?A g = Some l \<and> f \<noteq> g" for f k g l
      using R(9) [of f k g l] that by simp
  qed
qed

section \<open>Allocating and releasing small objects\<close>

definition used :: "nat \<Rightarrow> nat set \<Rightarrow> u64 list \<Rightarrow> (u64 \<times> nat) set" where
  "used i F xs = (\<lambda>a. (a + 24, 2 ^ (i + 4))) ` (objs i F - set xs)"

lemma slab_live_used: "slab_live A = (\<Union>i < 8. used i (sfr A i) (sfl A i))"
  by (auto simp: slab_live_def used_def)

lemma slab_live_split:
  "i < 8 \<Longrightarrow> slab_live A = (\<Union>k \<in> {..<8} - {i}. used k (sfr A k) (sfl A k)) \<union> used i (sfr A i) (sfl A i)"
  unfolding slab_live_used by blast

lemma slab_live_upd:
  assumes "i < 8"
  shows "slab_live (A\<lparr>sfr := (sfr A)(i := F), sfl := (sfl A)(i := xs)\<rparr>) =
    (\<Union>k \<in> {..<8} - {i}. used k (sfr A k) (sfl A k)) \<union> used i F xs"
proof -
  have "(\<Union>k \<in> {..<8} - {i}. used k (((sfr A)(i := F)) k) (((sfl A)(i := xs)) k)) =
      (\<Union>k \<in> {..<8} - {i}. used k (sfr A k) (sfl A k))" by (rule SUP_cong) auto
  then show ?thesis by (simp add: slab_live_split [OF assms])
qed

lemma blk_live_upd [simp]: "blk_live (A\<lparr>sfr := r, sfl := l\<rparr>) = blk_live A"
  by (simp add: blk_live_def)

lemma used_more: "used i F' xs' = insert (a + 24, 2 ^ (i + 4)) (used i F xs) \<Longrightarrow> i < 8 \<Longrightarrow>
    sfr A i = F \<Longrightarrow> sfl A i = xs \<Longrightarrow>
    live_extents (A\<lparr>sfr := (sfr A)(i := F'), sfl := (sfl A)(i := xs')\<rparr>) =
      insert (a + 24, 2 ^ (i + 4)) (live_extents A)"
  by (simp add: live_extents_def slab_live_upd slab_live_split [of i A])

lemma pow_small: "i < 8 \<Longrightarrow> (2 :: nat) ^ (i + 4) \<le> 2048"
  by (drule less_8_cases) auto

lemma slab_not_block:
  assumes "i < 8"
  shows "(a, 2 ^ (i + 4)) \<notin> blk_live A"
proof
  assume "(a, 2 ^ (i + 4)) \<in> blk_live A"
  then obtain k where "(2 :: nat) ^ (i + 4) = 4096 * 2 ^ k - 16" by (auto simp: blk_live_def)
  moreover have "(1 :: nat) \<le> 2 ^ k" by simp
  ultimately show False using pow_small [OF assms] by linarith
qed

text \<open>A free object is not part of a live extent.\<close>

lemma free_object_not_live:
  assumes rel: "heap_rel (h, p, m, con) A" and i: "i < 8" "a \<in> objs i (sfr A i)" "a \<in> set (sfl A i)"
  shows "(a + 24, 2 ^ (i + 4)) \<notin> live_extents A"
proof
  assume "(a + 24, 2 ^ (i + 4)) \<in> live_extents A"
  then have "(a + 24, 2 ^ (i + 4)) \<in> slab_live A" using slab_not_block [OF i(1)] by (auto simp: live_extents_def)
  then obtain k b where "k < 8" "b \<in> objs k (sfr A k)" "b \<notin> set (sfl A k)" "a = b" "(2 :: nat) ^ (i + 4) = 2 ^ (k + 4)"
    by (auto simp: slab_live_def)
  then show False using i(3) by (simp add: power_inject_exp)
qed

lemma heap_frames_list [simp]: "heap_frames (A\<lparr>sfl := l\<rparr>) = heap_frames A"
  by (simp add: heap_frames_def)

lemma takes_frames_keep: "heap_frames A' = heap_frames A \<Longrightarrow> takes_frames p A p A'"
  by (auto simp: takes_frames_def intro: exI [of _ "{}"])

lemma gives_frames_keep: "heap_frames A' = heap_frames A \<Longrightarrow> gives_frames p A p A'"
  by (auto simp: gives_frames_def intro: exI [of _ "{}"])

definition fresh_extent :: "u64 \<Rightarrow> nat \<Rightarrow> hst \<Rightarrow> habs \<Rightarrow> hst \<Rightarrow> habs \<Rightarrow> bool" where
  "fresh_extent ptr n st A st' A' \<longleftrightarrow>
     (case (st, st') of ((h, p, m, con), (h', p', m', con')) \<Rightarrow>
       heap_rel st' A' \<and> ptr \<noteq> 0 \<and> (ptr, n) \<notin> live_extents A \<and>
       live_extents A' = insert (ptr, n) (live_extents A) \<and> keeps (live_extents A) m m' \<and> con' = con \<and>
       takes_frames p A p' A' \<and>
       (\<forall>x. (\<forall>f \<in> free_set p. \<not> (unat (page_to_phys f) \<le> unat x \<and> unat x < unat (page_to_phys f) + 4096)) \<longrightarrow> m' x = m x))"

lemma slab_alloc_list:
  assumes rel: "heap_rel (h, p, m, con) A" and i: "i < 8" and l: "sfl A i = a # xs"
  shows "\<exists>h'. slab_alloc i (h, p, m, con) = Some (a + 24, h', p, m, con) \<and>
    fresh_extent (a + 24) (2 ^ (i + 4)) (h, p, m, con) A (h', p, m, con)
      (A\<lparr>sfr := (sfr A)(i := sfr A i), sfl := (sfl A)(i := xs)\<rparr>) \<and>
    total_allocated h' = total_allocated h"
proof -
  note R = heap_relD [OF rel]
  note P = slab_pop [OF R(3) [OF i, unfolded l]]
  let ?h = "upd_slab i (\<lambda>s. s\<lparr>free_list := obj_next m a, free_objects := free_objects s - 1\<rparr>) h"
  note o = obj_cell [OF rel i P(2)]
  have "slab_alloc i (h, p, m, con) = Some (a + 24, ?h, p, m, con)"
    using P(1) o(4) by (simp add: slab_alloc_def pop_object_def Let_def OBJ_HEADER_def upd_slab_def)
  moreover obtain g where g: "g \<in> sfr A i" using o(7) by blast
  have dj: "\<And>k. k < 8 \<Longrightarrow> k \<noteq> i \<Longrightarrow> sfr A i \<inter> sfr A k = {}" using R(5) [OF i] by blast
  have "heap_rel (?h, p, m, con) (A\<lparr>sfr := (sfr A)(i := sfr A i), sfl := (sfl A)(i := xs)\<rparr>)"
    by (rule heap_rel_slab [OF rel i _ _ same_outside_refl g R(1) subset_refl refl R(4) [OF i] dj R(8) [OF _ i]])
      (use P(4) in simp_all)
  moreover have "used i (sfr A i) xs = insert (a + 24, 2 ^ (i + 4)) (used i (sfr A i) (a # xs))"
    using P(2,3) by (auto simp: used_def)
  from used_more [OF this i refl l] have
    "live_extents (A\<lparr>sfr := (sfr A)(i := sfr A i), sfl := (sfl A)(i := xs)\<rparr>) =
      insert (a + 24, 2 ^ (i + 4)) (live_extents A)" .
  moreover have "(a + 24, 2 ^ (i + 4)) \<notin> live_extents A"
    by (rule free_object_not_live [OF rel i P(2)]) (simp add: l)
  ultimately show ?thesis using o(5) by (simp add: fresh_extent_def takes_frames_keep)
qed

lemma inj_oaddr:
  assumes "i < 8" "f < PAGES_LEN"
  shows "inj_on (oaddr i f) {..<opp i}"
proof (rule inj_onI)
  fix j l assume "j \<in> {..<opp i}" "l \<in> {..<opp i}" "oaddr i f j = oaddr i f l"
  then have "j * osz i = l * osz i" using unat_oaddr [OF assms, of j] unat_oaddr [OF assms, of l]
    by auto
  moreover have "0 < osz i" by (simp add: osz_def)
  ultimately show "j = l" by simp
qed

lemma new_frame_objs:
  assumes "i < 8" "f < PAGES_LEN" "f \<notin> F" "\<And>g. g \<in> F \<Longrightarrow> g < PAGES_LEN"
  shows "objs i F \<inter> oaddr i f ` {..<opp i} = {}"
proof -
  have False if a: "a \<in> objs i F" "a \<in> objs i {f}" for a
  proof -
    obtain g where "g \<in> F" "0x40000000 + g * 4096 \<le> unat a" "unat a + osz i \<le> 0x40000000 + g * 4096 + 4096"
      using objs_in_frame [OF a(1) assms(1,4)] by metis
    moreover obtain g' where "g' \<in> {f}" "0x40000000 + g' * 4096 \<le> unat a" "unat a + osz i \<le> 0x40000000 + g' * 4096 + 4096"
      using objs_in_frame [OF a(2) assms(1)] assms(2) by (metis singletonD)
    moreover have "0 < osz i" by (simp add: osz_def)
    ultimately have "g = f" by auto
    then show False using assms(3) \<open>g \<in> F\<close> by simp
  qed
  then show ?thesis unfolding objs_single by blast
qed

lemma rev_upto_objs:
  assumes "i < 8"
  obtains a xs where "rev (map (oaddr i f) [0..<opp i]) = a # xs" "a = oaddr i f (opp i - 1)"
    "set xs = oaddr i f ` {..<opp i - 1}"
proof -
  obtain n where "opp i = Suc n" using osz_bounds [OF assms] by (metis Suc_pred)
  then have "rev (map (oaddr i f) [0..<opp i]) = oaddr i f (opp i - 1) # rev (map (oaddr i f) [0..<opp i - 1])"
    by simp
  moreover have "set (rev (map (oaddr i f) [0..<opp i - 1])) = oaddr i f ` {..<opp i - 1}"
    by (simp add: atLeast0LessThan)
  ultimately show thesis using that by blast
qed

lemma used_new_frame:
  assumes i: "i < 8" and f: "f < PAGES_LEN" "f \<notin> F" and F: "\<And>g. g \<in> F \<Longrightarrow> g < PAGES_LEN"
    and xs: "set xs = oaddr i f ` {..<opp i - 1}"
  shows "used i (insert f F) xs = insert (oaddr i f (opp i - 1) + 24, 2 ^ (i + 4)) (used i F [])"
proof -
  have n: "0 < opp i" using osz_bounds [OF i] by simp
  then have all: "{..<opp i} = insert (opp i - 1) {..<opp i - 1}" by auto
  have "objs i (insert f F) = objs i F \<union> oaddr i f ` {..<opp i}"
    using objs_Un [of i "{f}" F] objs_single [of i f] by auto
  moreover have "objs i F \<inter> set xs = {}" unfolding xs using new_frame_objs [OF i f F] by auto
  moreover have "oaddr i f (opp i - 1) \<notin> set xs" unfolding xs
    using inj_oaddr [OF i f(1)] n by (auto dest: inj_onD)
  ultimately have "objs i (insert f F) - set xs = insert (oaddr i f (opp i - 1)) (objs i F)"
    unfolding all xs by auto
  then show ?thesis by (simp add: used_def)
qed

lemma slab_alloc_new:
  assumes rel: "heap_rel (h, p, m, con) A" and i: "i < 8" and l: "sfl A i = []"
    and p: "alloc_pages 0 p = Some (Some f, p')" "f \<in> free_set p" "pmm_wf p'" "free_set p' = free_set p - {f}"
      "held_set p' = insert f (held_set p)" "num_pages p' = num_pages p"
  shows "\<exists>a h' m' A'. slab_alloc i (h, p, m, con) = Some (a + 24, h', p', m', con) \<and>
    fresh_extent (a + 24) (2 ^ (i + 4)) (h, p, m, con) A (h', p', m', con) A' \<and>
    total_allocated h' = total_allocated h"
proof -
  note R = heap_relD [OF rel] and Fb = heap_rel_frame_bound(1) [OF rel i]
  let ?F = "sfr A i"
  have f: "f < PAGES_LEN" by (rule free_set_bound [OF R(1) p(2)])
  have nh: "f \<notin> held_set p" using held_not_free [of p] p(2) by blast
  then have fF: "f \<notin> ?F" using R(4) [OF i] by blast
  have s: "slab_ok (slabs h i) m i ?F []" using R(3) [OF i] l by simp
  obtain q m' where c: "carve_loop i (page_to_phys f) (of_nat (osz i)) 0 (opp i) (h, m) =
      (upd_slab i (\<lambda>s. s\<lparr>free_list := q, total_objects := total_objects s + of_nat (opp i),
                         free_objects := free_objects s + of_nat (opp i)\<rparr>) h, m')"
    "same_outside m m' (0x40000000 + f * 4096) 4096"
    "slab_ok ((slabs h i)\<lparr>free_list := q, total_objects := total_objects (slabs h i) + of_nat (opp i),
                         free_objects := free_objects (slabs h i) + of_nat (opp i)\<rparr>)
      m' i (insert f ?F) (rev (map (oaddr i f) [0..<opp i]))"
    using slab_grow [OF s i Fb f fF] by - (drule meta_mp, assumption, elim exE conjE, rule that)
  obtain a xs where L: "rev (map (oaddr i f) [0..<opp i]) = a # xs" "a = oaddr i f (opp i - 1)"
    "set xs = oaddr i f ` {..<opp i - 1}" by (rule rev_upto_objs [OF i])
  note P = slab_pop [OF c(3) [unfolded L(1)]]
  let ?h1 = "upd_slab i (\<lambda>s. s\<lparr>free_list := q, total_objects := total_objects s + of_nat (opp i),
                         free_objects := free_objects s + of_nat (opp i)\<rparr>) h"
  let ?h = "upd_slab i (\<lambda>s. s\<lparr>free_list := obj_next m' a, free_objects := free_objects s - 1\<rparr>) ?h1"
  have fl: "free_list (slabs h i) = 0" "sl_size (slabs h i) = slab_sizes i"
    using s by (auto simp: slab_ok_def ptr_of_def split: if_splits)
  have pop: "pop_object i ?h1 m' = (a + 24, ?h)" using P(1) by (simp add: pop_object_def Let_def OBJ_HEADER_def)
  have run: "slab_alloc i (h, p, m, con) = Some (a + 24, ?h, p', m', con)"
    unfolding slab_alloc_def prod.case Let_def
    by (simp add: fl osz_word [OF i] p(1) opp_word [OF i] c(1) pop del: upd_slab_simps(4))
  have dj: "insert f ?F \<inter> sfr A k = {}" if "k < 8" "k \<noteq> i" for k
    using R(5) [OF i that(1)] that(2) R(4) [OF that(1)] nh by blast
  have djb: "insert f ?F \<inter> {g..<g + 2 ^ k} = {}" if "blk A g = Some k" for g k
    using R(8) [OF that i] R(7) [OF that] nh by blast
  let ?A = "A\<lparr>sfr := (sfr A)(i := insert f ?F), sfl := (sfl A)(i := xs)\<rparr>"
  have rel': "heap_rel (?h, p', m', con) ?A"
    by (rule heap_rel_slab [OF rel i _ _ c(2) insertI1 p(3) _ p(6) _ dj djb])
      (use P(4) p(5) R(4) [OF i] in auto)
  note used_new_frame [OF i f fF Fb L(3), folded L(2)]
  from used_more [OF this i refl l] have le: "live_extents ?A = insert (a + 24, 2 ^ (i + 4)) (live_extents A)" .
  have "a \<in> objs i (sfr ?A i)" using P(2) by simp
  note o = obj_cell [OF rel' i this]
  have ao: "a \<in> oaddr i f ` {..<opp i}" using L(2) osz_bounds [OF i] by auto
  have new: "(a + 24, 2 ^ (i + 4)) \<notin> live_extents A"
  proof
    assume "(a + 24, 2 ^ (i + 4)) \<in> live_extents A"
    then have "(a + 24, 2 ^ (i + 4)) \<in> slab_live A" using slab_not_block [OF i] by (auto simp: live_extents_def)
    then obtain k b where b: "k < 8" "b \<in> objs k (sfr A k)" "a = b" "(2 :: nat) ^ (i + 4) = 2 ^ (k + 4)"
      by (auto simp: slab_live_def)
    then have "a \<in> objs i ?F" by (simp add: power_inject_exp)
    then show False using new_frame_objs [OF i f fF Fb] ao by blast
  qed
  have kp: "keeps (live_extents A) m m'"
  proof (rule keepsI [OF c(2)])
    fix e assume "e \<in> live_extents A"
    then show "unat (fst e) + snd e \<le> 0x40000000 + f * 4096 \<or> 0x40000000 + f * 4096 + 4096 \<le> unat (fst e)"
    proof (cases rule: live_extents_cases)
      case (obj k b)
      obtain g where g: "g \<in> sfr A k" "0x40000000 + g * 4096 \<le> unat b" "unat b + osz k \<le> 0x40000000 + g * 4096 + 4096"
        using obj_cell(7) [OF rel obj(1,2)] by blast
      have "g \<noteq> f" using g(1) R(4) [OF obj(1)] nh by blast
      moreover have "24 + 2 ^ (k + 4) = osz k" by (simp add: osz_def)
      ultimately show ?thesis using g(2,3) obj_cell(1) [OF rel obj(1,2)] unfolding obj(4) fst_conv snd_conv by linarith
    next
      case (block g k)
      have "f \<notin> {g..<g + 2 ^ k}" using R(7) [OF block(1)] nh by blast
      from frames_far [OF this] blk_cell(3,5) [OF rel block(1)] show ?thesis
        unfolding block(2) fst_conv snd_conv by auto
    qed
  qed
  have rest: "m' x = m x" if "\<forall>g \<in> free_set p. \<not> (unat (page_to_phys g) \<le> unat x \<and> unat x < unat (page_to_phys g) + 4096)" for x
    using that p(2) c(2) unat_page_to_phys [OF f] unfolding same_outside_def by (metis not_less)
  have "heap_frames ?A = heap_frames A \<union> {f}"
    using i by (auto simp: heap_frames_def split: if_splits)
  then have tk: "takes_frames p A p' ?A"
    unfolding takes_frames_def using p(2,4-6) by (intro conjI exI [of _ "{f}"]) auto
  have "fresh_extent (a + 24) (2 ^ (i + 4)) (h, p, m, con) A (?h, p', m', con) ?A"
    using rel' o(5) new le kp rest tk by (auto simp: fresh_extent_def)
  with run show ?thesis by (intro exI conjI) (assumption+, simp)
qed

lemma slab_alloc_spec:
  assumes rel: "heap_rel (h, p, m, con) A" and i: "i < 8"
  shows "slab_alloc i (h, p, m, con) = Some (0, h, p, m, con) \<and> free_set p = {} \<or>
    (\<exists>ptr h' p' m' A'. slab_alloc i (h, p, m, con) = Some (ptr, h', p', m', con) \<and>
      fresh_extent ptr (2 ^ (i + 4)) (h, p, m, con) A (h', p', m', con) A' \<and>
      total_allocated h' = total_allocated h)"
proof (cases "sfl A i")
  case (Cons a xs)
  from slab_alloc_list [OF rel i this] show ?thesis by blast
next
  case Nil
  note R = heap_relD [OF rel]
  have n1: "2 ^ 0 \<le> unat (num_pages p)" using R(2) by simp
  from alloc_block_held [OF R(1) le0 n1] show ?thesis
  proof (elim disjE conjE exE)
    assume none: "\<forall>i. \<not> block p i (2 ^ 0)" and a: "alloc_pages (int 0) p = Some (None, p)"
    have "free_list (slabs h i) = 0"
      using R(3) [OF i] Nil by (auto simp: slab_ok_def ptr_of_def split: if_splits)
    then have "slab_alloc i (h, p, m, con) = Some (0, h, p, m, con)" using a by (simp add: slab_alloc_def Let_def)
    moreover have "free_set p = {}" using none by (auto simp: block_def free_set_def)
    ultimately show ?thesis by blast
  next
    fix f p' assume "alloc_pages (int 0) p = Some (Some f, p')" "{f..<f + 2 ^ 0} \<subseteq> free_set p" "pmm_wf p'"
      "free_set p' = free_set p - {f..<f + 2 ^ 0}" "held_set p' = held_set p \<union> {f..<f + 2 ^ 0}" "num_pages p' = num_pages p"
    then have "alloc_pages 0 p = Some (Some f, p')" "f \<in> free_set p" "pmm_wf p'" "free_set p' = free_set p - {f}"
      "held_set p' = insert f (held_set p)" "num_pages p' = num_pages p" by simp_all
    from slab_alloc_new [OF rel i Nil this] show ?thesis by blast
  qed
qed

lemma find_slab_eq:
  "find_slab sz = (if sz \<le> 16 then Some 0 else if sz \<le> 32 then Some 1 else if sz \<le> 64 then Some 2
     else if sz \<le> 128 then Some 3 else if sz \<le> 256 then Some 4 else if sz \<le> 512 then Some 5
     else if sz \<le> 1024 then Some 6 else if sz \<le> 2048 then Some 7 else None)"
  by (simp add: find_slab_def NUM_SLABS_def slab_sizes_def eval_nat_numeral)

lemma find_slab_Some: "find_slab sz = Some i \<Longrightarrow> i < 8 \<and> unat sz \<le> 2 ^ (i + 4)"
  by (auto simp: find_slab_eq word_le_nat_alt split: if_splits)

lemma find_slab_None: "find_slab sz = None \<longleftrightarrow> 2048 < unat sz"
  by (auto simp: find_slab_eq word_le_nat_alt split: if_splits)

lemma find_slab_own: "i < 8 \<Longrightarrow> find_slab (slab_sizes i) = Some i"
  by (drule less_8_cases) (elim disjE; simp add: find_slab_eq slab_sizes_def)

lemma heap_rel_stats [simp]:
  "heap_rel (h\<lparr>total_allocated := x\<rparr>, p, m, con) A = heap_rel (h, p, m, con) A"
  "heap_rel (h\<lparr>total_freed := y\<rparr>, p, m, con) A = heap_rel (h, p, m, con) A"
  by (simp_all add: heap_rel_def)

lemma heap_rel_con: "heap_rel (h, p, m, con) A = heap_rel (h, p, m, con') A"
  by (simp add: heap_rel_def)

lemma kmalloc_small:
  assumes rel: "heap_rel (h, p, m, con) A" and sz: "sz \<noteq> 0" "find_slab sz = Some i"
  shows "kmalloc sz (h, p, m, con) = Some (0, h, p, m, con) \<and> free_set p = {} \<or>
    (\<exists>ptr h' p' m' A'. kmalloc sz (h, p, m, con) = Some (ptr, h', p', m', con) \<and>
      fresh_extent ptr (2 ^ (i + 4)) (h, p, m, con) A (h', p', m', con) A')"
proof -
  have i: "i < 8" using find_slab_Some [OF sz(2)] by simp
  from slab_alloc_spec [OF rel i] show ?thesis
  proof (elim disjE conjE exE)
    assume "slab_alloc i (h, p, m, con) = Some (0, h, p, m, con)" "free_set p = {}"
    then show ?thesis using sz by (simp add: kmalloc_def)
  next
    fix ptr h' p' m' A' assume s: "slab_alloc i (h, p, m, con) = Some (ptr, h', p', m', con)"
      and f: "fresh_extent ptr (2 ^ (i + 4)) (h, p, m, con) A (h', p', m', con) A'"
    let ?h = "h'\<lparr>total_allocated := total_allocated h' + sl_size (slabs h' i)\<rparr>"
    have "ptr \<noteq> 0" using f by (simp add: fresh_extent_def)
    then have "kmalloc sz (h, p, m, con) = Some (ptr, ?h, p', m', con)" using s sz by (simp add: kmalloc_def Let_def)
    moreover have "fresh_extent ptr (2 ^ (i + 4)) (h, p, m, con) A (?h, p', m', con) A'"
      using f by (simp add: fresh_extent_def)
    ultimately show ?thesis by blast
  qed
qed

section \<open>Large blocks\<close>

lemma unat_page_order: "k \<le> 51 \<Longrightarrow> unat (push_bit k PAGE_SIZE) = 4096 * 2 ^ k"
proof -
  assume k: "k \<le> 51"
  have "(2 :: nat) ^ (12 + k) \<le> 2 ^ 63" using k by (intro power_increasing) simp_all
  then have "4096 * 2 ^ k < (2 :: nat) ^ 64" by (simp add: power_add)
  then show ?thesis using k by (simp add: PAGE_SIZE_eq push_bit_eq_mult unat_word_ariths unat_pow2 mod_less mult.commute)
qed

lemma order_for_least:
  assumes "unat need \<le> 4096 * 2 ^ k" "k \<le> 51" "j \<le> k" "\<And>l. j \<le> l \<Longrightarrow> l < k \<Longrightarrow> 4096 * 2 ^ l < unat need"
  shows "order_for need j = Some k"
  using assms(3,4)
proof (induction "k - j" arbitrary: j)
  case 0
  then have "j = k" by simp
  then show ?case using assms(1,2) unat_page_order [OF assms(2)]
    by (subst order_for.simps) (simp add: word_less_nat_alt)
next
  case (Suc d)
  then have "j < k" by simp
  moreover from this have "push_bit j PAGE_SIZE < need"
    using Suc.prems(2) [of j] unat_page_order [of j] assms(2) by (simp add: word_less_nat_alt)
  moreover have "order_for need (Suc j) = Some k" using Suc \<open>j < k\<close> by simp
  ultimately show ?case using assms(2) by (subst order_for.simps) simp
qed

lemma order_for_ex:
  assumes "unat need \<le> 2 ^ 63"
  obtains k where "order_for need 0 = Some k" "unat need \<le> 4096 * 2 ^ k" "k \<le> 51"
proof -
  define k where "k = (LEAST k. unat need \<le> 4096 * 2 ^ k)"
  have e: "unat need \<le> 4096 * 2 ^ 51" using assms by simp
  have 1: "unat need \<le> 4096 * 2 ^ k" unfolding k_def
    by (rule LeastI [where P = "\<lambda>k. unat need \<le> 4096 * 2 ^ k", OF e])
  have 2: "k \<le> 51" unfolding k_def
    by (rule Least_le [where P = "\<lambda>k. unat need \<le> 4096 * 2 ^ k", OF e])
  have "4096 * 2 ^ l < unat need" if "l < k" for l
    using not_less_Least [of l "\<lambda>k. unat need \<le> 4096 * 2 ^ k"] that unfolding k_def by simp
  then show thesis using that [OF order_for_least [OF 1 2] 1 2] by blast
qed

lemma order_for_never:
  assumes "2 ^ 63 < unat need" "j \<le> 64"
  shows "order_for need j = None"
  using assms(2)
proof (induction "64 - j" arbitrary: j)
  case 0
  then show ?case by (subst order_for.simps) simp
next
  case (Suc d)
  then have j: "j < 64" by simp
  have "unat (push_bit j PAGE_SIZE) \<le> 2 ^ 63"
  proof (cases "j \<le> 51")
    case True
    have "(2 :: nat) ^ (12 + j) \<le> 2 ^ 63" using True by (intro power_increasing) simp_all
    then show ?thesis using unat_page_order [OF True] by (simp add: power_add)
  next
    case False
    then obtain r where r: "j = 52 + r" using le_Suc_ex [of 52 j] by auto
    have "push_bit 52 PAGE_SIZE = 0" by (simp add: PAGE_SIZE_eq push_bit_eq_mult)
    then have "push_bit (r + 52) PAGE_SIZE = 0" by (simp only: push_bit_push_bit [symmetric]) simp
    then show ?thesis by (simp add: r add.commute)
  qed
  then have "push_bit j PAGE_SIZE < need" using assms(1) by (simp add: word_less_nat_alt)
  moreover have "order_for need (Suc j) = None" using Suc j by simp
  ultimately show ?case using j by (subst order_for.simps) simp
qed

lemma block_far:
  assumes rel: "heap_rel (h, p, m, con) A" and f: "{f..<f + c} \<inter> held_set p = {}" "0 < c"
    and e: "e \<in> live_extents A"
  shows "unat (fst e) + snd e \<le> 0x40000000 + f * 4096 \<or> 0x40000000 + f * 4096 + 4096 * c \<le> unat (fst e)"
  using e
proof (cases rule: live_extents_cases)
  case (obj k b)
  obtain g where g: "g \<in> sfr A k" "0x40000000 + g * 4096 \<le> unat b" "unat b + osz k \<le> 0x40000000 + g * 4096 + 4096"
    using obj_cell(7) [OF rel obj(1,2)] by blast
  have "g \<notin> {f..<f + c}" using g(1) heap_relD(4) [OF rel obj(1)] f(1) by blast
  moreover have "24 + 2 ^ (k + 4) = osz k" by (simp add: osz_def)
  ultimately show ?thesis using frames_far [of g f c] f(2) g(2,3) obj_cell(1) [OF rel obj(1,2)]
    unfolding obj(4) fst_conv snd_conv by linarith
next
  case (block g k)
  have "{g..<g + 2 ^ k} \<inter> {f..<f + c} = {}" using heap_relD(7) [OF rel block(1)] f(1) by blast
  moreover have "(0 :: nat) < 2 ^ k" by simp
  ultimately have "g + 2 ^ k \<le> f \<or> f + c \<le> g" using f(2) by (cases "f \<le> g") (auto simp: disjoint_iff)
  then have "g * 4096 + 4096 * 2 ^ k \<le> f * 4096 \<or> f * 4096 + 4096 * c \<le> g * 4096" by auto
  then show ?thesis using blk_cell(3,5) [OF rel block(1)] unfolding block(2) fst_conv snd_conv by linarith
qed

text \<open>The header of a new block.\<close>

lemma write_block_header:
  fixes m :: mem and sz :: u64
  assumes f: "f < PAGES_LEN" and k: "k \<le> 10"
  defines "a \<equiv> page_to_phys f"
  defines "m' \<equiv> store32 (store32 (store64 m a sz) (a + 8) KMALLOC_PAGE_MAGIC) (a + 12) (of_nat k)"
  shows "same_outside m m' (0x40000000 + f * 4096) 16" "blk_ok m' f k"
proof -
  have ua: "unat a = 0x40000000 + f * 4096" unfolding a_def by (rule unat_page_to_phys [OF f])
  have b: "unat a + 16 \<le> 2 ^ 64" using ua f by (simp add: PAGES_LEN_def)
  have u: "unat (a + 8) = unat a + 8" "unat (a + 12) = unat a + 12"
    using unat_offset_num [OF b, of 8] unat_offset_num [OF b, of 12] by simp_all
  let ?m1 = "store64 m a sz"
  let ?m2 = "store32 ?m1 (a + 8) KMALLOC_PAGE_MAGIC"
  have 1: "same_outside m ?m1 (unat a) 8" by (rule same_outside_store64) (use b in linarith)+
  have 2: "same_outside ?m1 ?m2 (unat a + 8) 4" by (rule same_outside_store32) (use b u in linarith)+
  have 3: "same_outside ?m2 m' (unat a + 12) 4" unfolding m'_def
    by (rule same_outside_store32) (use b u in linarith)+
  have "same_outside m ?m1 (unat a) 16" "same_outside ?m1 ?m2 (unat a) 16" "same_outside ?m2 m' (unat a) 16"
    using same_outside_mono [OF 1] same_outside_mono [OF 2] same_outside_mono [OF 3] by simp_all
  then show "same_outside m m' (0x40000000 + f * 4096) 16" unfolding ua by (blast intro: same_outside_trans)
  have "load32 m' (a + 8) = load32 ?m2 (a + 8)" by (rule load32_outside [OF 3]) (use u b in linarith)+
  then have "obj_magic m' a = KMALLOC_PAGE_MAGIC" by (simp add: obj_magic_def)
  moreover have "page_order m' a = of_nat k" by (simp add: page_order_def m'_def)
  ultimately show "blk_ok m' f k" using k by (simp add: blk_ok_def a_def)
qed

lemma heap_rel_block:
  assumes rel: "heap_rel (h, p, m, con) A" and f: "f < PAGES_LEN" and b: "blk_ok m' f k"
    and so: "same_outside m m' (0x40000000 + f * 4096) 16" and new: "{f..<f + 2 ^ k} \<inter> held_set p = {}"
    and p: "pmm_wf p'" "held_set p' = held_set p \<union> {f..<f + 2 ^ k}" "num_pages p' = num_pages p"
  shows "heap_rel (h, p', m', con') (A\<lparr>blk := (blk A)(f := Some k)\<rparr>)"
proof -
  note R = heap_relD [OF rel]
  have k0: "(0 :: nat) < 2 ^ k" by simp
  then have fin: "f \<in> {f..<f + 2 ^ k}" by simp
  have slabs: "slab_ok (slabs h i) m' i (sfr A i) (sfl A i)" if i: "i < 8" for i
  proof -
    have "0x40000000 + g * 4096 + 4096 \<le> 0x40000000 + f * 4096 \<or>
        0x40000000 + f * 4096 + 16 \<le> 0x40000000 + g * (4096 :: nat)" if "g \<in> sfr A i" for g
    proof -
      have "g \<noteq> f" using R(4) [OF i] that new fin by blast
      then show ?thesis by linarith
    qed
    then show ?thesis
      by (intro slab_ok_outside [OF R(3) [OF i] i heap_rel_frame_bound(1) [OF rel i] so])
  qed
  have blocks: "blk_ok m' g l" if g: "blk A g = Some l" "g \<noteq> f" for g l
  proof (rule blk_ok_outside [OF R(6) [OF g(1)] blk_cell(1) [OF rel g(1)] so])
    show "0x40000000 + g * 4096 + 16 \<le> 0x40000000 + f * 4096 \<or>
        0x40000000 + f * 4096 + 16 \<le> 0x40000000 + g * (4096 :: nat)" using g(2) by linarith
  qed
  have none: "{g..<g + 2 ^ l} \<inter> {f..<f + 2 ^ k} = {}" if "blk A g = Some l" for g l
    using R(7) [OF that] new by blast
  show ?thesis unfolding heap_rel_def prod.case
  proof (intro conjI allI impI)
    let ?A = "A\<lparr>blk := (blk A)(f := Some k)\<rparr>"
    show "pmm_wf p'" "1024 \<le> unat (num_pages p')" using p R(2) by simp_all
    show "slab_ok (slabs h i) m' i (sfr ?A i) (sfl ?A i)" if "i < 8" for i using slabs [OF that] by simp
    show "sfr ?A i \<subseteq> held_set p'" if "i < 8" for i using R(4) [OF that] p(2) by auto
    show "sfr ?A i \<inter> sfr ?A l = {}" if "i < 8" "l < 8" "i \<noteq> l" for i l using R(5) [OF that] by simp
    show "blk_ok m' g l" if "blk ?A g = Some l" for g l
      using that b blocks [of g l] by (cases "g = f") simp_all
    show "{g..<g + 2 ^ l} \<subseteq> held_set p'" if "blk ?A g = Some l" for g l
      using that R(7) [of g l] p(2) by (cases "g = f") auto
    show "sfr ?A i \<inter> {g..<g + 2 ^ l} = {}" if "blk ?A g = Some l" "i < 8" for g l i
    proof (cases "g = f")
      case True
      then show ?thesis using that R(4) [OF that(2)] new by auto
    next
      case False
      then show ?thesis using that R(8) [of g l i] by simp
    qed
    show "{g..<g + 2 ^ l} \<inter> {g'..<g' + 2 ^ l'} = {}"
      if "blk ?A g = Some l \<and> blk ?A g' = Some l' \<and> g \<noteq> g'" for g l g' l'
    proof (cases "g = f")
      case True
      then have "l = k" "blk A g' = Some l'" using that by auto
      with none [of g' l'] show ?thesis unfolding True by blast
    next
      case False
      then have g: "blk A g = Some l" using that by simp
      show ?thesis
      proof (cases "g' = f")
        case True
        with that none [OF g] show ?thesis by simp
      next
        case False
        with that R(9) [OF g, of g' l'] show ?thesis by simp
      qed
    qed
  qed
qed

text \<open>The order \<open>kmalloc\<close> chooses, and when it finds no block.\<close>

definition no_room :: "u64 \<Rightarrow> pmm \<Rightarrow> bool" where
  "no_room sz p \<longleftrightarrow>
     (if unat sz \<le> 2048 then free_set p = {}
      else \<exists>k. unat sz + 16 \<le> 4096 * 2 ^ k \<and> (k > 10 \<or> (\<forall>f. \<not> block p f (2 ^ k))))"

lemma kmalloc_order:
  assumes rel: "heap_rel (h, p, m, con) A" and sz: "2048 < unat sz"
    and k: "order_for (sz + PAGE_HEADER) 0 = Some k" and True: "k \<le> 10"
  shows "kmalloc sz (h, p, m, con) = Some (0, h, p, m, con) \<and> (\<forall>f. \<not> block p f (2 ^ k)) \<or>
    (\<exists>ptr h' p' m' A'. kmalloc sz (h, p, m, con) = Some (ptr, h', p', m', con) \<and>
      fresh_extent ptr (4096 * 2 ^ k - 16) (h, p, m, con) A (h', p', m', con) A')"
proof -
  note R = heap_relD [OF rel]
  have nsz: "sz \<noteq> 0" "find_slab sz = None" using sz by (auto simp: find_slab_None)
  have "(2 :: nat) ^ k \<le> 2 ^ 10" using True by (intro power_increasing) simp_all
  then have "2 ^ k \<le> unat (num_pages p)" using R(2) by simp
  from alloc_block_held [OF R(1) True this] show ?thesis
  proof (elim disjE conjE exE)
    assume "\<forall>i. \<not> block p i (2 ^ k)" "alloc_pages (int k) p = Some (None, p)"
    then show ?thesis using nsz k by (simp add: kmalloc_def Let_def)
  next
    fix f p' assume a: "alloc_pages (int k) p = Some (Some f, p')" "{f..<f + 2 ^ k} \<subseteq> free_set p" "pmm_wf p'"
      "free_set p' = free_set p - {f..<f + 2 ^ k}" "held_set p' = held_set p \<union> {f..<f + 2 ^ k}"
      "num_pages p' = num_pages p"
    have k0: "(0 :: nat) < 2 ^ k" by simp
    then have fin: "f \<in> {f..<f + 2 ^ k}" by simp
    have f: "f < PAGES_LEN" using free_set_bound [OF R(1)] a(2) fin by blast
    have new: "{f..<f + 2 ^ k} \<inter> held_set p = {}" using held_not_free [of p] a(2) by blast
    let ?a = "page_to_phys f"
    define m' where "m' = store32 (store32 (store64 m ?a sz) (?a + 8) KMALLOC_PAGE_MAGIC) (?a + 12) (of_nat k)"
    define h' where "h' = h\<lparr>total_allocated := total_allocated h + push_bit k PAGE_SIZE\<rparr>"
    have run: "kmalloc sz (h, p, m, con) = Some (?a + 16, h', p', m', con)"
      using nsz k a(1) by (simp add: kmalloc_def Let_def m'_def h'_def PAGE_HEADER_def)
    note W = write_block_header [OF f True, of m sz, folded m'_def]
    let ?A = "A\<lparr>blk := (blk A)(f := Some k)\<rparr>"
    have rel': "heap_rel (h', p', m', con) ?A"
      using heap_rel_block [OF rel f W(2,1) new a(3,5,6)] by (simp add: h'_def)
    have bf: "blk A f = None"
    proof (cases "blk A f")
      case (Some l)
      have "f \<in> {f..<f + 2 ^ l}" by simp
      then show ?thesis using R(7) [OF Some] new fin by blast
    qed simp
    have bl: "blk ?A f = Some k" by simp
    note c = blk_cell [OF rel' bl]
    have "blk_live ?A = insert (?a + 16, 4096 * 2 ^ k - 16) (blk_live A)"
      using bf by (auto simp: blk_live_def split: if_splits)
    moreover have "slab_live ?A = slab_live A" by (simp add: slab_live_def)
    ultimately have le: "live_extents ?A = insert (?a + 16, 4096 * 2 ^ k - 16) (live_extents A)"
      by (simp add: live_extents_def)
    have far: "unat (fst e) + snd e \<le> 0x40000000 + f * 4096 \<or> 0x40000000 + f * 4096 + 4096 * 2 ^ k \<le> unat (fst e)"
      if "e \<in> live_extents A" for e by (rule block_far [OF rel new k0 that])
    have nl: "(?a + 16, 4096 * 2 ^ k - 16) \<notin> live_extents A"
      using far [of "(?a + 16, 4096 * 2 ^ k - 16)"] c(3,5) k0 by auto
    have so: "same_outside m m' (0x40000000 + f * 4096) (4096 * 2 ^ k)"
      by (rule same_outside_mono [OF W(1)]) (use k0 in linarith)+
    have kp: "keeps (live_extents A) m m'" by (rule keepsI [OF so far])
    have rest: "m' x = m x"
      if "\<forall>g \<in> free_set p. \<not> (unat (page_to_phys g) \<le> unat x \<and> unat x < unat (page_to_phys g) + 4096)" for x
    proof -
      have "f \<in> free_set p" using a(2) fin by blast
      then have "unat x < 0x40000000 + f * 4096 \<or> 0x40000000 + f * 4096 + 16 \<le> unat x"
        using that c(2) by force
      then show ?thesis using W(1) unfolding same_outside_def by blast
    qed
    have "heap_frames ?A = heap_frames A \<union> {f..<f + 2 ^ k}"
      using bf by (force simp: heap_frames_def split: if_splits)
    then have tk: "takes_frames p A p' ?A"
      unfolding takes_frames_def using a(2,4-6) by (intro conjI exI [of _ "{f..<f + 2 ^ k}"]) auto
    have "fresh_extent (?a + 16) (4096 * 2 ^ k - 16) (h, p, m, con) A (h', p', m', con) ?A"
      using rel' c(4) nl le kp rest tk by (auto simp: fresh_extent_def)
    then show ?thesis using run by blast
  qed
qed

lemma kmalloc_large:
  assumes rel: "heap_rel (h, p, m, con) A" and sz: "2048 < unat sz" "unat sz + 16 \<le> 2 ^ 63"
  shows "kmalloc sz (h, p, m, con) = Some (0, h, p, m, con) \<and> no_room sz p \<or>
    (\<exists>ptr n h' p' m' A'. kmalloc sz (h, p, m, con) = Some (ptr, h', p', m', con) \<and> unat sz \<le> n \<and>
      fresh_extent ptr n (h, p, m, con) A (h', p', m', con) A')"
proof -
  have need: "unat (sz + PAGE_HEADER) = unat sz + 16"
    using sz(2) by (subst unat_add_no_wrap) (simp_all add: PAGE_HEADER_def)
  obtain k where k: "order_for (sz + PAGE_HEADER) 0 = Some k" "unat sz + 16 \<le> 4096 * 2 ^ k"
    using order_for_ex [of "sz + PAGE_HEADER"] sz(2) need by metis
  have fits: "unat sz \<le> 4096 * 2 ^ k - 16" using k(2) by linarith
  show ?thesis
  proof (cases "k \<le> 10")
    case False
    then have "alloc_pages (int k) p = Some (None, p)" by (simp add: alloc_pages_def MAX_ORDER_def)
    moreover have "sz \<noteq> 0" "find_slab sz = None" using sz(1) by (auto simp: find_slab_None)
    ultimately have "kmalloc sz (h, p, m, con) = Some (0, h, p, m, con)"
      using k(1) by (simp add: kmalloc_def Let_def)
    moreover have "no_room sz p" using sz(1) k(2) False by (auto simp: no_room_def)
    ultimately show ?thesis by blast
  next
    case True
    from kmalloc_order [OF rel sz(1) k(1) True] show ?thesis
    proof (elim disjE conjE exE)
      assume "kmalloc sz (h, p, m, con) = Some (0, h, p, m, con)" "\<forall>f. \<not> block p f (2 ^ k)"
      moreover from this have "no_room sz p" using sz(1) k(2) by (auto simp: no_room_def)
      ultimately show ?thesis by blast
    qed (use fits in blast)
  qed
qed

text \<open>Both cases together.\<close>

lemma kmalloc_spec:
  assumes rel: "heap_rel (h, p, m, con) A" and sz: "unat sz + 16 \<le> 2 ^ 63"
  shows "kmalloc sz (h, p, m, con) = Some (0, h, p, m, con) \<and> (sz = 0 \<or> no_room sz p) \<or>
    sz \<noteq> 0 \<and> (\<exists>ptr n h' p' m' A'. kmalloc sz (h, p, m, con) = Some (ptr, h', p', m', con) \<and> unat sz \<le> n \<and>
      fresh_extent ptr n (h, p, m, con) A (h', p', m', con) A')"
proof (cases "sz = 0")
  case True
  then show ?thesis by (simp add: kmalloc_def)
next
  case False
  show ?thesis
  proof (cases "find_slab sz")
    case None
    then have "2048 < unat sz" by (simp add: find_slab_None)
    from kmalloc_large [OF rel this sz] False show ?thesis by blast
  next
    case (Some i)
    have le: "unat sz \<le> 2048" using Some find_slab_None [of sz] by simp
    from kmalloc_small [OF rel False Some] show ?thesis
    proof (elim disjE conjE exE)
      assume "kmalloc sz (h, p, m, con) = Some (0, h, p, m, con)" "free_set p = {}"
      then show ?thesis using le by (simp add: no_room_def)
    next
      fix ptr h' p' m' A' assume "kmalloc sz (h, p, m, con) = Some (ptr, h', p', m', con)"
        "fresh_extent ptr (2 ^ (i + 4)) (h, p, m, con) A (h', p', m', con) A'"
      then show ?thesis using find_slab_Some [OF Some] False by blast
    qed
  qed
qed

section \<open>Releasing\<close>

text \<open>
  The word where \<open>kfree\<close> looks for the magic number of a page header is, for an object, the low half
  of its list link, which is a multiple of 8; the magic number is not.
\<close>

lemma link_no_magic:
  assumes "hdr_ok m i a"
  shows "obj_magic m (a + 8) \<noteq> KMALLOC_PAGE_MAGIC"
proof
  assume e: "obj_magic m (a + 8) = KMALLOC_PAGE_MAGIC"
  have "obj_magic m (a + 8) = ucast (obj_next m a)"
    by (simp add: obj_magic_def obj_next_def load32_low add.assoc)
  then have "unat (ucast (obj_next m a) :: u32) = unat KMALLOC_PAGE_MAGIC" using e by simp
  then have "unat (obj_next m a) mod 2 ^ 32 = 0xCAFEBABE"
    by (simp add: unsigned_ucast_eq take_bit_eq_mod KMALLOC_PAGE_MAGIC_def)
  moreover have "unat (obj_next m a) mod 2 ^ 32 mod 8 = unat (obj_next m a) mod 8"
    by (rule mod_mod_cancel) simp
  ultimately show False using assms by (simp add: hdr_ok_def)
qed

definition released :: "u64 \<Rightarrow> nat \<Rightarrow> hst \<Rightarrow> habs \<Rightarrow> hst \<Rightarrow> habs \<Rightarrow> bool" where
  "released ptr n st A st' A' \<longleftrightarrow>
     (case (st, st') of ((h, p, m, con), (h', p', m', con')) \<Rightarrow>
       heap_rel st' A' \<and> live_extents A' = live_extents A - {(ptr, n)} \<and> keeps (live_extents A) m m' \<and>
       con' = con \<and> gives_frames p A p' A' \<and>
       (\<forall>x. (\<forall>f \<in> heap_frames A. \<not> (unat (page_to_phys f) \<le> unat x \<and> unat x < unat (page_to_phys f) + 4096)) \<longrightarrow> m' x = m x))"

lemma kfree_object_run:
  assumes rel: "heap_rel (h, p, m, con) A" and i: "i < 8" and a: "a \<in> objs i (sfr A i)"
  shows "kfree (a + 24) (h, p, m, con) =
    Some (upd_slab i (\<lambda>s. s\<lparr>free_list := a, free_objects := free_objects s + 1\<rparr>)
            (h\<lparr>total_freed := total_freed h + slab_sizes i\<rparr>),
          p, store64 m (a + 16) (free_list (slabs h i)), con)"
proof -
  have hdr: "hdr_ok m i a" using heap_relD(3) [OF rel i] a by (simp add: slab_ok_def)
  have o: "a + 24 - PAGE_HEADER = a + 8" "a + 24 - OBJ_HEADER = a" by (simp_all add: PAGE_HEADER_def OBJ_HEADER_def)
  have "obj_magic m a = KMALLOC_MAGIC" "obj_size m a = slab_sizes i" using hdr by (simp_all add: hdr_ok_def)
  then show ?thesis using link_no_magic [OF hdr] obj_cell(5) [OF rel i a]
    by (simp add: kfree_def slab_free_def Let_def o find_slab_own [OF i] upd_slab_def)
qed

lemma kfree_object:
  assumes rel: "heap_rel (h, p, m, con) A" and i: "i < 8" and a: "a \<in> objs i (sfr A i)" "a \<notin> set (sfl A i)"
  shows "\<exists>st' A'. kfree (a + 24) (h, p, m, con) = Some st' \<and> released (a + 24) (2 ^ (i + 4)) (h, p, m, con) A st' A'"
proof -
  note R = heap_relD [OF rel] and o = obj_cell [OF rel i a(1)]
  let ?xs = "sfl A i" and ?F = "sfr A i"
  let ?m = "store64 m (a + 16) (free_list (slabs h i))"
  let ?h = "upd_slab i (\<lambda>s. s\<lparr>free_list := a, free_objects := free_objects s + 1\<rparr>)
            (h\<lparr>total_freed := total_freed h + slab_sizes i\<rparr>)"
  have ok: "slab_ok ((slabs h i)\<lparr>free_list := a, free_objects := free_objects (slabs h i) + 1\<rparr>) ?m i ?F (a # ?xs)"
    and so: "same_outside m ?m (unat a + 16) 8"
    using slab_push [OF R(3) [OF i] i heap_rel_frame_bound(1) [OF rel i] a] by auto
  obtain g where g: "g \<in> ?F" "0x40000000 + g * 4096 \<le> unat a" "unat a + osz i \<le> 0x40000000 + g * 4096 + 4096"
    using o(7) by blast
  have "24 \<le> osz i" by (simp add: osz_def)
  then have so': "same_outside m ?m (0x40000000 + g * 4096) 4096"
    by (intro same_outside_mono [OF so]) (use g in linarith)+
  let ?A = "A\<lparr>sfr := (sfr A)(i := ?F), sfl := (sfl A)(i := a # ?xs)\<rparr>"
  have dj: "\<And>k. k < 8 \<Longrightarrow> k \<noteq> i \<Longrightarrow> ?F \<inter> sfr A k = {}" using R(5) [OF i] by blast
  have rel': "heap_rel (?h, p, ?m, con) ?A"
    by (rule heap_rel_slab [OF rel i _ _ so' g(1) R(1) subset_refl refl R(4) [OF i] dj R(8) [OF _ i]])
      (use ok in simp_all)
  have "used i ?F (a # ?xs) = used i ?F ?xs - {(a + 24, 2 ^ (i + 4))}" by (auto simp: used_def)
  moreover have "(a + 24, 2 ^ (i + 4)) \<notin> used k (sfr A k) (sfl A k)" if "k \<in> {..<8} - {i}" for k
    using that by (auto simp: used_def power_inject_exp)
  ultimately have le: "live_extents ?A = live_extents A - {(a + 24, 2 ^ (i + 4))}"
    using slab_not_block [OF i, of "a + 24" A]
    unfolding live_extents_def slab_live_upd [OF i] slab_live_split [OF i, of A] blk_live_upd by auto
  have ea: "(a + 24, 2 ^ (i + 4)) \<in> live_extents A" using i a by (auto simp: live_extents_def slab_live_def)
  have kp: "keeps (live_extents A) m ?m"
    unfolding keeps_def
  proof (intro ballI allI impI)
    fix e x assume "e \<in> live_extents A" "inside x e"
    then have "\<not> (unat a \<le> unat x \<and> unat x < unat a + 24)" using header_not_live [OF rel i a(1)] by blast
    then have "unat x < unat a + 16 \<or> unat a + 16 + 8 \<le> unat x" by linarith
    then show "?m x = m x" using so unfolding same_outside_def by blast
  qed
  have gh: "g \<in> heap_frames A" using g(1) i by (auto simp: heap_frames_def)
  have rest: "\<forall>x. (\<forall>f \<in> heap_frames A. \<not> (unat (page_to_phys f) \<le> unat x \<and> unat x < unat (page_to_phys f) + 4096)) \<longrightarrow> ?m x = m x"
    using gh so' unat_page_to_phys [OF heap_rel_frame_bound(1) [OF rel i g(1)]]
    unfolding same_outside_def by (metis not_less)
  have "released (a + 24) (2 ^ (i + 4)) (h, p, m, con) A (?h, p, ?m, con) ?A"
    using rel' le kp rest by (simp add: released_def gives_frames_keep)
  with kfree_object_run [OF rel i a(1)] show ?thesis by blast
qed

lemma kfree_block:
  assumes rel: "heap_rel (h, p, m, con) A" and b: "blk A f = Some k"
  shows "\<exists>st' A'. kfree (page_to_phys f + 16) (h, p, m, con) = Some st' \<and>
    released (page_to_phys f + 16) (4096 * 2 ^ k - 16) (h, p, m, con) A st' A'"
proof -
  note R = heap_relD [OF rel] and c = blk_cell [OF rel b]
  have B: "k \<le> 10" "obj_magic m (page_to_phys f) = KMALLOC_PAGE_MAGIC" "page_order m (page_to_phys f) = of_nat k"
    using R(6) [OF b] by (simp_all add: blk_ok_def)
  have u: "unat (of_nat k :: u32) = k" "sint (of_nat k :: u32) = int k"
    using B(1) by (simp_all add: unat_of_nat_u32 signed_of_nat signed_take_bit_int_eq_self)
  have k0: "(0 :: nat) < 2 ^ k" by simp
  then have fin: "f \<in> {f..<f + 2 ^ k}" by simp
  then have fh: "f \<in> held_set p" using R(7) [OF b] by blast
  have "f < unat (num_pages p)" using fh by (simp add: held_set_def)
  then have ptp: "phys_to_page p (page_to_phys f) = Some f"
    using phys_to_page_spec [of p "page_to_phys f" f] R(1) by (auto simp: pmm_wf_def intro!: exI [of _ 0])
  obtain p' where p': "free_pages (Some f) (int k) p = Some p'" "pmm_wf p'" "free_set p' = free_set p \<union> {f..<f + 2 ^ k}"
    "held_set p' = held_set p - {f..<f + 2 ^ k}" "num_pages p' = num_pages p"
    using free_block_held [OF R(1) B(1) R(7) [OF b]] by blast
  let ?h = "h\<lparr>total_freed := total_freed h + push_bit k PAGE_SIZE\<rparr>"
  have run: "kfree (page_to_phys f + 16) (h, p, m, con) = Some (?h, p', m, con)"
    using c(4) B u ptp p'(1) by (simp add: kfree_def Let_def PAGE_HEADER_def)
  let ?A = "A\<lparr>blk := (blk A)(f := None)\<rparr>"
  have held: "{g..<g + 2 ^ l} \<subseteq> held_set p'" if "blk A g = Some l" "g \<noteq> f" for g l
    using R(7) [OF that(1)] R(9) [OF that(1) b that(2)] p'(4) by blast
  have rel': "heap_rel (h, p', m, con) ?A" unfolding heap_rel_def prod.case
  proof (intro conjI allI impI)
    show "pmm_wf p'" "1024 \<le> unat (num_pages p')" using p'(2,5) R(2) by simp_all
    show "slab_ok (slabs h i) m i (sfr ?A i) (sfl ?A i)" if "i < 8" for i using R(3) [OF that] by simp
    show "sfr ?A i \<subseteq> held_set p'" if "i < 8" for i using R(4) [OF that] R(8) [OF b that] p'(4) by auto
    show "sfr ?A i \<inter> sfr ?A l = {}" if "i < 8" "l < 8" "i \<noteq> l" for i l using R(5) [OF that] by simp
    show "blk_ok m g l" if "blk ?A g = Some l" for g l using that R(6) [of g l] by (simp split: if_splits)
    show "{g..<g + 2 ^ l} \<subseteq> held_set p'" if "blk ?A g = Some l" for g l
      using that held [of g l] by (simp split: if_splits)
    show "sfr ?A i \<inter> {g..<g + 2 ^ l} = {}" if "blk ?A g = Some l" "i < 8" for g l i
      using that R(8) [of g l i] by (simp split: if_splits)
    show "{g..<g + 2 ^ l} \<inter> {g'..<g' + 2 ^ l'} = {}"
      if "blk ?A g = Some l \<and> blk ?A g' = Some l' \<and> g \<noteq> g'" for g l g' l'
      using that R(9) [of g l g' l'] by (simp split: if_splits)
  qed
  have le: "live_extents ?A = live_extents A - {(page_to_phys f + 16, 4096 * 2 ^ k - 16)}"
  proof -
    have s: "slab_live ?A = slab_live A" by (simp add: slab_live_def)
    have "(page_to_phys f + 16, 4096 * 2 ^ k - 16) \<notin> slab_live A"
    proof
      assume "(page_to_phys f + 16, 4096 * 2 ^ k - 16) \<in> slab_live A"
      then obtain i where "i < 8" "(2 :: nat) ^ (i + 4) = 4096 * 2 ^ k - 16" by (auto simp: slab_live_def)
      then show False using pow_small [of i] k0 by linarith
    qed
    moreover have "blk_live ?A = blk_live A - {(page_to_phys f + 16, 4096 * 2 ^ k - 16)}"
    proof -
      have "page_to_phys g + 16 \<noteq> page_to_phys f + 16" if "blk A g = Some l" "g \<noteq> f" for g l
        using blk_cell(2) [OF rel that(1)] c(2) that(2) by auto
      then show ?thesis using b by (fastforce simp: blk_live_def split: if_splits)
    qed
    ultimately show ?thesis unfolding live_extents_def s by blast
  qed
  have "heap_frames ?A = heap_frames A - {f..<f + 2 ^ k}"
  proof -
    define B where "B g l = {g..<g + 2 ^ l}" for g l :: nat
    have s: "sfr A i \<inter> B f k = {}" if "i < 8" for i unfolding B_def using R(8) [OF b that] .
    have o: "B g l \<inter> B f k = {}" if "blk A g = Some l" "g \<noteq> f" for g l
      unfolding B_def using R(9) [OF that(1) b that(2)] .
    have e: "blk ?A g = Some l \<longleftrightarrow> blk A g = Some l \<and> g \<noteq> f" "sfr ?A = sfr A" for g l by simp_all
    show ?thesis unfolding heap_frames_def e B_def [symmetric] using s o b by fastforce
  qed
  moreover have "{f..<f + 2 ^ k} \<subseteq> heap_frames A" unfolding heap_frames_def using b by blast
  ultimately have gv: "gives_frames p A p' ?A"
    unfolding gives_frames_def using p'(3-5) by blast
  have "released (page_to_phys f + 16) (4096 * 2 ^ k - 16) (h, p, m, con) A (?h, p', m, con) ?A"
    using rel' gv le by (auto simp: released_def)
  with run show ?thesis by blast
qed

lemma kfree_spec:
  assumes rel: "heap_rel (h, p, m, con) A" and e: "(ptr, n) \<in> live_extents A"
  shows "\<exists>st' A'. kfree ptr (h, p, m, con) = Some st' \<and> released ptr n (h, p, m, con) A st' A'"
  using e
proof (cases rule: live_extents_cases)
  case (obj i a)
  then show ?thesis using kfree_object [OF rel obj(1-3)] by simp
next
  case (block f k)
  then show ?thesis using kfree_block [OF rel block(1)] by simp
qed

section \<open>Initialisation\<close>

definition no_objects :: habs where
  "no_objects = \<lparr>sfr = (\<lambda>_. {}), sfl = (\<lambda>_. []), blk = (\<lambda>_. None)\<rparr>"

lemma kmalloc_init_loop_slabs:
  "slabs (fst (kmalloc_init_loop i n (h, con))) k =
     (if i \<le> k \<and> k < i + n then \<lparr>sl_size = slab_sizes k, free_list = 0, total_objects = 0, free_objects = 0\<rparr>
      else slabs h k)"
  by (induction n arbitrary: i h con) auto

lemma kmalloc_init_empty:
  assumes "pmm_wf p" "1024 \<le> unat (num_pages p)"
  shows "heap_rel (fst (kmalloc_init (h, con)), p, m, con') no_objects" "live_extents no_objects = {}"
proof -
  have "slabs (fst (kmalloc_init (h, con))) i =
      \<lparr>sl_size = slab_sizes i, free_list = 0, total_objects = 0, free_objects = 0\<rparr>" if "i < 8" for i
    using kmalloc_init_loop_slabs [of 0 8] that
    by (simp add: kmalloc_init_def Let_def NUM_SLABS_def split: prod.split) (metis fst_conv)
  then have "slab_ok (slabs (fst (kmalloc_init (h, con))) i) m i {} []" if "i < 8" for i
    using that by (simp add: slab_ok_def ptr_of_def objs_def)
  then show "heap_rel (fst (kmalloc_init (h, con)), p, m, con') no_objects"
    using assms by (simp add: heap_rel_def no_objects_def)
  show "live_extents no_objects = {}" by (simp add: live_extents_def slab_live_def blk_live_def objs_def no_objects_def)
qed

section \<open>The heap as an allocator\<close>

definition heap_fits :: "u64 \<Rightarrow> bool" where
  "heap_fits sz \<longleftrightarrow> unat sz + 16 \<le> 2 ^ 63"

definition heap_holds :: "hst \<Rightarrow> (u64 \<times> nat) set \<Rightarrow> bool" where
  "heap_holds st E \<longleftrightarrow> (\<exists>A. heap_rel st A \<and> live_extents A = E)"

lemma heap_holdsI: "heap_rel st A \<Longrightarrow> heap_holds st (live_extents A)"
  by (auto simp: heap_holds_def)

interpretation kh: heap_interface heap_holds heap_fits kmalloc kfree
proof
  fix st :: hst and E :: "(u64 \<times> nat) set"
  assume "heap_holds st E"
  then obtain h p m con A where st: "st = (h, p, m, con)" "heap_rel (h, p, m, con) A" "live_extents A = E"
    by (cases st) (auto simp: heap_holds_def)
  show "cells_apart e e'" if "e \<in> E" "e' \<in> E" "e \<noteq> e'" for e e'
    using live_extents_apart [OF st(2)] that st(3) by blast
  show "0 < k" if "(q, k) \<in> E" for q k
  proof -
    have "(q, k) \<in> live_extents A" using that st(3) by simp
    then show ?thesis
    proof (cases rule: live_extents_cases)
      case (block f l)
      have "(1 :: nat) \<le> 2 ^ l" by simp
      moreover have "k = 4096 * 2 ^ l - 16" using block(2) by simp
      ultimately show ?thesis by linarith
    qed simp
  qed
  show "\<exists>ptr s'. kmalloc n st = Some (ptr, s') \<and>
      (ptr = 0 \<and> heap_holds s' E \<or> ptr \<noteq> 0 \<and> (\<exists>k. unat n \<le> k \<and> (ptr, k) \<notin> E \<and> heap_holds s' (insert (ptr, k) E)))"
    if fits: "heap_fits n" for n
  proof -
    have "unat n + 16 \<le> 2 ^ 63" using fits by (simp add: heap_fits_def)
    from kmalloc_spec [OF st(2) this] show ?thesis
    proof (elim disjE conjE exE)
      assume "kmalloc n (h, p, m, con) = Some (0, h, p, m, con)"
      then show ?thesis using \<open>heap_holds st E\<close> st(1) by auto
    next
      fix ptr k h' p' m' A' assume r: "kmalloc n (h, p, m, con) = Some (ptr, h', p', m', con)" "unat n \<le> k"
        and f: "fresh_extent ptr k (h, p, m, con) A (h', p', m', con) A'"
      have "ptr \<noteq> 0" "(ptr, k) \<notin> E" "heap_rel (h', p', m', con) A'" "live_extents A' = insert (ptr, k) E"
        using f st(3) by (auto simp: fresh_extent_def)
      moreover from this have "heap_holds (h', p', m', con) (insert (ptr, k) E)" using heap_holdsI by metis
      ultimately show ?thesis using r st(1) by blast
    qed (use \<open>heap_holds st E\<close> st(1) in auto)
  qed
  show "\<exists>s'. kfree q st = Some s' \<and> heap_holds s' (E - {(q, k)})" if "(q, k) \<in> E" for q k
  proof -
    have "(q, k) \<in> live_extents A" using that st(3) by simp
    from kfree_spec [OF st(2) this] obtain st' A' where
      r: "kfree q st = Some st'" "released q k (h, p, m, con) A st' A'" unfolding st(1) by blast
    then have "heap_rel st' A'" "live_extents A' = E - {(q, k)}"
      using st(3) by (cases st'; simp add: released_def)+
    then show ?thesis using r(1) heap_holdsI by metis
  qed
qed

lemma fresh_extent_apart:
  assumes f: "fresh_extent ptr n (h, p, m, con) A (h', p', m', con) A'" and e: "e \<in> live_extents A"
  shows "cells_apart (ptr, n) e"
proof (rule live_extents_apart)
  show "heap_rel (h', p', m', con) A'" using f by (simp add: fresh_extent_def)
  show "(ptr, n) \<in> live_extents A'" "e \<in> live_extents A'" using f e by (auto simp: fresh_extent_def)
  show "(ptr, n) \<noteq> e" using f e by (auto simp: fresh_extent_def)
qed

section \<open>Properties\<close>


text \<open>
  \<open>kfree\<close> of a block in use always returns, takes exactly that block out of use, keeps the contents
  of all others (and its own), takes no frame, and leaves the heap in order.
\<close>
theorem kfree_releases:
  assumes "heap_rel (h, p, m, con) A" "(ptr, n) \<in> live_extents A"
  shows "\<exists>st' A'. kfree ptr (h, p, m, con) = Some st' \<and> released ptr n (h, p, m, con) A st' A'"
  by (rule kfree_spec [OF assms])

text \<open>
  C8: whatever sequence of requests, of at most \<open>2 ^ 63 - 16\<close> bytes each, and of releases of blocks it has a caller makes on
  a heap with nothing in use, every call returns, and at the end the pointers it still has are distinct and the memory it asked
  for at them does not overlap. (Larger requests do not return or wrap around: \<open>kmalloc_huge_sizes\<close>.)
\<close>
theorem heap_calls_disjoint:
  assumes "heap_holds st {}" "\<forall>x \<in> set ops. op_fits heap_fits x"
  shows "\<exists>ps st' E. heap_run kmalloc kfree ops ([], st) = Some (ps, st') \<and> heap_holds st' E \<and>
    distinct (map fst ps) \<and> fst ` set ps = fst ` E \<and>
    (\<forall>x \<in> set ps. \<forall>y \<in> set ps. x \<noteq> y \<longrightarrow> cells_apart (fst x, unat (snd x)) (fst y, unat (snd y)))"
  by (rule kh.run_apart [OF assms])

section \<open>What callers write\<close>

text \<open>Memory changed only inside the blocks in use.\<close>

definition user_writes :: "(u64 \<times> nat) set \<Rightarrow> mem \<Rightarrow> mem \<Rightarrow> bool" where
  "user_writes E m m' \<longleftrightarrow> (\<forall>x. (\<forall>e \<in> E. \<not> inside x e) \<longrightarrow> m' x = m x)"

text \<open>The headers of objects and blocks are outside the blocks in use.\<close>

lemma object_header_kept:
  assumes rel: "heap_rel (h, p, m, con) A" and i: "i < 8" "a \<in> objs i (sfr A i)"
    and w: "\<And>f x. f \<in> heap_frames A \<Longrightarrow> in_block f 1 x \<Longrightarrow> \<forall>e \<in> live_extents A. \<not> inside x e \<Longrightarrow> m' x = m x"
  shows "obj_next m' a = obj_next m a \<and> hdr_ok m' i a = hdr_ok m i a"
proof -
  have b: "unat a + 24 \<le> 2 ^ 64" by (rule obj_cell(3) [OF rel i])
  obtain f where f: "f \<in> sfr A i" "0x40000000 + f * 4096 \<le> unat a" "unat a + osz i \<le> 0x40000000 + f * 4096 + 4096"
    using obj_cell(7) [OF rel i] by blast
  have byte: "m' (a + of_nat j) = m (a + of_nat j)" if j: "j < 24" for j
  proof (rule w)
    show "f \<in> heap_frames A" using f(1) i(1) by (auto simp: heap_frames_def)
    have "24 \<le> osz i" by (simp add: osz_def)
    then show "in_block f 1 (a + of_nat j)"
      using f(2,3) j unat_offset [OF b j] unat_page_to_phys [OF heap_rel_frame_bound(1) [OF rel i(1) f(1)]]
      by (simp add: in_block_def)
    show "\<forall>e \<in> live_extents A. \<not> inside (a + of_nat j) e"
      using header_not_live [OF rel i] unat_offset [OF b j] j by simp
  qed
  have "load64 m' a = load64 m a" "load32 m' (a + 8) = load32 m (a + 8)" "load64 m' (a + 16) = load64 m (a + 16)"
    using load_within(1) [of 24 m' a m 0, OF byte] load_within(2) [of 24 m' a m 8, OF byte]
      load_within(1) [of 24 m' a m 16, OF byte] by simp_all
  then show ?thesis by (simp add: hdr_ok_def obj_size_def obj_magic_def obj_next_def)
qed

lemma block_header_kept:
  assumes rel: "heap_rel (h, p, m, con) A" and b: "blk A f = Some k"
    and w: "\<And>f x. f \<in> heap_frames A \<Longrightarrow> in_block f 1 x \<Longrightarrow> \<forall>e \<in> live_extents A. \<not> inside x e \<Longrightarrow> m' x = m x"
  shows "blk_ok m' f k"
proof -
  note c = blk_cell [OF rel b]
  have lim: "unat (page_to_phys f) + 16 \<le> 2 ^ 64" using c(1,2) by (simp add: PAGES_LEN_def)
  have byte: "m' (page_to_phys f + of_nat j) = m (page_to_phys f + of_nat j)" if j: "j < 16" for j
  proof (rule w)
    have "f \<in> {f..<f + 2 ^ k}" by simp
    then show "f \<in> heap_frames A" unfolding heap_frames_def using b by blast
    show "in_block f 1 (page_to_phys f + of_nat j)" using unat_offset [OF lim j] j by (simp add: in_block_def)
    show "\<forall>e \<in> live_extents A. \<not> inside (page_to_phys f + of_nat j) e"
      using block_header_not_live [OF rel b] unat_offset [OF lim j] j c(2) by simp
  qed
  have "load32 m' (page_to_phys f + 8) = load32 m (page_to_phys f + 8)"
    "load32 m' (page_to_phys f + 12) = load32 m (page_to_phys f + 12)"
    using load_within(2) [of 16 m' "page_to_phys f" m 8, OF byte] load_within(2) [of 16 m' "page_to_phys f" m 12, OF byte]
    by simp_all
  then show ?thesis using heap_relD(6) [OF rel b] by (simp add: blk_ok_def obj_magic_def page_order_def)
qed

text \<open>
  The heap stands as long as its frames stay allocated and their bytes outside the blocks in use
  stay as they are, whatever else happens to memory and to the page allocator.
\<close>

lemma heap_rel_kept:
  assumes rel: "heap_rel (h, p, m, con) A"
    and w: "\<And>f x. f \<in> heap_frames A \<Longrightarrow> in_block f 1 x \<Longrightarrow> \<forall>e \<in> live_extents A. \<not> inside x e \<Longrightarrow> m' x = m x"
    and p': "pmm_wf p'" "num_pages p' = num_pages p" "heap_frames A \<subseteq> held_set p'"
  shows "heap_rel (h, p', m', con') A"
proof -
  note R = heap_relD [OF rel]
  have hdr: "obj_next m' a = obj_next m a \<and> hdr_ok m' i a = hdr_ok m i a" if "i < 8" "a \<in> objs i (sfr A i)" for i a
    by (rule object_header_kept [OF rel that w])
  have slab: "slab_ok (slabs h i) m' i (sfr A i) (sfl A i)" if i: "i < 8" for i
  proof -
    have s: "slab_ok (slabs h i) m i (sfr A i) (sfl A i)" by (rule R(3) [OF i])
    have "chain (nxt m') (ptr_of (free_list (slabs h i))) (sfl A i)"
      using s hdr [OF i] by (subst seg_cong [where g = "nxt m"]) (auto simp: slab_ok_def nxt_def)
    then show ?thesis using s hdr [OF i] by (auto simp: slab_ok_def)
  qed
  have blk: "blk_ok m' f k" if "blk A f = Some k" for f k by (rule block_header_kept [OF rel that w])
  have held: "sfr A i \<subseteq> held_set p'" if "i < 8" for i
    using that p'(3) by (auto simp: heap_frames_def)
  have heldb: "{f..<f + 2 ^ k} \<subseteq> held_set p'" if "blk A f = Some k" for f k
    by (rule subset_trans [OF _ p'(3)]) (use that in \<open>unfold heap_frames_def, blast\<close>)
  show ?thesis using R slab blk held heldb p'(1,2) unfolding heap_rel_def prod.case by simp
qed

lemma heap_frames_held: "heap_rel (h, p, m, con) A \<Longrightarrow> heap_frames A \<subseteq> held_set p"
  using heap_relD(4,7) unfolding heap_frames_def by blast

lemma heap_rel_writes:
  assumes "heap_rel (h, p, m, con) A" "user_writes (live_extents A) m m'"
  shows "heap_rel (h, p, m', con') A"
  by (rule heap_rel_kept [OF assms(1) _ heap_relD(1) [OF assms(1)] refl heap_frames_held [OF assms(1)]])
    (use assms(2) in \<open>simp add: user_writes_def\<close>)


lemma slab_restored:
  "free_list s = a \<Longrightarrow> s\<lparr>free_list := x, free_objects := free_objects s - 1,
      free_list := a, free_objects := free_objects s - 1 + 1\<rparr> = s"
  by simp

text \<open>
  an object taken from a slab's free list and given back leaves the machine exactly as it was,
  memory included, up to the two running totals.
\<close>
theorem kmalloc_kfree_roundtrip:
  assumes rel: "heap_rel (h, p, m, con) A" and sz: "sz \<noteq> 0" "find_slab sz = Some i"
    and fl: "free_list (slabs h i) \<noteq> 0"
  shows "\<exists>ptr st. kmalloc sz (h, p, m, con) = Some (ptr, st) \<and>
    kfree ptr st = Some (h\<lparr>total_allocated := total_allocated h + slab_sizes i,
                           total_freed := total_freed h + slab_sizes i\<rparr>, p, m, con)"
proof -
  have i: "i < 8" using find_slab_Some [OF sz(2)] by simp
  note s = heap_relD(3) [OF rel i]
  obtain a xs where l: "sfl A i = a # xs" using s fl by (cases "sfl A i") (auto simp: slab_ok_def ptr_of_def)
  note P = slab_pop [OF s [unfolded l]]
  note o = obj_cell [OF rel i P(2)]
  define h1 where "h1 = upd_slab i (\<lambda>s. s\<lparr>free_list := obj_next m a, free_objects := free_objects s - 1\<rparr>) h"
  have run: "slab_alloc i (h, p, m, con) = Some (a + 24, h1, p, m, con)"
    using P(1) o(4) by (simp add: slab_alloc_def pop_object_def Let_def OBJ_HEADER_def upd_slab_def h1_def)
  obtain A' where A': "heap_rel (h1, p, m, con) A'" "sfr A' i = sfr A i"
    using slab_alloc_list [OF rel i l] run by (auto simp: fresh_extent_def)
  have sz1: "sl_size (slabs h1 i) = slab_sizes i" using s by (simp add: h1_def slab_ok_def)
  define h2 where "h2 = h1\<lparr>total_allocated := total_allocated h + slab_sizes i\<rparr>"
  have m1: "kmalloc sz (h, p, m, con) = Some (a + 24, h2, p, m, con)"
    using sz run o(5) sz1 by (simp add: kmalloc_def Let_def h2_def h1_def)
  have "heap_rel (h2, p, m, con) A'" using A'(1) by (simp add: h2_def)
  moreover have "a \<in> objs i (sfr A' i)" using P(2) A'(2) by simp
  ultimately have f: "kfree (a + 24) (h2, p, m, con) =
    Some (upd_slab i (\<lambda>s. s\<lparr>free_list := a, free_objects := free_objects s + 1\<rparr>)
            (h2\<lparr>total_freed := total_freed h2 + slab_sizes i\<rparr>),
          p, store64 m (a + 16) (free_list (slabs h2 i)), con)"
    using kfree_object_run i by blast
  have "store64 m (a + 16) (free_list (slabs h2 i)) = m"
    by (simp add: h2_def h1_def obj_next_def)
  moreover have "upd_slab i (\<lambda>s. s\<lparr>free_list := a, free_objects := free_objects s + 1\<rparr>)
      (h2\<lparr>total_freed := total_freed h2 + slab_sizes i\<rparr>) =
    h\<lparr>total_allocated := total_allocated h + slab_sizes i, total_freed := total_freed h + slab_sizes i\<rparr>"
    using P(1) by (simp add: h2_def h1_def upd_slab_def fun_upd_idem)
  ultimately show ?thesis using m1 f by auto
qed

text \<open>For sizes above \<open>2 ^ 63 - 16\<close> that do not wrap around with the header no order is large enough.\<close>

lemma kmalloc_never:
  assumes b: "2 ^ 63 < unat sz + 16" "unat sz + 16 < 2 ^ 64"
  shows "kmalloc sz st = None"
proof -
  have "unat (sz + PAGE_HEADER) = unat sz + 16"
    using b
    by (subst unat_add_no_wrap) (simp_all add: PAGE_HEADER_def)
  then have "order_for (sz + PAGE_HEADER) 0 = None" using b by (intro order_for_never) simp_all
  moreover have big: "2048 < unat sz" using b by simp
  moreover have "sz \<noteq> 0" "find_slab sz = None" using big by (auto simp: find_slab_None)
  ultimately show ?thesis by (cases st) (simp add: kmalloc_def Let_def)
qed

text \<open>
  C29: sizes near the top of the range: above \<open>2 ^ 63 - 16\<close> no order is ever large enough and the call
  does not return; from \<open>2 ^ 64 - 16\<close> on, adding the header wraps around to a small number, and
  the call answers a request for almost the whole address space with one frame, 4080 usable bytes.
\<close>
theorem kmalloc_huge_sizes:
  assumes "heap_rel (h, p, m, con) A" "free_set p \<noteq> {}"
  shows "(2 ^ 63 < unat sz + 16 \<and> unat sz + 16 < 2 ^ 64 \<longrightarrow> kmalloc sz (h, p, m, con) = None) \<and>
    (2 ^ 64 \<le> unat sz + 16 \<longrightarrow>
      (\<exists>ptr st' A'. kmalloc sz (h, p, m, con) = Some (ptr, st') \<and> fresh_extent ptr 4080 (h, p, m, con) A st' A'))"
proof (intro conjI impI)
  assume "2 ^ 63 < unat sz + 16 \<and> unat sz + 16 < 2 ^ 64"
  then show "kmalloc sz (h, p, m, con) = None" by (intro kmalloc_never) simp_all
next
  assume b: "2 ^ 64 \<le> unat sz + 16"
  have lt: "unat sz < 2 ^ 64" "16 < (2 :: nat) ^ 64" by simp_all
  have "unat (sz + PAGE_HEADER) = (unat sz + 16) mod 2 ^ 64" by (simp add: PAGE_HEADER_def unat_word_ariths)
  also have "\<dots> = (unat sz + 16 - 2 ^ 64) mod 2 ^ 64" by (rule le_mod_geq [OF b])
  also have "\<dots> \<le> unat sz + 16 - 2 ^ 64" by (rule mod_less_eq_dividend)
  also have "\<dots> \<le> 16" using lt by linarith
  finally have w: "unat (sz + PAGE_HEADER) \<le> 4096 * 2 ^ 0" by simp
  have "order_for (sz + PAGE_HEADER) 0 = Some 0" by (rule order_for_least [OF w]) simp_all
  moreover have "2048 < unat sz" using b by simp
  ultimately have "kmalloc sz (h, p, m, con) = Some (0, h, p, m, con) \<and> (\<forall>f. \<not> block p f (2 ^ 0)) \<or>
    (\<exists>ptr h' p' m' A'. kmalloc sz (h, p, m, con) = Some (ptr, h', p', m', con) \<and>
      fresh_extent ptr (4096 * 2 ^ 0 - 16) (h, p, m, con) A (h', p', m', con) A')"
    by (intro kmalloc_order [OF assms(1)]) simp_all
  moreover have "\<exists>f. block p f (2 ^ 0)" using assms(2) by (auto simp: block_def free_set_def)
  moreover have "4096 * 2 ^ 0 - 16 = (4080 :: nat)" by simp
  ultimately show "\<exists>ptr st' A'. kmalloc sz (h, p, m, con) = Some (ptr, st') \<and> fresh_extent ptr 4080 (h, p, m, con) A st' A'"
    by (elim disjE) (blast, simp only:, blast)
qed

text \<open>
  \<open>kcalloc\<close> for a product that does not overflow: NULL, or a fresh block of at least that size
  whose requested bytes are all zero, with the contents of all other blocks as before.
\<close>
theorem kcalloc_zeroed:
  assumes rel: "heap_rel (h, p, m, con) A" and sz: "unat nmemb * unat sz + 16 \<le> 2 ^ 63"
  shows "\<exists>ptr h' p' m'. kcalloc nmemb sz (h, p, m, con) = Some (ptr, h', p', m', con) \<and>
    (ptr = 0 \<and> (h', p', m') = (h, p, m) \<or>
     (\<exists>n A'. unat nmemb * unat sz \<le> n \<and> heap_rel (h', p', m', con) A' \<and> (ptr, n) \<notin> live_extents A \<and>
       live_extents A' = insert (ptr, n) (live_extents A) \<and> keeps (live_extents A) m m' \<and>
       (\<forall>j < unat nmemb * unat sz. m' (ptr + of_nat j) = 0)))"
proof -
  let ?sz = "nmemb * sz"
  have u: "unat ?sz = unat nmemb * unat sz" using sz by (simp add: unat_word_ariths)
  have fits: "unat ?sz + 16 \<le> 2 ^ 63" using sz u by simp
  from kmalloc_spec [OF rel fits] show ?thesis
  proof (elim disjE conjE exE)
    fix ptr n h' p' m' A' assume r: "?sz \<noteq> 0" "kmalloc ?sz (h, p, m, con) = Some (ptr, h', p', m', con)" "unat ?sz \<le> n"
      and f: "fresh_extent ptr n (h, p, m, con) A (h', p', m', con) A'"
    have F: "heap_rel (h', p', m', con) A'" "ptr \<noteq> 0" "(ptr, n) \<notin> live_extents A"
      "live_extents A' = insert (ptr, n) (live_extents A)" "keeps (live_extents A) m m'"
      using f by (simp_all add: fresh_extent_def)
    define m2 where "m2 = fst (memset m' ptr 0 ?sz)"
    have m2: "m2 = (\<lambda>x. if in_range x ptr (unat ?sz) then 0 else m' x)"
      by (simp add: m2_def memset_def memset_loop_eq)
    have run: "kcalloc nmemb sz (h, p, m, con) = Some (ptr, h', p', m2, con)"
      using r F(2) by (simp add: kcalloc_def kzalloc_def m2_def)
    have bnd: "unat ptr + n \<le> 2 ^ 64"
    proof -
      have "(ptr, n) \<in> live_extents A'" using F(4) by simp
      then show ?thesis
      proof (cases rule: live_extents_cases)
        case (obj i a)
        have "24 + 2 ^ (i + 4) = osz i" by (simp add: osz_def)
        then show ?thesis using obj(4) obj_cell(1) [OF F(1) obj(1,2)]
            objs_range(2) [OF obj(2,1) heap_rel_frame_bound(1) [OF F(1) obj(1)]] by simp
      next
        case (block f k)
        then show ?thesis using blk_cell(3,5) [OF F(1) block(1)] heap_rel_frame_bound(2) [OF F(1) block(1)]
          by (simp add: PAGES_LEN_def)
      qed
    qed
    have range: "in_range x ptr (unat ?sz) \<longleftrightarrow> unat ptr \<le> unat x \<and> unat x < unat ptr + unat ?sz" for x
      using bnd r(3) by (intro in_range_iff) simp
    have w: "user_writes (live_extents A') m' m2"
      using r(3) by (auto simp: user_writes_def m2 range inside_def F(4))
    have "heap_rel (h', p', m2, con) A'" by (rule heap_rel_writes [OF F(1) w])
    moreover have "keeps (live_extents A) m m2"
      unfolding keeps_def
    proof (intro ballI allI impI)
      fix e x assume e: "e \<in> live_extents A" and x: "inside x e"
      have "cells_apart (ptr, n) e" using live_extents_apart [OF F(1)] F(3,4) e by (metis insertI1 insertI2)
      then have "\<not> in_range x ptr (unat ?sz)" using x r(3) unfolding range cells_apart_def inside_def by auto
      moreover have "m' x = m x" using F(5) e x by (simp add: keeps_def)
      ultimately show "m2 x = m x" by (simp add: m2)
    qed
    moreover have "m2 (ptr + of_nat j) = 0" if "j < unat ?sz" for j
      using that bnd r(3) unat_offset [OF bnd, of j] by (simp add: m2 range)
    ultimately show ?thesis using run F(3,4) r(3) u by auto
  qed (auto simp: kcalloc_def kzalloc_def)
qed

section \<open>Witnesses\<close>

text \<open>The heap just after initialisation, over the page allocator of the boot.\<close>

definition heap0 :: heap where
  "heap0 = fst (kmalloc_init (heap_bss, []))"

lemma heap0_rel: "heap_rel (heap0, boot_pmm, m, con) no_objects" "live_extents no_objects = {}"
  "free_set boot_pmm \<noteq> {}"
proof -
  show "heap_rel (heap0, boot_pmm, m, con) no_objects" "live_extents no_objects = {}"
    unfolding heap0_def using kmalloc_init_empty boot_pmm_facts by auto
  have "0 \<in> free_set boot_pmm" by (simp add: boot_pmm_facts)
  then show "free_set boot_pmm \<noteq> {}" by blast
qed

lemma heap0_alloc:
  obtains ptr n h p m A where "kmalloc 64 (heap0, boot_pmm, \<lambda>_. 0, []) = Some (ptr, h, p, m, [])" "64 \<le> n"
    "fresh_extent ptr n (heap0, boot_pmm, \<lambda>_. 0, []) no_objects (h, p, m, []) A"
proof -
  have "unat (64 :: u64) + 16 \<le> 2 ^ 63" "(64 :: u64) \<noteq> 0" "\<not> no_room 64 boot_pmm"
    using heap0_rel(3) by (simp_all add: no_room_def)
  then show thesis using kmalloc_spec [OF heap0_rel(1), of 64 "\<lambda>_. 0" "[]"] that by auto
qed


theorem kfree_releases_witness:
  "\<exists>ptr st st'. kmalloc 64 (heap0, boot_pmm, \<lambda>_. 0, []) = Some (ptr, st) \<and> kfree ptr st = Some st' \<and> heap_holds st' {}"
proof -
  obtain ptr n h p m A where a: "kmalloc 64 (heap0, boot_pmm, \<lambda>_. 0, []) = Some (ptr, h, p, m, [])"
    "fresh_extent ptr n (heap0, boot_pmm, \<lambda>_. 0, []) no_objects (h, p, m, []) A" by (rule heap0_alloc)
  then have "heap_rel (h, p, m, []) A" "live_extents A = {(ptr, n)}"
    using heap0_rel(2) by (simp_all add: fresh_extent_def)
  then obtain st' A' where r: "kfree ptr (h, p, m, []) = Some st'" "released ptr n (h, p, m, []) A st' A'"
    using kfree_releases by blast
  then have "heap_rel st' A'" "live_extents A' = {}"
    using \<open>live_extents A = {(ptr, n)}\<close> by (cases st'; simp add: released_def)+
  then show ?thesis using a(1) r(1) heap_holdsI by metis
qed

theorem heap_calls_disjoint_witness:
  "\<exists>ps st'. heap_run kmalloc kfree [Malloc 64, Malloc 5000, Free 0, Malloc 100] ([], heap0, boot_pmm, \<lambda>_. 0, []) =
     Some (ps, st') \<and> distinct (map fst ps)"
proof -
  have h: "heap_holds (heap0, boot_pmm, \<lambda>_. 0, []) {}" using heap_holdsI [OF heap0_rel(1)] heap0_rel(2) by simp
  have "\<forall>x \<in> set [Malloc 64, Malloc 5000, Free 0, Malloc 100]. op_fits heap_fits x" by (simp add: heap_fits_def)
  from heap_calls_disjoint [OF h this] show ?thesis by blast
qed


text \<open>A heap with an object on the list of its largest slab.\<close>

lemma heap1:
  obtains h p m A where "heap_rel (h, p, m, []) A" "free_list (slabs h 7) \<noteq> 0"
proof -
  note rel = heap0_rel(1) [of "\<lambda>_. 0" "[]"]
  note R = heap_relD [OF rel]
  have "2 ^ 0 \<le> unat (num_pages boot_pmm)" using R(2) by simp
  moreover have "block boot_pmm 0 (2 ^ 0)" by (simp add: block_def boot_pmm_facts)
  ultimately obtain f p' where p': "{f..<f + 2 ^ 0} \<subseteq> free_set boot_pmm" "pmm_wf p'"
    "held_set p' = held_set boot_pmm \<union> {f..<f + 2 ^ 0}" "num_pages p' = num_pages boot_pmm"
    using alloc_block_held [OF R(1) le0] by blast
  have f: "f < PAGES_LEN" using free_set_bound [OF R(1)] p'(1) by simp
  have s: "slab_ok (slabs heap0 7) (\<lambda>_. 0) 7 {} []" using R(3) [of 7] by (simp add: no_objects_def)
  obtain q m' where c:
    "same_outside (\<lambda>_. 0) m' (0x40000000 + f * 4096) 4096"
    "slab_ok ((slabs heap0 7)\<lparr>free_list := q, total_objects := total_objects (slabs heap0 7) + of_nat (opp 7),
                         free_objects := free_objects (slabs heap0 7) + of_nat (opp 7)\<rparr>)
      m' 7 {f} (rev (map (oaddr 7 f) [0..<opp 7]))"
    using slab_grow [OF s _ _ f] by auto
  let ?h = "upd_slab 7 (\<lambda>s. s\<lparr>free_list := q, total_objects := total_objects s + of_nat (opp 7),
                         free_objects := free_objects s + of_nat (opp 7)\<rparr>) heap0"
  have "heap_rel (?h, p', m', []) (no_objects\<lparr>sfr := (sfr no_objects)(7 := {f}),
      sfl := (sfl no_objects)(7 := rev (map (oaddr 7 f) [0..<opp 7]))\<rparr>)"
    by (rule heap_rel_slab [OF rel _ _ _ c(1) singletonI p'(2) _ p'(4)])
      (use c(2) p'(3) in \<open>auto simp: no_objects_def\<close>)
  moreover have "opp 7 = 1" by (simp add: opp_def osz_def)
  then have "rev (map (oaddr 7 f) [0..<opp 7]) = [oaddr 7 f 0]" by simp
  then have "q = oaddr 7 f 0" using slab_pop(1) c(2) by fastforce
  then have "free_list (slabs ?h 7) \<noteq> 0"
    using unat_oaddr [of 7 f 0] f \<open>opp 7 = 1\<close> by (auto simp: unat_eq_zero)
  ultimately show thesis using that by blast
qed

theorem kmalloc_kfree_roundtrip_witness:
  "\<exists>h p m ptr st. free_list (slabs h 7) \<noteq> 0 \<and> kmalloc 2000 (h, p, m, []) = Some (ptr, st) \<and>
     kfree ptr st = Some (h\<lparr>total_allocated := total_allocated h + 2048, total_freed := total_freed h + 2048\<rparr>, p, m, [])"
proof -
  obtain h p m A where r: "heap_rel (h, p, m, []) A" "free_list (slabs h 7) \<noteq> 0" by (rule heap1)
  have "(2000 :: u64) \<noteq> 0" "find_slab 2000 = Some 7" "slab_sizes 7 = 2048"
    by (simp_all add: find_slab_eq slab_sizes_def)
  with kmalloc_kfree_roundtrip [OF r(1) this(1,2) r(2)] r(2) show ?thesis by metis
qed

theorem kmalloc_huge_sizes_witness:
  "kmalloc (2 ^ 63) (heap0, boot_pmm, \<lambda>_. 0, []) = None \<and>
   (\<exists>ptr st. kmalloc (-1) (heap0, boot_pmm, \<lambda>_. 0, []) = Some (ptr, st) \<and> ptr \<noteq> 0)"
proof -
  have "unat (2 ^ 63 :: u64) = 2 ^ 63" "unat (- 1 :: u64) = 2 ^ 64 - 1"
    by (simp_all add: unat_pow2 unsigned_minus_1_eq_mask mask_eq_exp_minus_1)
  then show ?thesis
    using kmalloc_huge_sizes [OF heap0_rel(1,3), of "2 ^ 63" "\<lambda>_. 0" "[]"]
      kmalloc_huge_sizes [OF heap0_rel(1,3), of "-1" "\<lambda>_. 0" "[]"] by (auto simp: fresh_extent_def)
qed

theorem kcalloc_zeroed_witness:
  "\<exists>ptr h p m. kcalloc 4 10 (heap0, boot_pmm, \<lambda>_. 1, []) = Some (ptr, h, p, m, []) \<and> (ptr \<noteq> 0 \<longrightarrow> m ptr = 0)"
proof -
  have "unat (4 :: u64) * unat (10 :: u64) + 16 \<le> 2 ^ 63" by simp
  from kcalloc_zeroed [OF heap0_rel(1) this, of "\<lambda>_. 1" "[]"] obtain ptr h p m where
    "kcalloc 4 10 (heap0, boot_pmm, \<lambda>_. 1, []) = Some (ptr, h, p, m, [])"
    "ptr = 0 \<or> (\<forall>j < unat (4 :: u64) * unat (10 :: u64). m (ptr + of_nat j) = 0)" by blast
  moreover from this(2) have "ptr \<noteq> 0 \<Longrightarrow> m ptr = 0" by (auto dest: spec [of _ 0])
  ultimately show ?thesis by blast
qed

end
