(* ===== verification/System.thy ===== *)
theory System
  imports Kernel_Main Kmalloc_Correct
begin

text \<open>
  The kernel as a whole: a step relation on the machine with the operations through which its
  components change the shared state (timer interrupt, system calls, creation of tasks, the heap,
  and whatever the tasks do in between), and an invariant that joins the invariants of the
  components and keeps them apart: page tables, stacks, program blocks, heap and free frames never
  overlap.
\<close>

section \<open>Steps\<close>

text \<open>
  A state of the system is the machine and, as ghost state, the blocks the callers of \<^verbatim>\<open>kmalloc\<close> have
  and have not given back, with the sizes they asked for.
\<close>

type_synonym kstate = "machine \<times> (u64 \<times> nat) set"

text \<open>The frames of the stacks of live tasks.\<close>

definition stack_frames :: "sched \<Rightarrow> nat set" where
  "stack_frames s = {f. f < PAGES_LEN \<and> (\<exists>x \<in> stacks s. stack_at s x = page_to_phys f)}"

text \<open>
  What code other than the page allocator, the page table code and the heap writes: the stacks of
  the tasks, the heap blocks it has, and the memory \<open>K\<close> outside the table space. \<open>K\<close> is static memory of the image: the
  table space, constants with the embedded programs, the boot stacks. The static variables of the C files (the task
  pool, the page and slab descriptors, the queues) are records of the model and not bytes, so \<open>K\<close> is to be taken without
  the memory they occupy, and with that a step of this kind is code that does not write the kernel's variables.
\<close>

definition may_write :: "linker \<Rightarrow> u64 set \<Rightarrow> kstate \<Rightarrow> u64 \<Rightarrow> bool" where
  "may_write lk K st x \<longleftrightarrow> (\<exists>f \<in> stack_frames (sched_of (sys_of (fst st))). in_block f 1 x) \<or>
     (\<exists>e \<in> snd st. inside x e) \<or> x \<in> K \<and> \<not> in_space lk x"

text \<open>
  Two limits are built into the steps, each where the code breaks without it: a program for a user task lies in \<open>K\<close> and has
  at most 32 KB (the copy of a larger one overruns its block), and a size given to \<^verbatim>\<open>kmalloc\<close> is not one of the last 16 of its
  type (adding the header would wrap around). A call that does not return is no step.
\<close>

inductive kernel_step :: "linker \<Rightarrow> u64 set \<Rightarrow> kstate \<Rightarrow> kstate \<Rightarrow> bool" for lk K where
  timer: "kernel_step lk K (mc, E) (state_after (timer_irq_handler irq data mc), E)"
| call: "syscall_handler xlate clock num arg0 arg1 arg2 arg3 mc = Some r \<Longrightarrow>
    kernel_step lk K (mc, E) (snd (state_after r), E)"
| create: "task_create name func arg priority (sys_of mc) = Some (tid, k) \<Longrightarrow>
    kernel_step lk K (mc, E) (mc\<lparr>sys_of := k\<rparr>, E)"
| create_user: "unat sz \<le> 0x8000 \<Longrightarrow> \<forall>j < unat sz. src + of_nat j \<in> K \<Longrightarrow>
    task_create_user lk name src sz priority (sys_of mc) = Some (tid, k) \<Longrightarrow>
    kernel_step lk K (mc, E) (mc\<lparr>sys_of := k\<rparr>, E)"
| alloc: "unat sz + 16 < 2 ^ 64 \<Longrightarrow> kmalloc sz (heap_state mc) = Some (ptr, st) \<Longrightarrow>
    kernel_step lk K (mc, E) (set_heap_state st mc, if ptr = 0 then E else insert (ptr, unat sz) E)"
| release: "(ptr, n) \<in> E \<Longrightarrow> kfree ptr (heap_state mc) = Some st \<Longrightarrow>
    kernel_step lk K (mc, E) (set_heap_state st mc, E - {(ptr, n)})"
| run: "\<forall>x. \<not> may_write lk K (mc, E) x \<longrightarrow> m x = mem_of (sys_of mc) x \<Longrightarrow>
    sys_of mc' = (sys_of mc)\<lparr>cpu_of := c, mem_of := m, con_of := con\<rparr> \<Longrightarrow> heap_of mc' = heap_of mc \<Longrightarrow>
    kernel_step lk K (mc, E) (mc', E)"

section \<open>The invariant\<close>

definition user_live :: "sched \<Rightarrow> nat \<Rightarrow> bool" where
  "user_live s i \<longleftrightarrow> live s i \<and> t_level (tk s i) = TASK_USER"

text \<open>The program blocks of the user tasks: first frame and number of frames.\<close>

type_synonym progs = "nat \<Rightarrow> nat \<times> nat"

definition prog_frames :: "progs \<Rightarrow> nat \<Rightarrow> nat set" where
  "prog_frames B i = {fst (B i)..<fst (B i) + snd (B i)}"

text \<open>Every user task has its own root, under which just its program block and its stack are mapped.\<close>

definition spaces_ok :: "linker \<Rightarrow> sched \<Rightarrow> label set \<Rightarrow> ptes \<Rightarrow> progs \<Rightarrow> bool" where
  "spaces_ok lk s L F B \<longleftrightarrow> (\<forall>i. user_live s i \<longrightarrow> user_stack_base (tk s i) \<noteq> 0 \<and> snd (B i) \<le> 8 \<and>
     (\<exists>r. (r, 0, 0) \<in> L \<and> t_page_table (tk s i) = tbl lk r \<and>
       F r = user_ptes (page_to_phys (fst (B i))) (snd (B i)) (user_stack_base (tk s i))))"

text \<open>The frames in use, by owner.\<close>

definition frames_ok :: "u64 set \<Rightarrow> pmm \<Rightarrow> sched \<Rightarrow> habs \<Rightarrow> progs \<Rightarrow> bool" where
  "frames_ok K p s A B \<longleftrightarrow>
     (\<forall>f \<in> free_set p \<union> held_set p. \<forall>x. in_block f 1 x \<longrightarrow> x \<notin> K) \<and>
     heap_frames A \<inter> stack_frames s = {} \<and>
     (\<forall>i. user_live s i \<longrightarrow> prog_frames B i \<subseteq> held_set p - stack_frames s - heap_frames A) \<and>
     (\<forall>i j. user_live s i \<and> user_live s j \<and> i \<noteq> j \<longrightarrow> prog_frames B i \<inter> prog_frames B j = {})"

text \<open>The blocks the callers have are blocks in use of at least the size, at different addresses.\<close>

definition owned :: "(u64 \<times> nat) set \<Rightarrow> habs \<Rightarrow> bool" where
  "owned E A \<longleftrightarrow> inj_on fst E \<and> (\<forall>e \<in> E. \<exists>n \<ge> snd e. (fst e, n) \<in> live_extents A)"

text \<open>
  Translation is on, with the registers as \<^verbatim>\<open>mmu_enable\<close> set them, and the kernel's tables in TTBR1
  still map what they did then.
\<close>

definition translation_on :: "linker \<Rightarrow> mmu \<Rightarrow> label set \<Rightarrow> ptes \<Rightarrow> bool" where
  "translation_on lk u L F \<longleftrightarrow> kernel_pgd u = tbl lk 0 \<and> ttbr1_el1 u = tbl lk 0 \<and> tcr_el1 u = TCR_VALUE \<and>
     mair_el1 u = MAIR_VALUE \<and> bit (sctlr_el1 u) 0 \<and> (0, 0, 0) \<in> L \<and> F 0 = id_pte"

lemma translation_on_cong: "fixed_regs u' = fixed_regs u \<Longrightarrow> translation_on lk u' L F = translation_on lk u L F"
  by (simp add: fixed_regs_def translation_on_def)

definition sys_rel ::
    "linker \<Rightarrow> u64 set \<Rightarrow> kstate \<Rightarrow> rr \<Rightarrow> label set \<Rightarrow> ptes \<Rightarrow> habs \<Rightarrow> progs \<Rightarrow> bool" where
  "sys_rel lk K st a L F A B \<longleftrightarrow> (let mc = fst st; k = sys_of mc in
     (\<forall>x. in_space lk x \<longrightarrow> x \<in> K) \<and> rr_rel (sched_of k) a \<and> stacks_ok k \<and> space_ok k \<and>
     vm_rel lk (vm_of k) L F \<and> heap_rel (heap_state mc) A \<and> owned (snd st) A \<and>
     spaces_ok lk (sched_of k) L F B \<and> frames_ok K (pmm_of k) (sched_of k) A B \<and>
     translation_on lk (mmu_of k) L F)"

definition sys_inv :: "linker \<Rightarrow> u64 set \<Rightarrow> kstate \<Rightarrow> bool" where
  "sys_inv lk K st \<longleftrightarrow> (\<exists>c ts q L F A B. sys_rel lk K st (c, True, ts, q) L F A B)"

section \<open>Frames and bytes\<close>

lemma in_block_unique:
  assumes "in_block f 1 x" "in_block g 1 x" "f < PAGES_LEN" "g < PAGES_LEN"
  shows "f = g"
proof -
  have "unat (page_to_phys f) = 0x40000000 + f * 4096" "unat (page_to_phys g) = 0x40000000 + g * 4096"
    using assms(3,4) by (simp_all add: unat_page_to_phys)
  then show ?thesis using assms(1,2) by (simp add: in_block_def)
qed

lemma stack_frames_held:
  assumes "owns p s"
  shows "stack_frames s \<subseteq> held_set p"
proof
  fix f assume "f \<in> stack_frames s"
  then obtain x where x: "f < PAGES_LEN" "x \<in> stacks s" "stack_at s x = page_to_phys f" by (auto simp: stack_frames_def)
  obtain g where "stack_at s x = page_to_phys g" "g \<in> held_set p" "g < PAGES_LEN" by (rule owns_frame [OF assms x(2)])
  moreover from this x have "f = g" using inj_onD [OF page_to_phys_inj, of f g] by simp
  ultimately show "f \<in> held_set p" by simp
qed

lemma stack_frames_grow:
  assumes "\<And>j. live s' j \<Longrightarrow> j \<noteq> i \<Longrightarrow> live s j \<and> kernel_stack_base (tk s' j) = kernel_stack_base (tk s j) \<and>
      user_stack_base (tk s' j) = user_stack_base (tk s j)"
    and "kernel_stack_base (tk s' i) \<in> insert 0 (page_to_phys ` N)" "user_stack_base (tk s' i) \<in> insert 0 (page_to_phys ` N)"
    and "N \<subseteq> {..<PAGES_LEN}"
  shows "stack_frames s' \<subseteq> stack_frames s \<union> N"
proof
  fix f assume "f \<in> stack_frames s'"
  then obtain j u where f: "f < PAGES_LEN" "(j, u) \<in> stacks s'" "stack_at s' (j, u) = page_to_phys f"
    by (auto simp: stack_frames_def)
  have l: "live s' j" "stack_at s' (j, u) \<noteq> 0" using f(2) by (simp_all add: stacks_def)
  show "f \<in> stack_frames s \<union> N"
  proof (cases "j = i")
    case True
    then have "stack_at s' (j, u) \<in> page_to_phys ` N" using assms(2,3) l(2) by (cases u) (auto simp: stack_at_def)
    then obtain g where "g \<in> N" "page_to_phys f = page_to_phys g" using f(3) by auto
    moreover from this have "g < PAGES_LEN" using assms(4) by blast
    ultimately show ?thesis using f(1) inj_onD [OF page_to_phys_inj, of f g] by simp
  next
    case False
    note a = assms(1) [OF l(1) False]
    then have "stack_at s' (j, u) = stack_at s (j, u)" by (simp add: stack_at_def)
    then have "(j, u) \<in> stacks s" "stack_at s (j, u) = page_to_phys f" using a l f(3) by (simp_all add: stacks_def)
    then show ?thesis using f(1) by (auto simp: stack_frames_def)
  qed
qed

lemma stack_frames_mono:
  assumes "\<And>j. live s' j \<Longrightarrow> live s j \<and> kernel_stack_base (tk s' j) = kernel_stack_base (tk s j) \<and>
      user_stack_base (tk s' j) = user_stack_base (tk s j)"
  shows "stack_frames s' \<subseteq> stack_frames s"
proof -
  have "x \<in> stacks s \<and> stack_at s x = stack_at s' x" if "x \<in> stacks s'" for x
  proof -
    have l: "live s' (fst x)" "stack_at s' x \<noteq> 0" using that by (simp_all add: stacks_def)
    then have "stack_at s x = stack_at s' x" using assms [OF l(1)] by (simp add: stack_at_def)
    then show ?thesis using assms [OF l(1)] l(2) by (simp add: stacks_def)
  qed
  then show ?thesis by (force simp: stack_frames_def)
qed

lemma extent_frame:
  assumes rel: "heap_rel (h, p, m, con) A" and e: "e \<in> live_extents A" "inside x e"
  obtains f where "f \<in> heap_frames A" "in_block f 1 x"
  using e(1)
proof (cases rule: live_extents_cases)
  case (obj i a)
  note o = obj_cell [OF rel obj(1,2)]
  obtain f where f: "f \<in> sfr A i" "0x40000000 + f * 4096 \<le> unat a" "unat a + osz i \<le> 0x40000000 + f * 4096 + 4096"
    using o(7) by blast
  have "in_block f 1 x"
    using f(2,3) e(2) o(1) unat_page_to_phys [OF heap_rel_frame_bound(1) [OF rel obj(1) f(1)]]
    by (simp add: in_block_def inside_def obj(4) osz_def)
  moreover have "f \<in> heap_frames A" using f(1) obj(1) by (auto simp: heap_frames_def)
  ultimately show thesis using that by blast
next
  case (block f k)
  note c = blk_cell [OF rel block(1)]
  have x: "0x40000000 + f * 4096 \<le> unat x" "unat x < 0x40000000 + f * 4096 + 4096 * 2 ^ k"
    using e(2) c(3,5) by (simp_all add: inside_def block(2))
  obtain z where z: "unat x = 0x40000000 + f * 4096 + z" using x(1) le_Suc_ex by blast
  have zk: "z div 4096 < 2 ^ k" using x(2) z by (simp add: less_mult_imp_div_less mult.commute)
  then have g: "f + z div 4096 \<in> {f..<f + 2 ^ k}" by simp
  then have gh: "f + z div 4096 \<in> heap_frames A" unfolding heap_frames_def using block(1) by blast
  have "f + z div 4096 < PAGES_LEN"
    using subsetD [OF heap_frames_held [OF rel] gh] held_set_bound [OF heap_relD(1) [OF rel]] by blast
  then have "unat (page_to_phys (f + z div 4096)) = 0x40000000 + (f + z div 4096) * 4096" by (rule unat_page_to_phys)
  moreover have "z = 4096 * (z div 4096) + z mod 4096" "z mod 4096 < 4096" by simp_all
  ultimately have "in_block (f + z div 4096) 1 x" unfolding in_block_def z by (simp add: algebra_simps)
  then show thesis using that gh by blast
qed

section \<open>What tasks may write leaves the kernel's structures alone\<close>

lemma sys_relD:
  assumes "sys_rel lk K (mc, E) a L F A B"
  shows "in_space lk x \<Longrightarrow> x \<in> K" "rr_rel (sched_of (sys_of mc)) a" "stacks_ok (sys_of mc)" "space_ok (sys_of mc)"
    "vm_rel lk (vm_of (sys_of mc)) L F"
    "heap_rel (heap_of mc, pmm_of (sys_of mc), mem_of (sys_of mc), con_of (sys_of mc)) A"
    "owned E A" "spaces_ok lk (sched_of (sys_of mc)) L F B"
    "frames_ok K (pmm_of (sys_of mc)) (sched_of (sys_of mc)) A B"
    "translation_on lk (mmu_of (sys_of mc)) L F"
  using assms by (auto simp: sys_rel_def Let_def heap_state_def)

lemma sys_rel_frames:
  assumes "sys_rel lk K (mc, E) a L F A B"
  shows "stack_frames (sched_of (sys_of mc)) \<subseteq> held_set (pmm_of (sys_of mc))"
    "heap_frames A \<subseteq> held_set (pmm_of (sys_of mc))" "pmm_wf (pmm_of (sys_of mc))"
  using stack_frames_held sys_relD(3) [OF assms] heap_frames_held [OF sys_relD(6) [OF assms]]
  by (auto simp: stacks_ok_def owns_def)

lemma may_write_cases:
  assumes R: "sys_rel lk K (mc, E) a L F A B" and w: "may_write lk K (mc, E) x"
  obtains (stack) f where "f \<in> stack_frames (sched_of (sys_of mc))" "in_block f 1 x"
  | (heap) e f where "e \<in> live_extents A" "inside x e" "f \<in> heap_frames A" "in_block f 1 x"
  | (static) "x \<in> K" "\<not> in_space lk x"
proof -
  have "thesis" if e: "e \<in> E" "inside x e" for e
  proof -
    obtain n where n: "snd e \<le> n" "(fst e, n) \<in> live_extents A" using sys_relD(7) [OF R] e(1) by (auto simp: owned_def)
    then have "inside x (fst e, n)" using e(2) by (simp add: inside_def)
    then show thesis using extent_frame [OF sys_relD(6) [OF R] n(2)] heap n(2) by metis
  qed
  then show thesis using w stack static by (auto simp: may_write_def)
qed

lemma managed_not_static:
  assumes "sys_rel lk K (mc, E) a L F A B" "f \<in> free_set (pmm_of (sys_of mc)) \<union> held_set (pmm_of (sys_of mc))" "in_block f 1 x"
  shows "x \<notin> K"
  using sys_relD(9) [OF assms(1)] assms(2,3) by (simp add: frames_ok_def)

lemma space_not_written:
  assumes R: "sys_rel lk K (mc, E) a L F A B" and x: "in_space lk x"
  shows "\<not> may_write lk K (mc, E) x"
proof
  assume "may_write lk K (mc, E) x"
  with R show False
    by (rule may_write_cases)
      (use managed_not_static [OF R] sys_rel_frames [OF R] sys_relD(1) [OF R x] x in blast)+
qed

lemma heap_not_written:
  assumes R: "sys_rel lk K (mc, E) a L F A B" and f: "f \<in> heap_frames A" "in_block f 1 x"
    and e: "\<forall>e \<in> live_extents A. \<not> inside x e"
  shows "\<not> may_write lk K (mc, E) x"
proof
  assume "may_write lk K (mc, E) x"
  with R show False
  proof (cases rule: may_write_cases)
    case (stack g)
    have "f < PAGES_LEN" "g < PAGES_LEN"
      using f(1) stack(1) sys_rel_frames [OF R] held_set_bound by blast+
    then have "f = g" using in_block_unique f(2) stack(2) by blast
    then show ?thesis using f(1) stack(1) sys_relD(9) [OF R] by (auto simp: frames_ok_def)
  next
    case static
    then show ?thesis using managed_not_static [OF R _ f(2)] sys_rel_frames(2) [OF R] f(1) by blast
  qed (use e in blast)
qed

text \<open>
  Between two states: a user task that lives in both has the same tables and the same program block,
  and nothing has written to the block.
\<close>

definition programs_kept :: "machine \<Rightarrow> progs \<Rightarrow> machine \<Rightarrow> progs \<Rightarrow> bool" where
  "programs_kept mc B mc' B' \<longleftrightarrow>
     (\<forall>i. user_live (sched_of (sys_of mc)) i \<and> user_live (sched_of (sys_of mc')) i \<longrightarrow> B' i = B i \<and>
        t_page_table (tk (sched_of (sys_of mc')) i) = t_page_table (tk (sched_of (sys_of mc)) i) \<and>
        (\<forall>f \<in> prog_frames B i. \<forall>x. in_block f 1 x \<longrightarrow> mem_of (sys_of mc') x = mem_of (sys_of mc) x))"

lemma programs_kept_refl: "programs_kept mc B mc B"
  by (simp add: programs_kept_def)

lemma programs_kept_trans:
  assumes "programs_kept a B b B'" "programs_kept b B' c B''"
    and "\<And>i. user_live (sched_of (sys_of a)) i \<Longrightarrow> user_live (sched_of (sys_of c)) i \<Longrightarrow> user_live (sched_of (sys_of b)) i"
  shows "programs_kept a B c B''"
  using assms unfolding programs_kept_def prog_frames_def by (metis (no_types, lifting))

lemma program_frame_bound:
  assumes R: "sys_rel lk K (mc, E) a L F A B" and "user_live (sched_of (sys_of mc)) i" "f \<in> prog_frames B i"
  shows "f \<in> held_set (pmm_of (sys_of mc)) - stack_frames (sched_of (sys_of mc)) - heap_frames A" "f < PAGES_LEN"
proof -
  show "f \<in> held_set (pmm_of (sys_of mc)) - stack_frames (sched_of (sys_of mc)) - heap_frames A"
    using sys_relD(9) [OF R] assms(2,3) by (auto simp: frames_ok_def)
  then show "f < PAGES_LEN" using held_set_bound [OF sys_rel_frames(3) [OF R]] by blast
qed

lemma program_not_written:
  assumes R: "sys_rel lk K (mc, E) a L F A B" and i: "user_live (sched_of (sys_of mc)) i"
    and f: "f \<in> prog_frames B i" "f < PAGES_LEN" "in_block f 1 x"
  shows "\<not> may_write lk K (mc, E) x"
proof
  have h: "f \<in> held_set (pmm_of (sys_of mc)) - stack_frames (sched_of (sys_of mc)) - heap_frames A"
    using sys_relD(9) [OF R] i f(1) by (auto simp: frames_ok_def)
  have b: "g < PAGES_LEN" if "g \<in> held_set (pmm_of (sys_of mc))" for g using held_set_bound [OF sys_rel_frames(3) [OF R]] that by blast
  assume "may_write lk K (mc, E) x"
  with R show False
  proof (cases rule: may_write_cases)
    case (stack g)
    then have "f = g" using in_block_unique f(2,3) b sys_rel_frames(1) [OF R] by blast
    then show False using h stack(1) by blast
  next
    case (heap e g)
    then have "f = g" using in_block_unique f(2,3) b sys_rel_frames(2) [OF R] by blast
    then show False using h heap(3) by blast
  next
    case static
    then show False using managed_not_static [OF R _ f(3)] h by blast
  qed
qed

text \<open>
  A change of the scheduler's state, of memory tasks may write, and of the frames: no task comes to
  life or moves, and only frames of stacks are given back.
\<close>

lemma sys_rel_update:
  assumes R: "sys_rel lk K (mc, E) a L F A B"
    and rr: "rr_rel (sched_of (sys_of mc')) a'" and ok: "stacks_ok (sys_of mc')" "space_ok (sys_of mc')"
    and pmm: "num_pages (pmm_of (sys_of mc')) = num_pages (pmm_of (sys_of mc))"
      "free_set (pmm_of (sys_of mc')) \<union> held_set (pmm_of (sys_of mc')) \<subseteq>
        free_set (pmm_of (sys_of mc)) \<union> held_set (pmm_of (sys_of mc))"
      "held_set (pmm_of (sys_of mc)) - stack_frames (sched_of (sys_of mc)) \<subseteq> held_set (pmm_of (sys_of mc'))"
    and same: "fixed_regs (mmu_of (sys_of mc')) = fixed_regs (mmu_of (sys_of mc))" "heap_of mc' = heap_of mc"
    and mem: "\<And>x. \<not> may_write lk K (mc, E) x \<Longrightarrow> mem_of (sys_of mc') x = mem_of (sys_of mc) x"
    and tasks: "\<And>i. live (sched_of (sys_of mc')) i \<Longrightarrow> live (sched_of (sys_of mc)) i \<and>
      (let t = tk (sched_of (sys_of mc)) i; t' = tk (sched_of (sys_of mc')) i in
        kernel_stack_base t' = kernel_stack_base t \<and> user_stack_base t' = user_stack_base t \<and>
        t_level t' = t_level t \<and> t_page_table t' = t_page_table t)"
  shows "sys_rel lk K (mc', E) a' L F A B \<and> programs_kept mc B mc' B"
proof
  let ?k = "sys_of mc" and ?k' = "sys_of mc'"
  show "programs_kept mc B mc' B"
    using mem program_not_written [OF R _ _ program_frame_bound(2) [OF R]] tasks
    unfolding programs_kept_def user_live_def Let_def by metis
  have "vm_rel lk (mmu_of ?k, mem_of ?k', con_of ?k) L F"
    using vm_rel_mem [OF sys_relD(5) [OF R, unfolded vm_of_def]] mem space_not_written [OF R] by metis
  then have vm: "vm_rel lk (vm_of ?k') L F" unfolding vm_of_def using vm_rel_cong same(1) unfolding fixed_regs_def by blast
  have hf: "heap_frames A \<inter> stack_frames (sched_of ?k) = {}" using sys_relD(9) [OF R] by (simp add: frames_ok_def)
  have heap: "heap_rel (heap_state mc') A"
    unfolding heap_state_def same(2)
  proof (rule heap_rel_kept [OF sys_relD(6) [OF R] mem stacks_okD [OF ok(1)] pmm(1)])
    show "heap_frames A \<subseteq> held_set (pmm_of ?k')" using sys_rel_frames(2) [OF R] hf pmm(3) by blast
  qed (rule heap_not_written [OF R])
  have sub: "stack_frames (sched_of ?k') \<subseteq> stack_frames (sched_of ?k)"
    by (rule stack_frames_mono) (use tasks in \<open>simp add: Let_def\<close>)
  have ul: "user_live (sched_of ?k') i \<Longrightarrow> user_live (sched_of ?k) i" for i
    using tasks [of i] by (auto simp: user_live_def Let_def)
  have "spaces_ok lk (sched_of ?k') L F B"
    using sys_relD(8) [OF R] ul tasks unfolding spaces_ok_def user_live_def Let_def by metis
  moreover have "frames_ok K (pmm_of ?k') (sched_of ?k') A B"
    using sys_relD(9) [OF R] ul sub pmm(2,3) unfolding frames_ok_def by blast
  ultimately show "sys_rel lk K (mc', E) a' L F A B"
    using rr ok vm heap sys_relD(1,7,10) [OF R] translation_on_cong [OF same(1)] unfolding sys_rel_def Let_def by auto
qed

section \<open>Scheduling\<close>

lemma schedule_rel:
  assumes R: "sys_rel lk K (mc, E) (c, run, ts, q) L F A B"
    and mc': "sys_of mc' = snd (schedule (sys_of mc))" "heap_of mc' = heap_of mc"
  shows "sys_rel lk K (mc', E) (rr_step (c, run, ts, q)) L F A B \<and> programs_kept mc B mc' B"
proof (rule sys_rel_update [OF R])
  note rr = sys_relD(2) [OF R]
  note keep = schedule_keeps [OF rr]
  show "rr_rel (sched_of (sys_of mc')) (rr_step (c, run, ts, q))" using schedule_refines_rr [OF rr] by (simp add: mc')
  show "stacks_ok (sys_of mc')" unfolding mc' by (rule schedule_stacks [OF rr sys_relD(3) [OF R]])
  show "space_ok (sys_of mc')" unfolding mc' using schedule_space [OF rr sys_relD(4) [OF R]] by blast
qed (simp_all add: mc' schedule_keeps [OF sys_relD(2) [OF R]] Let_def)

lemma yield_rr:
  assumes "rr_rel (sched_of k) (c, True, ts, q)"
  shows "rr_rel (sched_of (task_yield k)) (c, True, 0, q)"
proof -
  have inv: "sched_inv (sched_of k) q" and cur: "current_task (sched_of k) = Some c"
    and run: "t_state (tk (sched_of k) c) = TASK_RUNNING" using assms by (simp_all add: rr_rel_def)
  let ?s = "upd_task c (\<lambda>t. t\<lparr>time_slice := 0\<rparr>) (sched_of k)"
  have s: "sched_of (task_yield k) = ?s" by (simp add: task_yield_def cur)
  have "dlist ?s q" using sched_invD(1) [OF inv] by (subst dlist_links [of _ "sched_of k"]) simp_all
  then have "sched_inv ?s q" using inv unfolding sched_inv_def by (auto simp: cur)
  then show ?thesis using cur run unfolding s by (simp add: rr_rel_def)
qed

lemma yield_rel:
  assumes R: "sys_rel lk K (mc, E) (c, True, ts, q) L F A B"
    and mc': "sys_of mc' = task_yield (sys_of mc)" "heap_of mc' = heap_of mc"
  shows "sys_rel lk K (mc', E) (c, True, 0, q) L F A B \<and> programs_kept mc B mc' B"
proof (rule sys_rel_update [OF R])
  have cur: "current_task (sched_of (sys_of mc)) = Some c" by (rule rr_rel_current [OF sys_relD(2) [OF R]])
  let ?s = "sched_of (sys_of mc)"
  have k: "sys_of mc' = on_sched (upd_task c (\<lambda>t. t\<lparr>time_slice := 0\<rparr>)) (sys_of mc)"
    by (simp add: mc' task_yield_def cur)
  have owns: "owns p (upd_task c (\<lambda>t. t\<lparr>time_slice := 0\<rparr>) ?s) = owns p ?s" for p
    by (rule owns_cong) simp_all
  show "rr_rel (sched_of (sys_of mc')) (c, True, 0, q)" unfolding mc' by (rule yield_rr [OF sys_relD(2) [OF R]])
  show "stacks_ok (sys_of mc')" using sys_relD(3) [OF R] by (simp add: stacks_ok_def k owns)
  show "space_ok (sys_of mc')" using sys_relD(4) [OF R] by (auto simp: space_ok_def k task_space_def)
  show "live (sched_of (sys_of mc)) i \<and> (let t = tk (sched_of (sys_of mc)) i; t' = tk (sched_of (sys_of mc')) i in
        kernel_stack_base t' = kernel_stack_base t \<and> user_stack_base t' = user_stack_base t \<and>
        t_level t' = t_level t \<and> t_page_table t' = t_page_table t)" if "live (sched_of (sys_of mc')) i" for i
    using that by (auto simp: k live_def Let_def split: if_splits)
qed (auto simp: mc' task_yield_def split: option.split)

text \<open>Only the console, the processor or memory tasks may write has changed.\<close>

lemma run_rel:
  assumes R: "sys_rel lk K (mc, E) a L F A B"
    and mc': "sys_of mc' = (sys_of mc)\<lparr>cpu_of := c, mem_of := m, con_of := con\<rparr>" "heap_of mc' = heap_of mc"
    and mem: "\<And>x. \<not> may_write lk K (mc, E) x \<Longrightarrow> m x = mem_of (sys_of mc) x"
  shows "sys_rel lk K (mc', E) a L F A B \<and> programs_kept mc B mc' B"
  by (rule sys_rel_update [OF R])
    (use sys_relD(2-4) [OF R] mem in \<open>auto simp: mc' stacks_ok_def space_ok_def Let_def\<close>)

lemma say_rel:
  assumes R: "sys_rel lk K (mc, E) a L F A B" and mc': "sys_of mc' = say items (sys_of mc)" "heap_of mc' = heap_of mc"
  shows "sys_rel lk K (mc', E) a L F A B \<and> programs_kept mc B mc' B"
  by (rule run_rel [OF R, where c = "cpu_of (sys_of mc)" and m = "mem_of (sys_of mc)" and con = "con_of (sys_of mc')"])
    (simp_all add: mc' say_def)

section \<open>Interrupts and system calls\<close>

lemma timer_rel:
  assumes "sys_rel lk K (mc, E) (c, run, ts, q) L F A B"
  shows "sys_rel lk K (state_after (timer_irq_handler irq data mc), E) (rr_step (c, run, ts, q)) L F A B \<and>
    programs_kept mc B (state_after (timer_irq_handler irq data mc)) B"
  by (rule schedule_rel [OF assms]) (simp_all add: timer_irq_handler_def Let_def split: prod.split)

lemma task_frames_stack: "live s i \<Longrightarrow> task_frames s i \<subseteq> stack_frames s"
  by (auto simp: task_frames_def stack_frames_def)

lemma exited_sys_rel:
  assumes R: "sys_rel lk K (mc, E) (c, True, ts, q) L F A B" and e: "exited c (sys_of mc) k"
    and mc': "sys_of mc' = k" "heap_of mc' = heap_of mc"
  shows "sys_rel lk K (mc', E) (c, False, 0, q) L F A B \<and> programs_kept mc B mc' B"
proof (rule sys_rel_update [OF R])
  let ?s = "sched_of (sys_of mc)"
  note rr = sys_relD(2) [OF R] and st = sys_relD(3) [OF R] and cur = rr_rel_current [OF sys_relD(2) [OF R]]
  have l: "live ?s c" using rr_live [OF rr] by simp
  note r = exited_rel [OF rr e st]
  show "rr_rel (sched_of (sys_of mc')) (c, False, 0, q)" "stacks_ok (sys_of mc')" using r by (simp_all add: mc')
  obtain f where f: "sched_of k = upd_task c f ?s" "t_level (f (tk ?s c)) = t_level (tk ?s c)"
    "t_page_table (f (tk ?s c)) = t_page_table (tk ?s c)" "t_state (f (tk ?s c)) = TASK_TERMINATED"
    using e by (auto simp: exited_def Let_def)
  have tl: "t_level (tk (sched_of k) i) = t_level (tk ?s i)" "t_page_table (tk (sched_of k) i) = t_page_table (tk ?s i)" for i
    using f by simp_all
  show "space_ok (sys_of mc')"
    using sys_relD(4) [OF R] e unfolding space_ok_def task_space_def mc' tl by (simp add: f(1) cur exited_def)
  show "live ?s i \<and> (let t = tk ?s i; t' = tk (sched_of (sys_of mc')) i in
        kernel_stack_base t' = kernel_stack_base t \<and> user_stack_base t' = user_stack_base t \<and>
        t_level t' = t_level t \<and> t_page_table t' = t_page_table t)" if "live (sched_of (sys_of mc')) i" for i
    using that f by (cases "i = c") (auto simp: mc' live_def Let_def)
  have E: "free_set (pmm_of k) = free_set (pmm_of (sys_of mc)) \<union> task_frames ?s c"
    "held_set (pmm_of k) = held_set (pmm_of (sys_of mc)) - task_frames ?s c"
    "num_pages (pmm_of k) = num_pages (pmm_of (sys_of mc))" "mmu_of k = mmu_of (sys_of mc)" "mem_of k = mem_of (sys_of mc)"
    using e by (simp_all add: exited_def)
  note tf = task_frames_stack [OF l] and sf = sys_rel_frames(1) [OF R]
  show "num_pages (pmm_of (sys_of mc')) = num_pages (pmm_of (sys_of mc))"
    "fixed_regs (mmu_of (sys_of mc')) = fixed_regs (mmu_of (sys_of mc))" by (simp_all add: mc' E)
  show "free_set (pmm_of (sys_of mc')) \<union> held_set (pmm_of (sys_of mc')) \<subseteq>
      free_set (pmm_of (sys_of mc)) \<union> held_set (pmm_of (sys_of mc))"
    unfolding mc' E using tf sf by blast
  show "held_set (pmm_of (sys_of mc)) - stack_frames ?s \<subseteq> held_set (pmm_of (sys_of mc'))"
    unfolding mc' E using tf by blast
  show "mem_of (sys_of mc') x = mem_of (sys_of mc) x" for x by (simp add: mc' E)
qed (simp add: mc')

lemma exit_rel:
  assumes R: "sys_rel lk K (mc, E) (c, True, ts, q) L F A B" and x: "task_exit (sys_of mc) = Some (sw, k)"
  shows "q \<noteq> []" "sys_rel lk K (mc\<lparr>sys_of := k\<rparr>, E) (hd q, True, 10, tl q) L F A B \<and> programs_kept mc B (mc\<lparr>sys_of := k\<rparr>) B"
proof -
  note spec = task_exit_spec [OF sys_relD(2,3) [OF R]]
  show q: "q \<noteq> []" using spec x by auto
  obtain k1 where k1: "exited c (sys_of mc) k1" "k = snd (schedule k1)" using spec x q by auto
  have 1: "sys_rel lk K (mc\<lparr>sys_of := k1\<rparr>, E) (c, False, 0, q) L F A B \<and> programs_kept mc B (mc\<lparr>sys_of := k1\<rparr>) B"
    by (rule exited_sys_rel [OF R k1(1)]) simp_all
  have 2: "sys_rel lk K (mc\<lparr>sys_of := k\<rparr>, E) (rr_step (c, False, 0, q)) L F A B \<and>
      programs_kept (mc\<lparr>sys_of := k1\<rparr>) B (mc\<lparr>sys_of := k\<rparr>) B"
    by (rule schedule_rel [OF conjunct1 [OF 1]]) (simp_all add: k1(2))
  note keep = schedule_keeps [OF sys_relD(2) [OF conjunct1 [OF 1]]]
  have "programs_kept mc B (mc\<lparr>sys_of := k\<rparr>) B"
    by (rule programs_kept_trans [OF conjunct2 [OF 1] conjunct2 [OF 2]]) (use keep in \<open>simp add: user_live_def k1(2)\<close>)
  then show "sys_rel lk K (mc\<lparr>sys_of := k\<rparr>, E) (hd q, True, 10, tl q) L F A B \<and> programs_kept mc B (mc\<lparr>sys_of := k\<rparr>) B"
    using q 2 by (cases q) simp_all
qed

lemma sys_invI: "sys_rel lk K st (c, True, ts, q) L F A B \<Longrightarrow> sys_inv lk K st"
  unfolding sys_inv_def by (intro exI)

lemma sys_invE:
  assumes "sys_inv lk K st"
  obtains c ts q L F A B where "sys_rel lk K st (c, True, ts, q) L F A B"
  using assms unfolding sys_inv_def by (elim exE)

text \<open>The invariant holds after a step, with the programs of the tasks that live on as before.\<close>

definition sys_next :: "linker \<Rightarrow> u64 set \<Rightarrow> machine \<Rightarrow> progs \<Rightarrow> kstate \<Rightarrow> bool" where
  "sys_next lk K mc B st \<longleftrightarrow> (\<exists>c ts q L F A B'. sys_rel lk K st (c, True, ts, q) L F A B' \<and> programs_kept mc B (fst st) B')"

lemma sys_nextI:
  "sys_rel lk K (mc', E) (c, True, ts, q) L F A B' \<and> programs_kept mc B mc' B' \<Longrightarrow> sys_next lk K mc B (mc', E)"
  unfolding sys_next_def fst_conv by (intro exI)

lemma sys_nextE:
  assumes "sys_next lk K mc B st"
  obtains c ts q L F A B' where "sys_rel lk K st (c, True, ts, q) L F A B'" "programs_kept mc B (fst st) B'"
  using assms unfolding sys_next_def by (elim exE conjE)

lemma timer_next:
  assumes "sys_rel lk K (mc, E) (c, True, ts, q) L F A B"
  shows "sys_next lk K mc B (state_after (timer_irq_handler irq data mc), E)"
  using timer_rel [OF assms, of irq data] by (auto split: if_splits intro: sys_nextI)

lemma syscall_next:
  assumes R: "sys_rel lk K (mc, E) (c, True, ts, q) L F A B"
    and run: "syscall_handler xlate clock num a0 a1 a2 a3 mc = Some r"
  shows "sys_next lk K mc B (snd (state_after r), E)"
proof -
  have y: "sys_next lk K mc B (mc', E)" if "sys_of mc' = task_yield (sys_of mc)" "heap_of mc' = heap_of mc" for mc'
    by (rule sys_nextI [OF yield_rel [OF R that]])
  have same: "sys_next lk K mc B (mc, E)" using R programs_kept_refl by (blast intro: sys_nextI)
  consider (yield) "num = SYS_YIELD" | (exit) "num = SYS_EXIT" | (sleep) "num = SYS_SLEEP"
    | (pid) "num = SYS_GETPID" | (puts) "num = SYS_WRITE"
    | (unknown) "num \<noteq> SYS_YIELD" "num \<noteq> SYS_EXIT" "num \<noteq> SYS_SLEEP" "num \<noteq> SYS_GETPID" "num \<noteq> SYS_WRITE" by blast
  then show ?thesis
  proof cases
    case yield
    then have "r = Returned (0, on_sys task_yield mc)" using run by (simp add: syscall_handler_def)
    then show ?thesis using y by simp
  next
    case exit
    then obtain sw k where "task_exit (sys_of mc) = Some (sw, k)" "snd (state_after r) = mc\<lparr>sys_of := k\<rparr>"
      using run by (auto simp: syscall_handler_def SYS_YIELD_def SYS_EXIT_def bind_eq_Some_conv Let_def)
    then show ?thesis using sys_nextI [OF exit_rel(2) [OF R]] by simp
  next
    case sleep
    then obtain k where k: "task_sleep clock (ucast a0) (sys_of mc) = Some k" "r = Returned (0, mc\<lparr>sys_of := k\<rparr>)"
      using run by (auto simp: syscall_handler_def SYS_YIELD_def SYS_EXIT_def SYS_SLEEP_def bind_eq_Some_conv)
    have "k = sys_of mc \<or> k = task_yield (sys_of mc)"
      using k(1) by (auto simp: task_sleep_def sleep_loop_eq split: if_splits)
    then show ?thesis using k(2) same y [of "mc\<lparr>sys_of := k\<rparr>"] by auto
  next
    case pid
    then have "snd (state_after r) = mc"
      using run by (auto simp: syscall_handler_def SYS_YIELD_def SYS_EXIT_def SYS_SLEEP_def SYS_GETPID_def)
    then show ?thesis using same by simp
  next
    case puts
    then obtain con where "snd (state_after r) = mc\<lparr>sys_of := (sys_of mc)\<lparr>con_of := con\<rparr>\<rparr>"
      using run by (auto simp: syscall_handler_def SYS_YIELD_def SYS_EXIT_def SYS_SLEEP_def SYS_GETPID_def
          SYS_WRITE_def bind_eq_Some_conv Let_def)
    then show ?thesis
      using sys_nextI [OF run_rel [OF R, where mc' = "snd (state_after r)" and c = "cpu_of (sys_of mc)" and
            m = "mem_of (sys_of mc)" and con = con]] by simp
  next
    case unknown
    then have "snd (state_after r) = tell [S ''Unknown syscall: '', X num, NL] mc"
      using run by (auto simp: syscall_handler_def)
    then show ?thesis using sys_nextI [OF say_rel [OF R, of "snd (state_after r)"]] by simp
  qed
qed

section \<open>Creating tasks\<close>

text \<open>Slot \<open>i\<close> comes to life on the stack frames \<open>N\<close> and, for a user task, the program block \<open>P\<close>, all free before.\<close>

lemma spaces_add:
  assumes sp: "spaces_ok lk s L F B" and vm: "\<And>r. (r, 0, 0) \<in> L \<Longrightarrow> (r, 0, 0) \<in> L' \<and> F' r = F r"
    and tasks: "\<And>j. live s' j \<Longrightarrow> j \<noteq> i \<Longrightarrow> live s j \<and>
      (let t = tk s j; t' = tk s' j in kernel_stack_base t' = kernel_stack_base t \<and> user_stack_base t' = user_stack_base t \<and>
        t_level t' = t_level t \<and> t_page_table t' = t_page_table t)"
    and user: "user_live s' i \<Longrightarrow> user_stack_base (tk s' i) \<noteq> 0 \<and> snd b \<le> 8 \<and>
      (\<exists>r. (r, 0, 0) \<in> L' \<and> t_page_table (tk s' i) = tbl lk r \<and>
        F' r = user_ptes (page_to_phys (fst b)) (snd b) (user_stack_base (tk s' i)))"
  shows "spaces_ok lk s' L' F' (B(i := b))"
  unfolding spaces_ok_def
proof (intro allI impI)
  fix j assume j: "user_live s' j"
  show "user_stack_base (tk s' j) \<noteq> 0 \<and> snd ((B(i := b)) j) \<le> 8 \<and> (\<exists>r. (r, 0, 0) \<in> L' \<and> t_page_table (tk s' j) = tbl lk r \<and>
      F' r = user_ptes (page_to_phys (fst ((B(i := b)) j))) (snd ((B(i := b)) j)) (user_stack_base (tk s' j)))"
  proof (cases "j = i")
    case True
    then show ?thesis using user j by auto
  next
    case False
    have t: "user_stack_base (tk s' j) = user_stack_base (tk s j)" "t_page_table (tk s' j) = t_page_table (tk s j)"
      "user_live s j"
      using tasks [of j] j False by (auto simp: user_live_def Let_def)
    then obtain r where r: "(r, 0, 0) \<in> L" "t_page_table (tk s j) = tbl lk r" "user_stack_base (tk s j) \<noteq> 0"
      "F r = user_ptes (page_to_phys (fst (B j))) (snd (B j)) (user_stack_base (tk s j))" "snd (B j) \<le> 8"
      using sp unfolding spaces_ok_def by blast
    then show ?thesis using vm [OF r(1)] False unfolding t by (intro conjI exI [of _ r]) simp_all
  qed
qed

lemma frames_add:
  assumes O: "frames_ok K p s A B" and hf: "heap_frames A \<subseteq> held_set p" and sf: "stack_frames s \<subseteq> held_set p"
    and pmm: "N \<subseteq> free_set p" "P \<subseteq> free_set p - N" "held_set p' = held_set p \<union> N \<union> P" "free_set p' \<subseteq> free_set p"
    and sub: "stack_frames s' \<subseteq> stack_frames s \<union> N"
    and old: "\<And>j. user_live s' j \<Longrightarrow> j \<noteq> i \<Longrightarrow> user_live s j"
    and new: "user_live s' i \<Longrightarrow> P = {fst b..<fst b + snd b}"
  shows "frames_ok K p' s' A (B(i := b))"
  unfolding frames_ok_def
proof (intro conjI allI impI ballI)
  have fh: "free_set p \<inter> held_set p = {}" using held_not_free [of p] by blast
  have pf: "prog_frames (B(i := b)) j = (if j = i then {fst b..<fst b + snd b} else prog_frames B j)" for j
    by (simp add: prog_frames_def)
  have new: "prog_frames (B(i := b)) i = P" if "user_live s' i" using new that by (simp add: pf)
  have prog: "prog_frames (B(i := b)) j \<subseteq> held_set p - stack_frames s - heap_frames A" if "user_live s' j" "j \<noteq> i" for j
    using O old [OF that] that(2) by (auto simp: frames_ok_def pf)
  show "x \<notin> K" if "f \<in> free_set p' \<union> held_set p'" "in_block f 1 x" for f x
    using O that pmm unfolding frames_ok_def by blast
  show "heap_frames A \<inter> stack_frames s' = {}" using O sub hf fh pmm(1) unfolding frames_ok_def by blast
  show "prog_frames (B(i := b)) j \<subseteq> held_set p' - stack_frames s' - heap_frames A" if "user_live s' j" for j
  proof (cases "j = i")
    case True
    then show ?thesis using new that sub sf hf fh pmm(2,3) by blast
  next
    case False
    then show ?thesis using prog [OF that] sub fh pmm(1,3) by blast
  qed
  show "prog_frames (B(i := b)) j \<inter> prog_frames (B(i := b)) l = {}" if "user_live s' j \<and> user_live s' l \<and> j \<noteq> l" for j l
  proof -
    have out: "prog_frames (B(i := b)) j' \<inter> P = {}" if "user_live s' j'" "j' \<noteq> i" for j'
      using prog [OF that] fh pmm(2) by blast
    consider "j = i" | "l = i" | "j \<noteq> i" "l \<noteq> i" by blast
    then show ?thesis
    proof cases
      case 3
      then have "user_live s j" "user_live s l" using old that by blast+
      then show ?thesis using O 3 that by (simp add: frames_ok_def pf)
    qed (use that new out [of j] out [of l] in blast)+
  qed
qed

lemma sys_rel_add:
  assumes R: "sys_rel lk K (mc, E) a L F A B"
    and rr: "rr_rel (sched_of (sys_of mc')) a'" and ok: "stacks_ok (sys_of mc')" "space_ok (sys_of mc')"
    and vm: "vm_rel lk (vm_of (sys_of mc')) L' F'" "\<And>r. (r, 0, 0) \<in> L \<Longrightarrow> (r, 0, 0) \<in> L' \<and> F' r = F r"
      "\<exists>x. mmu_of (sys_of mc') = (mmu_of (sys_of mc))\<lparr>next_page_table := x\<rparr>"
    and heap: "heap_of mc' = heap_of mc"
      "\<And>f x. f \<in> held_set (pmm_of (sys_of mc)) \<Longrightarrow> in_block f 1 x \<Longrightarrow> mem_of (sys_of mc') x = mem_of (sys_of mc) x"
    and pmm: "num_pages (pmm_of (sys_of mc')) = num_pages (pmm_of (sys_of mc))"
      "N \<subseteq> free_set (pmm_of (sys_of mc))" "P \<subseteq> free_set (pmm_of (sys_of mc)) - N"
      "held_set (pmm_of (sys_of mc')) = held_set (pmm_of (sys_of mc)) \<union> N \<union> P"
      "free_set (pmm_of (sys_of mc')) \<subseteq> free_set (pmm_of (sys_of mc))"
    and i: "\<not> live (sched_of (sys_of mc)) i"
    and tasks: "\<And>j. live (sched_of (sys_of mc')) j \<Longrightarrow> j \<noteq> i \<Longrightarrow> live (sched_of (sys_of mc)) j \<and>
      (let t = tk (sched_of (sys_of mc)) j; t' = tk (sched_of (sys_of mc')) j in
        kernel_stack_base t' = kernel_stack_base t \<and> user_stack_base t' = user_stack_base t \<and>
        t_level t' = t_level t \<and> t_page_table t' = t_page_table t)"
    and base: "kernel_stack_base (tk (sched_of (sys_of mc')) i) \<in> insert 0 (page_to_phys ` N)"
      "user_stack_base (tk (sched_of (sys_of mc')) i) \<in> insert 0 (page_to_phys ` N)"
    and user: "t_level (tk (sched_of (sys_of mc')) i) = TASK_USER \<Longrightarrow> user_stack_base (tk (sched_of (sys_of mc')) i) \<noteq> 0 \<and>
      snd b \<le> 8 \<and> P = {fst b..<fst b + snd b} \<and> (\<exists>r. (r, 0, 0) \<in> L' \<and> t_page_table (tk (sched_of (sys_of mc')) i) = tbl lk r \<and>
        F' r = user_ptes (page_to_phys (fst b)) (snd b) (user_stack_base (tk (sched_of (sys_of mc')) i)))"
  shows "sys_rel lk K (mc', E) a' L' F' A (B(i := b)) \<and> programs_kept mc B mc' (B(i := b))"
proof
  let ?k = "sys_of mc" and ?k' = "sys_of mc'"
  let ?s = "sched_of ?k" and ?s' = "sched_of ?k'"
  note Fr = sys_rel_frames [OF R]
  have heap': "heap_rel (heap_state mc') A"
    unfolding heap_state_def heap(1)
    by (rule heap_rel_kept [OF sys_relD(6) [OF R] heap(2) stacks_okD [OF ok(1)] pmm(1)]) (use Fr(2) pmm(4) in blast)+
  have "j \<noteq> i" if "user_live ?s j" for j using i that by (auto simp: user_live_def)
  then show "programs_kept mc B mc' (B(i := b))"
    using heap(2) program_frame_bound(1) [OF R] tasks unfolding programs_kept_def user_live_def Let_def
    by (metis Diff_iff fun_upd_other)
  have "N \<subseteq> {..<PAGES_LEN}" using pmm(2) free_set_bound [OF Fr(3)] by blast
  with base have sub: "stack_frames ?s' \<subseteq> stack_frames ?s \<union> N"
    by (intro stack_frames_grow [of _ i]) (use tasks in \<open>simp_all add: Let_def\<close>)
  have "spaces_ok lk ?s' L' F' (B(i := b))"
    by (rule spaces_add [OF sys_relD(8) [OF R] vm(2) tasks]) (use user in \<open>simp_all add: user_live_def\<close>)
  moreover have "user_live ?s j" if "user_live ?s' j" "j \<noteq> i" for j
    using that tasks [of j] by (auto simp: user_live_def Let_def)
  then have "frames_ok K (pmm_of ?k') ?s' A (B(i := b))"
    by (rule frames_add [OF sys_relD(9) [OF R] Fr(2,1) pmm(2-5) sub]) (use user in \<open>simp_all add: user_live_def\<close>)
  moreover have "translation_on lk (mmu_of ?k') L' F'"
    using sys_relD(10) [OF R] vm(2,3) by (auto simp: translation_on_def)
  ultimately show "sys_rel lk K (mc', E) a' L' F' A (B(i := b))"
    using rr ok vm(1) heap' sys_relD(1,7) [OF R] unfolding sys_rel_def Let_def by auto
qed

lemma coreD:
  assumes "core t' = core t"
  shows "t_state t' = t_state t" "kernel_stack_base t' = kernel_stack_base t" "user_stack_base t' = user_stack_base t"
    "t_level t' = t_level t" "t_page_table t' = t_page_table t"
proof -
  have f: "f t' = f t" if "\<And>t. f (core t) = f t" for f :: "task \<Rightarrow> 'b" using assms that by metis
  show "t_state t' = t_state t" "kernel_stack_base t' = kernel_stack_base t" "user_stack_base t' = user_stack_base t"
    "t_level t' = t_level t" "t_page_table t' = t_page_table t"
    by (rule f, simp add: core_def)+
qed

lemma create_next:
  assumes R: "sys_rel lk K (mc, E) (c, True, ts, q) L F A B"
    and run: "task_create name func arg priority (sys_of mc) = Some (tid, k)"
  shows "sys_next lk K mc B (mc\<lparr>sys_of := k\<rparr>, E)"
proof -
  let ?k = "sys_of mc" and ?mc = "mc\<lparr>sys_of := k\<rparr>"
  note rr = sys_relD(2) [OF R] and st = sys_relD(3) [OF R] and sp = sys_relD(4) [OF R]
  have say: "sys_next lk K mc B (?mc, E)" if "k = say items ?k" for items
    by (rule sys_nextI [OF say_rel [OF R, of _ items]]) (simp_all add: that)
  show ?thesis
  proof (cases "find_slot (sched_of ?k) 0 MAX_TASKS")
    case None
    have "k = say [S ''ERROR: No free task slots'', NL] ?k" using run task_create_full [OF None] by simp
    then show ?thesis by (rule say)
  next
    case (Some i)
    from find_slot_Some [OF Some] have i: "\<not> live (sched_of ?k) i" "i \<noteq> c"
      using rr by (auto simp: live_def rr_rel_def)
    show ?thesis
    proof (cases "free_set (pmm_of ?k) = {}")
      case True
      have "k = say [S ''ERROR: Failed to allocate task stack'', NL] ?k"
        using run task_create_no_memory [OF stacks_okD [OF st] True Some] by simp
      then show ?thesis by (rule say)
    next
      case False
      obtain f where f: "f \<in> free_set (pmm_of ?k)" "free_set (pmm_of k) = free_set (pmm_of ?k) - {f}"
        "rr_rel (sched_of k) (c, True, ts, q @ [i])" "stacks_ok k"
        "held_set (pmm_of k) = insert f (held_set (pmm_of ?k))" "num_pages (pmm_of k) = num_pages (pmm_of ?k)"
        "t_level (tk (sched_of k) i) = TASK_KERNEL" "kernel_stack_base (tk (sched_of k) i) = page_to_phys f"
        "user_stack_base (tk (sched_of k) i) = 0" "\<And>j. j \<noteq> i \<Longrightarrow> core (tk (sched_of k) j) = core (tk (sched_of ?k) j)"
        "mmu_of k = mmu_of ?k" "mem_of k = mem_of ?k"
        using task_create_spec [OF rr st Some False, of name func arg priority] run unfolding Let_def by auto
      note C = coreD [OF f(10)]
      have "space_ok k"
        using sp f(7) C(4,5) i(2) rr_rel_current [OF rr] rr_rel_current [OF f(3)]
        unfolding space_ok_def task_space_def f(11) by (metis task_level.distinct(1) option.inject)
      moreover have "live (sched_of ?k) j" if "live (sched_of k) j" "j \<noteq> i" for j
        using that C(1) [OF that(2)] by (simp add: live_def)
      moreover have "vm_rel lk (vm_of k) L F"
        using sys_relD(5) [OF R] vm_rel_cong [of "mmu_of ?k" "mmu_of ?k"] unfolding vm_of_def f(11,12) by blast
      ultimately have "sys_rel lk K (?mc, E) (c, True, ts, q @ [i]) L F A (B(i := B i)) \<and>
          programs_kept mc B ?mc (B(i := B i))"
        by (intro sys_rel_add [OF R, where N = "{f}" and P = "{}"])
          (use f i C in \<open>auto simp: Let_def intro: exI [of _ "next_page_table (mmu_of ?k)"]\<close>)
      then show ?thesis by (rule sys_nextI)
    qed
  qed
qed

text \<open>A new user task changes memory only in the table space and in its program block, both away from the frames in use.\<close>

lemma created_frames_kept:
  assumes R: "sys_rel lk K (mc, E) a L F A B"
    and V: "\<And>x. \<not> in_space lk x \<Longrightarrow> \<not> in_block fp n x \<Longrightarrow> m x = mem_of (sys_of mc) x"
    and fp: "{fp..<fp + n} \<subseteq> free_set (pmm_of (sys_of mc))"
    and g: "g \<in> held_set (pmm_of (sys_of mc))" "in_block g 1 x"
  shows "m x = mem_of (sys_of mc) x"
proof (rule V)
  note wf = sys_rel_frames(3) [OF R]
  show "\<not> in_space lk x" using managed_not_static [OF R _ g(2)] g(1) sys_relD(1) [OF R] by blast
  show "\<not> in_block fp n x"
  proof
    assume "in_block fp n x"
    then obtain g' where g': "g' \<in> free_set (pmm_of (sys_of mc))" "in_block g' 1 x" using in_block_frame [OF _ fp wf] by metis
    then have "g = g'" using in_block_unique g(2) g(1) held_set_bound free_set_bound wf by metis
    then show False using g'(1) g(1) held_not_free [of "pmm_of (sys_of mc)"] by blast
  qed
qed

lemma user_created_rel:
  assumes R: "sys_rel lk K (mc, E) (c, True, ts, q) L F A B" and i: "\<not> live (sched_of (sys_of mc)) i"
    and U: "user_created lk name priority src sz L F i fk fu fp n (sys_of mc) k" and n: "n \<le> 8"
    and k: "rr_rel (sched_of k) a" "stacks_ok k" "space_ok k"
  shows "sys_rel lk K (mc\<lparr>sys_of := k\<rparr>, E) a (L \<union> user_labels (card L))
    (F(card L := user_ptes (page_to_phys fp) n (page_to_phys fu))) A (B(i := (fp, n))) \<and>
    programs_kept mc B (mc\<lparr>sys_of := k\<rparr>) (B(i := (fp, n)))"
proof -
  let ?k = "sys_of mc" and ?mc = "mc\<lparr>sys_of := k\<rparr>"
  note U = U [unfolded user_created_def]
  have t: "core (tk (sched_of k) i) = core (new_user name priority (next_task_id (sched_of ?k)) (page_to_phys fk)
      (page_to_phys fu) (tbl lk (card L)) (tk (sched_of ?k) i))" using U by blast
  note T = coreD [OF t, unfolded new_user_def, simplified]
  have C: "core (tk (sched_of k) j) = core (tk (sched_of ?k) j)" if "j \<noteq> i" for j using U that by blast
  have F: "fk \<in> free_set (pmm_of ?k)" "fu \<in> free_set (pmm_of ?k) - {fk}" "{fp..<fp + n} \<subseteq> free_set (pmm_of ?k) - {fk, fu}"
    "free_set (pmm_of k) = free_set (pmm_of ?k) - {fk, fu} - {fp..<fp + n}"
    "held_set (pmm_of k) = held_set (pmm_of ?k) \<union> {fk, fu} \<union> {fp..<fp + n}"
    "num_pages (pmm_of k) = num_pages (pmm_of ?k)" using U by blast+
  have V: "\<And>x. \<not> in_space lk x \<Longrightarrow> \<not> in_block fp n x \<Longrightarrow> mem_of k x = mem_of ?k x" using U by blast
  have fu0: "page_to_phys fu \<noteq> 0"
    using F(2) free_set_bound [OF sys_rel_frames(3) [OF R]] by (intro page_to_phys_nonzero) blast
  show ?thesis
  proof (rule sys_rel_add [OF R, where N = "{fk, fu}" and P = "{fp..<fp + n}"])
    show "rr_rel (sched_of (sys_of ?mc)) a" "stacks_ok (sys_of ?mc)" "space_ok (sys_of ?mc)" using k by simp_all
    show "vm_rel lk (vm_of (sys_of ?mc)) (L \<union> user_labels (card L))
        (F(card L := user_ptes (page_to_phys fp) n (page_to_phys fu)))" using U by simp
    show "\<exists>x. mmu_of (sys_of ?mc) = (mmu_of ?k)\<lparr>next_page_table := x\<rparr>" using U by simp
    show "mem_of (sys_of ?mc) x = mem_of ?k x" if "g \<in> held_set (pmm_of ?k)" "in_block g 1 x" for g x
      using created_frames_kept [OF R V _ that] F(3) by simp blast
    show "(r, 0, 0) \<in> L \<union> user_labels (card L) \<and> (F(card L := user_ptes (page_to_phys fp) n (page_to_phys fu))) r = F r"
      if "(r, 0, 0) \<in> L" for r using that root_not_next [OF sys_relD(5) [OF R] that] by simp
    show "live (sched_of ?k) j \<and> (let t = tk (sched_of ?k) j; t' = tk (sched_of (sys_of ?mc)) j in
        kernel_stack_base t' = kernel_stack_base t \<and> user_stack_base t' = user_stack_base t \<and>
        t_level t' = t_level t \<and> t_page_table t' = t_page_table t)"
      if "live (sched_of (sys_of ?mc)) j" "j \<noteq> i" for j
      using that coreD [OF C [OF that(2)]] by (simp add: live_def)
    show "user_stack_base (tk (sched_of (sys_of ?mc)) i) \<noteq> 0 \<and> snd (fp, n) \<le> 8 \<and>
        {fp..<fp + n} = {fst (fp, n)..<fst (fp, n) + snd (fp, n)} \<and> (\<exists>r. (r, 0, 0) \<in> L \<union> user_labels (card L) \<and>
        t_page_table (tk (sched_of (sys_of ?mc)) i) = tbl lk r \<and>
        (F(card L := user_ptes (page_to_phys fp) n (page_to_phys fu))) r =
          user_ptes (page_to_phys (fst (fp, n))) (snd (fp, n)) (user_stack_base (tk (sched_of (sys_of ?mc)) i)))"
      using T(3,5) fu0 n by (auto simp: user_labels_def)
  qed (use F T i in auto)
qed

lemma create_user_next:
  assumes R: "sys_rel lk K (mc, E) (c, True, ts, q) L F A B"
    and sz: "unat sz \<le> 0x8000" and src: "\<forall>j < unat sz. src + of_nat j \<in> K"
    and run: "task_create_user lk name src sz priority (sys_of mc) = Some (tid, k)"
  shows "sys_next lk K mc B (mc\<lparr>sys_of := k\<rparr>, E)"
proof -
  let ?k = "sys_of mc" and ?mc = "mc\<lparr>sys_of := k\<rparr>"
  note rr = sys_relD(2) [OF R] and st = sys_relD(3) [OF R] and sp = sys_relD(4) [OF R] and vm = sys_relD(5) [OF R]
  have np: "8 \<le> unat (num_pages (pmm_of ?k))" using heap_relD(2) [OF sys_relD(6) [OF R]] by simp
  have ap: "frames_apart lk (pmm_of ?k)" "image_apart (pmm_of ?k) src sz"
    using managed_not_static [OF R] sys_relD(1) [OF R] src by (auto simp: frames_apart_def image_apart_def)
  show ?thesis
  proof (cases "find_slot (sched_of ?k) 0 MAX_TASKS")
    case None
    then have "k = say [S ''ERROR: No free task slots'', NL] ?k" using run by (simp add: task_create_user_def)
    then show ?thesis by (intro sys_nextI [OF say_rel [OF R]]) simp_all
  next
    case (Some i)
    from find_slot_Some [OF Some] have i: "\<not> live (sched_of ?k) i" by (auto simp: live_def)
    from task_create_user_spec [OF rr st sp vm np sz ap Some, of name priority] show ?thesis
    proof cases
      case (1 k')
      then have f: "create_failed ?k k" using run by simp
      have "rr_rel (sched_of k) (c, True, ts, q)" using f rr by (simp add: create_failed_def)
      then have l: "live (sched_of k) j \<longleftrightarrow> live (sched_of ?k) j" for j by (simp only: rr_live [OF rr] rr_live)
      have "sys_rel lk K (?mc, E) (c, True, ts, q) L F A B \<and> programs_kept mc B ?mc B"
        by (rule sys_rel_update [OF R]) (use f rr st sp l in \<open>auto simp: create_failed_def Let_def\<close>)
      then show ?thesis by (rule sys_nextI)
    next
      case 2
      then show ?thesis using run by simp
    next
      case (3 k' fk fu fp ord)
      then have k': "k' = k" using run by simp
      have "(2 :: nat) ^ ord \<le> 8" using power_increasing [OF 3(1), of "2 :: nat"] by simp
      from user_created_rel [OF R i 3(4) this 3(5-7)] show ?thesis unfolding k' by (rule sys_nextI)
    qed
  qed
qed

section \<open>The heap\<close>

lemma owns_held:
  assumes "owns p s" "pmm_wf p'" "stack_frames s \<subseteq> held_set p'"
  shows "owns p' s"
proof -
  have "stack_at s x \<in> page_to_phys ` held_set p'" if x: "x \<in> stacks s" for x
  proof -
    obtain f where f: "stack_at s x = page_to_phys f" "f < PAGES_LEN" using owns_frame [OF assms(1) x] by metis
    then have "f \<in> stack_frames s" using x by (auto simp: stack_frames_def)
    then show ?thesis using f(1) assms(3) by blast
  qed
  then show ?thesis using assms(1,2) by (auto simp: owns_def)
qed

lemma set_heap_state_sys:
  "sys_of (set_heap_state (h, p, m, con) mc) = (sys_of mc)\<lparr>pmm_of := p, mem_of := m, con_of := con\<rparr>"
  "heap_of (set_heap_state (h, p, m, con) mc) = h"
  by (simp_all add: set_heap_state_def)

text \<open>A heap operation: the heap takes frames that were free or gives some of its own back.\<close>

lemma sys_rel_heap:
  assumes R: "sys_rel lk K (mc, E) a L F A B"
    and rel: "heap_rel (h', p', m', con') A'" and own: "owned E' A'"
    and fr: "free_set p' \<union> held_set p' \<subseteq> free_set (pmm_of (sys_of mc)) \<union> held_set (pmm_of (sys_of mc))"
      "held_set (pmm_of (sys_of mc)) - heap_frames A \<subseteq> held_set p'"
      "heap_frames A' \<subseteq> heap_frames A \<union> free_set (pmm_of (sys_of mc))"
    and mem: "\<And>x. \<forall>f \<in> heap_frames A \<union> free_set (pmm_of (sys_of mc)). \<not> in_block f 1 x \<Longrightarrow> m' x = mem_of (sys_of mc) x"
  shows "sys_rel lk K (set_heap_state (h', p', m', con') mc, E') a L F A' B \<and>
    programs_kept mc B (set_heap_state (h', p', m', con') mc) B"
proof
  let ?k = "sys_of mc"
  note Fr = sys_rel_frames [OF R] and O = sys_relD(9) [OF R]
  have fh: "free_set (pmm_of ?k) \<inter> held_set (pmm_of ?k) = {}" using held_not_free [of "pmm_of ?k"] by blast
  have hs: "heap_frames A \<inter> stack_frames (sched_of ?k) = {}" using O by (simp add: frames_ok_def)
  have "m' x = mem_of ?k x" if i: "user_live (sched_of ?k) i" "f \<in> prog_frames B i" and x: "in_block f 1 x" for i f x
  proof (rule mem, intro ballI notI)
    fix g assume g: "g \<in> heap_frames A \<union> free_set (pmm_of ?k)" "in_block g 1 x"
    then have "g < PAGES_LEN" using Fr held_set_bound free_set_bound by blast
    then have "f = g" using in_block_unique x g(2) program_frame_bound(2) [OF R i] by blast
    then show False using program_frame_bound(1) [OF R i] g(1) fh by blast
  qed
  then show "programs_kept mc B (set_heap_state (h', p', m', con') mc) B"
    by (simp add: programs_kept_def set_heap_state_sys)
  have "owns p' (sched_of ?k)"
    by (rule owns_held [of "pmm_of ?k"])
      (use sys_relD(3) [OF R] heap_relD(1) [OF rel] Fr(1) fr(2) hs in \<open>auto simp: stacks_ok_def\<close>)
  moreover have "vm_rel lk (mmu_of ?k, m', con_of ?k) L F"
  proof (rule vm_rel_mem [OF sys_relD(5) [OF R, unfolded vm_of_def]])
    show "m' x = mem_of ?k x" if "in_space lk x" for x
      using managed_not_static [OF R] sys_relD(1) [OF R that] Fr(2) by (intro mem) blast
  qed
  then have "vm_rel lk (mmu_of ?k, m', con') L F" using vm_rel_cong by blast
  moreover have "frames_ok K p' (sched_of ?k) A' B"
    unfolding frames_ok_def
  proof (intro conjI allI impI ballI)
    show "x \<notin> K" if "f \<in> free_set p' \<union> held_set p'" "in_block f 1 x" for f x
      using O that fr(1) unfolding frames_ok_def by blast
    show "heap_frames A' \<inter> stack_frames (sched_of ?k) = {}" using hs fr(3) Fr(1) fh by blast
    show "prog_frames B i \<subseteq> held_set p' - stack_frames (sched_of ?k) - heap_frames A'"
      if "user_live (sched_of ?k) i" for i
    proof -
      have "prog_frames B i \<subseteq> held_set (pmm_of ?k) - stack_frames (sched_of ?k) - heap_frames A"
        using O that by (simp add: frames_ok_def)
      then show ?thesis using fr(2,3) fh by blast
    qed
    show "prog_frames B i \<inter> prog_frames B j = {}"
      if "user_live (sched_of ?k) i \<and> user_live (sched_of ?k) j \<and> i \<noteq> j" for i j
      using O that by (simp add: frames_ok_def)
  qed
  ultimately show "sys_rel lk K (set_heap_state (h', p', m', con') mc, E') a L F A' B"
    using sys_relD(1,2,4,8,10) [OF R] rel own
    by (auto simp: sys_rel_def Let_def set_heap_state_sys heap_state_def stacks_ok_def space_ok_def vm_of_def)
qed

lemma owned_release:
  assumes o: "owned E A" "(ptr, n) \<in> E" and A': "live_extents A' = live_extents A - {(ptr, k)}"
  shows "owned (E - {(ptr, n)}) A'"
proof -
  have "fst e \<noteq> ptr" if "e \<in> E - {(ptr, n)}" for e
    using that o inj_onD [of fst E e "(ptr, n)"] by (auto simp: owned_def)
  moreover have "inj_on fst (E - {(ptr, n)})" using o(1) by (auto simp: owned_def intro: inj_on_subset)
  ultimately show ?thesis using o(1) unfolding owned_def A' by fastforce
qed

lemma owned_take:
  assumes o: "owned E A" and rel: "heap_rel st A'" and n: "n \<le> k" "(ptr, k) \<notin> live_extents A"
    and A': "live_extents A' = insert (ptr, k) (live_extents A)"
  shows "owned (insert (ptr, n) E) A'"
proof -
  note holds = heap_holdsI [OF rel]
  have "fst e \<noteq> ptr" if e: "e \<in> E" for e
  proof
    assume p: "fst e = ptr"
    obtain l where l: "(ptr, l) \<in> live_extents A" using o e p by (auto simp: owned_def)
    then have in': "(ptr, l) \<in> live_extents A'" "(ptr, k) \<in> live_extents A'" "(ptr, k) \<noteq> (ptr, l)" using A' n(2) by auto
    have "cells_apart (ptr, k) (ptr, l)" by (rule kh.apart [OF holds in'(2,1,3)])
    then show False using kh.positive [OF holds in'(1)] kh.positive [OF holds in'(2)] by (simp add: cells_apart_def)
  qed
  then have "ptr \<notin> fst ` E" by blast
  then show ?thesis using o n(1) unfolding owned_def A' by (simp add: inj_on_insert) blast
qed

lemma alloc_next:
  assumes R: "sys_rel lk K (mc, E) (c, True, ts, q) L F A B"
    and nw: "unat sz + 16 < 2 ^ 64" and run: "kmalloc sz (heap_state mc) = Some (ptr, st)"
  shows "sys_next lk K mc B (set_heap_state st mc, if ptr = 0 then E else insert (ptr, unat sz) E)"
proof -
  let ?k = "sys_of mc"
  note rel = sys_relD(6) [OF R]
  have sz: "unat sz + 16 \<le> 2 ^ 63" using kmalloc_never [of sz "heap_state mc"] nw run by (cases "2 ^ 63 < unat sz + 16") simp_all
  have same: "set_heap_state (heap_state mc) mc = mc"
    by (simp add: set_heap_state_def heap_state_def on_sys_def)
  have stays: "sys_next lk K mc B (mc, E)" using R programs_kept_refl by (blast intro: sys_nextI)
  from kmalloc_spec [OF rel sz] show ?thesis
  proof (elim disjE conjE exE)
    assume "kmalloc sz (heap_of mc, pmm_of ?k, mem_of ?k, con_of ?k) = Some (0, heap_of mc, pmm_of ?k, mem_of ?k, con_of ?k)"
    then have "ptr = 0" "st = heap_state mc" using run by (simp_all add: heap_state_def)
    then show ?thesis using stays same by simp
  next
    fix ptr' n h' p' m' A' assume r: "kmalloc sz (heap_of mc, pmm_of ?k, mem_of ?k, con_of ?k) = Some (ptr', h', p', m', con_of ?k)"
      "unat sz \<le> n" and f: "fresh_extent ptr' n (heap_of mc, pmm_of ?k, mem_of ?k, con_of ?k) A (h', p', m', con_of ?k) A'"
    have e: "ptr = ptr'" "st = (h', p', m', con_of ?k)" using r(1) run by (simp_all add: heap_state_def)
    note f' = f [unfolded fresh_extent_def prod.case]
    obtain N where N: "N \<subseteq> free_set (pmm_of ?k)" "free_set p' = free_set (pmm_of ?k) - N"
      "held_set p' = held_set (pmm_of ?k) \<union> N" "heap_frames A' = heap_frames A \<union> N"
      using f' by (auto simp: takes_frames_def)
    have rel': "heap_rel (h', p', m', con_of ?k) A'" using f' by blast
    have "owned (insert (ptr, unat sz) E) A'"
      unfolding e(1) by (rule owned_take [OF sys_relD(7) [OF R] rel' r(2)]) (use f' in blast)+
    moreover have "m' x = mem_of ?k x" if "\<forall>f \<in> heap_frames A \<union> free_set (pmm_of ?k). \<not> in_block f 1 x" for x
      using f' that by (simp add: in_block_def)
    ultimately have "sys_rel lk K (set_heap_state st mc, insert (ptr, unat sz) E) (c, True, ts, q) L F A' B \<and>
        programs_kept mc B (set_heap_state st mc) B"
      unfolding e(2) by (intro sys_rel_heap [OF R rel']) (use N in blast)+
    moreover have "ptr \<noteq> 0" using f' e(1) by simp
    ultimately show ?thesis by (auto intro: sys_nextI)
  qed (use stays same run in \<open>simp_all add: heap_state_def\<close>)
qed

lemma release_next:
  assumes R: "sys_rel lk K (mc, E) (c, True, ts, q) L F A B"
    and e: "(ptr, n) \<in> E" and run: "kfree ptr (heap_state mc) = Some st"
  shows "sys_next lk K mc B (set_heap_state st mc, E - {(ptr, n)})"
proof -
  let ?k = "sys_of mc"
  obtain k where k: "(ptr, k) \<in> live_extents A" using sys_relD(7) [OF R] e by (auto simp: owned_def)
  obtain h' p' m' con' where st: "st = (h', p', m', con')" by (cases st)
  obtain A' where f: "released ptr k (heap_of mc, pmm_of ?k, mem_of ?k, con_of ?k) A (h', p', m', con') A'"
    using kfree_spec [OF sys_relD(6) [OF R] k] run st by (auto simp: heap_state_def)
  note f' = f [unfolded released_def prod.case]
  obtain N where N: "N \<subseteq> heap_frames A" "free_set p' = free_set (pmm_of ?k) \<union> N"
    "held_set p' = held_set (pmm_of ?k) - N" "heap_frames A' = heap_frames A - N"
    using f' by (auto simp: gives_frames_def)
  have rel': "heap_rel (h', p', m', con') A'" using f' by blast
  have "owned (E - {(ptr, n)}) A'" by (rule owned_release [OF sys_relD(7) [OF R] e]) (use f' in blast)
  moreover have "m' x = mem_of ?k x" if "\<forall>f \<in> heap_frames A \<union> free_set (pmm_of ?k). \<not> in_block f 1 x" for x
    using f' that by (simp add: in_block_def)
  ultimately have "sys_rel lk K (set_heap_state st mc, E - {(ptr, n)}) (c, True, ts, q) L F A' B \<and>
      programs_kept mc B (set_heap_state st mc) B"
    unfolding st by (intro sys_rel_heap [OF R rel']) (use N sys_rel_frames(2) [OF R] in blast)+
  then show ?thesis by (rule sys_nextI)
qed

section \<open>All steps\<close>

lemma kernel_step_next:
  assumes "kernel_step lk K (mc, E) st'" and R: "sys_rel lk K (mc, E) (c, True, ts, q) L F A B"
  shows "sys_next lk K mc B st'"
  using assms(1)
proof (cases rule: kernel_step.cases)
  case timer
  then show ?thesis using timer_next [OF R] by simp
next
  case call
  then show ?thesis using syscall_next [OF R] by blast
next
  case create
  then show ?thesis using create_next [OF R] by blast
next
  case create_user
  then show ?thesis using create_user_next [OF R] by blast
next
  case alloc
  then show ?thesis using alloc_next [OF R] by blast
next
  case release
  then show ?thesis using release_next [OF R] by blast
next
  case run
  then show ?thesis using sys_nextI [OF run_rel [OF R]] by blast
qed

lemma kernel_step_inv:
  assumes "kernel_step lk K st st'" "sys_inv lk K st"
  shows "sys_inv lk K st'"
proof -
  obtain mc E where st: "st = (mc, E)" by (cases st)
  obtain c ts q L F A B where "sys_rel lk K st (c, True, ts, q) L F A B" by (rule sys_invE [OF assms(2)])
  with assms(1) have "sys_next lk K mc B st'" unfolding st using kernel_step_next by blast
  then obtain c' ts' q' L' F' A' B' where "sys_rel lk K st' (c', True, ts', q') L' F' A' B'" by (rule sys_nextE)
  then show ?thesis by (rule sys_invI)
qed

text \<open>The steps one by one.\<close>

lemma syscall_inv:
  "sys_inv lk K (mc, E) \<Longrightarrow> syscall_handler xlate clock num a0 a1 a2 a3 mc = Some r \<Longrightarrow> sys_inv lk K (snd (state_after r), E)"
  by (rule kernel_step_inv [OF kernel_step.call])

lemma create_inv:
  "sys_inv lk K (mc, E) \<Longrightarrow> task_create name func arg priority (sys_of mc) = Some (tid, k) \<Longrightarrow>
    sys_inv lk K (mc\<lparr>sys_of := k\<rparr>, E)"
  by (rule kernel_step_inv [OF kernel_step.create])

lemma create_user_inv:
  "sys_inv lk K (mc, E) \<Longrightarrow> unat sz \<le> 0x8000 \<Longrightarrow> \<forall>j < unat sz. src + of_nat j \<in> K \<Longrightarrow>
    task_create_user lk name src sz priority (sys_of mc) = Some (tid, k) \<Longrightarrow> sys_inv lk K (mc\<lparr>sys_of := k\<rparr>, E)"
  by (rule kernel_step_inv [OF kernel_step.create_user])

lemma alloc_inv:
  "sys_inv lk K (mc, E) \<Longrightarrow> unat sz + 16 < 2 ^ 64 \<Longrightarrow> kmalloc sz (heap_state mc) = Some (ptr, st) \<Longrightarrow>
    sys_inv lk K (set_heap_state st mc, if ptr = 0 then E else insert (ptr, unat sz) E)"
  by (rule kernel_step_inv [OF kernel_step.alloc])

lemma release_inv:
  "sys_inv lk K (mc, E) \<Longrightarrow> (ptr, n) \<in> E \<Longrightarrow> kfree ptr (heap_state mc) = Some st \<Longrightarrow>
    sys_inv lk K (set_heap_state st mc, E - {(ptr, n)})"
  by (rule kernel_step_inv [OF kernel_step.release])

lemma run_inv:
  "sys_inv lk K (mc, E) \<Longrightarrow> \<forall>x. \<not> may_write lk K (mc, E) x \<longrightarrow> m x = mem_of (sys_of mc) x \<Longrightarrow>
    sys_of mc' = (sys_of mc)\<lparr>cpu_of := c, mem_of := m, con_of := con\<rparr> \<Longrightarrow> heap_of mc' = heap_of mc \<Longrightarrow> sys_inv lk K (mc', E)"
  by (rule kernel_step_inv [OF kernel_step.run])

text \<open>The invariant for less static memory, as long as the table space is in it.\<close>

lemma sys_inv_less:
  assumes I: "sys_inv lk K st" and K: "K' \<subseteq> K" "\<And>x. in_space lk x \<Longrightarrow> x \<in> K'"
  shows "sys_inv lk K' st"
proof -
  obtain c ts q L F A B where R: "sys_rel lk K st (c, True, ts, q) L F A B" by (rule sys_invE [OF I])
  have "frames_ok K' p s A B" if "frames_ok K p s A B" for p s using that K(1) unfolding frames_ok_def by blast
  then have "sys_rel lk K' st (c, True, ts, q) L F A B" using R K(2) by (simp add: sys_rel_def Let_def)
  then show ?thesis by (rule sys_invI)
qed

definition kernel_steps :: "linker \<Rightarrow> u64 set \<Rightarrow> kstate \<Rightarrow> kstate \<Rightarrow> bool" where
  "kernel_steps lk K = (kernel_step lk K)\<^sup>*\<^sup>*"

lemma kernel_steps_inv: "kernel_steps lk K st st' \<Longrightarrow> sys_inv lk K st \<Longrightarrow> sys_inv lk K st'"
  unfolding kernel_steps_def by (induction rule: rtranclp_induct) (blast intro: kernel_step_inv)+

section \<open>User tasks cannot reach each other\<close>

text \<open>The address a page entry leads to: bits 12 to 47.\<close>

definition out_addr :: "u64 \<Rightarrow> u64" where
  "out_addr e = take_bit 48 e AND PAGE_MASK"

lemma out_addr_frame:
  assumes f: "f < PAGES_LEN"
  shows "out_addr (page_to_phys f OR PAGE_USER_RX OR PTE_TYPE_PAGE) = page_to_phys f"
    "out_addr (page_to_phys f OR PAGE_USER_RW OR PTE_TYPE_PAGE) = page_to_phys f"
proof -
  have "unat (page_to_phys f) < 2 ^ 48" using unat_page_to_phys [OF f] f by (simp add: PAGES_LEN_def)
  then have a: "take_bit 48 (page_to_phys f) = page_to_phys f"
    by (simp add: word_unat_eq_iff unsigned_take_bit_eq take_bit_nat_eq_self)
  have b: "page_to_phys f AND PAGE_MASK = page_to_phys f" by (rule and_PAGE_MASK_aligned [OF frame_aligned [OF f]])
  have c: "out_addr (PAGE_USER_RX OR PTE_TYPE_PAGE) = 0" "out_addr (PAGE_USER_RW OR PTE_TYPE_PAGE) = 0"
    by code_simp+
  have d: "out_addr (x OR y) = out_addr x OR out_addr y" for x y :: u64
    by (simp add: out_addr_def bit.conj_disj_distrib2)
  have e: "out_addr (page_to_phys f) = page_to_phys f" by (simp add: out_addr_def a b)
  show "out_addr (page_to_phys f OR PAGE_USER_RX OR PTE_TYPE_PAGE) = page_to_phys f"
    "out_addr (page_to_phys f OR PAGE_USER_RW OR PTE_TYPE_PAGE) = page_to_phys f"
    unfolding d [of "page_to_phys f"] c e by simp_all
qed

lemma page_to_phys_plus:
  assumes "f + j < PAGES_LEN"
  shows "page_to_phys f + of_nat (4096 * j) = page_to_phys (f + j)"
proof -
  have u: "unat (of_nat (4096 * j) :: u64) = 4096 * j"
    using assms by (intro unat_of_nat_small) (simp add: PAGES_LEN_def)
  have "unat (page_to_phys f + of_nat (4096 * j)) = unat (page_to_phys f) + 4096 * j"
    using unat_page_to_phys [of f] assms u by (subst unat_add_no_wrap) (simp_all add: PAGES_LEN_def)
  then show ?thesis using unat_page_to_phys [of f] unat_page_to_phys [OF assms] assms by (simp add: word_unat_eq_iff)
qed

lemma user_stack_at: "user_live s i \<Longrightarrow> user_stack_base (tk s i) \<noteq> 0 \<Longrightarrow> (i, True) \<in> stacks s"
  by (simp add: user_live_def stacks_def stack_at_def)

text \<open>What a user task can translate is its program, to execute, or its stack, to write.\<close>

lemma user_entry_forms:
  assumes R: "sys_rel lk K (mc, E) a L F A B" and i: "user_live (sched_of (sys_of mc)) i"
    and e: "pte_of (mem_of (sys_of mc)) (t_page_table (tk (sched_of (sys_of mc)) i)) va \<noteq> 0" (is "?e \<noteq> 0")
  obtains (prog) f where "?e = page_to_phys f OR PAGE_USER_RX OR PTE_TYPE_PAGE" "f \<in> prog_frames B i" "f < PAGES_LEN"
  | (stack) f where "?e = page_to_phys f OR PAGE_USER_RW OR PTE_TYPE_PAGE" "f \<in> stack_frames (sched_of (sys_of mc))"
      "(i, True) \<in> stacks (sched_of (sys_of mc))" "stack_at (sched_of (sys_of mc)) (i, True) = page_to_phys f" "f < PAGES_LEN"
proof -
  let ?s = "sched_of (sys_of mc)"
  obtain r where r: "(r, 0, 0) \<in> L" "t_page_table (tk ?s i) = tbl lk r" "user_stack_base (tk ?s i) \<noteq> 0"
    "F r = user_ptes (page_to_phys (fst (B i))) (snd (B i)) (user_stack_base (tk ?s i))"
    using sys_relD(8) [OF R] i by (auto simp: spaces_ok_def)
  have ev: "?e = F r (vpn va)"
    using vm_rel_pte [OF sys_relD(5) [OF R] r(1), of va] r(2) by (simp add: vm_of_def)
  consider "0x400 \<le> vpn va" "vpn va < 0x400 + snd (B i)" | "\<not> (0x400 \<le> vpn va \<and> vpn va < 0x400 + snd (B i))" "vpn va = 0x7FFFF"
    using e unfolding ev r(4) user_ptes_def by (auto split: if_splits)
  then show thesis
  proof cases
    case 1
    let ?f = "fst (B i) + (vpn va - 0x400)"
    have p: "?f \<in> prog_frames B i" using 1 by (auto simp: prog_frames_def)
    then have "?f \<in> held_set (pmm_of (sys_of mc))" using sys_relD(9) [OF R] i by (auto simp: frames_ok_def)
    then have b: "?f < PAGES_LEN" using held_set_bound [OF sys_rel_frames(3) [OF R]] by blast
    have "?e = page_to_phys ?f OR PAGE_USER_RX OR PTE_TYPE_PAGE"
      unfolding ev r(4) user_ptes_def using 1 page_to_phys_plus [OF b] by (simp del: of_nat_mult)
    then show thesis using prog p b by blast
  next
    case 2
    have st: "(i, True) \<in> stacks ?s" by (rule user_stack_at [OF i r(3)])
    have "owns (pmm_of (sys_of mc)) ?s" using sys_relD(3) [OF R] by (simp add: stacks_ok_def)
    then obtain f where f: "stack_at ?s (i, True) = page_to_phys f" "f < PAGES_LEN" using owns_frame st by metis
    have "?e = page_to_phys f OR PAGE_USER_RW OR PTE_TYPE_PAGE"
      unfolding ev r(4) user_ptes_def if_not_P [OF 2(1)] if_P [OF 2(2)] using f(1) by (simp add: stack_at_def)
    moreover have "f \<in> stack_frames ?s" using f st by (auto simp: stack_frames_def)
    ultimately show thesis using stack st f by blast
  qed
qed

lemma user_entry_cases:
  assumes R: "sys_rel lk K (mc, E) a L F A B" and i: "user_live (sched_of (sys_of mc)) i"
    and e: "pte_of (mem_of (sys_of mc)) (t_page_table (tk (sched_of (sys_of mc)) i)) va \<noteq> 0" (is "?e \<noteq> 0")
  obtains (prog) f where "out_addr ?e = page_to_phys f" "f \<in> prog_frames B i"
  | (stack) f where "out_addr ?e = page_to_phys f" "f \<in> stack_frames (sched_of (sys_of mc))"
      "(i, True) \<in> stacks (sched_of (sys_of mc))" "stack_at (sched_of (sys_of mc)) (i, True) = page_to_phys f"
  using user_entry_forms [OF R i e] out_addr_frame by metis

lemma held_frame_inj:
  assumes "pmm_wf p" "f \<in> held_set p" "g \<in> held_set p" "page_to_phys f = page_to_phys g"
  shows "f = g"
  using inj_onD [OF page_to_phys_inj, of f g] assms held_set_bound by blast

lemma kernel_stack_frame:
  assumes "stacks_ok k" "live (sched_of k) j"
  shows "\<exists>g \<in> stack_frames (sched_of k). kernel_stack_base (tk (sched_of k) j) = page_to_phys g"
proof -
  have o: "owns (pmm_of k) (sched_of k)" "(j, False) \<in> stacks (sched_of k)"
    using assms by (auto simp: stacks_ok_def owns_def)
  then obtain g where "stack_at (sched_of k) (j, False) = page_to_phys g" "g < PAGES_LEN" using owns_frame by metis
  moreover from this have "g \<in> stack_frames (sched_of k)" using o(2) by (auto simp: stack_frames_def)
  ultimately show ?thesis by (auto simp: stack_at_def)
qed

text \<open>A frame in use, but not by the heap, is neither static memory nor in a block of a caller of the heap.\<close>

lemma private_frame:
  assumes R: "sys_rel lk K (mc, E) a L F A B" and f: "f \<in> held_set (pmm_of (sys_of mc)) - heap_frames A" "in_block f 1 x"
  shows "x \<notin> K \<and> \<not> (\<exists>b \<in> E. inside x b)"
proof (intro conjI notI)
  note Fr = sys_rel_frames [OF R]
  show False if "x \<in> K" using managed_not_static [OF R _ f(2)] f(1) that by blast
  assume "\<exists>b \<in> E. inside x b"
  then obtain b n where b: "b \<in> E" "inside x b" "snd b \<le> n" "(fst b, n) \<in> live_extents A"
    using sys_relD(7) [OF R] by (auto simp: owned_def)
  then have "inside x (fst b, n)" by (simp add: inside_def)
  then obtain g where "g \<in> heap_frames A" "in_block g 1 x" using extent_frame [OF sys_relD(6) [OF R] b(4)] by metis
  moreover from this have "f = g" using in_block_unique f held_set_bound [OF Fr(3)] Fr(2) by blast
  ultimately show False using f(1) by blast
qed

text \<open>A user task does not reach a frame that is neither of its program nor its stack.\<close>

lemma foreign_entry:
  assumes R: "sys_rel lk K (mc, E) a L F A B" and j: "user_live (sched_of (sys_of mc)) j"
    and f: "f \<in> held_set (pmm_of (sys_of mc))" "f \<notin> prog_frames B j" "user_stack_base (tk (sched_of (sys_of mc)) j) \<noteq> page_to_phys f"
  shows "out_addr (pte_of (mem_of (sys_of mc)) (t_page_table (tk (sched_of (sys_of mc)) j)) va) \<noteq> page_to_phys f"
    (is "out_addr ?e \<noteq> _")
proof (cases "?e = 0")
  case True
  have "f < PAGES_LEN" using f(1) held_set_bound [OF sys_rel_frames(3) [OF R]] by blast
  then show ?thesis using True page_to_phys_nonzero [of f] by (auto simp: out_addr_def)
next
  case False
  with R j show ?thesis
  proof (cases rule: user_entry_cases)
    case (prog g)
    have "g \<in> held_set (pmm_of (sys_of mc))" using prog(2) sys_relD(9) [OF R] j by (auto simp: frames_ok_def)
    then show ?thesis using prog f held_frame_inj [OF sys_rel_frames(3) [OF R] f(1), of g] by auto
  next
    case (stack g)
    then show ?thesis using f(3) by (simp add: stack_at_def)
  qed
qed

lemma user_memory_apart:
  assumes R: "sys_rel lk K (mc, E) a L F A B" and i: "user_live (sched_of (sys_of mc)) i"
    and e: "pte_of (mem_of (sys_of mc)) (t_page_table (tk (sched_of (sys_of mc)) i)) va \<noteq> 0" (is "?e \<noteq> 0")
  shows "\<exists>f. out_addr ?e = page_to_phys f \<and> f \<in> held_set (pmm_of (sys_of mc)) \<and>
    (\<forall>x. in_block f 1 x \<longrightarrow> x \<notin> K \<and> \<not> (\<exists>b \<in> E. inside x b)) \<and>
    (\<forall>j. live (sched_of (sys_of mc)) j \<longrightarrow> kernel_stack_base (tk (sched_of (sys_of mc)) j) \<noteq> page_to_phys f) \<and>
    (\<forall>j va'. user_live (sched_of (sys_of mc)) j \<and> j \<noteq> i \<longrightarrow>
       out_addr (pte_of (mem_of (sys_of mc)) (t_page_table (tk (sched_of (sys_of mc)) j)) va') \<noteq> page_to_phys f)"
proof -
  let ?s = "sched_of (sys_of mc)" and ?p = "pmm_of (sys_of mc)"
  note Fr = sys_rel_frames [OF R] and O = sys_relD(9) [OF R]
  have o: "inj_on (stack_at ?s) (stacks ?s)" "\<And>j. live ?s j \<Longrightarrow> (j, False) \<in> stacks ?s"
    using sys_relD(3) [OF R] by (auto simp: stacks_ok_def owns_def)
  have pr: "prog_frames B j \<subseteq> held_set ?p - stack_frames ?s - heap_frames A" if "user_live ?s j" for j
    using O that by (simp add: frames_ok_def)
  have us: "(j, True) \<in> stacks ?s" if "user_live ?s j" for j
    using sys_relD(8) [OF R] that user_stack_at by (auto simp: spaces_ok_def)
  show ?thesis
    using R i e
  proof (cases rule: user_entry_cases)
    case (prog f)
    then have f: "f \<in> held_set ?p - stack_frames ?s - heap_frames A" using pr [OF i] by blast
    have other: "stack_at ?s x \<noteq> page_to_phys f" if x: "x \<in> stacks ?s" for x
    proof -
      have "owns ?p ?s" using sys_relD(3) [OF R] by (simp add: stacks_ok_def)
      then obtain g where g: "stack_at ?s x = page_to_phys g" "g < PAGES_LEN" using owns_frame x by metis
      then have "g \<in> stack_frames ?s" using x by (auto simp: stack_frames_def)
      then show ?thesis using g(1) f Fr(1) held_frame_inj [OF Fr(3), of f g] by auto
    qed
    have "kernel_stack_base (tk ?s j) \<noteq> page_to_phys f" if "live ?s j" for j
      using other [OF o(2) [OF that]] by (simp add: stack_at_def)
    moreover have "out_addr (pte_of (mem_of (sys_of mc)) (t_page_table (tk ?s j)) va') \<noteq> page_to_phys f"
      if j: "user_live ?s j" "j \<noteq> i" for j va'
    proof (rule foreign_entry [OF R j(1)])
      have "prog_frames B i \<inter> prog_frames B j = {}" using O i j by (simp add: frames_ok_def)
      then show "f \<notin> prog_frames B j" using prog(2) by blast
      show "user_stack_base (tk ?s j) \<noteq> page_to_phys f" using other [OF us [OF j(1)]] by (simp add: stack_at_def)
    qed (use f in blast)
    ultimately show ?thesis using prog(1) f private_frame [OF R, of f] by (intro exI [of _ f]) blast
  next
    case (stack f)
    then have f: "f \<in> held_set ?p - heap_frames A" using Fr(1) O unfolding frames_ok_def by blast
    have other: "stack_at ?s x \<noteq> page_to_phys f" if "x \<in> stacks ?s" "x \<noteq> (i, True)" for x
      using inj_onD [OF o(1), of x "(i, True)"] that stack(3,4) by auto
    have "kernel_stack_base (tk ?s j) \<noteq> page_to_phys f" if "live ?s j" for j
      using other [OF o(2) [OF that]] by (simp add: stack_at_def)
    moreover have "out_addr (pte_of (mem_of (sys_of mc)) (t_page_table (tk ?s j)) va') \<noteq> page_to_phys f"
      if j: "user_live ?s j" "j \<noteq> i" for j va'
      by (rule foreign_entry [OF R j(1)])
        (use f pr [OF j(1)] stack(2) other [OF us [OF j(1)]] j(2) in \<open>auto simp: stack_at_def\<close>)
    ultimately show ?thesis using stack(1) f private_frame [OF R f] by (intro exI [of _ f]) blast
  qed
qed

end
