(* ===== verification/Reset.thy ===== *)
theory Reset
  imports Kernel_Main
begin

unbundle bit_operations_syntax

text \<open>
  The reset code of \<^verbatim>\<open>arch/aarch64/entry.S\<close> (\<^verbatim>\<open>_start\<close> to the call of \<^verbatim>\<open>kernel_main\<close>) and the memory
  layout of \<^verbatim>\<open>arch/aarch64/linker.ld\<close>.
\<close>

section \<open>The linker script\<close>

text \<open>\<open>a\<close> is a power of two.\<close>

definition align_to :: "u64 \<Rightarrow> u64 \<Rightarrow> u64" where
  "align_to a x = (x + (a - 1)) AND NOT (a - 1)"

record image =
  bss_start :: u64
  bss_end :: u64
  stack_top_el2 :: u64
  stack_top_el1 :: u64
  vectors_el2 :: u64
  vectors_el1 :: u64
  tables :: linker

text \<open>The sections after \<^verbatim>\<open>.bss\<close>: two stacks of 64 KB and 256 KB of page tables.\<close>

definition link_image :: "u64 \<Rightarrow> u64 \<Rightarrow> u64 \<Rightarrow> u64 \<Rightarrow> image" where
  "link_image bs be v2 v1 =
     (let top2 = align_to 16 be + 0x10000;
          top1 = align_to 16 top2 + 0x10000;
          pts = align_to 4096 top1
      in \<lparr>bss_start = bs, bss_end = be, stack_top_el2 = top2, stack_top_el1 = top1,
          vectors_el2 = v2, vectors_el1 = v1, tables = \<lparr>pt_start = pts, pt_end = pts + 0x40000\<rparr>\<rparr>)"

text \<open>
  The whole script, from the sizes of its input sections: code from \<^verbatim>\<open>0x40400000\<close> on, read-only data, data
  and \<^verbatim>\<open>.bss\<close> each at the next page. Where the vector tables are in the code is given.
\<close>

definition link_kernel :: "u64 \<Rightarrow> u64 \<Rightarrow> u64 \<Rightarrow> u64 \<Rightarrow> u64 \<Rightarrow> u64 \<Rightarrow> image" where
  "link_kernel text_size rodata data bss v2 v1 =
     (let dot = 0x40400000;
          dot = dot + text_size;
          dot = align_to 4096 dot + rodata;
          dot = align_to 4096 dot + data;
          dot = align_to 4096 dot
      in link_image dot (dot + bss) v2 v1)"

section \<open>The reset code\<close>

text \<open>The system registers only this code writes.\<close>

record boot_regs =
  sctlr_el2 :: u64
  vbar_el2 :: u64
  cptr_el2 :: u64
  vbar_el1 :: u64
  cpacr_el1 :: u64

type_synonym boot_state = "boot_regs \<times> machine"

definition set_sp :: "u64 \<Rightarrow> machine \<Rightarrow> machine" where
  "set_sp v mc = on_sys (\<lambda>k. k\<lparr>cpu_of := (cpu_of k)\<lparr>sp_el1 := v\<rparr>\<rparr>) mc"

text \<open>M, C and I bits off.\<close>

definition mmu_off :: "u64 \<Rightarrow> u64" where
  "mmu_off x = x AND NOT (push_bit 0 1) AND NOT (push_bit 2 1) AND NOT (push_bit 12 1)"

definition el2_entry :: "image \<Rightarrow> boot_state \<Rightarrow> boot_state" where
  "el2_entry im s =
     (let (r, mc) = s;
          r = r\<lparr>sctlr_el2 := mmu_off (sctlr_el2 r)\<rparr>;
          mc = set_sp (stack_top_el2 im) mc;
          r = r\<lparr>vbar_el2 := vectors_el2 im\<rparr>;
          mc = mc\<lparr>hcr_el2 := push_bit 31 1\<rparr>;
          r = r\<lparr>cptr_el2 := 0\<rparr>
      in (r, mc))"

definition el1_entry :: "image \<Rightarrow> boot_state \<Rightarrow> boot_state" where
  "el1_entry im s =
     (let (r, mc) = s;
          mc = on_sys (\<lambda>k. k\<lparr>mmu_of := (mmu_of k)\<lparr>sctlr_el1 := mmu_off (sctlr_el1 (mmu_of k))\<rparr>\<rparr>) mc;
          mc = set_sp (stack_top_el1 im) mc;
          r = r\<lparr>vbar_el1 := vectors_el1 im\<rparr>
      in (r, mc))"

text \<open>The loop; \<^verbatim>\<open>b.gt\<close> after \<^verbatim>\<open>subs x1, x1, #8\<close> is taken when \<^verbatim>\<open>x1\<close> was more than 8 as a signed number.\<close>

partial_function (option) clear_bss :: "u64 \<Rightarrow> u64 \<Rightarrow> mem \<Rightarrow> mem option" where
  "clear_bss x0 x1 m =
     (let m = store64 m x0 0
      in if 8 <s x1 then clear_bss (x0 + 8) (x1 - 8) m else Some m)"

text \<open>
  The static variables of the C files without an initial value lie between \<^verbatim>\<open>__bss_start\<close> and
  \<^verbatim>\<open>__bss_end\<close>. The model keeps them in records and not in the memory, so when the bytes of a section that is
  not empty are cleared the records are cleared with them; the initialised ones have the value the image gives them.
\<close>

definition clear_statics :: "machine \<Rightarrow> machine" where
  "clear_statics mc =
     (let k = sys_of mc;
          k = k\<lparr>pmm_of := pmm_bss, sched_of := sched_bss,
                mmu_of := (mmu_of k)\<lparr>kernel_pgd := 0, next_page_table := 0, current_user_pgd := 0\<rparr>\<rparr>
      in mc\<lparr>sys_of := k, heap_of := heap_bss, irq_handlers := (\<lambda>_. no_handler), system_ticks := 0,
            stats := \<lparr>hvc_count = 0, trap_count = 0, wfi_count = 0, wfe_count = 0, data_abort_count = 0,
                      inst_abort_count = 0\<rparr>\<rparr>)"

definition common_init :: "image \<Rightarrow> boot_state \<Rightarrow> boot_state option" where
  "common_init im s = do {
     let (r, mc) = s;
     let r = r\<lparr>cpacr_el1 := cpacr_el1 r OR push_bit 20 3\<rparr>;
     let x1 = bss_end im - bss_start im;
     mc \<leftarrow> (if x1 = 0 then Some mc
            else do {
              m \<leftarrow> clear_bss (bss_start im) x1 (mem_of (sys_of mc));
              Some (clear_statics (on_sys (\<lambda>k. k\<lparr>mem_of := m\<rparr>) mc))
            });
     Some (r, mc)
   }"

text \<open>
  The result is \<open>None\<close> when the processor ends in the \<^verbatim>\<open>wfe\<close> loop; otherwise the arguments of
  \<^verbatim>\<open>kernel_main\<close> and the state at the call.
\<close>

definition reset_start :: "image \<Rightarrow> u64 \<Rightarrow> boot_state \<Rightarrow> (u64 \<times> u64 \<times> boot_state) option" where
  "reset_start im dtb s = do {
     let el = drop_bit 2 (CurrentEL (snd s));
     s \<leftarrow> (if el = 2 then common_init im (el2_entry im s)
           else if el = 1 then common_init im (el1_entry im s)
           else None);
     Some (dtb, drop_bit 2 (CurrentEL (snd s)), s)
   }"

text \<open>From the first instruction to the idle loop.\<close>

definition power_on ::
    "image \<Rightarrow> device \<Rightarrow> translation \<Rightarrow> (nat \<Rightarrow> u64) \<Rightarrow> (nat \<Rightarrow> u64) \<Rightarrow> symbols \<Rightarrow> u64 \<Rightarrow> boot_state \<Rightarrow> boot_state option" where
  "power_on im dev xlate clock regs syms dtb s = do {
     (x0, x1, r, mc) \<leftarrow> reset_start im dtb s;
     mc \<leftarrow> kernel_main (tables im) dev xlate clock regs syms x0 x1 mc;
     Some (r, mc)
   }"

section \<open>Clearing the static variables\<close>

lemma greater8:
  assumes "unat (x1 :: u64) < 2 ^ 63"
  shows "8 <s x1 \<longleftrightarrow> 8 < unat x1"
proof -
  have "sint x1 = int (unat x1)" using assms
    by (simp add: sint_uint uint_nat signed_take_bit_int_eq_self del: of_nat_unat)
  then show ?thesis by (simp add: word_sless_alt del: of_nat_unat)
qed

lemma store_zero: "store_bytes m a 0 n = memset_loop m a 0 n"
  by (induction n arbitrary: m a) simp_all

lemma memset_loop_add: "memset_loop m p c (a + b) = memset_loop (memset_loop m p c a) (p + of_nat a) c b"
  by (induction a arbitrary: m p) (simp_all add: add.assoc)

lemma clear_bss_words:
  "8 * k < unat x1 \<Longrightarrow> unat x1 \<le> 8 * k + 8 \<Longrightarrow> unat x1 < 2 ^ 63 \<Longrightarrow>
    clear_bss s x1 m = Some (memset_loop m s 0 (8 * k + 8))"
proof (induction k arbitrary: s x1 m)
  case 0
  then have "\<not> 8 <s x1" by (simp add: greater8)
  then show ?case by (subst clear_bss.simps) (simp add: store64_def store_zero)
next
  case (Suc k)
  have g: "8 <s x1" using Suc.prems by (simp add: greater8)
  have "unat (x1 - 8) = unat x1 - 8" using Suc.prems by (subst unat_sub_no_wrap) simp_all
  then have IH: "clear_bss (s + 8) (x1 - 8) (store64 m s 0) = Some (memset_loop (store64 m s 0) (s + 8) 0 (8 * k + 8))"
    using Suc.prems by (intro Suc.IH) simp_all
  have "memset_loop m s 0 (8 + (8 * k + 8)) = memset_loop (memset_loop m s 0 8) (s + 8) 0 (8 * k + 8)"
    using memset_loop_add [of m s 0 8 "8 * k + 8"] by (simp del: memset_loop.simps)
  moreover have "8 + (8 * k + 8) = 8 * Suc k + 8" by simp
  ultimately show ?case using g IH by (subst clear_bss.simps) (simp add: store64_def store_zero del: memset_loop.simps)
qed

lemma clear_bss_memset:
  assumes "0 < unat x1" "unat x1 + 7 < 2 ^ 63"
  shows "clear_bss s x1 m = Some (fst (memset m s 0 (of_nat (8 * ((unat x1 + 7) div 8)))))"
proof -
  obtain k where k: "8 * k < unat x1" "unat x1 \<le> 8 * k + 8"
  proof
    show "8 * ((unat x1 - 1) div 8) < unat x1" "unat x1 \<le> 8 * ((unat x1 - 1) div 8) + 8" using assms(1) by linarith+
  qed
  then have "(unat x1 + 7) div 8 = k + 1" by linarith
  then have r: "8 * ((unat x1 + 7) div 8) = 8 * k + 8" by simp
  have "unat (of_nat (8 * k + 8) :: u64) = 8 * k + 8" using k assms(2) by (intro unat_of_nat_small) simp
  then show ?thesis using clear_bss_words [OF k] assms(2) unfolding r by (simp add: memset_def del: of_nat_add of_nat_mult)
qed

section \<open>The layout\<close>

lemma unat_and_not_mask: "unat ((x :: u64) AND NOT (mask k)) = unat x div 2 ^ k * 2 ^ k"
proof -
  have "x = x AND NOT (mask k) OR take_bit k x"
    by (rule bit_eqI) (auto simp: bit_simps)
  moreover have "x AND NOT (mask k) OR take_bit k x = (x AND NOT (mask k)) + take_bit k x"
    by (intro disjunctive_add [symmetric]) (auto simp: bit_simps)
  ultimately have x: "x AND NOT (mask k) = x - take_bit k x" by (metis add_diff_cancel_right')
  have t: "unat (take_bit k x) = unat x mod 2 ^ k" unfolding unsigned_take_bit_eq by (rule take_bit_eq_mod)
  have "unat (take_bit k x) \<le> unat x" unfolding t by simp
  then show ?thesis unfolding x by (simp add: unat_sub_no_wrap t minus_mod_eq_div_mult)
qed

lemma unat_align_to:
  assumes "unat x + 2 ^ k < 2 ^ 64" "k < 64"
  shows "unat (align_to (2 ^ k) x) = (unat x + (2 ^ k - 1)) div 2 ^ k * 2 ^ k"
proof -
  have m: "2 ^ k - 1 = (mask k :: u64)" by (simp add: mask_eq_exp_minus_1)
  have u: "unat (mask k :: u64) = 2 ^ k - 1"
  proof -
    have "unat (mask k :: u64) = mask k" by (rule bit_eqI) (use assms(2) in \<open>auto simp: bit_simps\<close>)
    then show ?thesis by (simp add: mask_eq_exp_minus_1)
  qed
  have "unat (x + mask k) = unat x + (2 ^ k - 1)" using assms(1) u by (subst unat_add_no_wrap) simp_all
  then show ?thesis unfolding align_to_def m by (simp add: unat_and_not_mask)
qed

lemma align_bounds:
  assumes "unat x + 2 ^ k < 2 ^ 64" "k < 64"
  shows "unat x \<le> unat (align_to (2 ^ k) x)" "unat (align_to (2 ^ k) x) < unat x + 2 ^ k"
    "unat (align_to (2 ^ k) x) mod 2 ^ k = 0" "unat x mod 2 ^ k = 0 \<Longrightarrow> unat (align_to (2 ^ k) x) = unat x"
proof -
  note u = unat_align_to [OF assms]
  let ?n = "unat x" and ?p = "2 ^ k :: nat"
  have p: "0 < ?p" by simp
  have d: "(?n + (?p - 1)) div ?p * ?p = ?n + (?p - 1) - (?n + (?p - 1)) mod ?p" by (simp add: minus_mod_eq_div_mult)
  have "(?n + (?p - 1)) mod ?p \<le> ?p - 1" using mod_less_divisor [OF p, of "?n + (?p - 1)"] by linarith
  then show "unat x \<le> unat (align_to (2 ^ k) x)" unfolding u d by linarith
  show "unat (align_to (2 ^ k) x) < unat x + 2 ^ k" unfolding u d using p by linarith
  show "unat (align_to (2 ^ k) x) mod 2 ^ k = 0" unfolding u by simp
  show "unat (align_to (2 ^ k) x) = unat x" if "unat x mod 2 ^ k = 0"
  proof -
    have "?p dvd ?n" using that by (rule mod_0_imp_dvd)
    then obtain q where q: "?n = ?p * q" by (rule dvdE)
    have "(?p * q + (?p - 1)) div ?p = q" 
    proof (rule div_nat_eqI)
      have "?p * Suc q = ?p * q + ?p" by simp
      then show "?p * q + (?p - 1) < ?p * Suc q" using p by linarith
    qed (rule le_add1)
    then show ?thesis unfolding u q by simp
  qed
qed

text \<open>An image that ends below \<^verbatim>\<open>0x41390000\<close> fits the 16 MB that \<^verbatim>\<open>pmm_init\<close> reserves.\<close>

lemma link_image_places:
  fixes be bs v2 v1 :: u64
  assumes "0x40400000 \<le> unat be" "unat be < 0x41390000"
  defines "im \<equiv> link_image bs be v2 v1"
  shows "unat be + 0x10000 \<le> unat (stack_top_el2 im)" "unat (stack_top_el1 im) = unat (stack_top_el2 im) + 0x10000"
    "unat (stack_top_el1 im) \<le> unat (pt_start (tables im))"
    "unat (pt_end (tables im)) = unat (pt_start (tables im)) + 0x40000"
    "unat (pt_end (tables im)) \<le> 0x41400000" "unat (pt_start (tables im)) mod 4096 = 0"
proof -
  define a where "a = align_to 16 be"
  have a: "unat be \<le> unat a" "unat a < unat be + 16" "unat a mod 16 = 0"
    using align_bounds [of be 4] assms by (simp_all add: a_def)
  have t2: "unat (a + 0x10000) = unat a + 0x10000" using a assms by (subst unat_add_no_wrap) simp_all
  have "unat (a + 0x10000) mod 16 = 0" unfolding t2 using a(3) by (simp add: mod_add_eq [symmetric])
  then have al: "align_to 16 (a + 0x10000) = a + 0x10000"
    using align_bounds(4) [of "a + 0x10000" 4] t2 a assms by (simp add: word_unat_eq_iff)
  have t1: "unat (a + 0x10000 + 0x10000) = unat a + 0x20000" using a assms t2 by (subst unat_add_no_wrap) simp_all
  define p where "p = align_to 4096 (a + 0x10000 + 0x10000)"
  have p: "unat a + 0x20000 \<le> unat p" "unat p < unat a + 0x20000 + 4096" "unat p mod 4096 = 0"
    using align_bounds [of "a + 0x10000 + 0x10000" 12] t1 a assms by (simp_all add: p_def)
  have e: "unat (p + 0x40000) = unat p + 0x40000" using p a assms by (subst unat_add_no_wrap) simp_all
  have im: "stack_top_el2 im = a + 0x10000" "stack_top_el1 im = a + 0x10000 + 0x10000" "pt_start (tables im) = p"
    "pt_end (tables im) = p + 0x40000"
    using al by (simp_all add: im_def link_image_def Let_def a_def p_def)
  show "unat be + 0x10000 \<le> unat (stack_top_el2 im)" "unat (stack_top_el1 im) = unat (stack_top_el2 im) + 0x10000"
    "unat (stack_top_el1 im) \<le> unat (pt_start (tables im))"
    "unat (pt_end (tables im)) = unat (pt_start (tables im)) + 0x40000"
    "unat (pt_end (tables im)) \<le> 0x41400000" "unat (pt_start (tables im)) mod 4096 = 0"
    unfolding im using t2 t1 e p a assms by linarith+
qed

text \<open>Sections of less than \<^verbatim>\<open>0xF8D000\<close> bytes together leave room for the three alignments.\<close>

lemma link_kernel_places:
  assumes sizes: "unat text_size + unat rodata + unat data + unat bss < 0xF8D000"
  obtains bs where "link_kernel text_size rodata data bss v2 v1 = link_image bs (bs + bss) v2 v1"
    "0x40400000 \<le> unat bs" "unat (bs + bss) = unat bs + unat bss" "unat bs + unat bss < 0x41390000" "unat bs mod 4096 = 0"
proof -
  define t where "t = 0x40400000 + text_size"
  have t: "unat t = 0x40400000 + unat text_size" unfolding t_def using sizes by (subst unat_add_no_wrap) simp_all
  define r where "r = align_to 4096 t"
  have r: "unat t \<le> unat r" "unat r < unat t + 4096" using align_bounds(1,2) [of t 12] t sizes by (simp_all add: r_def)
  have r': "unat (r + rodata) = unat r + unat rodata" using r t sizes by (intro unat_add_no_wrap) simp
  define d where "d = align_to 4096 (r + rodata)"
  have d: "unat r + unat rodata \<le> unat d" "unat d < unat r + unat rodata + 4096"
    using align_bounds(1,2) [of "r + rodata" 12] r r' t sizes by (simp_all add: d_def)
  have d': "unat (d + data) = unat d + unat data" using d r t sizes by (intro unat_add_no_wrap) simp
  define b where "b = align_to 4096 (d + data)"
  have b: "unat d + unat data \<le> unat b" "unat b < unat d + unat data + 4096" "unat b mod 4096 = 0"
    using align_bounds(1-3) [of "d + data" 12] d d' r t sizes by (simp_all add: b_def)
  have "unat (b + bss) = unat b + unat bss" using b d r t sizes by (intro unat_add_no_wrap) simp
  moreover have "link_kernel text_size rodata data bss v2 v1 = link_image b (b + bss) v2 v1"
    by (simp add: link_kernel_def Let_def b_def d_def r_def t_def)
  moreover have "0x40400000 \<le> unat b" using b d r t by linarith
  moreover have "unat b + unat bss < 0x41390000" using b d r t sizes by linarith
  ultimately show thesis using b(3) by (intro that)
qed

section \<open>What the reset code leaves\<close>

lemma set_sp_simps [simp]:
  "sys_of (set_sp v mc) = (sys_of mc)\<lparr>cpu_of := (cpu_of (sys_of mc))\<lparr>sp_el1 := v\<rparr>\<rparr>" "CurrentEL (set_sp v mc) = CurrentEL mc"
  by (simp_all add: set_sp_def)

lemma reset_start_spec:
  assumes el: "drop_bit 2 (CurrentEL mc) = el" "el = 1 \<or> el = 2"
    and bss: "unat (bss_start im) < unat (bss_end im)" "unat (bss_end im) < 2 ^ 62"
  obtains r' mc' where "reset_start im dtb (r, mc) = Some (dtb, el, r', mc')"
    "sched_of (sys_of mc') = sched_bss" "next_page_table (mmu_of (sys_of mc')) = 0"
    "current_user_pgd (mmu_of (sys_of mc')) = 0" "heap_of mc' = heap_bss"
    "sp_el1 (cpu_of (sys_of mc')) = (if el = 2 then stack_top_el2 im else stack_top_el1 im)"
proof -
  define s1 where "s1 = (if el = 2 then el2_entry im (r, mc) else el1_entry im (r, mc))"
  have s1: "CurrentEL (snd s1) = CurrentEL mc"
    "sp_el1 (cpu_of (sys_of (snd s1))) = (if el = 2 then stack_top_el2 im else stack_top_el1 im)"
    by (simp_all add: s1_def el2_entry_def el1_entry_def)
  let ?n = "bss_end im - bss_start im"
  have n: "unat ?n = unat (bss_end im) - unat (bss_start im)" using bss(1) by (intro unat_sub_no_wrap) simp
  then have pos: "0 < unat ?n" "?n \<noteq> 0" using bss(1) by auto
  obtain m where m: "clear_bss (bss_start im) ?n (mem_of (sys_of (snd s1))) = Some m"
    using clear_bss_memset [of ?n] n bss(2) pos(1) by simp
  define mc' where "mc' = clear_statics (on_sys (\<lambda>k. k\<lparr>mem_of := m\<rparr>) (snd s1))"
  have c: "common_init im s1 = Some ((fst s1)\<lparr>cpacr_el1 := cpacr_el1 (fst s1) OR push_bit 20 3\<rparr>, mc')"
    unfolding common_init_def Let_def case_prod_beta m using pos(2) by (simp add: mc'_def)
  have "CurrentEL mc' = CurrentEL mc" by (simp add: mc'_def clear_statics_def Let_def on_sys_def s1(1))
  then have "reset_start im dtb (r, mc) =
      Some (dtb, el, (fst s1)\<lparr>cpacr_el1 := cpacr_el1 (fst s1) OR push_bit 20 3\<rparr>, mc')"
    using el c by (auto simp: reset_start_def s1_def)
  then show thesis by (rule that) (simp_all add: mc'_def clear_statics_def Let_def on_sys_def s1(2) sched_bss_def)
qed

text \<open>At any other exception level the processor waits forever.\<close>

lemma reset_start_hangs:
  "drop_bit 2 (CurrentEL (snd s)) \<noteq> 1 \<Longrightarrow> drop_bit 2 (CurrentEL (snd s)) \<noteq> 2 \<Longrightarrow> reset_start im dtb s = None"
  by (simp add: reset_start_def)

section \<open>Property\<close>

text \<open>
  C39: the loop of the reset code that clears the static variables returns, and does what
  \<^verbatim>\<open>memset\<close> does for the size rounded up to a multiple of 8: it zeroes every byte from
  \<^verbatim>\<open>__bss_start\<close> to \<^verbatim>\<open>__bss_end\<close>, up to 7 bytes after it, and nothing else.
\<close>
theorem clear_bss_is_memset:
  assumes "0 < unat x1" "unat x1 + 7 < 2 ^ 63"
  shows "clear_bss x0 x1 m = Some (fst (memset m x0 0 (of_nat (8 * ((unat x1 + 7) div 8)))))"
  by (rule clear_bss_memset [OF assms])

theorem clear_bss_is_memset_witness:
  "\<exists>m. clear_bss 0x40480000 13 (\<lambda>_. 7) = Some m \<and> m 0x4048000F = 0 \<and> m 0x40480010 = 7"
proof -
  have "clear_bss 0x40480000 13 (\<lambda>_. 7) = Some (fst (memset (\<lambda>_. 7) 0x40480000 0 16))"
    using clear_bss_is_memset [of 13 "0x40480000" "\<lambda>_. 7"] by simp
  then show ?thesis by (simp add: memset_fills_range in_range_def)
qed

end
