(* ===== verification/Boot.thy ===== *)
theory Boot
  imports System Reset
begin

text \<open>
  The boot sequence establishes the invariant of the system: from reset, with an image as the
  linker lays it out, \<^verbatim>\<open>kernel_main\<close> gets to its idle loop in a state in which the invariant of
  \<open>System\<close> holds. The properties of the whole system are stated here.
\<close>

section \<open>What the boot sequence needs\<close>

text \<open>The memory outside the page frames \<^verbatim>\<open>pmm_init\<close> hands out: devices, and the 16 MB of the kernel's image.\<close>

definition static_memory :: "u64 set" where
  "static_memory = {x. \<not> (\<exists>f \<in> {..<1024} \<union> {5120..<16384}. in_block f 1 x)}"

text \<open>The linker script puts the table space, a multiple of pages, in the image.\<close>

definition layout_ok :: "linker \<Rightarrow> bool" where
  "layout_ok lk \<longleftrightarrow> lk_ok lk \<and> (\<forall>x. in_space lk x \<longrightarrow> x \<in> static_memory)"

text \<open>Static variables as the reset code leaves them.\<close>

definition bss_clear :: "sys \<Rightarrow> bool" where
  "bss_clear k \<longleftrightarrow> sched_of k = sched_bss \<and> next_page_table (mmu_of k) = 0 \<and> current_user_pgd (mmu_of k) = 0"

text \<open>The 272 bytes below the stack pointer, where the hypervisor calls save the registers, are kernel memory.\<close>

definition boot_stack_ok :: "linker \<Rightarrow> u64 \<Rightarrow> bool" where
  "boot_stack_ok lk sp \<longleftrightarrow> 272 \<le> unat sp \<and>
     (\<forall>x. unat sp - 272 \<le> unat x \<and> unat x < unat sp \<longrightarrow> x \<in> static_memory \<and> \<not> in_space lk x)"

text \<open>The embedded programs are in the image and at most 32 KB long.\<close>

definition programs_ok :: "symbols \<Rightarrow> bool" where
  "programs_ok syms \<longleftrightarrow>
     (\<forall>(a, b) \<in> {(hello_start syms, hello_end syms), (counter_start syms, counter_end syms)}.
        unat (b - a) \<le> 0x8000 \<and> (\<forall>j < unat (b - a). a + of_nat j \<in> static_memory))"

section \<open>Initialisation\<close>

text \<open>What the steps before the memory is initialised keep.\<close>

definition early :: "machine \<Rightarrow> machine \<Rightarrow> bool" where
  "early mc mc' \<longleftrightarrow> sched_of (sys_of mc') = sched_of (sys_of mc) \<and> mmu_of (sys_of mc') = mmu_of (sys_of mc) \<and>
     cpu_of (sys_of mc') = cpu_of (sys_of mc)"

lemma early_trans: "early a b \<Longrightarrow> early b c \<Longrightarrow> early a c"
  by (simp add: early_def)

lemma early_tell: "early a mc \<Longrightarrow> early a (tell items mc)"
  by (simp add: early_def)

lemma early_cong: "early a mc \<Longrightarrow> sys_of mc' = sys_of mc \<Longrightarrow> early a mc'"
  by (simp add: early_def)

lemma early_on_sys:
  "early a mc \<Longrightarrow> (\<And>k. sched_of (f k) = sched_of k \<and> mmu_of (f k) = mmu_of k \<and> cpu_of (f k) = cpu_of k) \<Longrightarrow>
    early a (on_sys f mc)"
  by (simp add: early_def)

lemma early_hcr: "early a mc \<Longrightarrow> early a (mc\<lparr>hcr_el2 := h\<rparr>)"
  by (simp add: early_def)

lemma early_if: "early a mc \<Longrightarrow> early a mc' \<Longrightarrow> early a (if b then mc else mc')"
  by simp

lemma early_refl: "early mc mc"
  by (simp add: early_def)

lemma early_steps:
  "early mc (print_banner mc)" "early mc (print_system_info dtb el mc)"
  "early mc (test_basic_functions buf el mc)" "early mc (hypervisor_init mc)" "early mc (on_pmm f mc)"
  unfolding print_banner_def print_system_info_def test_basic_functions_def hypervisor_init_def
    hypervisor_configure_hcr_def on_pmm_def Let_def
  by (intro early_tell early_if early_on_sys early_refl early_hcr; simp split: prod.split)+

text \<open>What the initialisation of the devices keeps: everything but the console.\<close>

definition devices :: "machine \<Rightarrow> machine \<Rightarrow> bool" where
  "devices mc mc' \<longleftrightarrow> heap_of mc' = heap_of mc \<and> (\<exists>con. sys_of mc' = (sys_of mc)\<lparr>con_of := con\<rparr>)"

lemma devices_trans: "devices a b \<Longrightarrow> devices b c \<Longrightarrow> devices a c"
  by (auto simp: devices_def)

lemma devices_tell: "devices a mc \<Longrightarrow> devices a (tell items mc)"
  by (auto simp: devices_def say_def)

lemma devices_cong:
  assumes "devices a mc" "sys_of mc' = sys_of mc" "heap_of mc' = heap_of mc"
  shows "devices a mc'"
  using assms by (simp add: devices_def)

lemma devices_refl: "devices mc mc"
  by (auto simp: devices_def intro: exI [of _ "con_of (sys_of mc)"])

lemma devices_register: "devices a mc \<Longrightarrow> devices a (snd (irq_register_handler irq h d nm mc))"
  unfolding irq_register_handler_def Let_def
  by (auto intro!: devices_tell intro: devices_cong split: if_splits)

lemma devices_steps:
  "devices mc (on_gic f mc)" "devices mc (irq_init mc)" "devices mc (timer_init isr mc)"
proof -
  show "devices mc (on_gic f mc)"
    by (cases "f (gic_bus mc, con_of (sys_of mc))") (auto simp: devices_def on_gic_def)
  show "devices mc (irq_init mc)" unfolding irq_init_def Let_def
    by (intro devices_tell) (rule devices_cong [OF devices_tell [OF devices_refl]], simp_all)
  have if': "devices mc (if b then tell items mc' else mc')" if "devices mc mc'" for b items mc'
    using that by (simp add: devices_tell)
  have reg: "devices mc ((snd (irq_register_handler irq isr d nm m))\<lparr>cntp_tval_el0 := a, cntp_ctl_el0 := b\<rparr>)"
    if "devices mc m" for irq d nm m a b
    by (rule devices_cong [OF devices_register [OF that]]) simp_all
  show "devices mc (timer_init isr mc)" unfolding timer_init_def Let_def case_prod_beta
    by (intro devices_tell reg if' devices_refl)
qed

lemma static_not_managed:
  "free_set p \<subseteq> {..<1024} \<union> {5120..<16384} \<Longrightarrow> f \<in> free_set p \<Longrightarrow> in_block f 1 x \<Longrightarrow> x \<notin> static_memory"
  by (auto simp: static_memory_def)

lemma heap_after_init:
  assumes "pmm_wf p" "1024 \<le> unat (num_pages p)"
  shows "heap_rel (fst (kmalloc_init (h, con)), p, m, con') no_objects"
  using kmalloc_init_empty(1) [OF assms] .

lemma no_objects_frames: "heap_frames no_objects = {}"
  by (auto simp: heap_frames_def no_objects_def)

text \<open>The invariant from the states of the components right after their initialisation.\<close>

lemma sys_rel_initial:
  assumes lay: "layout_ok lk" and rr: "rr_rel (sched_of (sys_of mc)) (0, True, 10, [])"
    and ok: "stacks_ok (sys_of mc)" "space_ok (sys_of mc)" and vm: "vm_rel lk (vm_of (sys_of mc)) L F"
    and heap: "heap_rel (heap_state mc) no_objects"
    and fr: "free_set (pmm_of (sys_of mc)) \<union> held_set (pmm_of (sys_of mc)) \<subseteq> {..<1024} \<union> {5120..<16384}"
    and tr: "translation_on lk (mmu_of (sys_of mc)) L F"
    and lev: "\<And>i. live (sched_of (sys_of mc)) i \<Longrightarrow> t_level (tk (sched_of (sys_of mc)) i) = TASK_KERNEL"
  shows "sys_rel lk static_memory (mc, {}) (0, True, 10, []) L F no_objects (\<lambda>_. (0, 0))"
proof -
  have nu: "\<not> user_live (sched_of (sys_of mc)) i" for i using lev by (auto simp: user_live_def)
  have "frames_ok static_memory (pmm_of (sys_of mc)) (sched_of (sys_of mc)) no_objects (\<lambda>_. (0, 0))"
    unfolding frames_ok_def no_objects_frames using nu fr by (auto simp: static_memory_def)
  moreover have "spaces_ok lk (sched_of (sys_of mc)) L F (\<lambda>_. (0, 0))" using nu by (simp add: spaces_ok_def)
  moreover have "owned {} no_objects" by (simp add: owned_def)
  ultimately show ?thesis using assms by (simp add: sys_rel_def Let_def layout_ok_def)
qed

lemma bit_clear_mask: "\<not> bit (x AND NOT (push_bit 7 1) :: u64) 7"
  by (simp add: bit_simps)

lemma pmm_init_empty:
  fixes p0 :: pmm and con :: console
  defines "p \<equiv> fst (pmm_init (p0, con))"
  shows "pmm_wf p" "num_pages p = 16384" "free_set p = {..<1024} \<union> {5120..<16384}" "held_set p = {}"
proof -
  have p: "pmm_wf p" "num_pages p = 16384" "free_set p = {..<1024} \<union> {5120..<16384}"
    "\<And>i. 1024 \<le> i \<Longrightarrow> i < 5120 \<Longrightarrow> pg_flags (pages p i) = PAGE_RESERVED"
    using pmm_init_spec [of p0 con] by (simp_all add: p_def Let_def case_prod_beta)
  then show "pmm_wf p" "num_pages p = 16384" "free_set p = {..<1024} \<union> {5120..<16384}" by simp_all
  have False if i: "i \<in> held_set p" for i
  proof -
    have "i < 16384" "pg_flags (pages p i) = PAGE_USED" using i by (simp_all add: held_set_def p(2))
    moreover from this have "1024 \<le> i" "i < 5120"
      using i held_not_free [of p] unfolding p(3) by (auto simp: not_less not_le)
    ultimately show False using p(4) [of i] by (simp add: PAGE_USED_def PAGE_RESERVED_def)
  qed
  then show "held_set p = {}" by blast
qed

lemma kernel_init_boots:
  assumes lay: "layout_ok lk" and cap: "38 \<le> cap lk" and bss: "bss_clear (sys_of mc)" and uart: "Uart.live dev UART_FR_TXFF"
  shows "\<exists>mc' F. kernel_init lk dev syms dtb el mc = Some mc' \<and>
    sys_rel lk static_memory (mc', {}) (0, True, 10, []) id_labels F no_objects (\<lambda>_. (0, 0)) \<and>
    sp_el1 (cpu_of (sys_of mc')) = sp_el1 (cpu_of (sys_of mc)) \<and> \<not> bit (pstate (cpu_of (sys_of mc'))) 7 \<and>
    (\<exists>f. free_set (pmm_of (sys_of mc')) = {..<1024} \<union> {5120..<16384} - {f})"
proof -
  define mc0 where "mc0 = test_basic_functions (stack_buffer syms) el (print_system_info dtb el (print_banner
      (mc\<lparr>uart_bus := uart_init (uart_bus mc)\<rparr>)))"
  define mc1 where "mc1 = (if el = 2 then hypervisor_init mc0 else mc0)"
  have "early mc (mc\<lparr>uart_bus := uart_init (uart_bus mc)\<rparr>)" by (simp add: early_def)
  then have "early mc mc0" unfolding mc0_def by (blast intro: early_trans early_steps)
  then have e1: "early mc mc1" unfolding mc1_def by (auto intro: early_trans early_steps)
  define mc2 where "mc2 = on_pmm pmm_init mc1"
  have e2: "early mc mc2" unfolding mc2_def by (rule early_trans [OF e1 early_steps(5)])
  have p: "pmm_wf (pmm_of (sys_of mc2))" "num_pages (pmm_of (sys_of mc2)) = 16384"
    "free_set (pmm_of (sys_of mc2)) = {..<1024} \<union> {5120..<16384}" "held_set (pmm_of (sys_of mc2)) = {}"
    using pmm_init_empty [of "pmm_of (sys_of mc1)" "con_of (sys_of mc1)"]
    by (simp_all add: mc2_def on_pmm_def Let_def case_prod_beta)
  have lk: "lk_ok lk" using lay by (simp add: layout_ok_def)
  have b2: "sched_of (sys_of mc2) = sched_bss" "next_page_table (mmu_of (sys_of mc2)) = 0"
    "current_user_pgd (mmu_of (sys_of mc2)) = 0" using bss e2 by (simp_all add: bss_clear_def early_def)
  obtain u m con F where v: "mmu_init lk (vm_of (sys_of mc2)) = Some (u, m, con)"
    "vm_rel lk (u, m, con) id_labels F" "current_user_pgd u = 0" "ttbr0_el1 u = 0"
    "translation_on lk u id_labels F"
    using mmu_init_spec [OF lk cap b2(2), of "mem_of (sys_of mc2)" "con_of (sys_of mc2)"] b2(3)
    by (auto simp: vm_of_def translation_on_def tbl_0 id_labels_def bit_or_iff)
  define mc3 where "mc3 = mc2\<lparr>sys_of := set_vm (u, m, con) (sys_of mc2)\<rparr>"
  obtain h con' where h: "kmalloc_init (heap_of mc3, con_of (sys_of mc3)) = (h, con')" by fastforce
  define mc4 where "mc4 = on_sys (\<lambda>k. k\<lparr>con_of := con'\<rparr>) (mc3\<lparr>heap_of := h\<rparr>)"
  have s4: "sys_of mc4 = (sys_of mc2)\<lparr>mmu_of := u, mem_of := m, con_of := con'\<rparr>" "heap_of mc4 = h"
    by (simp_all add: mc4_def mc3_def set_vm_def on_sys_def)
  define mc5 where "mc5 = timer_init (timer_isr syms) (irq_init (on_gic (gic_init dev) mc4))"
  have "devices mc4 mc5" unfolding mc5_def by (blast intro: devices_trans devices_steps)
  then obtain con5 where s5: "sys_of mc5 = (sys_of mc2)\<lparr>mmu_of := u, mem_of := m, con_of := con5\<rparr>" "heap_of mc5 = h"
    using s4 by (auto simp: devices_def)
  have free5: "free_set (pmm_of (sys_of mc5)) \<noteq> {}" unfolding s5 by (simp add: p(3))
  have pre5: "sched_of (sys_of mc5) = sched_bss" "pmm_wf (pmm_of (sys_of mc5))" "ttbr0_el1 (mmu_of (sys_of mc5)) = 0"
    "current_user_pgd (mmu_of (sys_of mc5)) = 0" using b2 p v by (simp_all add: s5)
  obtain k f where k: "sched_init (idle_task_func syms) (sys_of mc5) = Some k" "rr_rel (sched_of k) (0, True, 10, [])"
    "stacks_ok k" "space_ok k" "f \<in> free_set (pmm_of (sys_of mc5))" "free_set (pmm_of k) = free_set (pmm_of (sys_of mc5)) - {f}"
    "held_set (pmm_of k) = insert f (held_set (pmm_of (sys_of mc5)))" "num_pages (pmm_of k) = num_pages (pmm_of (sys_of mc5))"
    "\<forall>i. live (sched_of k) i \<longrightarrow> t_level (tk (sched_of k) i) = TASK_KERNEL"
    "cpu_of k = cpu_of (sys_of mc5)" "mmu_of k = mmu_of (sys_of mc5)" "mem_of k = mem_of (sys_of mc5)"
    using sched_init_spec [OF pre5(1,2) free5 pre5(3,4), of "idle_task_func syms"] by blast
  define mc6 where "mc6 = tell [S ''IRQs enabled!'', NL, NL] (on_sys unmask_irqs
    (tell [S ''Enabling IRQs at CPU level...'', NL] (mc5\<lparr>sys_of := k\<rparr>)))"
  obtain b where b: "transmit dev (drop (length (con_of (sys_of mc))) (con_of (sys_of mc6))) (uart_bus mc6) = Some b"
    using transmit_live [OF uart] by blast
  define mc' where "mc' = mc6\<lparr>uart_bus := b\<rparr>"
  have "kernel_init lk dev syms dtb el mc = flush_uart dev (con_of (sys_of mc)) mc6"
    unfolding kernel_init_def Let_def mc0_def [symmetric] mc1_def [symmetric] mc2_def [symmetric]
    using v(1) h k(1) by (simp add: on_sys_opt_def mc3_def [symmetric] mc4_def [symmetric] mc5_def [symmetric] mc6_def)
  then have run: "kernel_init lk dev syms dtb el mc = Some mc'" using b by (simp add: flush_uart_def mc'_def)
  have s': "sched_of (sys_of mc') = sched_of k" "pmm_of (sys_of mc') = pmm_of k" "mmu_of (sys_of mc') = u"
    "mem_of (sys_of mc') = m" "heap_of mc' = h"
    "cpu_of (sys_of mc') = (cpu_of (sys_of mc))\<lparr>pstate := pstate (cpu_of (sys_of mc)) AND NOT (push_bit 7 1)\<rparr>"
    using k(10-12) e2 by (simp_all add: mc'_def mc6_def unmask_irqs_def s5 early_def)
  have st: "stacks_ok (sys_of mc')" "space_ok (sys_of mc')"
    using k(3,4) by (simp_all add: mc'_def mc6_def unmask_irqs_def stacks_ok_def space_ok_def)
  have vm: "vm_rel lk (vm_of (sys_of mc')) id_labels F"
    using v(2) vm_rel_cong [of u u] unfolding vm_of_def s' by blast
  have "pmm_wf (pmm_of k)" using stacks_okD [OF k(3)] .
  then have heap: "heap_rel (heap_state mc') no_objects"
    using heap_after_init [of "pmm_of k" "heap_of mc3" "con_of (sys_of mc3)" m] k(8) h
    by (simp add: heap_state_def s' s5 p(2))
  have fr: "free_set (pmm_of (sys_of mc')) \<union> held_set (pmm_of (sys_of mc')) \<subseteq> {..<1024} \<union> {5120..<16384}"
    using k(5-7) by (auto simp: s' s5 p(3,4))
  have "sys_rel lk static_memory (mc', {}) (0, True, 10, []) id_labels F no_objects (\<lambda>_. (0, 0))"
    by (rule sys_rel_initial [OF lay _ st vm heap fr]) (use k(2,9) v(5) in \<open>simp_all add: s'\<close>)
  moreover have "free_set (pmm_of (sys_of mc')) = {..<1024} \<union> {5120..<16384} - {f}" using k(6) by (simp add: s' s5 p(3))
  moreover have "\<not> bit (pstate (cpu_of (sys_of mc'))) 7" unfolding s'(6) using bit_clear_mask by simp
  ultimately show ?thesis using run s'(6) by (intro exI [of _ mc'] exI [of _ F] conjI exI [of _ f]) simp_all
qed

section \<open>After the initialisation\<close>

text \<open>
  The invariant holds, \<open>n\<close> page tables are left, and the boot code runs on the stack that ends
  at \<open>sp\<close>.
\<close>

definition booted :: "linker \<Rightarrow> nat \<Rightarrow> u64 \<Rightarrow> machine \<Rightarrow> bool" where
  "booted lk n sp mc \<longleftrightarrow> sys_inv lk static_memory (mc, {}) \<and> sp_el1 (cpu_of (sys_of mc)) = sp \<and>
     (\<exists>u. next_ok lk (mmu_of (sys_of mc)) u \<and> u + n \<le> cap lk)"

lemma vm_rel_next_ok: "vm_rel lk (vm_of k) L F \<Longrightarrow> next_ok lk (mmu_of k) (card L)"
  by (auto simp: vm_rel_def tree_def vm_of_def links_def card_image)

lemma tbl_index_nonzero:
  assumes lk: "lk_ok lk" "k \<le> cap lk"
  shows "tbl lk k \<noteq> 0"
proof
  assume "tbl lk k = 0"
  then have "unat (pt_start lk) + 4096 * k = 0" using unat_tbl [OF lk] by (simp only: unat_0)
  then have "pt_start lk = 0" by (simp add: unat_eq_zero)
  then show False using lk(1) by (simp add: lk_ok_def)
qed

lemma next_ok_unique:
  assumes "next_ok lk u m" "next_ok lk u n"
  shows "m = n"
proof -
  have lk: "lk_ok lk" "m \<le> cap lk" "n \<le> cap lk" using assms unfolding next_ok_def by blast+
  have a: "next_page_table u = tbl lk m \<or> m = 0 \<and> next_page_table u = 0"
    "next_page_table u = tbl lk n \<or> n = 0 \<and> next_page_table u = 0" using assms unfolding next_ok_def by blast+
  show ?thesis using a tbl_index_nonzero [OF lk(1,2)] tbl_index_nonzero [OF lk(1,3)] tbl_inj [OF lk] by metis
qed

lemma booted_same:
  assumes "booted lk n sp mc" "sys_inv lk static_memory (mc', {})" "mmu_of (sys_of mc') = mmu_of (sys_of mc)"
    "sp_el1 (cpu_of (sys_of mc')) = sp"
  shows "booted lk n sp mc'"
  using assms by (auto simp: booted_def)

text \<open>Only the console, the processor, or static memory outside the tables changes.\<close>

lemma booted_run:
  assumes B: "booted lk n sp mc"
    and "sys_of mc' = (sys_of mc)\<lparr>cpu_of := c, mem_of := m, con_of := con\<rparr>" "heap_of mc' = heap_of mc" "sp_el1 c = sp"
    and "\<And>x. x \<notin> static_memory \<or> in_space lk x \<Longrightarrow> m x = mem_of (sys_of mc) x"
  shows "booted lk n sp mc'"
proof (rule booted_same [OF B])
  show "sys_inv lk static_memory (mc', {})"
    by (rule run_inv [OF _ _ assms(2,3)]) (use B assms(5) in \<open>auto simp: booted_def may_write_def\<close>)
qed (simp_all add: assms)

lemma booted_tell: "booted lk n sp mc \<Longrightarrow> booted lk n sp (tell items mc)"
  by (rule booted_run [where c = "cpu_of (sys_of mc)" and m = "mem_of (sys_of mc)" and con = "con_of (sys_of (tell items mc))"])
    (simp_all add: say_def booted_def)

lemma booted_print: "booted lk n sp mc \<Longrightarrow> booted lk n sp (on_sys (\<lambda>k. k\<lparr>con_of := g k\<rparr>) mc)"
  by (rule booted_run [where c = "cpu_of (sys_of mc)" and m = "mem_of (sys_of mc)" and con = "g (sys_of mc)"])
    (simp_all add: booted_def)

lemma alloc_returns:
  assumes "sys_inv lk K (mc, E)" "unat sz + 16 \<le> 2 ^ 63"
  obtains ptr st where "kmalloc sz (heap_state mc) = Some (ptr, st)"
proof -
  obtain c ts q L F A B where R: "sys_rel lk K (mc, E) (c, True, ts, q) L F A B" by (rule sys_invE [OF assms(1)])
  show thesis using kmalloc_spec [OF sys_relD(6) [OF R] assms(2)] that unfolding heap_state_def by blast
qed

lemma release_returns:
  assumes "sys_inv lk K (mc, E)" "(ptr, n) \<in> E"
  obtains st where "kfree ptr (heap_state mc) = Some st"
proof -
  obtain c ts q L F A B where R: "sys_rel lk K (mc, E) (c, True, ts, q) L F A B" by (rule sys_invE [OF assms(1)])
  obtain k where "(ptr, k) \<in> live_extents A" using sys_relD(7) [OF R] assms(2) by (auto simp: owned_def)
  from kfree_spec [OF sys_relD(6) [OF R] this] show thesis using that unfolding heap_state_def by blast
qed

lemma set_heap_state_keeps:
  "mmu_of (sys_of (set_heap_state st mc)) = mmu_of (sys_of mc)" "cpu_of (sys_of (set_heap_state st mc)) = cpu_of (sys_of mc)"
  by (cases st, simp add: set_heap_state_sys)+

lemma booted_heap_test:
  assumes B: "booted lk n sp mc"
  shows "\<exists>mc'. heap_test mc = Some mc' \<and> booted lk n sp mc'"
proof -
  define mc1 where "mc1 = tell [S ''Testing memory allocator:'', NL] mc"
  have B1: "booted lk n sp mc1" unfolding mc1_def by (rule booted_tell [OF B])
  then have I1: "sys_inv lk static_memory (mc1, {})" "sp_el1 (cpu_of (sys_of mc1)) = sp" by (simp_all add: booted_def)
  have sz: "unat (64 :: u64) + 16 \<le> 2 ^ 63" "unat (64 :: u64) + 16 < 2 ^ 64" by simp_all
  obtain ptr st where a: "kmalloc 64 (heap_state mc1) = Some (ptr, st)" using alloc_returns [OF I1(1) sz(1)] by blast
  define mc2 where "mc2 = set_heap_state st mc1"
  note I2 = alloc_inv [OF I1(1) sz(2) a, folded mc2_def]
  have k2: "mmu_of (sys_of mc2) = mmu_of (sys_of mc1)" "cpu_of (sys_of mc2) = cpu_of (sys_of mc1)"
    by (simp_all add: mc2_def set_heap_state_keeps)
  show ?thesis
  proof (cases "ptr = 0")
    case True
    have "booted lk n sp mc2" by (rule booted_same [OF B1]) (use I2 True k2 I1(2) in simp_all)
    then show ?thesis using a True by (simp add: heap_test_def mc1_def [symmetric] mc2_def)
  next
    case False
    define mc3 where "mc3 = tell [S ''  kmalloc(64): '', X ptr, S '' - OK'', NL] mc2"
    have I3: "sys_inv lk static_memory (mc3, {(ptr, 64)})"
      by (rule run_inv [where mc = mc2 and c = "cpu_of (sys_of mc2)" and m = "mem_of (sys_of mc2)" and con = "con_of (sys_of mc3)"])
        (use I2 False in \<open>simp_all add: mc3_def say_def\<close>)
    obtain st' where f: "kfree ptr (heap_state mc3) = Some st'" using release_returns [OF I3, of ptr 64] by blast
    define mc4 where "mc4 = set_heap_state st' mc3"
    have "sys_inv lk static_memory (mc4, {(ptr, 64)} - {(ptr, 64)})"
      unfolding mc4_def by (rule release_inv [OF I3 _ f]) simp
    then have I4: "sys_inv lk static_memory (mc4, {})" by simp
    have "booted lk n sp mc4"
      by (rule booted_same [OF B1 I4]) (use k2 I1(2) in \<open>simp_all add: mc4_def set_heap_state_keeps mc3_def\<close>)
    then have "booted lk n sp (tell [S ''  kfree(): OK'', NL] mc4)" by (rule booted_tell)
    moreover have "heap_test mc = Some (tell [S ''  kfree(): OK'', NL] mc4)"
      using a f False by (simp add: heap_test_def mc1_def [symmetric] mc2_def [symmetric] mc3_def [symmetric] mc4_def Let_def)
    ultimately show ?thesis by blast
  qed
qed

section \<open>The hypervisor calls\<close>

lemma hvc_call_effect:
  assumes sp: "sp_el1 (cpu_of (sys_of mc)) = sp" "272 \<le> unat sp"
  obtains r mc' c m con where "hvc_call xlate clock regs func arg mc = Some (r, mc')" "heap_of mc' = heap_of mc"
    "sys_of mc' = (sys_of mc)\<lparr>cpu_of := c, mem_of := m, con_of := con\<rparr>" "sp_el1 c = sp"
    "same_outside (mem_of (sys_of mc)) m (unat sp - 272) 272"
proof -
  define x where "x = (case arg of None \<Rightarrow> (xreg (cpu_of (sys_of mc)))(0 := func)
    | Some a \<Rightarrow> (xreg (cpu_of (sys_of mc)))(0 := func, 1 := a))"
  define mc1 where "mc1 = clobber x mc"
  define e where "e = \<lparr>elr_el2 = pc (cpu_of (sys_of mc1)), spsr_el2 = pstate (cpu_of (sys_of mc1)), esr_el2 = 0x5A000000, far_el2 = 0\<rparr>"
  have mc1: "sys_of mc1 = (sys_of mc)\<lparr>cpu_of := (cpu_of (sys_of mc))\<lparr>xreg := x\<rparr>\<rparr>" "heap_of mc1 = heap_of mc"
    by (simp_all add: mc1_def clobber_def)
  have sp1: "sp_el1 (cpu_of (sys_of mc1)) = sp" "272 \<le> unat (sp_el1 (cpu_of (sys_of mc1)))" using sp by (simp_all add: mc1)
  have ec: "ec_of (esr_el2 e) = 0x16" by (simp add: e_def ec_of_def)
  obtain mc' c m con where h: "sync_exception_el2 xlate clock regs e mc1 = Some (Returned mc')"
    "heap_of mc' = heap_of mc1" "sys_of mc' = (sys_of mc1)\<lparr>cpu_of := c, mem_of := m, con_of := con\<rparr>"
    "sp_el1 c = sp" "same_outside (mem_of (sys_of mc1)) m (unat sp - 272) 272"
    using hvc_taken [OF sp1(2) ec, of xlate clock regs] unfolding sp1(1) by metis
  have "hvc_call xlate clock regs func arg mc = Some (xreg (cpu_of (sys_of mc')) 0, mc')"
    unfolding hvc_call_def Let_def
    using h(1) by (simp add: x_def [symmetric] mc1_def [symmetric] e_def [symmetric] returned_def)
  then show thesis by (rule that) (use h in \<open>simp_all add: mc1\<close>)
qed

lemma booted_hvc:
  assumes B: "booted lk n sp mc" and st: "boot_stack_ok lk sp"
  shows "\<exists>r mc'. hvc_call xlate clock regs func arg mc = Some (r, mc') \<and> booted lk n sp mc'"
proof -
  have sp: "sp_el1 (cpu_of (sys_of mc)) = sp" "272 \<le> unat sp" using assms by (simp_all add: booted_def boot_stack_ok_def)
  obtain r mc' c m con where h: "hvc_call xlate clock regs func arg mc = Some (r, mc')" "heap_of mc' = heap_of mc"
    "sys_of mc' = (sys_of mc)\<lparr>cpu_of := c, mem_of := m, con_of := con\<rparr>" "sp_el1 c = sp"
    "same_outside (mem_of (sys_of mc)) m (unat sp - 272) 272" by (rule hvc_call_effect [OF sp])
  have "m x = mem_of (sys_of mc) x" if "x \<notin> static_memory \<or> in_space lk x" for x
    using that st h(5) unfolding boot_stack_ok_def same_outside_def by (metis add_diff_inverse_nat diff_add not_le sp(2))
  then have "booted lk n sp mc'" by (rule booted_run [OF B h(3,2,4)])
  then show ?thesis using h(1) by blast
qed

lemma bind_hvc:
  assumes "booted lk n sp mc" "boot_stack_ok lk sp"
    and "\<And>r mc'. booted lk n sp mc' \<Longrightarrow> \<exists>mc2. g r mc' = Some mc2 \<and> booted lk n sp mc2"
  shows "\<exists>mc2. Option.bind (hvc_call xlate clock regs func arg mc) (\<lambda>(r, mc). g r mc) = Some mc2 \<and> booted lk n sp mc2"
  using booted_hvc [OF assms(1,2), of xlate clock regs func arg] assms(3) by fastforce

lemma booted_dump: "booted lk n sp mc \<Longrightarrow> booted lk n sp (hypervisor_dump_state mc)"
  unfolding hypervisor_dump_state_def Let_def by (rule booted_tell)

lemma booted_end: "booted lk n sp mc \<Longrightarrow> \<exists>mc'. Some mc = Some mc' \<and> booted lk n sp mc'"
  by simp

lemma booted_hvc_tests:
  assumes "booted lk n sp mc" "boot_stack_ok lk sp"
  shows "\<exists>mc'. hvc_tests xlate clock regs mc = Some mc' \<and> booted lk n sp mc'"
  unfolding hvc_tests_def Let_def
  by (intro bind_hvc booted_end booted_tell booted_dump assms | assumption)+

section \<open>Creating the tasks\<close>

text \<open>The invariant for the state \<open>k\<close> of the system in machine \<open>mc\<close>, with \<open>n\<close> page tables left.\<close>

definition ready :: "linker \<Rightarrow> machine \<Rightarrow> nat \<Rightarrow> sys \<Rightarrow> bool" where
  "ready lk mc n k \<longleftrightarrow> sys_inv lk static_memory (mc\<lparr>sys_of := k\<rparr>, {}) \<and> (\<exists>u. next_ok lk (mmu_of k) u \<and> u + n \<le> cap lk)"

lemma booted_ready: "booted lk n sp mc \<Longrightarrow> ready lk mc n (sys_of mc)"
  by (simp add: booted_def ready_def)

lemma ready_say: "ready lk mc n k \<Longrightarrow> ready lk mc n (say items k)"
  unfolding ready_def
  by (auto intro!: run_inv [where mc = "mc\<lparr>sys_of := k\<rparr>" and c = "cpu_of k" and m = "mem_of k" and con = "con_of (say items k)"]
      simp: say_def)

lemma ready_rel:
  assumes "ready lk mc n k"
  obtains c ts q L F A B where "sys_rel lk static_memory (mc\<lparr>sys_of := k\<rparr>, {}) (c, True, ts, q) L F A B"
    "next_ok lk (mmu_of k) (card L)" "card L + n \<le> cap lk"
proof -
  obtain c ts q L F A B where R: "sys_rel lk static_memory (mc\<lparr>sys_of := k\<rparr>, {}) (c, True, ts, q) L F A B"
    using assms unfolding ready_def by (blast elim: sys_invE)
  have n: "next_ok lk (mmu_of k) (card L)" using vm_rel_next_ok sys_relD(5) [OF R] by simp
  then have "card L + n \<le> cap lk" using assms next_ok_unique unfolding ready_def by blast
  then show thesis using that R n by blast
qed

lemma create_returns:
  assumes rr: "rr_rel (sched_of k) (c, True, ts, q)" "stacks_ok k"
  obtains tid k' where "task_create name func arg priority k = Some (tid, k')" "mmu_of k' = mmu_of k"
proof (cases "find_slot (sched_of k) 0 MAX_TASKS")
  case None
  show thesis by (rule that [OF task_create_full [OF None]]) simp
next
  case (Some i)
  show thesis
  proof (cases "free_set (pmm_of k) = {}")
    case True
    show thesis by (rule that [OF task_create_no_memory [OF stacks_okD [OF rr(2)] True Some]]) simp
  next
    case False
    show thesis using task_create_spec [OF rr Some False, of name func arg priority] that by (elim exE conjE)
  qed
qed

lemma ready_create:
  assumes r: "ready lk mc n k"
  shows "\<exists>tid k'. task_create name func arg priority k = Some (tid, k') \<and> ready lk mc n k'"
proof -
  obtain c ts q L F A B where R: "sys_rel lk static_memory (mc\<lparr>sys_of := k\<rparr>, {}) (c, True, ts, q) L F A B"
    by (rule ready_rel [OF r])
  have rr: "rr_rel (sched_of k) (c, True, ts, q)" "stacks_ok k" using sys_relD(2,3) [OF R] by simp_all
  obtain tid k' where k': "task_create name func arg priority k = Some (tid, k')" "mmu_of k' = mmu_of k"
    by (rule create_returns [OF rr])
  have I: "sys_inv lk static_memory (mc\<lparr>sys_of := k\<rparr>, {})" using r by (simp add: ready_def)
  have "task_create name func arg priority (sys_of (mc\<lparr>sys_of := k\<rparr>)) = Some (tid, k')" using k'(1) by simp
  from create_inv [OF I this] have "sys_inv lk static_memory (mc\<lparr>sys_of := k'\<rparr>, {})" by simp
  then have "ready lk mc n k'" using r k'(2) by (simp add: ready_def)
  then show ?thesis using k'(1) by blast
qed

lemma ready_create_user:
  assumes r: "ready lk mc (n + 6) k" and sz: "unat sz \<le> 0x8000" and src: "\<forall>j < unat sz. src + of_nat j \<in> static_memory"
  shows "\<exists>tid k'. task_create_user lk name src sz priority k = Some (tid, k') \<and> ready lk mc n k'"
proof -
  obtain c ts q L F A B where R: "sys_rel lk static_memory (mc\<lparr>sys_of := k\<rparr>, {}) (c, True, ts, q) L F A B"
    "next_ok lk (mmu_of k) (card L)" "card L + (n + 6) \<le> cap lk"
    by (rule ready_rel [OF r])
  note D = sys_relD [OF R(1), simplified]
  have np: "8 \<le> unat (num_pages (pmm_of k))" using heap_relD(2) [OF D(6)] by simp
  have ap: "frames_apart lk (pmm_of k)" "image_apart (pmm_of k) src sz"
    using managed_not_static [OF R(1)] D(1) src by (auto simp: frames_apart_def image_apart_def)
  have goal: "\<exists>tid k' u. task_create_user lk name src sz priority k = Some (tid, k') \<and> next_ok lk (mmu_of k') u \<and>
      u \<le> card L + 6"
    if "task_create_user lk name src sz priority k = Some (tid, k')" "next_ok lk (mmu_of k') u" "u \<le> card L + 6" for tid k' u
    using that by blast
  have t: "u + n \<le> cap lk" if "u \<le> card L + 6" for u using that R(3) by simp
  have "\<exists>tid k' u. task_create_user lk name src sz priority k = Some (tid, k') \<and> next_ok lk (mmu_of k') u \<and> u \<le> card L + 6"
  proof (cases "find_slot (sched_of k) 0 MAX_TASKS")
    case None
    then have "task_create_user lk name src sz priority k = Some (0, say [S ''ERROR: No free task slots'', NL] k)"
      by (simp add: task_create_user_def)
    moreover have "next_ok lk (mmu_of (say [S ''ERROR: No free task slots'', NL] k)) (card L)" using R(2) by simp
    ultimately show ?thesis by (rule goal) simp
  next
    case (Some i)
    from task_create_user_spec [OF D(2,3,4,5) np sz ap Some, of name priority] show ?thesis
    proof cases
      case (1 k')
      then have "next_ok lk (mmu_of k') (card L)" using R(2) by (simp add: create_failed_def next_ok_def)
      with 1(1) show ?thesis by (rule goal) simp
    next
      case 2
      then show ?thesis using R(3) by simp
    next
      case (3 k' fk fu fp ord)
      have "vm_rel lk (vm_of k') (L \<union> user_labels (card L)) (F(card L := user_ptes (page_to_phys fp) (2 ^ ord) (page_to_phys fu)))"
        using 3(4) unfolding user_created_def by blast
      note u = vm_rel_next_ok [OF this]
      have "card (L \<union> user_labels (card L)) \<le> card L + 6"
        using card_Un_le [of L "user_labels (card L)"] by (simp add: card_user_labels)
      with 3(3) u show ?thesis by (rule goal)
    qed
  qed
  then obtain tid k' where k': "task_create_user lk name src sz priority k = Some (tid, k')"
    "\<exists>u. next_ok lk (mmu_of k') u \<and> u + n \<le> cap lk" using t by blast
  have I: "sys_inv lk static_memory (mc\<lparr>sys_of := k\<rparr>, {})" using r by (simp add: ready_def)
  have "task_create_user lk name src sz priority (sys_of (mc\<lparr>sys_of := k\<rparr>)) = Some (tid, k')" using k'(1) by simp
  from create_user_inv [OF I sz src this] have "sys_inv lk static_memory (mc\<lparr>sys_of := k'\<rparr>, {})" by simp
  then have "ready lk mc n k'" using k'(2) by (simp add: ready_def)
  then show ?thesis using k'(1) by blast
qed

lemma bind_ready:
  assumes "\<exists>tid k'. f = Some (tid, k') \<and> ready lk mc n k'"
    and "\<And>tid k'. ready lk mc n k' \<Longrightarrow> \<exists>k2. g tid k' = Some k2 \<and> ready lk mc n' k2"
  shows "\<exists>k2. Option.bind f (\<lambda>(tid, k). g tid k) = Some k2 \<and> ready lk mc n' k2"
  using assms by fastforce

lemma ready_end: "ready lk mc n k \<Longrightarrow> \<exists>k'. Some k = Some k' \<and> ready lk mc n k'"
  by simp

lemma kernel_tasks_ready:
  assumes "ready lk mc n k"
  shows "\<exists>k'. create_kernel_tasks syms k = Some k' \<and> ready lk mc n k'"
  unfolding create_kernel_tasks_def Let_def
  by (intro bind_ready ready_create ready_end ready_say | assumption)+ (rule assms)

lemma user_tasks_ready:
  assumes r: "ready lk mc 12 k" and p: "programs_ok syms"
  shows "\<exists>k'. create_user_tasks lk syms k = Some k' \<and> ready lk mc 0 k'"
proof -
  have r': "ready lk mc (6 + 6) k" using r by simp
  have z: "ready lk mc (0 + 6) k'" if "ready lk mc 6 k'" for k' using that by simp
  show ?thesis
    unfolding create_user_tasks_def Let_def
    by (intro bind_ready ready_end ready_say; (rule ready_create_user [where n = 6] ready_create_user [where n = 0])?)
      (use r' z p in \<open>auto simp: programs_ok_def intro: ready_say\<close>)
qed

lemma kernel_main_ready:
  assumes lay: "layout_ok lk" and cap: "50 \<le> cap lk" and bss: "bss_clear (sys_of mc)" and prog: "programs_ok syms"
    and stack: "el \<noteq> 2 \<or> boot_stack_ok lk (sp_el1 (cpu_of (sys_of mc)))" and uart: "Uart.live dev UART_FR_TXFF"
  shows "\<exists>mc'. kernel_main lk dev xlate clock regs syms dtb el mc = Some mc' \<and> sys_inv lk static_memory (mc', {})"
proof -
  let ?sp = "sp_el1 (cpu_of (sys_of mc))"
  have c38: "38 \<le> cap lk" using cap by simp
  obtain mc1 F where 1: "kernel_init lk dev syms dtb el mc = Some mc1"
    "sys_rel lk static_memory (mc1, {}) (0, True, 10, []) id_labels F no_objects (\<lambda>_. (0, 0))"
    "sp_el1 (cpu_of (sys_of mc1)) = ?sp"
    using kernel_init_boots [OF lay c38 bss uart, of syms dtb el] by blast
  have "next_ok lk (mmu_of (sys_of mc1)) 38" using vm_rel_next_ok [OF sys_relD(5) [OF 1(2)]] by (simp add: card_id_labels)
  then have "\<exists>u. next_ok lk (mmu_of (sys_of mc1)) u \<and> u + 12 \<le> cap lk" using cap by (intro exI [of _ 38]) simp
  then have b1: "booted lk 12 ?sp mc1" unfolding booted_def using sys_invI [OF 1(2)] 1(3) by blast
  obtain mc2 where 2: "heap_test mc1 = Some mc2" "booted lk 12 ?sp mc2" using booted_heap_test [OF b1] by blast
  define mc3 where "mc3 = tell [NL, S ''========================================'', NL,
      S ''Kernel initialization complete!'', NL, S ''========================================'', NL, NL]
    (on_sys (\<lambda>k. k\<lparr>con_of := kmalloc_dump_stats (heap_of (on_sys (\<lambda>k. k\<lparr>con_of := pmm_dump_stats (pmm_of k) (con_of k)\<rparr>) mc2)) (con_of k)\<rparr>)
      (on_sys (\<lambda>k. k\<lparr>con_of := pmm_dump_stats (pmm_of k) (con_of k)\<rparr>) mc2))"
  have b3: "booted lk 12 ?sp mc3" unfolding mc3_def by (intro booted_tell booted_print 2(2))
  obtain mc4 where 4: "(if el = 2 then hvc_tests xlate clock regs mc3 else Some mc3) = Some mc4" "booted lk 12 ?sp mc4"
    using booted_hvc_tests [OF b3, of xlate clock regs] stack b3 by (cases "el = 2") auto
  obtain k5 where 5: "create_kernel_tasks syms (sys_of mc4) = Some k5" "ready lk mc4 12 k5"
    using kernel_tasks_ready [OF booted_ready [OF 4(2)]] by blast
  obtain k6 where 6: "create_user_tasks lk syms k5 = Some k6" "ready lk mc4 0 k6"
    using user_tasks_ready [OF 5(2) prog] by blast
  define mc7 where "mc7 = tell [NL, S ''========================================'', NL, S ''Starting Preemptive Multitasking!'', NL,
      S ''========================================'', NL, NL] (on_sys sched_dump_tasks (mc4\<lparr>sys_of := k6\<rparr>))"
  obtain b where b: "transmit dev (drop (length (con_of (sys_of mc1))) (con_of (sys_of mc7))) (uart_bus mc7) = Some b"
    using transmit_live [OF uart] by blast
  have "kernel_main lk dev xlate clock regs syms dtb el mc = flush_uart dev (con_of (sys_of mc1)) mc7"
    unfolding kernel_main_def Let_def 1(1) 2(1) Option.bind.simps(2) mc3_def [symmetric] 4(1) on_sys_opt_def 5(1)
    by (simp add: 6(1) mc7_def)
  then have "kernel_main lk dev xlate clock regs syms dtb el mc = Some (mc7\<lparr>uart_bus := b\<rparr>)"
    using b by (simp add: flush_uart_def)
  moreover have "sys_inv lk static_memory (mc7, {})"
  proof -
    have "ready lk mc4 0 (say items k6)" for items by (rule ready_say [OF 6(2)])
    then have "ready lk mc4 0 (say [NL, S ''========================================'', NL, S ''Starting Preemptive Multitasking!'',
        NL, S ''========================================'', NL, NL] (sched_dump_tasks k6))"
      unfolding sched_dump_tasks_def Let_def by (intro ready_say 6(2))
    then show ?thesis by (simp add: ready_def mc7_def tell_def on_sys_def)
  qed
  then have "sys_inv lk static_memory (mc7\<lparr>uart_bus := b\<rparr>, {})"
    by (simp add: sys_inv_def sys_rel_def heap_state_def Let_def)
  ultimately show ?thesis by blast
qed

section \<open>The memory layout\<close>

lemma static_range:
  assumes "0x40400000 \<le> unat x" "unat x < 0x41400000"
  shows "x \<in> static_memory"
proof -
  have "\<not> in_block f 1 x" if f: "f < 1024 \<or> 5120 \<le> f \<and> f < 16384" for f
  proof -
    have "f < PAGES_LEN" using f by (auto simp: PAGES_LEN_def)
    then have "unat (page_to_phys f) = 0x40000000 + f * 4096" by (rule unat_page_to_phys)
    then show ?thesis using f assms by (auto simp: in_block_def)
  qed
  then show ?thesis by (auto simp: static_memory_def)
qed

lemma static_image:
  assumes "0x40400000 \<le> unat a" "unat a + n \<le> 0x41400000" "j < n"
  shows "a + of_nat j \<in> static_memory"
proof (rule static_range)
  have "unat (a + of_nat j) = unat a + j" using assms by (intro unat_offset [of _ n]) simp_all
  then show "0x40400000 \<le> unat (a + of_nat j)" "unat (a + of_nat j) < 0x41400000" using assms by simp_all
qed

text \<open>An image linked by the script, with static variables to clear, that ends below \<^verbatim>\<open>0x41390000\<close>, and so with everything in the reserved 16 MB.\<close>

definition linked :: "image \<Rightarrow> bool" where
  "linked im \<longleftrightarrow> im = link_image (bss_start im) (bss_end im) (vectors_el2 im) (vectors_el1 im) \<and>
     0x40400000 \<le> unat (bss_start im) \<and> unat (bss_start im) < unat (bss_end im) \<and> unat (bss_end im) < 0x41390000"

lemma linked_ok:
  assumes "linked im"
  shows "layout_ok (tables im)" "cap (tables im) = 64" "boot_stack_ok (tables im) (stack_top_el2 im)"
proof -
  have be: "0x40400000 \<le> unat (bss_end im)" "unat (bss_end im) < 0x41390000" using assms by (auto simp: linked_def)
  have im: "link_image (bss_start im) (bss_end im) (vectors_el2 im) (vectors_el1 im) = im" using assms by (simp add: linked_def)
  note P = link_image_places [OF be, of "bss_start im" "vectors_el2 im" "vectors_el1 im", unfolded im]
  have lk: "lk_ok (tables im)"
  proof -
    have "pt_start (tables im) \<noteq> 0" using P(1-3) be by (auto simp del: unat_eq_zero)
    then show ?thesis using P be by (simp add: lk_ok_def aligned_unat)
  qed
  show "layout_ok (tables im)"
    unfolding layout_ok_def in_space_def
  proof (intro conjI allI impI lk)
    fix x :: u64 assume "unat (pt_start (tables im)) \<le> unat x \<and> unat x < unat (pt_end (tables im))"
    then show "x \<in> static_memory" using P be by (intro static_range) linarith+
  qed
  show "cap (tables im) = 64" using P(4) by (simp add: cap_def)
  have sp: "0x40400000 + 0x10000 \<le> unat (stack_top_el2 im)" using P(1) be by linarith
  show "boot_stack_ok (tables im) (stack_top_el2 im)"
    unfolding boot_stack_ok_def in_space_def
  proof (intro conjI allI impI)
    show "272 \<le> unat (stack_top_el2 im)" using sp by linarith
    fix x :: u64 assume x: "unat (stack_top_el2 im) - 272 \<le> unat x \<and> unat x < unat (stack_top_el2 im)"
    then show "x \<in> static_memory" using P sp by (intro static_range) linarith+
    show "\<not> (unat (pt_start (tables im)) \<le> unat x \<and> unat x < unat (pt_end (tables im)))" using x P by linarith
  qed
qed

text \<open>What the link script makes of sections that are not too large, and embedded programs inside the image.\<close>

lemma link_kernel_linked:
  assumes "unat text_size + unat rodata + unat data + unat bss < 0xF8D000" "0 < unat bss"
  shows "linked (link_kernel text_size rodata data bss v2 v1)"
proof -
  obtain bs where "link_kernel text_size rodata data bss v2 v1 = link_image bs (bs + bss) v2 v1" "0x40400000 \<le> unat bs"
    "unat (bs + bss) = unat bs + unat bss" "unat bs + unat bss < 0x41390000" by (rule link_kernel_places [OF assms(1)])
  then show ?thesis using assms(2) by (simp add: linked_def link_image_def Let_def)
qed

lemma programs_in_image:
  assumes "\<And>a b. (a, b) = (hello_start syms, hello_end syms) \<or> (a, b) = (counter_start syms, counter_end syms) \<Longrightarrow>
    0x40400000 \<le> unat a \<and> unat a \<le> unat b \<and> unat b \<le> unat a + 0x8000 \<and> unat b \<le> 0x41400000"
  shows "programs_ok syms"
proof -
  have "unat (b - a) \<le> 0x8000 \<and> (\<forall>j < unat (b - a). a + of_nat j \<in> static_memory)"
    if ab: "(a, b) \<in> {(hello_start syms, hello_end syms), (counter_start syms, counter_end syms)}" for a b
  proof -
    have h: "0x40400000 \<le> unat a" "unat a \<le> unat b" "unat b \<le> unat a + 0x8000" "unat b \<le> 0x41400000"
      using assms [of a b] ab by auto
    have "unat (b - a) = unat b - unat a" using h(2) by (rule unat_sub_no_wrap)
    then show ?thesis using h static_image [of a "unat (b - a)"] by simp
  qed
  then show ?thesis unfolding programs_ok_def by blast
qed

lemma power_on_ready:
  assumes im: "linked im" and el: "drop_bit 2 (CurrentEL mc) = 1 \<or> drop_bit 2 (CurrentEL mc) = 2" and prog: "programs_ok syms"
    and uart: "Uart.live dev UART_FR_TXFF"
  shows "\<exists>r' mc'. power_on im dev xlate clock regs syms dtb (r, mc) = Some (r', mc') \<and>
    sys_inv (tables im) static_memory (mc', {})"
proof -
  let ?el = "drop_bit 2 (CurrentEL mc)"
  note L = linked_ok [OF im]
  have bss: "unat (bss_start im) < unat (bss_end im)" "unat (bss_end im) < 2 ^ 62" using im by (auto simp: linked_def)
  obtain r' mc1 where s: "reset_start im dtb (r, mc) = Some (dtb, ?el, r', mc1)"
    "sched_of (sys_of mc1) = sched_bss" "next_page_table (mmu_of (sys_of mc1)) = 0"
    "current_user_pgd (mmu_of (sys_of mc1)) = 0"
    "sp_el1 (cpu_of (sys_of mc1)) = (if ?el = 2 then stack_top_el2 im else stack_top_el1 im)"
    by (rule reset_start_spec [OF refl el bss])
  have "bss_clear (sys_of mc1)" using s by (simp add: bss_clear_def)
  moreover have "?el \<noteq> 2 \<or> boot_stack_ok (tables im) (sp_el1 (cpu_of (sys_of mc1)))" using s(5) L(3) by auto
  moreover have "50 \<le> cap (tables im)" by (simp add: L(2))
  ultimately obtain mc' where "kernel_main (tables im) dev xlate clock regs syms dtb ?el mc1 = Some mc'"
    "sys_inv (tables im) static_memory (mc', {})"
    using kernel_main_ready [OF L(1) _ _ prog _ uart] by blast
  then show ?thesis using s(1) by (simp add: power_on_def)
qed

section \<open>Properties\<close>

text \<open>
  C3: the boot sequence returns. Power on at EL2, the level the kernel is made for, whatever the memory, the static
  variables, the interrupt controller and the registers hold, with a UART that sooner or later reports room for the next byte, an
  image laid out by the linker script that fits the reserved 16 MB and two embedded programs of at most 32 KB: the reset
  code calls \<^verbatim>\<open>kernel_main\<close>, which comes to its idle loop when no interrupt is taken before it; and every state the
  kernel reaches from there by the steps of \<open>kernel_step\<close> satisfies the invariant of the system. \<open>V\<close> is the memory of the
  static variables, wherever the compiler put them outside the table space: the steps do not write it but through the modelled operations.
  At EL1 the boot code is the same, but there turning translation on cuts the kernel off from its own code
  (\<open>translation_grants_nothing\<close>).
\<close>
theorem power_on_boots:
  assumes "linked im" "drop_bit 2 (CurrentEL mc) = 2" "programs_ok syms" "Uart.live dev UART_FR_TXFF"
    and "\<And>x. in_space (tables im) x \<Longrightarrow> x \<notin> V"
  shows "\<exists>r' mc'. power_on im dev xlate clock regs syms dtb (r, mc) = Some (r', mc') \<and>
    (\<forall>st. kernel_steps (tables im) (static_memory - V) (mc', {}) st \<longrightarrow> sys_inv (tables im) (static_memory - V) st)"
proof -
  obtain r' mc' where p: "power_on im dev xlate clock regs syms dtb (r, mc) = Some (r', mc')"
    "sys_inv (tables im) static_memory (mc', {})"
    using power_on_ready [OF assms(1) _ assms(3,4)] assms(2) by blast
  have "x \<in> static_memory - V" if "in_space (tables im) x" for x
    using that linked_ok(1) [OF assms(1)] assms(5) by (auto simp: layout_ok_def)
  then have "sys_inv (tables im) (static_memory - V) (mc', {})" by (intro sys_inv_less [OF p(2)]) auto
  then show ?thesis using p(1) kernel_steps_inv by blast
qed

text \<open>
  C2: the invariant of the system is kept by every sequence of steps: timer interrupts, system calls,
  creation of kernel and user tasks, failed or not, heap calls that return, and whatever the tasks write to
  their stacks, their heap blocks and the memory \<open>K\<close> outside the table space. The limits are those of \<open>kernel_step\<close>: the static
  variables of the kernel are not in \<open>K\<close> and change only by the operations; a program made into a user task lies in \<open>K\<close> and has at most
  32 KB; a block is given back by one who has it; and the sizes asked for are not the 16 largest, with which the header wraps around.
\<close>
theorem system_invariant:
  assumes "sys_inv lk K st" "kernel_steps lk K st st'"
  shows "sys_inv lk K st'"
  by (rule kernel_steps_inv [OF assms(2,1)])

text \<open>
  C1: isolation of user tasks in every reachable state: whatever page a user task can translate lies
  in a frame that is in use, outside the kernel's static memory, outside every heap block, is no
  task's kernel stack, and is not what any other user task can translate.
\<close>
theorem user_memory_isolated:
  assumes "sys_inv lk K st" "kernel_steps lk K st (mc, E)"
    and "user_live (sched_of (sys_of mc)) i"
    and "pte_of (mem_of (sys_of mc)) (t_page_table (tk (sched_of (sys_of mc)) i)) va \<noteq> 0"
  shows "\<exists>f. out_addr (pte_of (mem_of (sys_of mc)) (t_page_table (tk (sched_of (sys_of mc)) i)) va) = page_to_phys f \<and>
    f \<in> held_set (pmm_of (sys_of mc)) \<and>
    (\<forall>x. in_block f 1 x \<longrightarrow> x \<notin> K \<and> \<not> (\<exists>b \<in> E. inside x b)) \<and>
    (\<forall>j. live (sched_of (sys_of mc)) j \<longrightarrow> kernel_stack_base (tk (sched_of (sys_of mc)) j) \<noteq> page_to_phys f) \<and>
    (\<forall>j va'. user_live (sched_of (sys_of mc)) j \<and> j \<noteq> i \<longrightarrow>
       out_addr (pte_of (mem_of (sys_of mc)) (t_page_table (tk (sched_of (sys_of mc)) j)) va') \<noteq> page_to_phys f)"
proof -
  obtain c ts q L F A B where "sys_rel lk K (mc, E) (c, True, ts, q) L F A B"
    by (rule sys_invE [OF kernel_steps_inv [OF assms(2,1)]])
  from user_memory_apart [OF this assms(3,4)] show ?thesis .
qed

section \<open>Witnesses\<close>

lemma idle_gic_live: "Uart.live idle_gic UART_FR_TXFF"
proof -
  have "poll idle_gic UART_FR_TXFF 0 b" for b
    by (simp add: idle_gic_def uart_read_def mmio_read_def UART_FR_TXFF_def)
  then show ?thesis unfolding Uart.live_def by blast
qed

text \<open>A machine as the reset code leaves it, with the page tables at 16 MB and two small programs in the image.\<close>

definition reset_sys :: sys where
  "reset_sys = \<lparr>pmm_of = pmm_bss, mmu_of = mmu_bss 0, mem_of = (\<lambda>_. 0), con_of = [], sched_of = sched_bss,
     cpu_of = cpu_start\<lparr>sp_el1 := 0x40500000\<rparr>\<rparr>"

definition symbols0 :: symbols where
  "symbols0 = \<lparr>idle_task_func = 0x40401000, timer_isr = 0x40402000, task_a_func = 0x40403000, task_b_func = 0x40404000,
     task_c_func = 0x40405000, hello_start = 0x40410000, hello_end = 0x4041000C, counter_start = 0x40420000,
     counter_end = 0x40420020, stack_buffer = 0x404FFF00\<rparr>"

lemma reset_ok: "layout_ok lk0" "bss_clear reset_sys" "programs_ok symbols0" "boot_stack_ok lk0 (sp_el1 (cpu_of reset_sys))"
proof -
  show "layout_ok lk0" using lk0_ok static_range by (auto simp: layout_ok_def in_space_def lk0_def)
  show "bss_clear reset_sys" by (simp add: bss_clear_def reset_sys_def mmu_bss_def)
  have "j < 12 \<Longrightarrow> 0x40410000 + of_nat j \<in> static_memory" "j < 32 \<Longrightarrow> 0x40420000 + of_nat j \<in> static_memory" for j
    by (rule static_image [of _ 32]; simp)+
  then show "programs_ok symbols0" by (simp add: programs_ok_def symbols0_def)
  show "boot_stack_ok lk0 (sp_el1 (cpu_of reset_sys))"
    using static_range by (auto simp: boot_stack_ok_def reset_sys_def in_space_def lk0_def)
qed

definition image0 :: image where
  "image0 = link_image 0x40480000 0x40490004 0x40401800 0x40402000"

text \<open>With the static variables at the \<^verbatim>\<open>.bss\<close> section.\<close>

theorem power_on_boots_witness:
  "\<exists>r mc'. power_on image0 idle_gic (\<lambda>_ _ a. a) of_nat of_nat symbols0 0
      (\<lparr>sctlr_el2 = 0, vbar_el2 = 0, cptr_el2 = 0, vbar_el1 = 0, cpacr_el1 = 0\<rparr>, (machine_of duo_sys)\<lparr>CurrentEL := 8\<rparr>) = Some (r, mc') \<and>
     sys_inv (tables image0) (static_memory - {0x40480000..<0x40490004}) (state_after (timer_irq_handler 30 0 mc'), {})"
proof -
  let ?V = "{0x40480000..<0x40490004} :: u64 set"
  let ?mc = "(machine_of duo_sys)\<lparr>CurrentEL := 8\<rparr>"
  let ?r = "\<lparr>sctlr_el2 = 0, vbar_el2 = 0, cptr_el2 = 0, vbar_el1 = 0, cpacr_el1 = 0\<rparr>"
  have "linked image0" by (simp add: linked_def image0_def link_image_def Let_def)
  moreover have "drop_bit 2 (CurrentEL ?mc) = 2" by (simp add: drop_bit_eq_div)
  moreover have "x \<notin> ?V" if "in_space (tables image0) x" for x
    using that by (simp add: in_space_def image0_def link_image_def Let_def align_to_def word_le_nat_alt word_less_nat_alt)
  ultimately obtain r mc' where
    "power_on image0 idle_gic (\<lambda>_ _ a. a) of_nat of_nat symbols0 0 (?r, ?mc) = Some (r, mc')"
    "\<forall>st. kernel_steps (tables image0) (static_memory - ?V) (mc', {}) st \<longrightarrow> sys_inv (tables image0) (static_memory - ?V) st"
    using power_on_boots [OF _ _ reset_ok(3) idle_gic_live, of image0 ?mc ?V] by blast
  moreover have "kernel_steps (tables image0) (static_memory - ?V) (mc', {}) (state_after (timer_irq_handler 30 0 mc'), {})"
    unfolding kernel_steps_def by (intro r_into_rtranclp kernel_step.timer)
  ultimately show ?thesis by blast
qed

text \<open>The initialised kernel, and a program loaded into its first user task.\<close>

lemma initialised:
  obtains mc F h where "kernel_init lk0 idle_gic symbols0 0 1 (machine_of reset_sys) = Some mc"
    "sys_rel lk0 static_memory (mc, {}) (0, True, 10, []) id_labels F no_objects (\<lambda>_. (0, 0))"
    "free_set (pmm_of (sys_of mc)) = {..<1024} \<union> {5120..<16384} - {h}"
proof -
  have "bss_clear (sys_of (machine_of reset_sys))" "38 \<le> cap lk0" using reset_ok by (simp_all add: machine_of_def lk0_ok)
  from kernel_init_boots [OF reset_ok(1) this(2,1) idle_gic_live, of symbols0 0 1] show thesis using that by blast
qed

lemma creates_user:
  assumes R: "sys_rel lk0 static_memory (mc, {}) (0, True, 10, []) id_labels F no_objects (\<lambda>_. (0, 0))"
    and free: "free_set (pmm_of (sys_of mc)) = {..<1024} \<union> {5120..<16384} - {h}"
    and src: "unat sz \<le> 0x8000" "\<forall>j < unat sz. src + of_nat j \<in> static_memory"
  obtains i k where "find_slot (sched_of (sys_of mc)) 0 MAX_TASKS = Some i"
    "task_create_user lk0 ''user-hello'' src sz 10 (sys_of mc) = Some (next_task_id (sched_of (sys_of mc)), k)"
    "user_live (sched_of k) i" "rr_rel (sched_of k) (0, True, 10, [i])"
    "pte_of (mem_of k) (t_page_table (tk (sched_of k) i)) 0x400000 \<noteq> 0"
proof -
  let ?k = "sys_of mc"
  note D = sys_relD [OF R]
  have np: "8 \<le> unat (num_pages (pmm_of ?k))" using heap_relD(2) [OF D(6)] by simp
  have ap: "frames_apart lk0 (pmm_of ?k)" "image_apart (pmm_of ?k) src sz"
    using managed_not_static [OF R] D(1) src(2) by (auto simp: frames_apart_def image_apart_def)
  have "\<not> live (sched_of ?k) 1" "(1 :: nat) < MAX_TASKS" using rr_live [OF D(2)] by (simp_all add: MAX_TASKS_def)
  then obtain i where slot: "find_slot (sched_of ?k) 0 MAX_TASKS = Some i"
    using find_slot_None [of "sched_of ?k" 0 MAX_TASKS] by (cases "find_slot (sched_of ?k) 0 MAX_TASKS") (auto simp: live_def)
  from task_create_user_spec [OF D(2-5) np src(1) ap slot, of "''user-hello''" 10] show thesis
  proof cases
    case (1 k')
    then show ?thesis using frames_room [OF free] by fastforce
  next
    case 2
    then show ?thesis by (simp add: card_id_labels lk0_ok)
  next
    case (3 k' fk fu fp ord)
    note U = 3(4) [unfolded user_created_def]
    let ?r = "card id_labels" and ?P = "user_ptes (page_to_phys fp) (2 ^ ord) (page_to_phys fu)"
    have t: "core (tk (sched_of k') i) = core (new_user ''user-hello'' 10 (next_task_id (sched_of ?k)) (page_to_phys fk)
        (page_to_phys fu) (tbl lk0 ?r) (tk (sched_of ?k) i))" using U by blast
    note T = coreD [OF t, unfolded new_user_def, simplified]
    have V: "vm_rel lk0 (vm_of k') (id_labels \<union> user_labels ?r) (F(?r := ?P))" using U by blast
    have "(?r, 0, 0) \<in> id_labels \<union> user_labels ?r" by (simp add: user_labels_def)
    from vm_rel_pte [OF V this, of "0x400000"]
    have "pte_of (mem_of k') (tbl lk0 ?r) 0x400000 = page_to_phys fp OR PAGE_USER_RX OR PTE_TYPE_PAGE"
      by (simp add: vm_of_def user_ptes_def vpn_def)
    moreover have fp: "{fp..<fp + 2 ^ ord} \<subseteq> free_set (pmm_of ?k) - {fk, fu}" using U by blast
    moreover have "fp \<in> {fp..<fp + 2 ^ ord}" by simp
    then have "fp < PAGES_LEN" using fp free_set_bound [OF stacks_okD [OF D(3)], of fp] by blast
    ultimately have "out_addr (pte_of (mem_of k') (tbl lk0 ?r) 0x400000) \<noteq> 0"
      using out_addr_frame(1) page_to_phys_nonzero by simp
    then have "pte_of (mem_of k') (t_page_table (tk (sched_of k') i)) 0x400000 \<noteq> 0"
      unfolding T(5) by (auto simp: out_addr_def)
    moreover have "user_live (sched_of k') i" using T(1,4) find_slot_Some [OF slot] by (simp add: user_live_def live_def)
    ultimately show ?thesis using that slot 3(3,5) by simp
  qed
qed

text \<open>From the initialised kernel, one step creates the first user task.\<close>

lemma first_user:
  obtains mc0 mc i where "kernel_init lk0 idle_gic symbols0 0 1 (machine_of reset_sys) = Some mc0"
    "sys_inv lk0 static_memory (mc0, {})" "kernel_steps lk0 static_memory (mc0, {}) (mc, {})"
    "user_live (sched_of (sys_of mc)) i"
    "pte_of (mem_of (sys_of mc)) (t_page_table (tk (sched_of (sys_of mc)) i)) 0x400000 \<noteq> 0"
    "rr_rel (sched_of (sys_of mc)) (0, True, 10, [i])"
proof -
  obtain mc0 F h where 0: "kernel_init lk0 idle_gic symbols0 0 1 (machine_of reset_sys) = Some mc0"
    and R: "sys_rel lk0 static_memory (mc0, {}) (0, True, 10, []) id_labels F no_objects (\<lambda>_. (0, 0))"
    and free: "free_set (pmm_of (sys_of mc0)) = {..<1024} \<union> {5120..<16384} - {h}" by (rule initialised)
  have src: "unat (12 :: u64) \<le> 0x8000" "\<forall>j < unat (12 :: u64). hello_start symbols0 + of_nat j \<in> static_memory"
    using reset_ok(3) by (simp_all add: programs_ok_def symbols0_def)
  obtain i k where k: "task_create_user lk0 ''user-hello'' (hello_start symbols0) 12 10 (sys_of mc0) =
      Some (next_task_id (sched_of (sys_of mc0)), k)" "user_live (sched_of k) i" "rr_rel (sched_of k) (0, True, 10, [i])"
    "pte_of (mem_of k) (t_page_table (tk (sched_of k) i)) 0x400000 \<noteq> 0" by (rule creates_user [OF R free src]) blast
  have "kernel_step lk0 static_memory (mc0, {}) (mc0\<lparr>sys_of := k\<rparr>, {})"
    by (rule kernel_step.create_user [OF src k(1)])
  then have "kernel_steps lk0 static_memory (mc0, {}) (mc0\<lparr>sys_of := k\<rparr>, {})"
    unfolding kernel_steps_def by (rule r_into_rtranclp)
  then show thesis using that [OF 0 sys_invI [OF R], of "mc0\<lparr>sys_of := k\<rparr>" i] k(2-4) by simp
qed

text \<open>The idle task gives up its slice, and at the next tick the only ready task runs.\<close>

lemma user_turn:
  assumes rr: "rr_rel (sched_of (sys_of mc)) (0, True, 10, [i])" and live: "user_live (sched_of (sys_of mc)) i"
  obtains mc1 mc2 where "kernel_step lk K (mc, E) (mc1, E)" "kernel_step lk K (mc1, E) (mc2, E)"
    "user_live (sched_of (sys_of mc1)) i" "user_live (sched_of (sys_of mc2)) i"
    "rr_rel (sched_of (sys_of mc2)) (i, True, 10, [0])"
proof -
  let ?y = "on_sys task_yield mc"
  let ?t = "state_after (timer_irq_handler 30 0 ?y)"
  let ?k = "task_yield (sys_of mc)"
  have "syscall_handler (\<lambda>_ _ a. a) of_nat SYS_YIELD 0 0 0 0 mc = Some (Returned (0, ?y))" by (simp add: syscall_handler_def)
  from kernel_step.call [OF this] have "kernel_step lk K (mc, E) (?y, E)" by simp
  moreover have "kernel_step lk K (?y, E) (?t, E)" by (rule kernel_step.timer)
  moreover have y: "user_live (sched_of ?k) i"
    using live by (auto simp: user_live_def live_def task_yield_def on_sched_def split: option.split)
  moreover have r: "rr_rel (sched_of ?k) (0, True, 0, [i])" by (rule yield_rr [OF rr])
  have t: "sys_of ?t = snd (schedule ?k)" by (simp add: timer_irq_handler_def Let_def split: prod.split)
  moreover have "user_live (sched_of (sys_of ?t)) i" using y unfolding t by (simp add: user_live_def schedule_keeps [OF r])
  moreover have "rr_rel (sched_of (sys_of ?t)) (i, True, 10, [0])" using schedule_refines_rr [OF r] by (simp add: t)
  ultimately show thesis using that [of ?y ?t] by simp
qed

theorem system_invariant_witness:
  "\<exists>mc0 mc i. kernel_init lk0 idle_gic symbols0 0 1 (machine_of reset_sys) = Some mc0 \<and>
     kernel_steps lk0 static_memory (mc0, {}) (mc, {}) \<and> user_live (sched_of (sys_of mc)) i \<and>
     sys_inv lk0 static_memory (mc, {})"
proof -
  obtain mc0 mc i where f: "kernel_init lk0 idle_gic symbols0 0 1 (machine_of reset_sys) = Some mc0"
    "sys_inv lk0 static_memory (mc0, {})" "kernel_steps lk0 static_memory (mc0, {}) (mc, {})"
    "user_live (sched_of (sys_of mc)) i" by (rule first_user)
  then show ?thesis using system_invariant [OF f(2,3)] by blast
qed

theorem user_memory_isolated_witness:
  "\<exists>mc0 mc i f. kernel_init lk0 idle_gic symbols0 0 1 (machine_of reset_sys) = Some mc0 \<and>
     kernel_steps lk0 static_memory (mc0, {}) (mc, {}) \<and> user_live (sched_of (sys_of mc)) i \<and>
     out_addr (pte_of (mem_of (sys_of mc)) (t_page_table (tk (sched_of (sys_of mc)) i)) 0x400000) = page_to_phys f \<and>
     f \<in> held_set (pmm_of (sys_of mc))"
proof -
  obtain mc0 mc i where f: "kernel_init lk0 idle_gic symbols0 0 1 (machine_of reset_sys) = Some mc0"
    "sys_inv lk0 static_memory (mc0, {})" "kernel_steps lk0 static_memory (mc0, {}) (mc, {})"
    "user_live (sched_of (sys_of mc)) i"
    "pte_of (mem_of (sys_of mc)) (t_page_table (tk (sched_of (sys_of mc)) i)) 0x400000 \<noteq> 0" by (rule first_user)
  obtain g where "out_addr (pte_of (mem_of (sys_of mc)) (t_page_table (tk (sched_of (sys_of mc)) i)) 0x400000) = page_to_phys g"
    "g \<in> held_set (pmm_of (sys_of mc))"
    using user_memory_isolated [OF f(2-5)] by (elim exE conjE)
  with f(1,3,4) show ?thesis by (intro exI conjI)
qed

end
