(* ===== verification/Translation.thy ===== *)
theory Translation
  imports Boot
begin

text \<open>
  The address translation of the processor over the tables that \<^verbatim>\<open>mm/mmu.c\<close> builds and the
  registers \<^verbatim>\<open>mmu_enable\<close> programs. The walk is that of the architecture for 4 KB granules: the
  size field of \<^verbatim>\<open>TCR_EL1\<close> selects the half of the address space and the level at which the walk
  starts, descriptors are invalid, tables, blocks or pages, and the access flag, the permission
  bits and the restrictions collected from the table descriptors decide an access. The lemmas
  compare it with the walk of the software, say what the attribute sets of \<^verbatim>\<open>mmu.h\<close> allow, and
  find what user tasks can reach: as the tables are meant to be walked, and as they are walked
  under the value that \<^verbatim>\<open>mmu_enable\<close> writes to \<^verbatim>\<open>TCR_EL1\<close>.
\<close>

section \<open>The walk\<close>

text \<open>Bits 12 to 47 of a descriptor or a base register.\<close>

definition OA_MASK :: u64 where "OA_MASK = 0xFFFFFFFFF000"

text \<open>
  A walk with \<open>n\<close> levels to go, from table \<open>t\<close>: the level's index is the nine bits of the address
  from \<open>12 + 9 * (n - 1)\<close> up. The result is the number of levels left below the entry found, the
  table descriptors passed, joined in \<open>a\<close>, and the entry; \<open>None\<close> is a translation fault. At the
  last level only pages are valid, blocks exist at the two levels above it.
\<close>

fun table_walk :: "mem \<Rightarrow> nat \<Rightarrow> u64 \<Rightarrow> u64 \<Rightarrow> u64 \<Rightarrow> (nat \<times> u64 \<times> u64) option" where
  "table_walk m 0 a t va = None"
| "table_walk m (Suc n) a t va =
     (let d = load64 m (entry_addr t (drop_bit (12 + 9 * n) va AND 0x1FF))
      in if \<not> bit d 0 then None
         else if n = 0 then (if bit d 1 then Some (0, a, d) else None)
         else if bit d 1 then table_walk m n (a OR d) (d AND OA_MASK) va
         else if n \<le> 2 then Some (n, a, d) else None)"

declare table_walk.simps [simp del]

lemma table_walk_last:
  "table_walk m (Suc 0) a t va = (let d = load64 m (entry_addr t (drop_bit 12 va AND 0x1FF))
     in if bit d 0 \<and> bit d 1 then Some (0, a, d) else None)"
  by (simp add: table_walk.simps Let_def)

text \<open>The level at which the walk of a region of \<open>2 ^ (64 - tsz)\<close> bytes starts, \<open>16 \<le> tsz \<le> 39\<close>.\<close>

definition start_level :: "nat \<Rightarrow> nat" where
  "start_level tsz = (tsz - 16) div 9"

definition T0SZ :: "u64 \<Rightarrow> nat" where "T0SZ tcr = unat (take_bit 6 tcr)"
definition T1SZ :: "u64 \<Rightarrow> nat" where "T1SZ tcr = unat (take_bit 6 (drop_bit 16 tcr))"

text \<open>Addresses whose leading bits are all clear go through TTBR0, all set through TTBR1; others fault.\<close>

definition translate :: "mmu \<Rightarrow> mem \<Rightarrow> u64 \<Rightarrow> (nat \<times> u64 \<times> u64) option" where
  "translate u m va =
     (let t0 = T0SZ (tcr_el1 u); t1 = T1SZ (tcr_el1 u)
      in if drop_bit (64 - t0) va = 0
         then table_walk m (4 - start_level t0) 0 (ttbr0_el1 u AND OA_MASK) va
         else if drop_bit (64 - t1) va = mask t1
         then table_walk m (4 - start_level t1) 0 (ttbr1_el1 u AND OA_MASK) va
         else None)"

text \<open>The output address of an entry found with \<open>n\<close> levels left: its block's base and the rest of the address.\<close>

definition output_address :: "nat \<Rightarrow> u64 \<Rightarrow> u64 \<Rightarrow> u64" where
  "output_address n d va = (d AND OA_MASK AND NOT (mask (12 + 9 * n))) OR (va AND mask (12 + 9 * n))"

section \<open>Permissions\<close>

datatype access = Read | Write | Exec

text \<open>
  The accesses an entry \<open>d\<close> found below the table descriptors \<open>a\<close> allows at EL0 and at EL1: nothing
  while the access flag (bit 10) is clear; bit 6 opens the page to EL0 and bit 7 makes it read-only,
  which bits 61 and 62 of a table descriptor override; execution is forbidden by bits 54 (EL0) and
  53 (EL1), by bits 60 and 59 of a table descriptor, and at EL1 for what EL0 can write.
\<close>

fun el0_allows :: "access \<Rightarrow> u64 \<Rightarrow> u64 \<Rightarrow> bool" where
  "el0_allows Read a d \<longleftrightarrow> bit d 10 \<and> bit d 6 \<and> \<not> bit a 61"
| "el0_allows Write a d \<longleftrightarrow> bit d 10 \<and> bit d 6 \<and> \<not> bit a 61 \<and> \<not> bit d 7 \<and> \<not> bit a 62"
| "el0_allows Exec a d \<longleftrightarrow> bit d 10 \<and> \<not> bit d 54 \<and> \<not> bit a 60"

fun el1_allows :: "access \<Rightarrow> u64 \<Rightarrow> u64 \<Rightarrow> bool" where
  "el1_allows Read a d \<longleftrightarrow> bit d 10"
| "el1_allows Write a d \<longleftrightarrow> bit d 10 \<and> \<not> bit d 7 \<and> \<not> bit a 62"
| "el1_allows Exec a d \<longleftrightarrow> bit d 10 \<and> \<not> bit d 53 \<and> \<not> bit a 59 \<and> \<not> el0_allows Write a d"

text \<open>The physical address an access reaches, if it is allowed.\<close>

definition reaches :: "(access \<Rightarrow> u64 \<Rightarrow> u64 \<Rightarrow> bool) \<Rightarrow> access \<Rightarrow> u64 \<Rightarrow> (nat \<times> u64 \<times> u64) option \<Rightarrow> u64 option" where
  "reaches allows acc va w = do {
     (n, a, d) \<leftarrow> w;
     if allows acc a d then Some (output_address n d va) else None
   }"

section \<open>What the attribute sets allow\<close>

lemma bit_below_48:
  assumes "unat (x :: u64) < 2 ^ 48" "48 \<le> j"
  shows "\<not> bit x j"
proof -
  have "take_bit 48 x = x" using assms(1) by (simp add: word_unat_eq_iff unsigned_take_bit_eq take_bit_nat_eq_self)
  then show ?thesis using assms(2) by (metis bit_take_bit_iff not_le)
qed

lemma page_attribute_bits:
  assumes "unat phys < 2 ^ 48" "j \<in> {0, 1, 6, 7, 10, 53, 54}"
  shows "bit (phys AND PAGE_MASK OR flags OR PTE_TYPE_PAGE) j \<longleftrightarrow> bit (flags OR PTE_TYPE_PAGE) j"
proof -
  have "\<not> bit (phys AND PAGE_MASK) j"
    using bit_below_48 [OF assms(1), of j] assms(2) by (auto simp: PAGE_MASK_eq bit_simps)
  then show ?thesis unfolding or.assoc bit_or_iff by blast
qed

lemma allows_page:
  assumes "unat phys < 2 ^ 48"
  shows "el0_allows acc a (phys AND PAGE_MASK OR flags OR PTE_TYPE_PAGE) = el0_allows acc a (flags OR PTE_TYPE_PAGE)"
    "el1_allows acc a (phys AND PAGE_MASK OR flags OR PTE_TYPE_PAGE) = el1_allows acc a (flags OR PTE_TYPE_PAGE)"
  using page_attribute_bits [OF assms, of _ flags] by (cases acc; simp)+

text \<open>The entry \<^verbatim>\<open>map_page\<close> writes, and the accesses an entry allows.\<close>

definition page_entry :: "u64 \<Rightarrow> u64 \<Rightarrow> u64" where
  "page_entry phys flags = phys AND PAGE_MASK OR flags OR PTE_TYPE_PAGE"

definition rights :: "(access \<Rightarrow> u64 \<Rightarrow> u64 \<Rightarrow> bool) \<Rightarrow> u64 \<Rightarrow> access list" where
  "rights allows d = filter (\<lambda>acc. allows acc 0 d) [Read, Write, Exec]"

lemma attribute_bits:
  "map (bit (PAGE_KERNEL_RO OR PTE_TYPE_PAGE)) [10, 6, 7, 54, 53] = [True, False, True, True, True]"
  "map (bit (PAGE_KERNEL_RW OR PTE_TYPE_PAGE)) [10, 6, 7, 54, 53] = [True, False, False, True, True]"
  "map (bit (PAGE_KERNEL_RX OR PTE_TYPE_PAGE)) [10, 6, 7, 54, 53] = [True, False, True, True, False]"
  "map (bit (PAGE_KERNEL_RWX OR PTE_TYPE_PAGE)) [10, 6, 7, 54, 53] = [True, False, False, False, False]"
  "map (bit (PAGE_DEVICE OR PTE_TYPE_PAGE)) [10, 6, 7, 54, 53] = [True, False, False, True, True]"
  "map (bit (PAGE_USER_RO OR PTE_TYPE_PAGE)) [10, 6, 7, 54, 53] = [True, True, True, True, True]"
  "map (bit (PAGE_USER_RW OR PTE_TYPE_PAGE)) [10, 6, 7, 54, 53] = [True, True, False, True, True]"
  "map (bit (PAGE_USER_RX OR PTE_TYPE_PAGE)) [10, 6, 7, 54, 53] = [True, True, True, False, True]"
  by code_simp+

text \<open>
  What the attribute sets of \<^verbatim>\<open>mmu.h\<close> let the processor do with a page, at EL0 and at EL1: each
  set allows what its name says, and no user set lets EL1 execute, with one exception: kernel pages
  mapped RWX, as all of DRAM is, may also be executed at EL0.
\<close>
theorem page_attributes_allow:
  assumes "unat phys < 2 ^ 48"
  shows "rights el1_allows (page_entry phys PAGE_KERNEL_RO) = [Read] \<and> rights el0_allows (page_entry phys PAGE_KERNEL_RO) = [] \<and>
    rights el1_allows (page_entry phys PAGE_KERNEL_RW) = [Read, Write] \<and> rights el0_allows (page_entry phys PAGE_KERNEL_RW) = [] \<and>
    rights el1_allows (page_entry phys PAGE_KERNEL_RX) = [Read, Exec] \<and> rights el0_allows (page_entry phys PAGE_KERNEL_RX) = [] \<and>
    rights el1_allows (page_entry phys PAGE_KERNEL_RWX) = [Read, Write, Exec] \<and> rights el0_allows (page_entry phys PAGE_KERNEL_RWX) = [Exec] \<and>
    rights el1_allows (page_entry phys PAGE_DEVICE) = [Read, Write] \<and> rights el0_allows (page_entry phys PAGE_DEVICE) = [] \<and>
    rights el1_allows (page_entry phys PAGE_USER_RO) = [Read] \<and> rights el0_allows (page_entry phys PAGE_USER_RO) = [Read] \<and>
    rights el1_allows (page_entry phys PAGE_USER_RW) = [Read, Write] \<and> rights el0_allows (page_entry phys PAGE_USER_RW) = [Read, Write] \<and>
    rights el1_allows (page_entry phys PAGE_USER_RX) = [Read] \<and> rights el0_allows (page_entry phys PAGE_USER_RX) = [Read, Exec]"
  using attribute_bits unfolding rights_def page_entry_def allows_page [OF assms] by simp

theorem page_attributes_allow_witness:
  "rights el0_allows (page_entry 0x40400000 PAGE_KERNEL_RWX) = [Exec]"
  using page_attributes_allow [of "0x40400000"] by simp

section \<open>The walk through the tables of the kernel\<close>

lemma unat_index: "unat (drop_bit k (va :: u64) AND 0x1FF) < 512"
  by (simp add: unat_and_0x1FF)

text \<open>The entries above the last level: descriptors of tables with no attributes, or invalid.\<close>

lemma table_entry:
  assumes ok: "next_ok lk u n" and links: "links lk m lab n"
    and b: "b \<in> lab ` {..<n}" "level b < 3" "unat i < 512"
  defines "d \<equiv> load64 m (entry_addr (tbl lk (at_label lab n b)) i)" and "c \<equiv> child b (unat i)"
  shows "c \<in> lab ` {..<n} \<Longrightarrow> d = tbl lk (at_label lab n c) OR 3" "c \<notin> lab ` {..<n} \<Longrightarrow> \<not> bit d 0"
proof -
  note at = at_label [OF b(1)]
  have lv: "level (lab (at_label lab n b)) < 3" using at b by simp
  note e = links_entry [OF links at(1) lv b(3), unfolded at(2)]
  show "d = tbl lk (at_label lab n c) OR 3" if "c \<in> lab ` {..<n}"
    unfolding d_def c_def by (rule e(1) [OF at_label [OF that [unfolded c_def]]])
  show "\<not> bit d 0" if "c \<notin> lab ` {..<n}"
  proof -
    have "d AND PTE_VALID = 0" unfolding d_def using e(2) that by (simp add: c_def)
    from arg_cong [OF this, of "\<lambda>x. bit x 0"] show ?thesis by (simp add: PTE_VALID_def bit_simps)
  qed
qed

lemma table_bits:
  assumes "next_ok lk u n" "c < n"
  shows "bit (tbl lk c OR 3) j \<Longrightarrow> j < 2 \<or> 12 \<le> j \<and> j < 48" "bit (tbl lk c OR 3) 0" "bit (tbl lk c OR 3) 1"
    "(tbl lk c OR 3) AND OA_MASK = tbl lk c" "tbl lk c AND OA_MASK = tbl lk c"
proof -
  have lk: "lk_ok lk" "c < cap lk" using assms by (auto simp: next_ok_def)
  have three: "(3 :: u64) = mask 2" by (simp add: mask_eq_exp_minus_1)
  have oa: "bit OA_MASK j \<longleftrightarrow> 12 \<le> j \<and> j < 48" for j
  proof -
    have eq: "OA_MASK = mask 48 AND NOT (mask 12)" by (simp add: OA_MASK_def mask_eq_exp_minus_1)
    show ?thesis unfolding eq by (auto simp: bit_simps)
  qed
  have "unat (tbl lk c) = unat (pt_start lk) + 4096 * c" using lk by (simp add: unat_tbl)
  then have "unat (tbl lk c) < 2 ^ 48" using cap_bound [OF lk(1)] lk by (simp add: lk_ok_def)
  note hi = bit_below_48 [OF this]
  have low: "\<not> bit (tbl lk c) j" if "j < 12" for j
    using arg_cong [OF tbl_aligned [OF lk(1), of c], of "\<lambda>x. bit x j"] lk that by (simp add: bit_simps)
  have t: "bit (tbl lk c) j \<Longrightarrow> 12 \<le> j \<and> j < 48" for j using hi [of j] low [of j] by linarith
  show "bit (tbl lk c OR 3) j \<Longrightarrow> j < 2 \<or> 12 \<le> j \<and> j < 48" using t by (auto simp: bit_simps three)
  show "bit (tbl lk c OR 3) 0" "bit (tbl lk c OR 3) 1" by (simp_all add: bit_simps three)
  show "(tbl lk c OR 3) AND OA_MASK = tbl lk c"
    by (rule bit_eqI) (use t in \<open>auto simp: bit_simps oa three\<close>)
  show "tbl lk c AND OA_MASK = tbl lk c"
    by (rule bit_eqI) (use t in \<open>auto simp: bit_simps oa\<close>)
qed

text \<open>One level of the walk, with at least one more below it.\<close>

lemma table_walk_step:
  fixes va :: u64 and j :: nat
  assumes ok: "next_ok lk u n" and links: "links lk m lab n"
    and b: "b \<in> lab ` {..<n}" "level b < 3"
  defines "i \<equiv> drop_bit (12 + 9 * Suc j) va AND 0x1FF"
  defines "c \<equiv> child b (unat i)"
  shows "table_walk m (Suc (Suc j)) a (tbl lk (at_label lab n b)) va =
    (if c \<in> lab ` {..<n}
     then table_walk m (Suc j) (a OR (tbl lk (at_label lab n c) OR 3)) (tbl lk (at_label lab n c)) va
     else None)"
proof -
  have i: "unat i < 512" unfolding i_def by (rule unat_index)
  note e = table_entry [OF ok links b i]
  let ?d = "load64 m (entry_addr (tbl lk (at_label lab n b)) i)"
  have w: "table_walk m (Suc (Suc j)) a (tbl lk (at_label lab n b)) va =
      (if \<not> bit ?d 0 then None
       else if bit ?d 1 then table_walk m (Suc j) (a OR ?d) (?d AND OA_MASK) va
       else if Suc j \<le> 2 then Some (Suc j, a, ?d) else None)"
    unfolding i_def by (simp only: table_walk.simps Let_def nat.distinct if_False)
  show ?thesis
  proof (cases "c \<in> lab ` {..<n}")
    case True
    then have k: "at_label lab n c < n" by (rule at_label)
    show ?thesis unfolding w e(1) [OF True [unfolded c_def], folded c_def] using True table_bits [OF ok k] by simp
  next
    case False
    then show ?thesis unfolding w using e(2) by (simp add: c_def)
  qed
qed

text \<open>The descriptors passed are table descriptors, so they restrict nothing.\<close>

definition plain :: "u64 \<Rightarrow> bool" where
  "plain a \<longleftrightarrow> (\<forall>j. bit a j \<longrightarrow> j < 48)"

lemma plain_0: "plain 0" by (simp add: plain_def)

lemma plain_table: "next_ok lk u n \<Longrightarrow> c < n \<Longrightarrow> plain a \<Longrightarrow> plain (a OR (tbl lk c OR 3))"
  using table_bits(1) [of lk u n c] unfolding plain_def bit_or_iff [of a] by (metis less_trans numeral_less_iff semiring_norm(76,78,81))

lemma plain_allows:
  assumes "plain a"
  shows "el0_allows acc a d = el0_allows acc 0 d" "el1_allows acc a d = el1_allows acc 0 d"
proof -
  have "\<not> bit a j" if "48 \<le> j" for j using assms that by (auto simp: plain_def)
  then show "el0_allows acc a d = el0_allows acc 0 d" "el1_allows acc a d = el1_allows acc 0 d" by (cases acc; simp)+
qed

lemma table_walk_at:
  assumes ok: "next_ok lk u n" and links: "links lk m lab n"
    and b: "label_at r l (vpn va) \<in> lab ` {..<n}" and l: "l + j = 2"
  shows "table_walk m (Suc (Suc j)) a (tbl lk (at_label lab n (label_at r l (vpn va)))) va =
    (if label_at r (Suc l) (vpn va) \<in> lab ` {..<n}
     then table_walk m (Suc j) (a OR (tbl lk (at_label lab n (label_at r (Suc l) (vpn va))) OR 3))
       (tbl lk (at_label lab n (label_at r (Suc l) (vpn va)))) va
     else None)"
proof -
  have "label_at r (Suc l) (vpn va) = child (label_at r l (vpn va)) (unat (drop_bit (12 + 9 * Suc j) va AND 0x1FF))"
  proof -
    consider "l = 0" "j = 2" | "l = 1" "j = 1" | "l = 2" "j = 0" using l by linarith
    then show ?thesis
      using label_at_step [of r va] by cases (simp_all add: label_at_0 VA_INDEX_defs numeral_eq_Suc)
  qed
  then show ?thesis
    using table_walk_step [OF ok links b, of j a va] l by simp
qed

text \<open>From a root, four levels: the entry of the software's walk, if it is a page.\<close>

lemma walk_from_level0:
  assumes ok: "next_ok lk u n" and links: "links lk m lab n" and r: "(r, 0, 0) \<in> lab ` {..<n}"
  shows "\<exists>a. plain a \<and> table_walk m 4 0 (tbl lk r) va =
    (if bit (pte_of m (tbl lk r) va) 0 \<and> bit (pte_of m (tbl lk r) va) 1
     then Some (0, a, pte_of m (tbl lk r) va) else None)"
proof -
  let ?b1 = "label_at r 1 (vpn va)" and ?b2 = "label_at r 2 (vpn va)" and ?b3 = "label_at r 3 (vpn va)"
  let ?S = "lab ` {..<n}"
  let ?k = "at_label lab n"
  have root: "?k (label_at r 0 (vpn va)) = r" "label_at r 0 (vpn va) \<in> ?S"
    using at_label_root [OF links r] r by (simp_all add: label_at_0)
  note step = table_walk_at [OF ok links, of r _ va]
  have s0: "table_walk m 4 0 (tbl lk r) va =
      (if ?b1 \<in> ?S then table_walk m 3 (0 OR (tbl lk (?k ?b1) OR 3)) (tbl lk (?k ?b1)) va else None)"
    using step [OF root(2), of 2 0] by (simp add: root(1))
  have s1: "table_walk m 3 a (tbl lk (?k ?b1)) va =
      (if ?b2 \<in> ?S then table_walk m 2 (a OR (tbl lk (?k ?b2) OR 3)) (tbl lk (?k ?b2)) va else None)" if "?b1 \<in> ?S" for a
    using step [OF that, of 1 a] by (simp add: numeral_eq_Suc)
  have s2: "table_walk m 2 a (tbl lk (?k ?b2)) va =
      (if ?b3 \<in> ?S then table_walk m 1 (a OR (tbl lk (?k ?b3) OR 3)) (tbl lk (?k ?b3)) va else None)" if "?b2 \<in> ?S" for a
    using step [OF that, of 0 a] by (simp add: numeral_eq_Suc)
  have s3: "table_walk m 1 a (tbl lk (?k ?b3)) va = (if bit (pte_of m (tbl lk r) va) 0 \<and> bit (pte_of m (tbl lk r) va) 1
      then Some (0, a, pte_of m (tbl lk r) va) else None)" if "?b3 \<in> ?S" for a
    using that unfolding pte_of_links [OF ok links r] One_nat_def table_walk_last by (simp add: VA_INDEX_defs Let_def)
  have up: "?b3 \<in> ?S \<Longrightarrow> ?b2 \<in> ?S" "?b2 \<in> ?S \<Longrightarrow> ?b1 \<in> ?S"
    unfolding label_at_step(3) [of r] using label_at_up [OF links _ VA_INDEX_less(3)] apply blast
    unfolding label_at_step(2) [of r] using label_at_up [OF links _ VA_INDEX_less(2)] by blast
  show ?thesis
  proof (cases "?b3 \<in> ?S")
    case True
    note in_S = up(2) [OF up(1) [OF True]] up(1) [OF True] True
    let ?a = "((0 OR (tbl lk (?k ?b1) OR 3)) OR (tbl lk (?k ?b2) OR 3)) OR (tbl lk (?k ?b3) OR 3)"
    have "plain ?a" by (intro plain_table [OF ok] plain_0 at_label in_S)
    moreover have "table_walk m 4 0 (tbl lk r) va = table_walk m 1 ?a (tbl lk (?k ?b3)) va"
      unfolding s0 if_P [OF in_S(1)] s1 [OF in_S(1)] if_P [OF in_S(2)] s2 [OF in_S(2)] if_P [OF in_S(3)] ..
    ultimately show ?thesis unfolding s3 [OF True] by blast
  next
    case False
    then have "table_walk m 4 0 (tbl lk r) va = None" using s0 s1 s2 by simp
    moreover have "pte_of m (tbl lk r) va = 0" using False by (simp add: pte_of_links [OF ok links r])
    ultimately show ?thesis using plain_0 by auto
  qed
qed

text \<open>
  The same tables walked from level 1: the walk is one table short, and what it takes for a page is
  the descriptor of a table, whose access flag is clear.
\<close>

lemma walk_from_level1:
  assumes ok: "next_ok lk u n" and links: "links lk m lab n" and r: "(r, 0, 0) \<in> lab ` {..<n}"
    and w: "table_walk m 3 0 (tbl lk r) va = Some (j, a, d)"
  shows "\<not> bit d 10"
proof -
  have n3: "(3 :: nat) = Suc (Suc 1)" "Suc 1 = Suc (Suc 0)" by simp_all
  have root: "at_label lab n (r, 0, 0) = r" by (rule at_label_root [OF links r])
  note step = table_walk_step [OF ok links, where va = va]
  define b where "b = child (r, 0, 0) (unat (drop_bit (12 + 9 * Suc 1) va AND 0x1FF))"
  define c where "c = child b (unat (drop_bit (12 + 9 * Suc 0) va AND 0x1FF))"
  let ?i = "drop_bit 12 va AND 0x1FF"
  have lv: "level b < 3" "level c < 3" by (simp_all add: b_def c_def child_def)
  have "b \<in> lab ` {..<n}" "table_walk m (Suc 1) (0 OR (tbl lk (at_label lab n b) OR 3)) (tbl lk (at_label lab n b)) va = Some (j, a, d)"
    using w step [OF r, of 1 0, folded b_def] unfolding n3(1) root by (simp_all split: if_splits)
  then have c: "c \<in> lab ` {..<n}" "\<exists>x. table_walk m (Suc 0) x (tbl lk (at_label lab n c)) va = Some (j, a, d)"
    using step [OF _ lv(1), of 0, folded c_def] unfolding n3(2) by (auto split: if_splits)
  then have d: "d = load64 m (entry_addr (tbl lk (at_label lab n c)) ?i)" "bit d 0" by (auto simp: table_walk_last Let_def split: if_splits)
  note e = table_entry [OF ok links c(1) lv(2) unat_index, of 12 va, folded d(1)]
  then have "child c (unat ?i) \<in> lab ` {..<n}" using d(2) by blast
  then show ?thesis
    using e(1) table_bits(1) [OF ok at_label(1), of _ lab 10] by fastforce
qed

text \<open>The same for the tables of a state of the system, and the address the processor finds.\<close>

definition translated :: "u64 \<Rightarrow> (nat \<times> u64 \<times> u64) option \<Rightarrow> u64 option" where
  "translated va w = map_option (\<lambda>(n, a, d). output_address n d va) w"

lemma OA_MASK_eq: "OA_MASK = mask 48 AND NOT (mask 12)"
  by (simp add: OA_MASK_def mask_eq_exp_minus_1)

lemma output_address_page: "output_address 0 d va = out_addr d OR take_bit 12 va"
  unfolding output_address_def out_addr_def PAGE_MASK_eq OA_MASK_eq
  by (rule bit_eqI) (auto simp: bit_simps)

lemma output_address_physical:
  "output_address 0 d va = take_bit 48 (d AND PAGE_MASK OR va AND NOT PAGE_MASK)"
  unfolding output_address_page out_addr_def PAGE_MASK_eq
  by (rule bit_eqI) (auto simp: bit_simps)

lemma vm_rel_walks:
  assumes v: "vm_rel lk v L F" and r: "(r, 0, 0) \<in> L"
  shows "\<exists>a. plain a \<and> table_walk (fst (snd v)) 4 0 (tbl lk r) va =
      (if bit (F r (vpn va)) 0 \<and> bit (F r (vpn va)) 1 then Some (0, a, F r (vpn va)) else None)"
    "table_walk (fst (snd v)) 3 0 (tbl lk r) va = Some (j, a, d) \<Longrightarrow> \<not> bit d 10"
    "tbl lk r AND OA_MASK = tbl lk r" "tbl lk r \<noteq> 0"
proof -
  obtain lab n where t: "tree lk v lab n" and L: "L = lab ` {..<n}" using v by (auto simp: vm_rel_def)
  have ok: "next_ok lk (fst v) n" and links: "links lk (fst (snd v)) lab n" using t by (simp_all add: tree_def)
  have r': "(r, 0, 0) \<in> lab ` {..<n}" using r L by simp
  show "\<exists>a. plain a \<and> table_walk (fst (snd v)) 4 0 (tbl lk r) va =
      (if bit (F r (vpn va)) 0 \<and> bit (F r (vpn va)) 1 then Some (0, a, F r (vpn va)) else None)"
    using walk_from_level0 [OF ok links r', of va] unfolding vm_rel_pte [OF v r] .
  show "\<not> bit d 10" if "table_walk (fst (snd v)) 3 0 (tbl lk r) va = Some (j, a, d)"
    by (rule walk_from_level1 [OF ok links r' that])
  have k: "r < n" using at_label(1) [OF r'] at_label_root [OF links r'] by simp
  show "tbl lk r AND OA_MASK = tbl lk r" by (rule table_bits(5) [OF ok k])
  show "tbl lk r \<noteq> 0" using ok k by (intro tbl_index_nonzero) (auto simp: next_ok_def)
qed

text \<open>
  The walk of the software is the walk of the processor from level 0: for a root of the kernel's
  tables, \<^verbatim>\<open>mmu_get_physical\<close> gives, in its low 48 bits, the address the processor finds, and the
  processor faults exactly when the page's entry is not a valid page descriptor.
\<close>
theorem get_physical_is_translation:
  assumes "vm_rel lk v L F" "(r, 0, 0) \<in> L"
  shows "translated va (table_walk (fst (snd v)) 4 0 (tbl lk r) va) =
    (if bit (pte_of (fst (snd v)) (tbl lk r) va) 0 \<and> bit (pte_of (fst (snd v)) (tbl lk r) va) 1
     then Some (take_bit 48 (mmu_get_physical (fst (snd v)) (tbl lk r) va)) else None)"
proof -
  let ?m = "fst (snd v)" and ?e = "F r (vpn va)"
  note W = vm_rel_walks(1) [OF assms, of va] and t = vm_rel_walks(4) [OF assms]
  note e = vm_rel_pte [OF assms, of va]
  have "mmu_get_physical ?m (tbl lk r) va = ?e AND PAGE_MASK OR va AND NOT PAGE_MASK" if b: "bit ?e 0"
  proof -
    have "?e \<noteq> 0" using b by auto
    then obtain x where x: "walk ?m (tbl lk r) va = Some x" "load64 ?m x = ?e"
      using e by (auto simp: pte_of_def split: option.splits)
    have "bit (?e AND PTE_VALID) 0" using b by (simp add: PTE_VALID_def bit_simps)
    then have "?e AND PTE_VALID \<noteq> 0" by auto
    then show ?thesis using t x by (simp add: mmu_get_physical_def)
  qed
  then show ?thesis using W unfolding e by (auto simp: translated_def output_address_physical)
qed

section \<open>What the registers make of it\<close>

lemma TCR_regions: "T0SZ TCR_VALUE = 25" "T1SZ TCR_VALUE = 25"
proof -
  have v: "TCR_VALUE = 0x5B5193519"
    by (simp add: TCR_VALUE_def TCR_T0SZ_def TCR_IRGN0_WBWA_def TCR_ORGN0_WBWA_def TCR_SH0_INNER_def TCR_TG0_4K_def
        TCR_T1SZ_def TCR_IRGN1_WBWA_def TCR_ORGN1_WBWA_def TCR_SH1_INNER_def TCR_TG1_4K_def TCR_IPS_48BIT_def
        USER_VA_BITS_def KERNEL_VA_BITS_def)
  show "T0SZ TCR_VALUE = 25" "T1SZ TCR_VALUE = 25"
    unfolding T0SZ_def T1SZ_def v by (simp_all add: take_bit_eq_mod drop_bit_eq_div unat_mod unat_div)
qed

lemma start_level_25: "start_level 25 = 1"
  by (simp add: start_level_def)

lemma translate_TCR_VALUE:
  assumes "tcr_el1 u = TCR_VALUE"
  shows "translate u m va =
    (if drop_bit 39 va = 0 then table_walk m 3 0 (ttbr0_el1 u AND OA_MASK) va
     else if drop_bit 39 va = mask 25 then table_walk m 3 0 (ttbr1_el1 u AND OA_MASK) va else None)"
  by (simp add: translate_def assms TCR_regions start_level_25 Let_def)

lemma reaches_simps [simp]:
  "reaches allows acc va None = None"
  "reaches allows acc va (Some (n, a, d)) = (if allows acc a d then Some (output_address n d va) else None)"
  by (simp_all add: reaches_def)

lemma no_access:
  assumes "\<And>n a d. w = Some (n, a, d) \<Longrightarrow> \<not> bit d 10"
  shows "reaches el0_allows acc va w = None" "reaches el1_allows acc va w = None"
proof -
  consider "w = None" | n a d where "w = Some (n, a, d)" by (cases w) auto
  then have "reaches el0_allows acc va w = None \<and> reaches el1_allows acc va w = None"
  proof cases
    case (2 n a d)
    then have "\<not> bit d 10" using assms by blast
    then have "\<not> el0_allows acc a d" "\<not> el1_allows acc a d" by (cases acc; simp)+
    then show ?thesis unfolding 2 by simp
  qed simp
  then show "reaches el0_allows acc va w = None" "reaches el1_allows acc va w = None" by simp_all
qed

lemma high_address:
  assumes "KERNEL_VA_BASE \<le> va"
  shows "drop_bit 39 va \<noteq> 0"
proof
  assume "drop_bit 39 va = 0"
  then have "unat (drop_bit 39 va) = 0" by simp
  then have "unat va div 2 ^ 39 = 0" by (simp add: drop_bit_eq_div unat_div)
  then show False using assms by (simp add: KERNEL_VA_BASE_def word_le_nat_alt)
qed

text \<open>TTBR0 holds 0 or the root of the current user task.\<close>

lemma current_root:
  assumes R: "sys_rel lk K (mc, E) (c, True, ts, q) L F A B" and t: "ttbr0_el1 (mmu_of (sys_of mc)) \<noteq> 0"
  obtains r where "(r, 0, 0) \<in> L" "ttbr0_el1 (mmu_of (sys_of mc)) = tbl lk r"
proof -
  let ?s = "sched_of (sys_of mc)"
  have "ttbr0_el1 (mmu_of (sys_of mc)) = task_space (tk ?s c)"
    using sys_relD(4) [OF R] rr_rel_current [OF sys_relD(2) [OF R]] by (simp add: space_ok_def)
  moreover from this have "t_level (tk ?s c) = TASK_USER" using t by (simp add: task_space_def split: if_splits)
  moreover have "live ?s c" using rr_live [OF sys_relD(2) [OF R]] by simp
  ultimately show thesis
    using sys_relD(8) [OF R] that by (auto simp: spaces_ok_def user_live_def task_space_def)
qed

lemma system_translation:
  assumes R: "sys_rel lk K (mc, E) (c, True, ts, q) L F A B"
    and va: "ttbr0_el1 (mmu_of (sys_of mc)) \<noteq> 0 \<or> KERNEL_VA_BASE \<le> va \<or>
      \<not> bit (load64 (mem_of (sys_of mc)) (entry_addr 0 (drop_bit 30 va AND 0x1FF))) 0"
    and w: "translate (mmu_of (sys_of mc)) (mem_of (sys_of mc)) va = Some (n, a, d)"
  shows "\<not> bit d 10"
proof -
  let ?u = "mmu_of (sys_of mc)" and ?m = "mem_of (sys_of mc)"
  have on: "tcr_el1 ?u = TCR_VALUE" "ttbr1_el1 ?u = tbl lk 0" "(0, 0, 0) \<in> L"
    using sys_relD(10) [OF R] by (simp_all add: translation_on_def)
  note walks = vm_rel_walks [OF sys_relD(5) [OF R], unfolded vm_of_def fst_conv snd_conv]
  have "\<exists>r. (r, 0, 0) \<in> L \<and> table_walk ?m 3 0 (tbl lk r) va = Some (n, a, d)"
  proof (cases "drop_bit 39 va = 0")
    case True
    have "ttbr0_el1 ?u \<noteq> 0"
    proof
      assume z: "ttbr0_el1 ?u = 0"
      then have "table_walk ?m (Suc 2) 0 0 va = Some (n, a, d)"
        using w True unfolding translate_TCR_VALUE [OF on(1)] by simp
      moreover have "\<not> bit (load64 ?m (entry_addr 0 (drop_bit 30 va AND 0x1FF))) 0" using va z True high_address by blast
      ultimately show False unfolding table_walk.simps by (simp add: Let_def)
    qed
    then obtain r where r: "(r, 0, 0) \<in> L" "ttbr0_el1 ?u = tbl lk r" by (rule current_root [OF R])
    then show ?thesis using w True unfolding translate_TCR_VALUE [OF on(1)] by (auto simp: walks(3) [OF r(1)])
  next
    case False
    then have "table_walk ?m 3 0 (ttbr1_el1 ?u AND OA_MASK) va = Some (n, a, d)"
      using w unfolding translate_TCR_VALUE [OF on(1)] by (simp split: if_splits)
    then show ?thesis using on(2,3) walks(3) [OF on(3)] by auto
  qed
  then show ?thesis using walks(2) by blast
qed

text \<open>
  C11: under the registers \<^verbatim>\<open>mmu_enable\<close> programs, nothing is accessible through the tables the kernel
  builds. In every reachable state translation is on, and no address can be read, written or
  executed, at EL0 or at EL1, when the tables of a user task are in TTBR0, or the address is in the
  kernel's half; and when TTBR0 is 0, as it is for kernel tasks, a low address is accessible at most if
  the memory at address 0 happens to hold a valid descriptor. The reason: \<^verbatim>\<open>TCR_EL1\<close> selects 39-bit regions,
  whose walk starts at level 1, while the tables start at level 0.
\<close>
theorem translation_grants_nothing:
  assumes "sys_inv lk K st" "kernel_steps lk K st (mc, E)"
    and "ttbr0_el1 (mmu_of (sys_of mc)) \<noteq> 0 \<or> KERNEL_VA_BASE \<le> va \<or>
      \<not> bit (load64 (mem_of (sys_of mc)) (entry_addr 0 (drop_bit 30 va AND 0x1FF))) 0"
  shows "bit (sctlr_el1 (mmu_of (sys_of mc))) 0 \<and>
    reaches el0_allows acc va (translate (mmu_of (sys_of mc)) (mem_of (sys_of mc)) va) = None \<and>
    reaches el1_allows acc va (translate (mmu_of (sys_of mc)) (mem_of (sys_of mc)) va) = None"
proof -
  obtain c ts q L F A B where R: "sys_rel lk K (mc, E) (c, True, ts, q) L F A B"
    by (rule sys_invE [OF kernel_steps_inv [OF assms(2,1)]])
  show ?thesis
    using no_access system_translation [OF R assms(3)] sys_relD(10) [OF R] unfolding translation_on_def by metis
qed

section \<open>What user tasks reach through their tables\<close>

lemma unat_output_address:
  assumes f: "f < PAGES_LEN" and d: "out_addr d = page_to_phys f"
  shows "unat (output_address 0 d va) = unat (page_to_phys f) + unat va mod 4096"
proof -
  let ?p = "page_to_phys f" and ?o = "take_bit 12 va"
  have al: "\<not> bit ?p j" if "j < 12" for j
    using arg_cong [OF frame_aligned [OF f], of "\<lambda>x. bit x j"] that by (simp add: bit_simps)
  have "?p + ?o = ?p OR ?o" by (rule disjunctive_add) (use al in \<open>auto simp: bit_simps\<close>)
  moreover have o: "unat ?o = unat va mod 4096" by (simp add: take_bit_eq_mod unat_mod)
  then have "unat (?p + ?o) = unat ?p + unat ?o"
    using unat_page_to_phys [OF f] f by (subst unat_add_no_wrap) (simp_all add: PAGES_LEN_def)
  ultimately show ?thesis using o by (simp add: output_address_page d)
qed

lemma in_block_output:
  assumes f: "f < PAGES_LEN" and d: "out_addr d = page_to_phys f"
  shows "in_block f 1 (output_address 0 d va)" "inside (output_address 0 d va) (page_to_phys f, 4096)"
  using unat_output_address [OF assms, of va] unat_page_to_phys [OF f] by (simp_all add: in_block_def inside_def)

lemma page_rights:
  assumes f: "f < PAGES_LEN" and a: "plain a"
  shows "el0_allows acc a (page_to_phys f OR flags OR PTE_TYPE_PAGE) = el0_allows acc 0 (flags OR PTE_TYPE_PAGE)"
    "el1_allows acc a (page_to_phys f OR flags OR PTE_TYPE_PAGE) = el1_allows acc 0 (flags OR PTE_TYPE_PAGE)"
proof -
  have "unat (page_to_phys f) < 2 ^ 48" using unat_page_to_phys [OF f] f by (simp add: PAGES_LEN_def)
  note r = allows_page [OF this, of acc 0 flags, unfolded and_PAGE_MASK_aligned [OF frame_aligned [OF f]]]
  show "el0_allows acc a (page_to_phys f OR flags OR PTE_TYPE_PAGE) = el0_allows acc 0 (flags OR PTE_TYPE_PAGE)"
    "el1_allows acc a (page_to_phys f OR flags OR PTE_TYPE_PAGE) = el1_allows acc 0 (flags OR PTE_TYPE_PAGE)"
    using plain_allows [OF a] r by simp_all
qed

text \<open>The entry of a page of a user task: nothing, its program or its stack, and what each allows.\<close>

lemma user_walk_cases:
  fixes va :: u64
  assumes R: "sys_rel lk K (mc, E) a L F A B" and i: "user_live (sched_of (sys_of mc)) i"
  defines "w \<equiv> table_walk (mem_of (sys_of mc)) 4 0 (t_page_table (tk (sched_of (sys_of mc)) i)) va"
  obtains (fault) "w = None" "pte_of (mem_of (sys_of mc)) (t_page_table (tk (sched_of (sys_of mc)) i)) va = 0"
  | (prog) f b d where "w = Some (0, b, d)" "out_addr d = page_to_phys f" "f \<in> prog_frames B i" "f < PAGES_LEN"
      "\<not> el0_allows Write b d" "\<not> el1_allows Exec b d"
  | (stack) f b d where "w = Some (0, b, d)" "out_addr d = page_to_phys f" "f \<in> stack_frames (sched_of (sys_of mc))" "f < PAGES_LEN"
      "user_stack_base (tk (sched_of (sys_of mc)) i) = page_to_phys f" "\<not> el0_allows Exec b d" "\<not> el1_allows Exec b d"
proof -
  let ?s = "sched_of (sys_of mc)"
  let ?e = "pte_of (mem_of (sys_of mc)) (t_page_table (tk ?s i)) va"
  obtain r where r: "(r, 0, 0) \<in> L" "t_page_table (tk ?s i) = tbl lk r" using sys_relD(8) [OF R] i by (auto simp: spaces_ok_def)
  note vm = sys_relD(5) [OF R, unfolded vm_of_def]
  obtain b where b: "plain b" "w = (if bit ?e 0 \<and> bit ?e 1 then Some (0, b, ?e) else None)"
    using vm_rel_walks(1) [OF vm r(1), of va] vm_rel_pte [OF vm r(1), of va] by (auto simp: w_def r(2))
  show thesis
  proof (cases "?e = 0")
    case True
    then show thesis using b(2) fault by simp
  next
    case False
    have w: "w = Some (0, b, ?e)" if "?e = x OR y OR PTE_TYPE_PAGE" for x y
      using b(2) unfolding that bit_or_iff by (simp add: PTE_TYPE_PAGE_def bit_simps)
    from R i False show thesis
    proof (cases rule: user_entry_forms)
      case (prog f)
      note x = page_rights [OF prog(3) b(1), of _ PAGE_USER_RX, folded prog(1)]
      have "\<not> el0_allows Write b ?e" "\<not> el1_allows Exec b ?e" unfolding x using attribute_bits(8) by simp_all
      then show thesis using that(2) [OF w [OF prog(1)]] prog out_addr_frame(1) [OF prog(3)] by simp
    next
      case (stack f)
      note x = page_rights [OF stack(5) b(1), of _ PAGE_USER_RW, folded stack(1)]
      have "\<not> el0_allows Exec b ?e" "\<not> el1_allows Exec b ?e" unfolding x using attribute_bits(7) by simp_all
      then show thesis using that(3) [OF w [OF stack(1)]] stack out_addr_frame(2) [OF stack(5)] by (simp add: stack_at_def)
    qed
  qed
qed

text \<open>
  C4: protection of user memory, as the tables are meant to be walked, in every reachable state: what a
  user task can access lies in frames in use outside the kernel's static memory; what it can write
  is in its stack page, memory that belongs to the tasks, and it cannot execute there; what it can
  execute is memory that no task may write, itself included; and the kernel cannot execute a page
  of a user task.
\<close>
theorem user_pages_protected:
  assumes "sys_inv lk K st" "kernel_steps lk K st (mc, E)" "user_live (sched_of (sys_of mc)) i"
    and "w = table_walk (mem_of (sys_of mc)) 4 0 (t_page_table (tk (sched_of (sys_of mc)) i)) va"
  shows "(reaches el0_allows acc va w = Some x \<longrightarrow> x \<notin> K \<and> (\<exists>f \<in> held_set (pmm_of (sys_of mc)). in_block f 1 x)) \<and>
    (reaches el0_allows Write va w = Some x \<longrightarrow>
       inside x (user_stack_base (tk (sched_of (sys_of mc)) i), 4096) \<and> may_write lk K (mc, E) x \<and>
       reaches el0_allows Exec va w = None) \<and>
    (reaches el0_allows Exec va w = Some x \<longrightarrow> \<not> may_write lk K (mc, E) x) \<and>
    reaches el1_allows Exec va w = None"
proof -
  obtain c ts q L F A B where R: "sys_rel lk K (mc, E) (c, True, ts, q) L F A B"
    by (rule sys_invE [OF kernel_steps_inv [OF assms(2,1)]])
  from R assms(3) show ?thesis
  proof (cases rule: user_walk_cases [where va = va])
    case (prog f b d)
    note o = in_block_output [OF prog(4,2), of va]
    have "f \<in> held_set (pmm_of (sys_of mc))" using prog(3) sys_relD(9) [OF R] assms(3) by (auto simp: frames_ok_def)
    moreover from this have "output_address 0 d va \<notin> K" using managed_not_static [OF R _ o(1)] by blast
    moreover have "w = Some (0, b, d)" using prog(1) assms(4) by simp
    ultimately show ?thesis
      using prog(5,6) o(1) program_not_written [OF R assms(3) prog(3,4) o(1)]
      by (auto simp del: el0_allows.simps el1_allows.simps)
  next
    case (stack f b d)
    note o = in_block_output [OF stack(4,2), of va]
    have "f \<in> held_set (pmm_of (sys_of mc))" using stack(3) sys_rel_frames(1) [OF R] by blast
    moreover from this have "output_address 0 d va \<notin> K" using managed_not_static [OF R _ o(1)] by blast
    moreover have "may_write lk K (mc, E) (output_address 0 d va)" using stack(3) o(1) by (auto simp: may_write_def)
    moreover have "w = Some (0, b, d)" using stack(1) assms(4) by simp
    ultimately show ?thesis using stack(5-7) o by (auto simp del: el0_allows.simps el1_allows.simps)
  qed (simp add: assms(4))
qed

text \<open>The kernel's own tables in the same way: DRAM is mapped to itself.\<close>

lemma identity_entry:
  assumes "0x40000000 \<le> unat va" "unat va < 0x44000000"
  shows "id_pte (vpn va) = va AND PAGE_MASK OR PAGE_KERNEL_RWX OR PTE_TYPE_PAGE"
    "output_address 0 (va AND PAGE_MASK OR PAGE_KERNEL_RWX OR PTE_TYPE_PAGE) va = va"
proof -
  have v: "vpn va = unat va div 4096" using assms by (simp add: vpn_def)
  then have r: "0x40000 \<le> vpn va" "vpn va < 0x44000" using assms by linarith+
  have "unat (of_nat (4096 * vpn va) :: u64) = 4096 * vpn va" using r by (intro unat_of_nat_small) simp
  then have "(of_nat (4096 * vpn va) :: u64) = va AND PAGE_MASK"
    by (simp add: word_unat_eq_iff unat_and_PAGE_MASK v del: of_nat_mult)
  then show "id_pte (vpn va) = va AND PAGE_MASK OR PAGE_KERNEL_RWX OR PTE_TYPE_PAGE"
    using r by (simp add: id_pte_def del: of_nat_mult)
  have hi: "\<not> bit va j" if "48 \<le> j" for j using assms(2) that by (intro bit_below_48) simp_all
  have z: "out_addr (PAGE_KERNEL_RWX OR PTE_TYPE_PAGE) = 0" by code_simp
  have d: "out_addr (x OR y) = out_addr x OR out_addr y" for x y :: u64
    by (simp add: out_addr_def bit.conj_disj_distrib2)
  have "out_addr (va AND PAGE_MASK) = va AND PAGE_MASK"
    unfolding out_addr_def by (rule bit_eqI) (use hi not_le in \<open>auto simp: bit_simps\<close>)
  then show "output_address 0 (va AND PAGE_MASK OR PAGE_KERNEL_RWX OR PTE_TYPE_PAGE) va = va"
    unfolding output_address_page d [of "va AND PAGE_MASK"] z
    by (intro bit_eqI) (auto simp: bit_simps PAGE_MASK_eq)
qed

text \<open>
  C20: the kernel in its own tables, as they are meant to be walked, in every reachable state: every
  address of the 64 MB of DRAM is translated to itself, for every access at EL1; at EL0 it cannot be
  read or written, but it can be executed.
\<close>
theorem kernel_identity_translation:
  assumes "sys_inv lk K st" "kernel_steps lk K st (mc, E)" "0x40000000 \<le> unat va" "unat va < 0x44000000"
    and "w = table_walk (mem_of (sys_of mc)) 4 0 (ttbr1_el1 (mmu_of (sys_of mc))) va"
  shows "reaches el1_allows acc va w = Some va \<and>
    reaches el0_allows acc va w = (if acc = Exec then Some va else None)"
proof -
  obtain c ts q L F A B where R: "sys_rel lk K (mc, E) (c, True, ts, q) L F A B"
    by (rule sys_invE [OF kernel_steps_inv [OF assms(2,1)]])
  have on: "ttbr1_el1 (mmu_of (sys_of mc)) = tbl lk 0" "(0, 0, 0) \<in> L" "F 0 = id_pte"
    using sys_relD(10) [OF R] by (simp_all add: translation_on_def)
  let ?e = "va AND PAGE_MASK OR PAGE_KERNEL_RWX OR PTE_TYPE_PAGE"
  note I = identity_entry [OF assms(3,4)]
  have va: "unat va < 2 ^ 48" using assms(4) by simp
  have "bit ?e 0" "bit ?e 1" unfolding or.assoc bit_or_iff by (simp_all add: PTE_TYPE_PAGE_def bit_simps)
  then obtain a where w: "plain a" "w = Some (0, a, ?e)"
    using vm_rel_walks(1) [OF sys_relD(5) [OF R] on(2), of va] assms(5) on(1) by (auto simp: vm_of_def on(3) I(1))
  show ?thesis
    unfolding w(2) reaches_simps plain_allows [OF w(1)] allows_page [OF va] I(2)
    using attribute_bits(4) by (cases acc) simp_all
qed

section \<open>Witnesses\<close>

theorem get_physical_is_translation_witness:
  "translated 0x40400123 (table_walk (fst (snd boot_vm)) 4 0 (tbl lk0 0) 0x40400123) =
     Some (take_bit 48 (mmu_get_physical (fst (snd boot_vm)) (tbl lk0 0) 0x40400123))"
proof -
  obtain F where F: "vm_rel lk0 boot_vm id_labels F" "F 0 = id_pte" using boot_vm_rel by blast
  let ?e = "(0x40400123 AND PAGE_MASK) OR PAGE_KERNEL_RWX OR PTE_TYPE_PAGE"
  have "id_pte (vpn 0x40400123) = ?e" by (rule identity_entry) simp_all
  then have "pte_of (fst (snd boot_vm)) (tbl lk0 0) 0x40400123 = ?e" using vm_rel_pte [OF F(1) boot_root] F(2) by simp
  moreover have "bit ?e 0" "bit ?e 1" unfolding or.assoc bit_or_iff by (simp_all add: PTE_TYPE_PAGE_def bit_simps)
  ultimately show ?thesis using get_physical_is_translation [OF F(1) boot_root, of "0x40400123"] by simp
qed

theorem kernel_identity_translation_witness:
  "\<exists>mc. kernel_init lk0 idle_gic symbols0 0 1 (machine_of reset_sys) = Some mc \<and>
     reaches el1_allows Exec 0x40401000 (table_walk (mem_of (sys_of mc)) 4 0 (ttbr1_el1 (mmu_of (sys_of mc))) 0x40401000) =
       Some 0x40401000"
proof -
  obtain mc0 where f: "kernel_init lk0 idle_gic symbols0 0 1 (machine_of reset_sys) = Some mc0"
    "sys_inv lk0 static_memory (mc0, {})" by (rule first_user)
  have "kernel_steps lk0 static_memory (mc0, {}) (mc0, {})" by (simp add: kernel_steps_def)
  from kernel_identity_translation [OF f(2) this _ _ refl, of "0x40401000" Exec] f(1) show ?thesis by simp
qed

theorem user_pages_protected_witness:
  "\<exists>mc0 mc i x. kernel_init lk0 idle_gic symbols0 0 1 (machine_of reset_sys) = Some mc0 \<and>
     kernel_steps lk0 static_memory (mc0, {}) (mc, {}) \<and> user_live (sched_of (sys_of mc)) i \<and>
     translated 0x400000 (table_walk (mem_of (sys_of mc)) 4 0 (t_page_table (tk (sched_of (sys_of mc)) i)) 0x400000) = Some x \<and>
     reaches el1_allows Exec 0x400000 (table_walk (mem_of (sys_of mc)) 4 0 (t_page_table (tk (sched_of (sys_of mc)) i)) 0x400000) = None"
proof -
  obtain mc0 mc i where k: "kernel_init lk0 idle_gic symbols0 0 1 (machine_of reset_sys) = Some mc0"
    and f: "sys_inv lk0 static_memory (mc0, {})" "kernel_steps lk0 static_memory (mc0, {}) (mc, {})"
    "user_live (sched_of (sys_of mc)) i"
    "pte_of (mem_of (sys_of mc)) (t_page_table (tk (sched_of (sys_of mc)) i)) 0x400000 \<noteq> 0" by (rule first_user)
  obtain c ts q L F A B where R: "sys_rel lk0 static_memory (mc, {}) (c, True, ts, q) L F A B"
    by (rule sys_invE [OF kernel_steps_inv [OF f(2,1)]])
  have "translated 0x400000 (table_walk (mem_of (sys_of mc)) 4 0 (t_page_table (tk (sched_of (sys_of mc)) i)) 0x400000) \<noteq> None"
    using R f(3) by (cases rule: user_walk_cases [where va = "0x400000"]) (use f(4) in \<open>simp_all add: translated_def\<close>)
  then obtain x where
    "translated 0x400000 (table_walk (mem_of (sys_of mc)) 4 0 (t_page_table (tk (sched_of (sys_of mc)) i)) 0x400000) = Some x"
    by blast
  moreover from user_pages_protected [OF f(1-3) refl, of Exec "0x400000" 0] have
    "reaches el1_allows Exec 0x400000 (table_walk (mem_of (sys_of mc)) 4 0 (t_page_table (tk (sched_of (sys_of mc)) i)) 0x400000) = None"
    by (elim conjE)
  ultimately show ?thesis using k f(2,3) by (intro exI conjI)
qed

text \<open>The first user task, when it comes to run.\<close>

lemma first_user_runs:
  obtains mc0 mc where "kernel_init lk0 idle_gic symbols0 0 1 (machine_of reset_sys) = Some mc0"
    "sys_inv lk0 static_memory (mc0, {})" "kernel_steps lk0 static_memory (mc0, {}) (mc, {})"
    "ttbr0_el1 (mmu_of (sys_of mc)) \<noteq> 0"
proof -
  obtain mc0 mc i where f: "kernel_init lk0 idle_gic symbols0 0 1 (machine_of reset_sys) = Some mc0"
    "sys_inv lk0 static_memory (mc0, {})" "kernel_steps lk0 static_memory (mc0, {}) (mc, {})"
    "user_live (sched_of (sys_of mc)) i" "rr_rel (sched_of (sys_of mc)) (0, True, 10, [i])" by (rule first_user)
  obtain mc1 mc2 where t: "kernel_step lk0 static_memory (mc, {}) (mc1, {})" "kernel_step lk0 static_memory (mc1, {}) (mc2, {})"
    "user_live (sched_of (sys_of mc2)) i" "rr_rel (sched_of (sys_of mc2)) (i, True, 10, [0])" by (rule user_turn [OF f(5,4)])
  have steps: "kernel_steps lk0 static_memory (mc0, {}) (mc2, {})"
    using f(3) t(1,2) unfolding kernel_steps_def by (meson rtranclp.rtrancl_into_rtrancl)
  have "i < MAX_TASKS" using t(3) by (simp add: user_live_def live_def)
  moreover obtain c ts q L F A B where "sys_rel lk0 static_memory (mc2, {}) (c, True, ts, q) L F A B"
    by (rule sys_invE [OF kernel_steps_inv [OF steps f(2)]])
  then have "space_ok (sys_of mc2)" by (rule sys_relD)
  ultimately have "ttbr0_el1 (mmu_of (sys_of mc2)) \<noteq> 0"
    using t(3) rr_rel_current [OF t(4)] by (auto simp: space_ok_def task_space_def user_live_def)
  then show thesis by (rule that [OF f(1,2) steps])
qed

theorem translation_grants_nothing_witness:
  "\<exists>mc0 mc. kernel_init lk0 idle_gic symbols0 0 1 (machine_of reset_sys) = Some mc0 \<and>
     kernel_steps lk0 static_memory (mc0, {}) (mc, {}) \<and> ttbr0_el1 (mmu_of (sys_of mc)) \<noteq> 0 \<and>
     reaches el0_allows Exec 0x400000 (translate (mmu_of (sys_of mc)) (mem_of (sys_of mc)) 0x400000) = None"
proof -
  obtain mc0 mc where f: "kernel_init lk0 idle_gic symbols0 0 1 (machine_of reset_sys) = Some mc0"
    "sys_inv lk0 static_memory (mc0, {})" "kernel_steps lk0 static_memory (mc0, {}) (mc, {})"
    "ttbr0_el1 (mmu_of (sys_of mc)) \<noteq> 0" by (rule first_user_runs)
  then show ?thesis using translation_grants_nothing [OF f(2,3)] by blast
qed

end
