(* ===== verification/Demo.thy ===== *)
theory Demo
  imports Boot
begin

unbundle bit_operations_syntax

text \<open>
  The callers of the kernel that come with it: the system call wrappers of \<^verbatim>\<open>include/syscall.h\<close>,
  the demonstration tasks of \<^verbatim>\<open>core/main.c\<close>, and the two user programs under \<^verbatim>\<open>user/\<close>. What a task
  finds when it is resumed after a switch is up to the other tasks, so a program is followed up
  to its first switch, and without a timer interrupt between its calls.
\<close>

section \<open>System calls from EL1\<close>

text \<open>
  \<^verbatim>\<open>svc #0\<close> with \<^verbatim>\<open>x8\<close> and, for some calls, \<^verbatim>\<open>x0\<close> set: the processor notes the address after the
  instruction (\<open>pc\<close>) and the status, masks all interrupts and takes the synchronous vector.
\<close>

definition svc :: "translation \<Rightarrow> (nat \<Rightarrow> u64) \<Rightarrow> (nat \<Rightarrow> u64) \<Rightarrow> u64 \<Rightarrow> u64 option \<Rightarrow> machine \<Rightarrow> machine outcome option" where
  "svc xlate clock regs num arg mc =
     (let c = cpu_of (sys_of mc);
          x = (xreg c)(8 := num);
          x = (case arg of None \<Rightarrow> x | Some a \<Rightarrow> x(0 := a));
          c = c\<lparr>xreg := x, elr_el1 := pc c, spsr_el1 := pstate c, pstate := pstate c OR push_bit 6 0xF\<rparr>
      in sync_exception_el1 xlate clock regs 0x56000000 0 (on_sys (\<lambda>k. k\<lparr>cpu_of := c\<rparr>) mc))"

definition sys_yield :: "translation \<Rightarrow> (nat \<Rightarrow> u64) \<Rightarrow> (nat \<Rightarrow> u64) \<Rightarrow> machine \<Rightarrow> machine outcome option" where
  "sys_yield xlate clock regs mc = svc xlate clock regs SYS_YIELD None mc"

definition sys_exit :: "translation \<Rightarrow> (nat \<Rightarrow> u64) \<Rightarrow> (nat \<Rightarrow> u64) \<Rightarrow> machine \<Rightarrow> machine outcome option" where
  "sys_exit xlate clock regs mc = svc xlate clock regs SYS_EXIT None mc"

definition sys_sleep :: "translation \<Rightarrow> (nat \<Rightarrow> u64) \<Rightarrow> (nat \<Rightarrow> u64) \<Rightarrow> u32 \<Rightarrow> machine \<Rightarrow> machine outcome option" where
  "sys_sleep xlate clock regs ms mc = svc xlate clock regs SYS_SLEEP (Some (ucast ms)) mc"

definition sys_getpid :: "translation \<Rightarrow> (nat \<Rightarrow> u64) \<Rightarrow> (nat \<Rightarrow> u64) \<Rightarrow> machine \<Rightarrow> (u32 \<times> machine) option" where
  "sys_getpid xlate clock regs mc = do {
     mc \<leftarrow> returned (svc xlate clock regs SYS_GETPID None mc);
     Some (ucast (xreg (cpu_of (sys_of mc)) 0), mc)
   }"

definition sys_write :: "translation \<Rightarrow> (nat \<Rightarrow> u64) \<Rightarrow> (nat \<Rightarrow> u64) \<Rightarrow> u64 \<Rightarrow> machine \<Rightarrow> machine outcome option" where
  "sys_write xlate clock regs str mc = svc xlate clock regs SYS_WRITE (Some str) mc"

section \<open>The demonstration tasks\<close>

text \<open>The addresses of the string literals are a parameter; \<^verbatim>\<open>i\<close> is an \<^verbatim>\<open>int\<close>, extended to 64 bits to be printed.\<close>

record literals =
  running_a :: u64
  running_b :: u64
  running_c :: u64
  newline :: u64

definition task_line ::
    "translation \<Rightarrow> (nat \<Rightarrow> u64) \<Rightarrow> (nat \<Rightarrow> u64) \<Rightarrow> u64 \<Rightarrow> u64 \<Rightarrow> u32 \<Rightarrow> machine \<Rightarrow> machine option" where
  "task_line xlate clock regs msg nl i mc = do {
     mc \<leftarrow> returned (sys_write xlate clock regs msg mc);
     let mc = tell [X (scast i)] mc;
     returned (sys_write xlate clock regs nl mc)
   }"

text \<open>The loop for \<open>n\<close> rounds from counter \<open>i\<close>.\<close>

fun task_rounds ::
    "translation \<Rightarrow> (nat \<Rightarrow> u64) \<Rightarrow> (nat \<Rightarrow> u64) \<Rightarrow> u64 \<Rightarrow> u64 \<Rightarrow> u32 \<Rightarrow> nat \<Rightarrow> u32 \<Rightarrow> machine \<Rightarrow> machine option" where
  "task_rounds xlate clock regs msg nl ms 0 i mc = Some mc"
| "task_rounds xlate clock regs msg nl ms (Suc n) i mc = do {
     mc \<leftarrow> task_line xlate clock regs msg nl i mc;
     mc \<leftarrow> returned (sys_sleep xlate clock regs ms mc);
     task_rounds xlate clock regs msg nl ms n (i + 1) mc
   }"

definition task_a ::
    "translation \<Rightarrow> (nat \<Rightarrow> u64) \<Rightarrow> (nat \<Rightarrow> u64) \<Rightarrow> literals \<Rightarrow> nat \<Rightarrow> machine \<Rightarrow> machine option" where
  "task_a xlate clock regs lits n mc = task_rounds xlate clock regs (running_a lits) (newline lits) 500 n 0 mc"

definition task_b ::
    "translation \<Rightarrow> (nat \<Rightarrow> u64) \<Rightarrow> (nat \<Rightarrow> u64) \<Rightarrow> literals \<Rightarrow> nat \<Rightarrow> machine \<Rightarrow> machine option" where
  "task_b xlate clock regs lits n mc = task_rounds xlate clock regs (running_b lits) (newline lits) 700 n 0 mc"

definition task_c ::
    "translation \<Rightarrow> (nat \<Rightarrow> u64) \<Rightarrow> (nat \<Rightarrow> u64) \<Rightarrow> literals \<Rightarrow> nat \<Rightarrow> machine \<Rightarrow> machine option" where
  "task_c xlate clock regs lits n mc = task_rounds xlate clock regs (running_c lits) (newline lits) 1000 n 0 mc"

section \<open>The user programs\<close>

text \<open>
  From EL0 the calls are followed at the dispatcher; what happens around it at entry and exit is
  the subject of \<open>Exceptions\<close>. Argument registers that a program does not set, and that no such call
  looks at, are given as 0.
\<close>

definition ecall :: "translation \<Rightarrow> (nat \<Rightarrow> u64) \<Rightarrow> u64 \<Rightarrow> u64 \<Rightarrow> machine \<Rightarrow> (u64 \<times> machine) option" where
  "ecall xlate clock num a0 mc = returned (syscall_handler xlate clock num a0 0 0 0 mc)"

text \<open>\<^verbatim>\<open>x19\<close> counts down from \<open>n\<close>.\<close>

fun yield_loop :: "translation \<Rightarrow> (nat \<Rightarrow> u64) \<Rightarrow> nat \<Rightarrow> machine \<Rightarrow> machine option" where
  "yield_loop xlate clock 0 mc = Some mc"
| "yield_loop xlate clock (Suc n) mc = do {
     (_, mc) \<leftarrow> ecall xlate clock SYS_YIELD 0 mc;
     yield_loop xlate clock n mc
   }"

definition user_hello :: "translation \<Rightarrow> (nat \<Rightarrow> u64) \<Rightarrow> u64 \<Rightarrow> u64 \<Rightarrow> machine \<Rightarrow> machine outcome option" where
  "user_hello xlate clock hello_msg bye_msg mc = do {
     (_, mc) \<leftarrow> ecall xlate clock SYS_WRITE hello_msg mc;
     mc \<leftarrow> yield_loop xlate clock 5 mc;
     (_, mc) \<leftarrow> ecall xlate clock SYS_WRITE bye_msg mc;
     r \<leftarrow> syscall_handler xlate clock SYS_EXIT 0 0 0 0 mc;
     Some (continue (\<lambda>(_, mc). Returned mc) snd r)
   }"

fun count_loop :: "translation \<Rightarrow> (nat \<Rightarrow> u64) \<Rightarrow> u64 \<Rightarrow> nat \<Rightarrow> machine \<Rightarrow> machine option" where
  "count_loop xlate clock count_msg 0 mc = Some mc"
| "count_loop xlate clock count_msg (Suc n) mc = do {
     (_, mc) \<leftarrow> ecall xlate clock SYS_WRITE count_msg mc;
     (_, mc) \<leftarrow> ecall xlate clock SYS_SLEEP 50 mc;
     count_loop xlate clock count_msg n mc
   }"

definition user_counter ::
    "translation \<Rightarrow> (nat \<Rightarrow> u64) \<Rightarrow> u64 \<Rightarrow> u64 \<Rightarrow> u64 \<Rightarrow> machine \<Rightarrow> machine outcome option" where
  "user_counter xlate clock start_msg count_msg done_msg mc = do {
     (pid, mc) \<leftarrow> ecall xlate clock SYS_GETPID 0 mc;
     (_, mc) \<leftarrow> ecall xlate clock SYS_WRITE start_msg mc;
     mc \<leftarrow> count_loop xlate clock count_msg 3 mc;
     (_, mc) \<leftarrow> ecall xlate clock SYS_WRITE done_msg mc;
     r \<leftarrow> syscall_handler xlate clock SYS_EXIT 0 0 0 0 mc;
     Some (continue (\<lambda>(_, mc). Returned mc) snd r)
   }"

section \<open>Strings and calls\<close>

lemma puts_mem_cstr: "cstr m s xs \<Longrightarrow> puts_mem m s con = Some (print (map C xs) con)"
proof (induction xs arbitrary: s con)
  case Nil
  then show ?case by (subst puts_mem.simps) (simp add: print_def)
next
  case (Cons x xs)
  then have "puts_mem m s con = puts_mem m (s + 1) (print [C x] con)" by (subst puts_mem.simps) auto
  then show ?case using Cons by (simp add: print_def expand_nl_append)
qed

lemma cstr_cong: "cstr m s xs \<Longrightarrow> (\<And>j. j \<le> length xs \<Longrightarrow> m' (s + of_nat j) = m (s + of_nat j)) \<Longrightarrow> cstr m' s xs"
proof (induction xs arbitrary: s)
  case Nil
  then show ?case using Nil.prems(2) [of 0] by simp
next
  case (Cons x xs)
  have "m' s = m s" using Cons.prems(2) [of 0] by simp
  moreover have "m' (s + 1 + of_nat j) = m (s + 1 + of_nat j)" if "j \<le> length xs" for j
    using Cons.prems(2) [of "Suc j"] that by (simp add: add.assoc)
  ultimately show ?case using Cons by simp
qed

text \<open>A string in memory, not in the 272 bytes that a call from here saves registers in.\<close>

definition string_at :: "machine \<Rightarrow> u64 \<Rightarrow> u8 list \<Rightarrow> bool" where
  "string_at mc s xs \<longleftrightarrow> cstr (mem_of (sys_of mc)) s xs \<and>
     (\<forall>j \<le> length xs. let a = unat (s + of_nat j); sp = unat (sp_el1 (cpu_of (sys_of mc))) in a < sp - 272 \<or> sp \<le> a)"

lemma string_at_kept:
  assumes "string_at mc s xs" "272 \<le> unat (sp_el1 (cpu_of (sys_of mc)))" "same_outside (mem_of (sys_of mc)) m (unat (sp_el1 (cpu_of (sys_of mc))) - 272) 272"
  shows "cstr m s xs"
proof (rule cstr_cong)
  show "cstr (mem_of (sys_of mc)) s xs" using assms(1) by (simp add: string_at_def)
  fix j assume "j \<le> length xs"
  then show "m (s + of_nat j) = mem_of (sys_of mc) (s + of_nat j)"
    using assms by (auto simp: string_at_def same_outside_def Let_def)
qed

definition svc_entry :: "u64 \<Rightarrow> u64 option \<Rightarrow> machine \<Rightarrow> machine" where
  "svc_entry num arg mc =
     (let c = cpu_of (sys_of mc);
          x = (xreg c)(8 := num);
          x = (case arg of None \<Rightarrow> x | Some a \<Rightarrow> x(0 := a))
      in on_sys (\<lambda>k. k\<lparr>cpu_of := c\<lparr>xreg := x, elr_el1 := pc c, spsr_el1 := pstate c,
                                    pstate := pstate c OR push_bit 6 0xF\<rparr>\<rparr>) mc)"

lemma svc_eq: "svc xlate clock regs num arg mc = sync_exception_el1 xlate clock regs 0x56000000 0 (svc_entry num arg mc)"
  by (simp add: svc_def svc_entry_def Let_def)

lemma svc_ec: "ec_of 0x56000000 = 0x15"
  by (simp add: ec_of_def)

lemma svc_entry_simps [simp]:
  "sp_el1 (cpu_of (sys_of (svc_entry num arg mc))) = sp_el1 (cpu_of (sys_of mc))"
  "xreg (cpu_of (sys_of (svc_entry num (Some a) mc))) 8 = num" "xreg (cpu_of (sys_of (svc_entry num (Some a) mc))) 0 = a"
  "mem_of (sys_of (svc_entry num arg mc)) = mem_of (sys_of mc)" "con_of (sys_of (svc_entry num arg mc)) = con_of (sys_of mc)"
  by (simp_all add: svc_entry_def Let_def)

lemma sys_write_prints:
  assumes sp: "272 \<le> unat (sp_el1 (cpu_of (sys_of mc)))" and str: "string_at mc s xs"
  obtains mc' where "sys_write (\<lambda>_ _ a. a) clock regs s mc = Some (Returned mc')"
    "con_of (sys_of mc') = print (map C xs) (con_of (sys_of mc))"
    "sp_el1 (cpu_of (sys_of mc')) = sp_el1 (cpu_of (sys_of mc))"
    "same_outside (mem_of (sys_of mc)) (mem_of (sys_of mc')) (unat (sp_el1 (cpu_of (sys_of mc))) - 272) 272"
proof -
  let ?e = "svc_entry SYS_WRITE (Some s) mc"
  define x where "x = xreg (cpu_of (sys_of ?e))"
  define mc1 where "mc1 = clobber regs (enter ?e)"
  have sp': "272 \<le> unat (sp_el1 (cpu_of (sys_of ?e)))" using sp by simp
  obtain c1 m1 where E: "mc1 = on_sys (\<lambda>k. k\<lparr>cpu_of := c1\<lparr>xreg := regs\<rparr>, mem_of := m1\<rparr>) ?e"
    "unat (sp_el1 c1) + 272 = unat (sp_el1 (cpu_of (sys_of ?e)))"
    "same_outside (mem_of (sys_of ?e)) m1 (unat (sp_el1 c1)) 272"
    using enter_spec [OF sp', of regs] unfolding mc1_def by metis
  have "unat (sp_el1 c1) = unat (sp_el1 (cpu_of (sys_of mc))) - 272" using E(2) by simp
  then have "cstr m1 s xs" using string_at_kept [OF str sp] E(3) by simp
  note p = puts_mem_cstr [OF this]
  have x: "x 8 = SYS_WRITE" "x 0 = s" by (simp_all add: x_def)
  define mc2 where "mc2 = mc1\<lparr>sys_of := (sys_of mc1)\<lparr>con_of := print (map C xs) (con_of (sys_of mc))\<rparr>\<rparr>"
  have run: "syscall_handler (\<lambda>_ _ a. a) clock (x 8) (x 0) (x 1) (x 2) (x 3) mc1 = Some (Returned (0, mc2))"
    unfolding x using p
    by (simp add: syscall_handler_def SYS_WRITE_def SYS_YIELD_def SYS_EXIT_def SYS_SLEEP_def SYS_GETPID_def E(1) mc2_def)
  have "x 8 \<noteq> SYS_EXIT" unfolding x by (simp add: SYS_WRITE_def SYS_EXIT_def)
  from svc_returns [OF sp' svc_ec x_def this run [unfolded mc1_def]] show thesis
    using that by (auto simp: sys_write_def svc_eq Let_def mc2_def)
qed

lemma ucast_ucast_32 [simp]: "ucast (ucast w :: u64) = (w :: u32)"
  by (rule bit_eqI) (simp add: bit_simps)

lemma sys_sleep_hangs:
  assumes sp: "272 \<le> unat (sp_el1 (cpu_of (sys_of mc)))" and ms: "ms \<noteq> 0" and still: "\<forall>n. clock n = clock 0"
  shows "sys_sleep xlate clock regs ms mc = None"
proof -
  have "272 \<le> unat (sp_el1 (cpu_of (sys_of (svc_entry SYS_SLEEP (Some (ucast ms)) mc))))" using sp by simp
  moreover have "ucast (xreg (cpu_of (sys_of (svc_entry SYS_SLEEP (Some (ucast ms)) mc))) 0) \<noteq> (0 :: u32)" using ms by simp
  ultimately show ?thesis
    unfolding sys_sleep_def svc_eq 
    by (intro sleep_hangs [OF _ svc_ec]) (use svc_entry_simps(2) still in \<open>simp_all (no_asm_use)\<close>, metis still)
qed

section \<open>The demonstration tasks stop in their first sleep\<close>

lemma string_at_mono:
  assumes "string_at mc s xs" "272 \<le> unat (sp_el1 (cpu_of (sys_of mc)))"
    "same_outside (mem_of (sys_of mc)) (mem_of (sys_of mc')) (unat (sp_el1 (cpu_of (sys_of mc))) - 272) 272"
    "sp_el1 (cpu_of (sys_of mc')) = sp_el1 (cpu_of (sys_of mc))"
  shows "string_at mc' s xs"
  using string_at_kept [OF assms(1-3)] assms(1,4) by (simp add: string_at_def)

lemma told_fields [simp]:
  "mem_of (sys_of (tell items mc)) = mem_of (sys_of mc)" "cpu_of (sys_of (tell items mc)) = cpu_of (sys_of mc)"
  "con_of (sys_of (tell items mc)) = print items (con_of (sys_of mc))"
  by (simp_all add: tell_def say_def)

lemma print_twice: "print ys (print xs con) = print (xs @ ys) con"
  by (simp add: print_def expand_nl_append)

lemma task_line_prints:
  assumes sp: "272 \<le> unat (sp_el1 (cpu_of (sys_of mc)))" and msg: "string_at mc msg xs" and nl: "string_at mc nl ys"
  obtains mc' where "task_line (\<lambda>_ _ a. a) clock regs msg nl i mc = Some mc'"
    "con_of (sys_of mc') = print (map C xs @ X (scast i) # map C ys) (con_of (sys_of mc))"
    "sp_el1 (cpu_of (sys_of mc')) = sp_el1 (cpu_of (sys_of mc))"
proof -
  obtain m1 where 1: "sys_write (\<lambda>_ _ a. a) clock regs msg mc = Some (Returned m1)"
    "con_of (sys_of m1) = print (map C xs) (con_of (sys_of mc))" "sp_el1 (cpu_of (sys_of m1)) = sp_el1 (cpu_of (sys_of mc))"
    "same_outside (mem_of (sys_of mc)) (mem_of (sys_of m1)) (unat (sp_el1 (cpu_of (sys_of mc))) - 272) 272"
    by (rule sys_write_prints [OF sp msg])
  let ?m = "tell [X (scast i)] m1"
  have "string_at ?m nl ys" using string_at_mono [OF nl sp 1(4,3)] by (simp add: string_at_def)
  moreover have "272 \<le> unat (sp_el1 (cpu_of (sys_of ?m)))" using sp 1(3) by simp
  ultimately obtain m2 where 2: "sys_write (\<lambda>_ _ a. a) clock regs nl ?m = Some (Returned m2)"
    "con_of (sys_of m2) = print (map C ys) (con_of (sys_of ?m))" "sp_el1 (cpu_of (sys_of m2)) = sp_el1 (cpu_of (sys_of ?m))"
    using sys_write_prints by blast
  show thesis by (rule that [of m2]) (use 1(2,3) 2(2,3) in \<open>simp_all add: task_line_def 1(1) 2(1) returned_def print_twice say_def\<close>)
qed

lemma task_rounds_hang:
  assumes sp: "272 \<le> unat (sp_el1 (cpu_of (sys_of mc)))" and msg: "string_at mc msg xs" and nl: "string_at mc nl ys"
    and still: "\<forall>n. clock n = clock 0" and ms: "ms \<noteq> 0"
  shows "task_rounds (\<lambda>_ _ a. a) clock regs msg nl ms (Suc n) i mc = None"
proof -
  obtain m where m: "task_line (\<lambda>_ _ a. a) clock regs msg nl i mc = Some m"
    "sp_el1 (cpu_of (sys_of m)) = sp_el1 (cpu_of (sys_of mc))"
    by (rule task_line_prints [OF sp msg nl])
  have "sys_sleep (\<lambda>_ _ a. a) clock regs ms m = None" by (rule sys_sleep_hangs [OF _ ms still]) (use sp m(2) in simp)
  then show ?thesis by (simp add: m(1) returned_def)
qed

text \<open>
  C33: Each demonstration task prints its line once, with the number 0, and then stays in
  \<^verbatim>\<open>sys_sleep\<close>: the call is taken with interrupts masked, so the tick counter stands still, and no
  number of rounds beyond the first is ever reached.
\<close>
theorem demo_task_prints_once:
  assumes "272 \<le> unat (sp_el1 (cpu_of (sys_of mc)))" "\<forall>n. clock n = clock 0"
    "string_at mc (running_a lits) xa" "string_at mc (running_b lits) xb" "string_at mc (running_c lits) xc"
    "string_at mc (newline lits) [10]" "(task, msg, xs) \<in> {(task_a, running_a lits, xa), (task_b, running_b lits, xb), (task_c, running_c lits, xc)}"
  shows "(\<exists>mc'. task_line (\<lambda>_ _ a. a) clock regs msg (newline lits) 0 mc = Some mc' \<and>
      con_of (sys_of mc') = print (map C xs @ [X 0, NL]) (con_of (sys_of mc))) \<and>
    task (\<lambda>_ _ a. a) clock regs lits (Suc n) mc = None"
proof -
  have msg: "string_at mc msg xs" using assms(3-5,7) by auto
  obtain m where "task_line (\<lambda>_ _ a. a) clock regs msg (newline lits) 0 mc = Some m"
    "con_of (sys_of m) = print (map C xs @ [X 0, C 10]) (con_of (sys_of mc))"
    using task_line_prints [OF assms(1) msg assms(6), of clock regs 0] by auto
  moreover have "print (map C xs @ [X 0, C 10]) (con_of (sys_of mc)) = print (map C xs @ [X 0, NL]) (con_of (sys_of mc))"
    by (simp add: print_def)
  moreover have "task (\<lambda>_ _ a. a) clock regs lits (Suc n) mc = None"
    using assms(7) task_rounds_hang [OF assms(1) msg assms(6,2), of _ regs n 0] by (auto simp: task_a_def task_b_def task_c_def)
  ultimately show ?thesis by simp
qed

text \<open>Strings in memory for a machine to run the first task on.\<close>

definition demo_mem :: mem where
  "demo_mem = (\<lambda>_. 0)(0x1000 := 65, 0x1010 := 66, 0x1020 := 67, 0x1030 := 10)"

definition demo_machine :: machine where
  "demo_machine = (machine_of reset_sys)\<lparr>sys_of := reset_sys\<lparr>mem_of := demo_mem\<rparr>\<rparr>"

lemma demo_strings:
  "272 \<le> unat (sp_el1 (cpu_of (sys_of demo_machine)))"
  "string_at demo_machine 0x1000 [65]" "string_at demo_machine 0x1010 [66]" "string_at demo_machine 0x1020 [67]"
  "string_at demo_machine 0x1030 [10]"
  by (simp_all add: demo_machine_def reset_sys_def string_at_def demo_mem_def le_Suc_eq all_conj_distrib imp_disjL Let_def)

theorem demo_task_prints_once_witness:
  "(\<exists>mc'. task_line (\<lambda>_ _ a. a) (\<lambda>_. 7) (\<lambda>_. 0) 0x1000 0x1030 0 demo_machine = Some mc' \<and>
      con_of (sys_of mc') = print [C 65, X 0, NL] []) \<and>
    task_a (\<lambda>_ _ a. a) (\<lambda>_. 7) (\<lambda>_. 0)
      \<lparr>running_a = 0x1000, running_b = 0x1010, running_c = 0x1020, newline = 0x1030\<rparr> (Suc 4) demo_machine = None"
proof -
  let ?l = "\<lparr>running_a = 0x1000, running_b = 0x1010, running_c = 0x1020, newline = 0x1030\<rparr> :: literals"
  have "con_of (sys_of demo_machine) = []" by (simp add: demo_machine_def reset_sys_def)
  moreover note demo_task_prints_once [of demo_machine "\<lambda>_. 7" ?l "[65]" "[66]" "[67]" task_a "0x1000" "[65]" "\<lambda>_. 0" 4,
      OF demo_strings(1) _ _ _ _ _]
  ultimately show ?thesis using demo_strings by simp
qed

section \<open>The user programs at the kernel's interface\<close>

lemma schedule_con [simp]: "con_of (snd (schedule k)) = con_of k"
  by (simp add: schedule_def dispatch_def switch_tasks_def set_vm_def vm_of_def mmu_switch_user_table_def on_sched_def
    Let_def split_beta split: option.split)

lemma release_stack_con: "release_stack base k = Some k' \<Longrightarrow> con_of k' = con_of k \<and> sched_of k' = sched_of k"
  by (auto simp: release_stack_def bind_eq_Some_conv)

lemma task_exit_con:
  assumes "task_exit k = Some (b, k')" "current_task (sched_of k) = Some c"
  shows "con_of k' = print [S ''Task '', S (t_name (tk (sched_of k) c)), S '' exiting'', NL] (con_of k)"
  using assms
  by (auto simp: task_exit_def bind_eq_Some_conv Let_def split_beta on_sched_def say_def split: if_splits dest!: release_stack_con)

lemma ecall_yield: "ecall xlate clock SYS_YIELD a mc = Some (0, on_sys task_yield mc)"
  by (simp add: ecall_def syscall_handler_def returned_def)

lemma ecall_write:
  assumes "cstr (\<lambda>a. mem_of (sys_of mc) (xlate (mmu_of (sys_of mc)) (mem_of (sys_of mc)) a)) s xs"
  shows "ecall xlate clock SYS_WRITE s mc =
    Some (0, on_sys (\<lambda>k. k\<lparr>con_of := print (map C xs) (con_of k)\<rparr>) mc)"
  using puts_mem_cstr [OF assms]
  by (simp add: Let_def ecall_def syscall_handler_def returned_def on_sys_def SYS_WRITE_def SYS_YIELD_def SYS_EXIT_def SYS_SLEEP_def SYS_GETPID_def)

lemma on_sys_twice [simp]: "on_sys f (on_sys g mc) = on_sys (\<lambda>k. f (g k)) mc"
  by (simp add: on_sys_def)

lemma yield_loop_yields: "yield_loop xlate clock (Suc n) mc = Some (on_sys task_yield mc)"
  by (induction n arbitrary: mc) (simp_all add: ecall_yield)

lemma task_yield_kept [simp]:
  "mem_of (task_yield k) = mem_of k" "mmu_of (task_yield k) = mmu_of k" "con_of (task_yield k) = con_of k"
  "pmm_of (task_yield k) = pmm_of k" "current_task (sched_of (task_yield k)) = current_task (sched_of k)"
  "t_name (tk (sched_of (task_yield k)) i) = t_name (tk (sched_of k) i)" "stacks (sched_of (task_yield k)) = stacks (sched_of k)"
  "stack_at (sched_of (task_yield k)) = stack_at (sched_of k)"
  "task_frames (sched_of (task_yield k)) i = task_frames (sched_of k) i"
proof -
  show s: "stacks (sched_of (task_yield k)) = stacks (sched_of k)" "stack_at (sched_of (task_yield k)) = stack_at (sched_of k)"
    by (auto simp: task_yield_def on_sched_def stacks_def stack_at_def live_def fun_eq_iff split: option.split)
  show "task_frames (sched_of (task_yield k)) i = task_frames (sched_of k) i" by (simp add: task_frames_def s)
qed (auto simp: task_yield_def on_sched_def split: option.split)

text \<open>The kernel state in which \<^verbatim>\<open>user_hello\<close> makes its last call.\<close>

definition hello_done :: "u8 list \<Rightarrow> u8 list \<Rightarrow> sys \<Rightarrow> sys" where
  "hello_done xs ys k = (task_yield k)\<lparr>con_of := print (map C xs @ map C ys) (con_of k)\<rparr>"

lemma user_hello_exits:
  assumes "cstr (\<lambda>a. mem_of (sys_of mc) (xlate (mmu_of (sys_of mc)) (mem_of (sys_of mc)) a)) hello xs"
    "cstr (\<lambda>a. mem_of (sys_of mc) (xlate (mmu_of (sys_of mc)) (mem_of (sys_of mc)) a)) bye ys"
  shows "user_hello xlate clock hello bye mc =
    (do { r \<leftarrow> syscall_handler xlate clock SYS_EXIT 0 0 0 0 (on_sys (hello_done xs ys) mc);
          Some (continue (\<lambda>(_, mc). Returned mc) snd r) })"
proof -
  have 5: "yield_loop xlate clock 5 m = Some (on_sys task_yield m)" for m
    using yield_loop_yields [of xlate clock 4 m] by (simp add: eval_nat_numeral)
  have "on_sys (\<lambda>k. (task_yield (k\<lparr>con_of := print (map C xs) (con_of k)\<rparr>))\<lparr>con_of := print (map C ys) (print (map C xs) (con_of k))\<rparr>) mc
    = on_sys (hello_done xs ys) mc"
    by (simp add: on_sys_def hello_done_def print_twice task_yield_def on_sched_def split: option.split)
  then show ?thesis
    using assms by (simp add: user_hello_def ecall_write 5 del: One_nat_def)
qed

text \<open>
  The user program \<^verbatim>\<open>user_hello\<close>, run by the current task while another task is ready,
  goes through all of its calls: both of its messages are printed, followed by the kernel's message
  for its exit, the five yields only mark it for rescheduling, and its exit switches to the first
  ready task; its slot is then free, its stack frames are back with the allocator, and the
  invariant of the kernel holds.
\<close>
theorem user_hello_completes:
  assumes "sys_inv lk K (mc, E)" "rr_rel (sched_of (sys_of mc)) (c, True, ts, q)" "q \<noteq> []"
    "cstr (\<lambda>a. mem_of (sys_of mc) (xlate (mmu_of (sys_of mc)) (mem_of (sys_of mc)) a)) hello xs"
    "cstr (\<lambda>a. mem_of (sys_of mc) (xlate (mmu_of (sys_of mc)) (mem_of (sys_of mc)) a)) bye ys"
  shows "\<exists>mc'. user_hello xlate clock hello bye mc = Some (Switched mc') \<and> sys_inv lk K (mc', E) \<and>
    con_of (sys_of mc') = print (map C xs @ map C ys @
      [S ''Task '', S (t_name (tk (sched_of (sys_of mc)) c)), S '' exiting'', NL]) (con_of (sys_of mc)) \<and>
    current_task (sched_of (sys_of mc')) = Some (hd q) \<and> \<not> live (sched_of (sys_of mc')) c \<and>
    free_set (pmm_of (sys_of mc')) = free_set (pmm_of (sys_of mc)) \<union> task_frames (sched_of (sys_of mc)) c"
proof -
  let ?m = "on_sys (hello_done xs ys) mc" and ?k = "hello_done xs ys (sys_of mc)"
  obtain c' ts' q' L F A B where R: "sys_rel lk K (mc, E) (c', True, ts', q') L F A B" by (rule sys_invE [OF assms(1)])
  have "sys_rel lk K (on_sys task_yield mc, E) (c', True, 0, q') L F A B" using yield_rel [OF R, of "on_sys task_yield mc"] by simp
  from run_rel [OF this, where mc' = ?m and c = "cpu_of (sys_of mc)" and m = "mem_of (sys_of mc)" and con = "con_of ?k"]
  have m: "sys_rel lk K (?m, E) (c', True, 0, q') L F A B"
    by (simp add: hello_done_def task_yield_def on_sched_def split: option.split)
  have k: "rr_rel (sched_of ?k) (c, True, 0, q)" "stacks_ok ?k" "sched_of ?k = sched_of (task_yield (sys_of mc))"
    "pmm_of ?k = pmm_of (sys_of mc)"
    using yield_rr [OF assms(2)] sys_relD(3) [OF m] by (simp_all add: hello_done_def)
  obtain k1 where x: "exited c ?k k1" "task_exit ?k = Some (True, snd (schedule k1))"
    "rr_rel (sched_of (snd (schedule k1))) (hd q, True, 10, tl q)" "pmm_of (snd (schedule k1)) = pmm_of k1"
    using task_exit_spec [OF k(1,2)] assms(3) by auto
  let ?mc' = "?m\<lparr>sys_of := snd (schedule k1)\<rparr>"
  have run: "syscall_handler xlate clock SYS_EXIT 0 0 0 0 ?m = Some (Switched (0, ?mc'))"
    using x(2) by (simp add: syscall_handler_def SYS_YIELD_def SYS_EXIT_def)
  have "user_hello xlate clock hello bye mc = Some (Switched ?mc')"
    unfolding user_hello_exits [where mc = mc and xlate = xlate, OF assms(4,5)] run by simp
  moreover have "sys_inv lk K (?mc', E)" using syscall_inv [OF sys_invI [OF m] run] by simp
  moreover have "con_of (snd (schedule k1)) = print (map C xs @ map C ys @
      [S ''Task '', S (t_name (tk (sched_of (sys_of mc)) c)), S '' exiting'', NL]) (con_of (sys_of mc))"
    using task_exit_con [OF x(2) rr_rel_current [OF k(1)]] by (simp add: k(3) hello_done_def print_twice)
  moreover have "c \<notin> insert (hd q) (set (tl q))"
    using rr_current_notin [OF assms(2)] assms(3) by (cases q) auto
  then have "\<not> live (sched_of (snd (schedule k1))) c" using rr_live [OF x(3)] by simp
  moreover have "free_set (pmm_of (snd (schedule k1))) = free_set (pmm_of (sys_of mc)) \<union> task_frames (sched_of (sys_of mc)) c"
    using x(1) by (simp add: exited_def x(4) k)
  ultimately show ?thesis using rr_rel_current [OF x(3)] by (intro exI [of _ ?mc']) simp
qed

lemma hello_machine:
  obtains mc c ts q where "sys_inv lk0 static_memory (mc, {})" "rr_rel (sched_of (sys_of mc)) (c, True, ts, q)" "q \<noteq> []"
    "cstr (mem_of (sys_of mc)) 0x40410000 [72, 105]" "cstr (mem_of (sys_of mc)) 0x40410008 [66]"
proof -
  have "bss_clear (sys_of (machine_of reset_sys))" "38 \<le> cap lk0" using reset_ok by (simp_all add: machine_of_def lk0_ok)
  from kernel_init_boots [OF reset_ok(1) this(2,1) idle_gic_live, of symbols0 0 1] obtain mc0 F h where
    R: "sys_rel lk0 static_memory (mc0, {}) (0, True, 10, []) id_labels F no_objects (\<lambda>_. (0, 0))"
    and free: "free_set (pmm_of (sys_of mc0)) = {..<1024} \<union> {5120..<16384} - {h}" by blast
  note D = sys_relD [OF R]
  have "\<not> live (sched_of (sys_of mc0)) 1" "(1 :: nat) < MAX_TASKS" using rr_live [OF D(2)] by (simp_all add: MAX_TASKS_def)
  then obtain i where slot: "find_slot (sched_of (sys_of mc0)) 0 MAX_TASKS = Some i"
    using find_slot_None [of "sched_of (sys_of mc0)" 0 MAX_TASKS]
    by (cases "find_slot (sched_of (sys_of mc0)) 0 MAX_TASKS") (auto simp: live_def)
  have "(if h = 0 then 1 else 0) \<in> free_set (pmm_of (sys_of mc0))" unfolding free by simp
  then have ne: "free_set (pmm_of (sys_of mc0)) \<noteq> {}" by blast
  from task_create_spec [OF D(2,3) slot ne, of "''Task1''" "0x40402000" 7 1]
  obtain tid k where k: "task_create ''Task1'' 0x40402000 7 1 (sys_of mc0) = Some (tid, k)" "rr_rel (sched_of k) (0, True, 10, [i])"
    by auto
  let ?mc = "mc0\<lparr>sys_of := k\<rparr>"
  let ?m = "(mem_of k)(0x40410000 := 72, 0x40410001 := 105, 0x40410002 := 0, 0x40410008 := 66, 0x40410009 := 0)"
  have I: "sys_inv lk0 static_memory (?mc, {})" by (rule create_inv [OF sys_invI [OF R] k(1)])
  have w: "may_write lk0 static_memory (?mc, {}) x" if "x \<in> {0x40410000 .. 0x4041000F}" for x
  proof -
    have "x = 0x40410000 + of_nat (unat (x - 0x40410000))" by simp
    moreover have "unat (x - 0x40410000) < 16" using that by (auto simp: word_le_nat_alt unat_sub)
    ultimately have "x \<in> static_memory" using static_image [of "0x40410000" 16 "unat (x - 0x40410000)"] by simp
    moreover have "\<not> in_space lk0 x" using that by (simp add: in_space_def lk0_def word_le_nat_alt)
    ultimately show ?thesis by (simp add: may_write_def)
  qed
  let ?n = "?mc\<lparr>sys_of := k\<lparr>mem_of := ?m\<rparr>\<rparr>"
  have "kernel_step lk0 static_memory (?mc, {}) (?n, {})"
    by (rule kernel_step.run [where c = "cpu_of k" and m = ?m and con = "con_of k"]) (use w in \<open>auto simp: word_le_nat_alt\<close>)
  then have "sys_inv lk0 static_memory (?n, {})" using kernel_step_inv I by blast
  moreover have "rr_rel (sched_of (sys_of ?n)) (0, True, 10, [i])" using k(2) by simp
  ultimately show thesis by (rule that) simp_all
qed

theorem user_hello_completes_witness:
  "\<exists>mc c q mc'. (\<exists>ts. rr_rel (sched_of (sys_of mc)) (c, True, ts, q)) \<and>
     user_hello (\<lambda>_ _ a. a) (\<lambda>_. 0) 0x40410000 0x40410008 mc = Some (Switched mc') \<and>
     current_task (sched_of (sys_of mc')) = Some (hd q)"
proof -
  obtain mc c ts q where m: "sys_inv lk0 static_memory (mc, {})" "rr_rel (sched_of (sys_of mc)) (c, True, ts, q)" "q \<noteq> []"
    "cstr (mem_of (sys_of mc)) 0x40410000 [72, 105]" "cstr (mem_of (sys_of mc)) 0x40410008 [66]" by (rule hello_machine)
  then show ?thesis using user_hello_completes [OF m(1-3), of "\<lambda>_ _ a. a" "0x40410000" "[72, 105]" "0x40410008" "[66]" "\<lambda>_. 0"]
    by auto
qed

text \<open>
  \<^verbatim>\<open>user_counter\<close> gets no further than its first sleep, after its first two messages.
\<close>

lemma user_counter_hangs:
  assumes still: "\<And>n. clock n = clock 0"
    and str: "cstr (\<lambda>a. mem_of (sys_of mc) (xlate (mmu_of (sys_of mc)) (mem_of (sys_of mc)) a)) start_msg xs"
      "cstr (\<lambda>a. mem_of (sys_of mc) (xlate (mmu_of (sys_of mc)) (mem_of (sys_of mc)) a)) count_msg ys"
  shows "user_counter xlate clock start_msg count_msg done_msg mc = None"
proof -
  let ?m = "on_sys (\<lambda>k. k\<lparr>con_of := print (map C xs) (con_of k)\<rparr>) mc"
  obtain pid where pid: "ecall xlate clock SYS_GETPID 0 mc = Some (pid, mc)"
    by (simp add: ecall_def syscall_handler_def returned_def SYS_YIELD_def SYS_EXIT_def SYS_SLEEP_def SYS_GETPID_def)
  have z: "uptime_ms (clock n) - uptime_ms (clock 0) = 0" for n using still [of n] by simp
  have "task_sleep clock 50 k = None" for k
    unfolding task_sleep_def sleep_loop_eq by (simp add: z)
  then have "count_loop xlate clock count_msg 3 ?m = None"
    using str(2)
    by (simp add: eval_nat_numeral ecall_write)
       (simp add: ecall_def syscall_handler_def returned_def SYS_YIELD_def SYS_EXIT_def SYS_SLEEP_def)
  then show ?thesis by (simp add: user_counter_def pid ecall_write [where xlate = xlate and mc = mc, OF str(1)])
qed

end
