(* ===== verification/Programs.thy ===== *)
theory Programs
  imports Translation Demo
begin

text \<open>
  The user programs from the kernel image to the console: the bytes that \<^verbatim>\<open>task_create_user\<close> loads stay
  as they are and stay mapped at \<^verbatim>\<open>USER_PROG_BASE\<close> as long as the task lives, whatever else happens,
  so a program finds its code and its messages where the link scripts placed them.
\<close>

section \<open>A task's program over time\<close>

text \<open>Steps of the kernel after each of which slot \<open>i\<close> holds a live user task.\<close>

definition steps_alive :: "linker \<Rightarrow> u64 set \<Rightarrow> nat \<Rightarrow> kstate \<Rightarrow> kstate \<Rightarrow> bool" where
  "steps_alive lk K i = (\<lambda>st st'. kernel_step lk K st st' \<and> user_live (sched_of (sys_of (fst st'))) i)\<^sup>*\<^sup>*"

lemma program_persists:
  assumes "steps_alive lk K i st st'"
    and "sys_rel lk K st (c, True, ts, q) L F A B" "user_live (sched_of (sys_of (fst st))) i"
  obtains c' ts' q' L' F' A' B' where "sys_rel lk K st' (c', True, ts', q') L' F' A' B'"
    "user_live (sched_of (sys_of (fst st'))) i" "B' i = B i"
    "t_page_table (tk (sched_of (sys_of (fst st'))) i) = t_page_table (tk (sched_of (sys_of (fst st))) i)"
    "\<And>f x. f \<in> prog_frames B i \<Longrightarrow> in_block f 1 x \<Longrightarrow> mem_of (sys_of (fst st')) x = mem_of (sys_of (fst st)) x"
proof -
  have "\<exists>c' ts' q' L' F' A' B'. sys_rel lk K st' (c', True, ts', q') L' F' A' B' \<and>
    user_live (sched_of (sys_of (fst st'))) i \<and> B' i = B i \<and>
    t_page_table (tk (sched_of (sys_of (fst st'))) i) = t_page_table (tk (sched_of (sys_of (fst st))) i) \<and>
    (\<forall>f \<in> prog_frames B i. \<forall>x. in_block f 1 x \<longrightarrow> mem_of (sys_of (fst st')) x = mem_of (sys_of (fst st)) x)"
    using assms(1) unfolding steps_alive_def
  proof (induction rule: rtranclp_induct)
    case base
    show ?case using assms(2,3) by blast
  next
    case (step s s')
    then obtain c' ts' q' L' F' A' B' where R: "sys_rel lk K s (c', True, ts', q') L' F' A' B'"
      and h: "user_live (sched_of (sys_of (fst s))) i" "B' i = B i"
        "t_page_table (tk (sched_of (sys_of (fst s))) i) = t_page_table (tk (sched_of (sys_of (fst st))) i)"
        "\<forall>f \<in> prog_frames B i. \<forall>x. in_block f 1 x \<longrightarrow> mem_of (sys_of (fst s)) x = mem_of (sys_of (fst st)) x" by blast
    have s: "kernel_step lk K (fst s, snd s) s'" "user_live (sched_of (sys_of (fst s'))) i" using step by auto
    have "sys_next lk K (fst s) B' s'" by (rule kernel_step_next [OF s(1)]) (use R in simp)
    then obtain c2 ts2 q2 L2 F2 A2 B2 where R2: "sys_rel lk K s' (c2, True, ts2, q2) L2 F2 A2 B2"
      and k: "programs_kept (fst s) B' (fst s') B2" by (rule sys_nextE)
    have "prog_frames B' i = prog_frames B i" using h(2) by (simp add: prog_frames_def)
    then show ?case using R2 k h s(2) unfolding programs_kept_def by metis
  qed
  then show thesis using that by (elim exE conjE) blast
qed

text \<open>The page of a program byte, in the task's tables.\<close>

lemma program_walk:
  fixes j :: nat
  assumes R: "sys_rel lk K (mc, E) a L F A B" and i: "user_live (sched_of (sys_of mc)) i" and j: "j < 4096 * snd (B i)"
  defines "va \<equiv> USER_PROG_BASE + of_nat j"
  obtains b d where "table_walk (mem_of (sys_of mc)) 4 0 (t_page_table (tk (sched_of (sys_of mc)) i)) va = Some (0, b, d)"
    "output_address 0 d va = page_to_phys (fst (B i)) + of_nat j" "fst (B i) + j div 4096 \<in> prog_frames B i"
    "in_block (fst (B i) + j div 4096) 1 (page_to_phys (fst (B i)) + of_nat j)"
    "el0_allows Read b d" "el0_allows Exec b d" "el1_allows Read b d"
proof -
  let ?s = "sched_of (sys_of mc)"
  let ?f = "fst (B i) + j div 4096"
  obtain r where r: "(r, 0, 0) \<in> L" "t_page_table (tk ?s i) = tbl lk r" "snd (B i) \<le> 8"
    "F r = user_ptes (page_to_phys (fst (B i))) (snd (B i)) (user_stack_base (tk ?s i))"
    using sys_relD(8) [OF R] i by (auto simp: spaces_ok_def)
  have j8: "j < 0x8000" "j div 4096 < snd (B i)" using j r(3) by (simp_all add: less_mult_imp_div_less mult.commute)
  have va: "unat va = 0x400000 + j"
    unfolding va_def USER_PROG_BASE_def using j8 by (subst unat_add_no_wrap) (simp_all add: unat_of_nat_small)
  have v: "vpn va = 0x400 + j div 4096" using j8 by (simp add: vpn_def va)
  have f: "?f \<in> prog_frames B i" using j8 by (simp add: prog_frames_def)
  have b: "?f < PAGES_LEN" by (rule program_frame_bound(2) [OF R i f])
  have e: "F r (vpn va) = page_to_phys ?f OR PAGE_USER_RX OR PTE_TYPE_PAGE"
    unfolding r(4) user_ptes_def v using j8(2) page_to_phys_plus [OF b] by (simp del: of_nat_mult)
  have "bit (F r (vpn va)) 0" "bit (F r (vpn va)) 1" unfolding e bit_or_iff by (simp_all add: PTE_TYPE_PAGE_def bit_simps)
  then obtain a' where w: "plain a'" "table_walk (mem_of (sys_of mc)) 4 0 (tbl lk r) va = Some (0, a', F r (vpn va))"
    using vm_rel_walks(1) [OF sys_relD(5) [OF R, unfolded vm_of_def] r(1), of va] by auto
  have o: "unat (output_address 0 (F r (vpn va)) va) = 0x40000000 + (fst (B i) + j div 4096) * 4096 + j mod 4096"
    unfolding e unat_output_address [OF b out_addr_frame(1) [OF b]] unat_page_to_phys [OF b] va
    using mod_mult_self3 [of 1024 4096 j] by simp
  have b0: "fst (B i) < PAGES_LEN" using b by simp
  have p: "unat (page_to_phys (fst (B i)) + of_nat j) = 0x40000000 + fst (B i) * 4096 + j"
    using unat_page_to_phys [OF b0] b0 j8 by (subst unat_add_no_wrap) (simp_all add: unat_of_nat_small PAGES_LEN_def)
  have eq: "output_address 0 (F r (vpn va)) va = page_to_phys (fst (B i)) + of_nat j"
    unfolding word_unat_eq_iff o p by (simp add: algebra_simps)
  have blk: "in_block ?f 1 (page_to_phys (fst (B i)) + of_nat j)"
    using in_block_output(1) [OF b out_addr_frame(1) [OF b], of va] eq by (simp add: e)
  note x = page_rights [OF b w(1), of _ PAGE_USER_RX, folded e]
  have "el0_allows Read a' (F r (vpn va))" "el0_allows Exec a' (F r (vpn va))" "el1_allows Read a' (F r (vpn va))"
    unfolding x using attribute_bits(8) by simp_all
  then show thesis using that w(2) eq f blk by (simp add: r(2))
qed

text \<open>The state after a creation that succeeded, and the program block with the loaded bytes.\<close>

lemma created_program:
  assumes R: "sys_rel lk K (mc, E) (c, True, ts, q) L F A B" and sz: "unat sz \<le> 0x8000"
    and src: "\<forall>j < unat sz. src + of_nat j \<in> K"
    and slot: "find_slot (sched_of (sys_of mc)) 0 MAX_TASKS = Some i"
    and run: "task_create_user lk name src sz priority (sys_of mc) = Some (tid, k)" and live: "user_live (sched_of k) i"
  obtains L' F' fp ord where "sys_rel lk K (mc\<lparr>sys_of := k\<rparr>, E) (c, True, ts, q @ [i]) L' F' A (B(i := (fp, 2 ^ ord)))"
    "unat sz \<le> 4096 * 2 ^ ord" "\<And>j. j < unat sz \<Longrightarrow> mem_of k (page_to_phys fp + of_nat j) = mem_of (sys_of mc) (src + of_nat j)"
proof -
  let ?k = "sys_of mc"
  note D = sys_relD [OF R]
  have np: "8 \<le> unat (num_pages (pmm_of ?k))" using heap_relD(2) [OF D(6)] by simp
  have ap: "frames_apart lk (pmm_of ?k)" "image_apart (pmm_of ?k) src sz"
    using managed_not_static [OF R] D(1) src by (auto simp: frames_apart_def image_apart_def)
  have i: "\<not> live (sched_of ?k) i" using find_slot_Some [OF slot] by (auto simp: live_def)
  from task_create_user_spec [OF D(2-5) np sz ap slot, of name priority] show thesis
  proof cases
    case (1 k')
    then have "rr_rel (sched_of k) (c, True, ts, q)" using run D(2) by (simp add: create_failed_def)
    then have "live (sched_of k) i \<longleftrightarrow> live (sched_of ?k) i" by (simp only: rr_live [OF D(2)] rr_live)
    then show thesis using i live by (simp add: user_live_def)
  next
    case 2
    then show thesis using run by simp
  next
    case (3 k' fk fu fp ord)
    then have k': "k' = k" using run by simp
    have n: "(2 :: nat) ^ ord \<le> 8" using power_increasing [OF 3(1), of "2 :: nat"] by simp
    have U: "\<forall>j < unat sz. mem_of k (page_to_phys fp + of_nat j) = mem_of ?k (src + of_nat j)"
      using 3(4) unfolding user_created_def k' by blast
    show thesis using user_created_rel [OF R i 3(4) n 3(5-7)] 3(2) U unfolding k' by (intro that) blast+
  qed
qed

lemma program_stays:
  assumes inv: "sys_inv lk K (mc, E)" and sz: "unat sz \<le> 0x8000" and src: "\<forall>j < unat sz. src + of_nat j \<in> K"
    and slot: "find_slot (sched_of (sys_of mc)) 0 MAX_TASKS = Some i"
    and run: "task_create_user lk name src sz priority (sys_of mc) = Some (tid, k)" and live: "user_live (sched_of k) i"
    and steps: "steps_alive lk K i (mc\<lparr>sys_of := k\<rparr>, E) (mc', E')" and j: "j < unat sz"
  obtains b d where "table_walk (mem_of (sys_of mc')) 4 0 (t_page_table (tk (sched_of (sys_of mc')) i)) (USER_PROG_BASE + of_nat j) = Some (0, b, d)"
    "el0_allows Read b d" "el0_allows Exec b d" "el1_allows Read b d"
    "mem_of (sys_of mc') (output_address 0 d (USER_PROG_BASE + of_nat j)) = mem_of (sys_of mc) (src + of_nat j)"
proof -
  obtain c ts q L F A B where R: "sys_rel lk K (mc, E) (c, True, ts, q) L F A B" by (rule sys_invE [OF inv])
  obtain L' F' fp ord where C: "sys_rel lk K (mc\<lparr>sys_of := k\<rparr>, E) (c, True, ts, q @ [i]) L' F' A (B(i := (fp, 2 ^ ord)))"
    "unat sz \<le> 4096 * 2 ^ ord" "\<And>j. j < unat sz \<Longrightarrow> mem_of k (page_to_phys fp + of_nat j) = mem_of (sys_of mc) (src + of_nat j)"
    by (rule created_program [OF R sz src slot run live]) blast
  have l: "user_live (sched_of (sys_of (fst (mc\<lparr>sys_of := k\<rparr>, E)))) i" using live by simp
  obtain c' ts' q' L2 F2 A2 B2 where P: "sys_rel lk K (mc', E') (c', True, ts', q') L2 F2 A2 B2"
    "user_live (sched_of (sys_of mc')) i" "B2 i = (fp, 2 ^ ord)"
    "\<And>f x. f \<in> prog_frames (B(i := (fp, 2 ^ ord))) i \<Longrightarrow> in_block f 1 x \<Longrightarrow> mem_of (sys_of mc') x = mem_of k x"
    by (rule program_persists [OF steps C(1) l]) simp
  have "j < 4096 * snd (B2 i)" using j C(2) by (simp add: P(3))
  then obtain b d where w: "table_walk (mem_of (sys_of mc')) 4 0 (t_page_table (tk (sched_of (sys_of mc')) i)) (USER_PROG_BASE + of_nat j) = Some (0, b, d)"
    "output_address 0 d (USER_PROG_BASE + of_nat j) = page_to_phys fp + of_nat j" "fp + j div 4096 \<in> prog_frames B2 i"
    "in_block (fp + j div 4096) 1 (page_to_phys fp + of_nat j)"
    "el0_allows Read b d" "el0_allows Exec b d" "el1_allows Read b d"
    using program_walk [OF P(1,2), of j] unfolding P(3) fst_conv by blast
  have "fp + j div 4096 \<in> prog_frames (B(i := (fp, 2 ^ ord))) i" using w(3) P(3) by (simp add: prog_frames_def)
  from P(4) [OF this w(4)] C(3) [OF j] have "mem_of (sys_of mc') (page_to_phys fp + of_nat j) = mem_of (sys_of mc) (src + of_nat j)"
    by simp
  then show thesis using that [OF w(1,5-7)] w(2) by simp
qed

text \<open>
  C13: the program of a user task stays what was loaded: when \<^verbatim>\<open>task_create_user\<close> succeeds in putting a
  program of at most 32 KB into a slot, then after any sequence of interrupts, system calls, heap
  calls, creations of tasks and execution of tasks, as long as the task lives, each byte of the
  program can be read and executed by the task at its place from \<^verbatim>\<open>USER_PROG_BASE\<close> on, through its tables,
  and is the byte the kernel image had.
\<close>
theorem program_intact:
  assumes "sys_inv lk K (mc, E)" "unat sz \<le> 0x8000" "\<forall>j < unat sz. src + of_nat j \<in> K"
    and "find_slot (sched_of (sys_of mc)) 0 MAX_TASKS = Some i"
    and "task_create_user lk name src sz priority (sys_of mc) = Some (tid, k)" "user_live (sched_of k) i"
    and "steps_alive lk K i (mc\<lparr>sys_of := k\<rparr>, E) (mc', E')" "j < unat sz" "acc = Read \<or> acc = Exec"
  shows "\<exists>x. reaches el0_allows acc (USER_PROG_BASE + of_nat j)
      (table_walk (mem_of (sys_of mc')) 4 0 (t_page_table (tk (sched_of (sys_of mc')) i)) (USER_PROG_BASE + of_nat j)) = Some x \<and>
    mem_of (sys_of mc') x = mem_of (sys_of mc) (src + of_nat j)"
proof -
  obtain b d where w: "table_walk (mem_of (sys_of mc')) 4 0 (t_page_table (tk (sched_of (sys_of mc')) i)) (USER_PROG_BASE + of_nat j) = Some (0, b, d)"
    "el0_allows Read b d" "el0_allows Exec b d"
    "mem_of (sys_of mc') (output_address 0 d (USER_PROG_BASE + of_nat j)) = mem_of (sys_of mc) (src + of_nat j)"
    by (rule program_stays [OF assms(1-8)])
  have "el0_allows acc b d" using assms(9) w(2,3) by blast
  then show ?thesis using w(1,4) by simp
qed

section \<open>The messages of the programs\<close>

text \<open>
  The read-only data of the two programs: NUL-terminated strings, one after the other. The link
  script starts the program at \<^verbatim>\<open>USER_PROG_BASE\<close> and its read-only data at the next multiple of 4096;
  the code of either program is a few words, so that is one page on.
\<close>

definition hello_msg :: "item list" where "hello_msg = [S ''[USER] Hello from user mode!'', NL]"
definition bye_msg :: "item list" where "bye_msg = [S ''[USER] Goodbye from user mode!'', NL]"
definition start_msg :: "item list" where "start_msg = [S ''[USER] Counter task starting...'', NL]"
definition count_msg :: "item list" where "count_msg = [S ''[USER] Counting...'', NL]"
definition done_msg :: "item list" where "done_msg = [S ''[USER] Counter task done!'', NL]"

definition chars :: "item list \<Rightarrow> u8 list" where
  "chars items = concat (map item_bytes items)"

definition asciz :: "item list \<Rightarrow> u8 list" where
  "asciz items = chars items @ [0]"

definition hello_rodata :: "u8 list" where
  "hello_rodata = asciz hello_msg @ asciz bye_msg"

definition counter_rodata :: "u8 list" where
  "counter_rodata = asciz start_msg @ asciz count_msg @ asciz done_msg"

definition RODATA_OFFSET :: nat where "RODATA_OFFSET = 0x1000"

text \<open>\<^verbatim>\<open>user.ld\<close> puts the read-only data after \<open>code\<close> bytes of code at the next page; 14 and 21 instructions of 4 bytes are the programs.\<close>

definition rodata_offset :: "nat \<Rightarrow> nat" where "rodata_offset code = (code + 0xFFF) div 0x1000 * 0x1000"

lemma rodata_offsets: "rodata_offset (14 * 4) = RODATA_OFFSET" "rodata_offset (21 * 4) = RODATA_OFFSET"
  by (simp_all add: rodata_offset_def RODATA_OFFSET_def)

text \<open>The offset in the program of the string that comes after the first \<open>n\<close> bytes of read-only data, as an address.\<close>

definition msg_addr :: "nat \<Rightarrow> u64" where
  "msg_addr n = USER_PROG_BASE + of_nat (RODATA_OFFSET + n)"

text \<open>An embedded program of \<open>sz\<close> bytes at \<open>src\<close> with the read-only data \<open>ro\<close> where the link script puts it.\<close>

definition program_image :: "mem \<Rightarrow> u64 \<Rightarrow> u64 \<Rightarrow> u8 list \<Rightarrow> bool" where
  "program_image m src sz ro \<longleftrightarrow> RODATA_OFFSET + length ro \<le> unat sz \<and>
     (\<forall>j < length ro. m (src + of_nat (RODATA_OFFSET + j)) = ro ! j)"

lemma cstr_bytes:
  "(\<forall>j < length xs. xs ! j \<noteq> 0 \<and> m (a + of_nat j) = xs ! j) \<Longrightarrow> m (a + of_nat (length xs)) = 0 \<Longrightarrow> cstr m a xs"
proof (induction xs arbitrary: a)
  case (Cons x xs)
  have "\<forall>j < length xs. xs ! j \<noteq> 0 \<and> m (a + 1 + of_nat j) = xs ! j"
  proof (intro allI impI)
    fix j assume "j < length xs"
    then have "(x # xs) ! Suc j \<noteq> 0 \<and> m (a + of_nat (Suc j)) = (x # xs) ! Suc j" using Cons.prems(1) by (intro Cons.prems(1) [rule_format]) simp
    then show "xs ! j \<noteq> 0 \<and> m (a + 1 + of_nat j) = xs ! j" by (simp add: add.assoc)
  qed
  moreover have "m (a + 1 + of_nat (length xs)) = 0" using Cons.prems(2) by (simp add: add.assoc)
  ultimately have "cstr m (a + 1) xs" by (rule Cons.IH)
  moreover have "x \<noteq> 0 \<and> m a = x" using Cons.prems(1) [rule_format, of 0] by simp
  ultimately show ?case by simp
qed simp

text \<open>A string inside a list of bytes.\<close>

lemma cstr_inside:
  assumes bytes: "\<forall>j < length ro. m (a + of_nat j) = ro ! j" and ro: "ro = pre @ chars items @ 0 # post"
    and nz: "0 \<notin> set (chars items)"
  shows "cstr m (a + of_nat (length pre)) (chars items)"
proof (rule cstr_bytes)
  have at: "m (a + of_nat (length pre) + of_nat j) = ro ! (length pre + j)" if "j \<le> length (chars items)" for j
    using bytes [rule_format, of "length pre + j"] that by (simp add: ro add.assoc)
  show "\<forall>j < length (chars items). chars items ! j \<noteq> 0 \<and>
      m (a + of_nat (length pre) + of_nat j) = chars items ! j"
  proof (intro allI impI conjI)
    fix j assume j: "j < length (chars items)"
    then show "chars items ! j \<noteq> 0" using nz nth_mem by metis
    show "m (a + of_nat (length pre) + of_nat j) = chars items ! j"
      using at [of j] j by (simp add: ro nth_append)
  qed
  show "m (a + of_nat (length pre) + of_nat (length (chars items))) = 0"
    using at [of "length (chars items)"] by (simp add: ro nth_append)
qed

lemma chars_nonzero: "0 \<notin> set (chars hello_msg)" "0 \<notin> set (chars bye_msg)" "0 \<notin> set (chars start_msg)"
  "0 \<notin> set (chars count_msg)" "0 \<notin> set (chars done_msg)"
  by (simp_all add: chars_def hello_msg_def bye_msg_def start_msg_def count_msg_def done_msg_def)

text \<open>
  The translation the tables are meant for: through the tables of the current user task, if there is
  one and they map the address, and unchanged otherwise, as the kernel's own tables do.
\<close>

definition meant_translation :: translation where
  "meant_translation u m va =
     (case if ttbr0_el1 u = 0 then None else reaches el1_allows Read va (table_walk m 4 0 (ttbr0_el1 u) va) of
        None \<Rightarrow> va | Some x \<Rightarrow> x)"

section \<open>What the kernel reads for the current user task\<close>

lemma user_string:
  assumes inv: "sys_inv lk K (mc, E)" and sz: "unat sz \<le> 0x8000" and src: "\<forall>j < unat sz. src + of_nat j \<in> K"
    and slot: "find_slot (sched_of (sys_of mc)) 0 MAX_TASKS = Some i"
    and run: "task_create_user lk name src sz priority (sys_of mc) = Some (tid, k)" and live: "user_live (sched_of k) i"
    and steps: "steps_alive lk K i (mc\<lparr>sys_of := k\<rparr>, E) (mc', E')"
    and cur: "rr_rel (sched_of (sys_of mc')) (i, True, ts, q)"
    and img: "program_image (mem_of (sys_of mc)) src sz ro" and ro: "ro = pre @ chars items @ 0 # post"
    and nz: "0 \<notin> set (chars items)"
  shows "sys_inv lk K (mc', E')"
    "cstr (\<lambda>a. mem_of (sys_of mc') (meant_translation (mmu_of (sys_of mc')) (mem_of (sys_of mc')) a))
      (msg_addr (length pre)) (chars items)"
proof -
  let ?m = "\<lambda>a. mem_of (sys_of mc') (meant_translation (mmu_of (sys_of mc')) (mem_of (sys_of mc')) a)"
  let ?t = "t_page_table (tk (sched_of (sys_of mc')) i)"
  obtain c0 ts0 q0 L0 F0 A0 B0 where R0: "sys_rel lk K (mc, E) (c0, True, ts0, q0) L0 F0 A0 B0" by (rule sys_invE [OF inv])
  obtain L1 F1 fp ord where C: "sys_rel lk K (mc\<lparr>sys_of := k\<rparr>, E) (c0, True, ts0, q0 @ [i]) L1 F1 A0 (B0(i := (fp, 2 ^ ord)))"
    by (rule created_program [OF R0 sz src slot run live]) blast
  obtain c ts' q' L F A B where R: "sys_rel lk K (mc', E') (c, True, ts', q') L F A B"
    and l: "user_live (sched_of (sys_of mc')) i"
    by (rule program_persists [OF steps C]) (use live in simp_all)
  then show "sys_inv lk K (mc', E')" by (intro sys_invI)
  have "i < MAX_TASKS" using find_slot_Some [OF slot] by simp
  moreover have "task_space (tk (sched_of (sys_of mc')) i) = ?t" using l by (simp add: task_space_def user_live_def)
  ultimately have root: "ttbr0_el1 (mmu_of (sys_of mc')) = ?t" "?t \<noteq> 0"
    using sys_relD(4) [OF R] rr_rel_current [OF cur] l by (auto simp: space_ok_def user_live_def)
  have byte: "?m (USER_PROG_BASE + of_nat j) = mem_of (sys_of mc) (src + of_nat j)" if j: "j < unat sz" for j
  proof -
    obtain b d where w: "table_walk (mem_of (sys_of mc')) 4 0 ?t (USER_PROG_BASE + of_nat j) = Some (0, b, d)"
      "el1_allows Read b d"
      "mem_of (sys_of mc') (output_address 0 d (USER_PROG_BASE + of_nat j)) = mem_of (sys_of mc) (src + of_nat j)"
      by (rule program_stays [OF inv sz src slot run live steps j])
    then show ?thesis unfolding meant_translation_def root(1) using root(2) by (simp del: el1_allows.simps)
  qed
  let ?a = "USER_PROG_BASE + of_nat RODATA_OFFSET"
  have "\<forall>j < length ro. ?m (?a + of_nat j) = ro ! j"
    using img byte [of "RODATA_OFFSET + _"] unfolding program_image_def by (simp add: add.assoc)
  from cstr_inside [OF this ro nz] show "cstr ?m (msg_addr (length pre)) (chars items)"
    by (simp add: msg_addr_def add.assoc)
qed

text \<open>
  C15: \<^verbatim>\<open>user_hello\<close> from the image to the console, with the translation its tables are meant for. Let \<^verbatim>\<open>task_create_user\<close> have loaded the program, linked as its
  script says, into a free slot, let anything happen in the kernel while the task lives, and let it
  be its turn with another task ready: then all of its system calls succeed, exactly its two messages and the kernel's
  message for its exit are printed, the exit switches to the first ready task, the slot is free and
  its stack frames are back with the allocator, and the invariant of the system holds.
\<close>
theorem user_hello_prints:
  assumes "sys_inv lk K (mc, E)" "unat sz \<le> 0x8000" "\<forall>j < unat sz. src + of_nat j \<in> K"
    and "program_image (mem_of (sys_of mc)) src sz hello_rodata"
    and "find_slot (sched_of (sys_of mc)) 0 MAX_TASKS = Some i"
    and "task_create_user lk name src sz priority (sys_of mc) = Some (tid, k)" "user_live (sched_of k) i"
    and "steps_alive lk K i (mc\<lparr>sys_of := k\<rparr>, E) (mc', E')"
    and "rr_rel (sched_of (sys_of mc')) (i, True, ts, q)" "q \<noteq> []"
  shows "\<exists>mc''. user_hello meant_translation clock (msg_addr 0) (msg_addr (length (asciz hello_msg))) mc' = Some (Switched mc'') \<and>
    sys_inv lk K (mc'', E') \<and>
    con_of (sys_of mc'') = print ([S ''[USER] Hello from user mode!'', NL, S ''[USER] Goodbye from user mode!'', NL,
      S ''Task '', S (t_name (tk (sched_of (sys_of mc')) i)), S '' exiting'', NL]) (con_of (sys_of mc')) \<and>
    current_task (sched_of (sys_of mc'')) = Some (hd q) \<and> \<not> live (sched_of (sys_of mc'')) i \<and>
    free_set (pmm_of (sys_of mc'')) = free_set (pmm_of (sys_of mc')) \<union> task_frames (sched_of (sys_of mc')) i"
proof -
  note str = user_string [OF assms(1-3,5-9,4)]
  have h: "hello_rodata = [] @ chars hello_msg @ 0 # asciz bye_msg" by (simp add: hello_rodata_def asciz_def)
  have b: "hello_rodata = asciz hello_msg @ chars bye_msg @ 0 # []" by (simp add: hello_rodata_def asciz_def)
  have s: "cstr (\<lambda>a. mem_of (sys_of mc') (meant_translation (mmu_of (sys_of mc')) (mem_of (sys_of mc')) a)) (msg_addr 0) (chars hello_msg)"
    using str(2) [OF h chars_nonzero(1)] by simp
  have p: "print (map C (chars hello_msg) @ map C (chars bye_msg) @ rest) con =
      print ([S ''[USER] Hello from user mode!'', NL, S ''[USER] Goodbye from user mode!'', NL] @ rest) con" for rest con
    by (simp add: print_def chars_def hello_msg_def bye_msg_def comp_def)
  show ?thesis
    using user_hello_completes [where xlate = meant_translation, OF str(1) [OF h chars_nonzero(1)] assms(9,10) s str(2) [OF b chars_nonzero(2)], of clock]
    unfolding p by simp
qed

text \<open>
  \<^verbatim>\<open>user_counter\<close>, loaded from its image in the same way, finds its first two messages too, and with the tick
  counter standing still never comes back from its first sleep.
\<close>

lemma user_counter_sticks:
  assumes still: "\<And>n. clock n = clock 0"
    and run: "sys_inv lk K (mc, E)" "unat sz \<le> 0x8000" "\<forall>j < unat sz. src + of_nat j \<in> K"
      "find_slot (sched_of (sys_of mc)) 0 MAX_TASKS = Some i"
      "task_create_user lk name src sz priority (sys_of mc) = Some (tid, k)" "user_live (sched_of k) i"
      "steps_alive lk K i (mc\<lparr>sys_of := k\<rparr>, E) (mc', E')" "rr_rel (sched_of (sys_of mc')) (i, True, ts, q)"
      "program_image (mem_of (sys_of mc)) src sz counter_rodata"
  shows "user_counter meant_translation clock (msg_addr 0) (msg_addr (length (asciz start_msg))) done_addr mc' = None"
proof -
  have "counter_rodata = [] @ chars start_msg @ 0 # asciz count_msg @ asciz done_msg"
    by (simp add: counter_rodata_def asciz_def)
  note s = user_string(2) [OF run this chars_nonzero(3), unfolded list.size of_nat_0]
  have "counter_rodata = asciz start_msg @ chars count_msg @ 0 # asciz done_msg"
    by (simp add: counter_rodata_def asciz_def)
  note c = user_string(2) [OF run this chars_nonzero(4)]
  show ?thesis by (rule user_counter_hangs [where xlate = meant_translation]) (rule still, rule s, rule c)
qed

section \<open>Witnesses\<close>

text \<open>The program at \<^verbatim>\<open>0x40410000\<close> with the read-only data in its second page, loaded, and then current.\<close>

lemma hello_task:
  obtains mc i k mc' where "sys_inv lk0 static_memory (mc, {})" "\<forall>j < unat (0x2000 :: u64). 0x40410000 + of_nat j \<in> static_memory"
    "program_image (mem_of (sys_of mc)) 0x40410000 0x2000 hello_rodata" "find_slot (sched_of (sys_of mc)) 0 MAX_TASKS = Some i"
    "task_create_user lk0 ''user-hello'' 0x40410000 0x2000 10 (sys_of mc) = Some (next_task_id (sched_of (sys_of mc)), k)"
    "user_live (sched_of k) i" "steps_alive lk0 static_memory i (mc\<lparr>sys_of := k\<rparr>, {}) (mc', {})"
    "rr_rel (sched_of (sys_of mc')) (i, True, 10, [0])"
proof -
  obtain mc0 F h where R: "sys_rel lk0 static_memory (mc0, {}) (0, True, 10, []) id_labels F no_objects (\<lambda>_. (0, 0))"
    and free: "free_set (pmm_of (sys_of mc0)) = {..<1024} \<union> {5120..<16384} - {h}" by (rule initialised)
  have src: "unat (0x2000 :: u64) \<le> 0x8000" "\<forall>j < unat (0x2000 :: u64). 0x40410000 + of_nat j \<in> static_memory"
    by simp (intro allI impI static_image [of _ "unat (0x2000 :: u64)"], simp_all)
  have len: "length hello_rodata \<le> 0x1000"
    by (simp add: hello_rodata_def asciz_def chars_def hello_msg_def bye_msg_def)
  let ?off = "\<lambda>x. unat (x - 0x40411000 :: u64)"
  define m where "m = (\<lambda>x. if ?off x < length hello_rodata then hello_rodata ! ?off x else mem_of (sys_of mc0) x)"
  define mc where "mc = mc0\<lparr>sys_of := (sys_of mc0)\<lparr>mem_of := m\<rparr>\<rparr>"
  have w: "may_write lk0 static_memory (mc0, {}) x" if "?off x < length hello_rodata" for x
  proof -
    have o: "?off x < 0x1000" using that len by simp
    have "unat (0x40411000 + (x - 0x40411000)) = unat (0x40411000 :: u64) + ?off x"
      by (rule unat_add_no_wrap) (use o in simp)
    then have u: "unat x = 0x40411000 + ?off x" by simp
    then have "x \<in> static_memory" using o by (intro static_range) linarith+
    moreover have "\<not> in_space lk0 x" using u o by (simp add: in_space_def lk0_def)
    ultimately show ?thesis by (simp add: may_write_def)
  qed
  have R1: "sys_rel lk0 static_memory (mc, {}) (0, True, 10, []) id_labels F no_objects (\<lambda>_. (0, 0))"
    by (rule run_rel [OF R, where c = "cpu_of (sys_of mc0)" and m = m and con = "con_of (sys_of mc0)", THEN conjunct1])
      (use w in \<open>auto simp: mc_def m_def\<close>)
  have free1: "free_set (pmm_of (sys_of mc)) = {..<1024} \<union> {5120..<16384} - {h}" using free by (simp add: mc_def)
  have img: "program_image (mem_of (sys_of mc)) 0x40410000 0x2000 hello_rodata"
  proof -
    have "m (0x40410000 + of_nat (RODATA_OFFSET + j)) = hello_rodata ! j" if "j < length hello_rodata" for j
    proof -
      have "?off (0x40410000 + of_nat (RODATA_OFFSET + j)) = j"
        using that len by (simp add: RODATA_OFFSET_def unat_of_nat_small algebra_simps)
      then show ?thesis using that by (simp add: m_def)
    qed
    then show ?thesis using len by (simp add: program_image_def mc_def RODATA_OFFSET_def)
  qed
  obtain i k where k: "find_slot (sched_of (sys_of mc)) 0 MAX_TASKS = Some i"
    "task_create_user lk0 ''user-hello'' 0x40410000 0x2000 10 (sys_of mc) = Some (next_task_id (sched_of (sys_of mc)), k)"
    "user_live (sched_of k) i" "rr_rel (sched_of k) (0, True, 10, [i])" by (rule creates_user [OF R1 free1 src])
  let ?n = "mc\<lparr>sys_of := k\<rparr>"
  obtain mc1 mc2 where t: "kernel_step lk0 static_memory (?n, {}) (mc1, {})" "kernel_step lk0 static_memory (mc1, {}) (mc2, {})"
    "user_live (sched_of (sys_of mc1)) i" "user_live (sched_of (sys_of mc2)) i" "rr_rel (sched_of (sys_of mc2)) (i, True, 10, [0])"
    by (rule user_turn [of ?n i]) (use k in simp_all)
  have "steps_alive lk0 static_memory i (?n, {}) (mc2, {})"
    unfolding steps_alive_def using t(1-4)
    by (intro rtranclp.rtrancl_into_rtrancl [OF rtranclp.rtrancl_into_rtrancl [OF rtranclp.rtrancl_refl]]) auto
  then show thesis by (rule that [OF sys_invI [OF R1] src(2) img k(1-3) _ t(5)])
qed

theorem program_intact_witness:
  "\<exists>mc i x. reaches el0_allows Read (USER_PROG_BASE + of_nat 0x1000)
      (table_walk (mem_of (sys_of mc)) 4 0 (t_page_table (tk (sched_of (sys_of (mc :: machine))) i)) (USER_PROG_BASE + of_nat 0x1000)) = Some x \<and>
    mem_of (sys_of mc) x = of_char (CHR ''['')"
proof -
  obtain mc i k mc' where h: "sys_inv lk0 static_memory (mc, {})" "\<forall>j < unat (0x2000 :: u64). 0x40410000 + of_nat j \<in> static_memory"
    "program_image (mem_of (sys_of mc)) 0x40410000 0x2000 hello_rodata" "find_slot (sched_of (sys_of mc)) 0 MAX_TASKS = Some i"
    "task_create_user lk0 ''user-hello'' 0x40410000 0x2000 10 (sys_of mc) = Some (next_task_id (sched_of (sys_of mc)), k)"
    "user_live (sched_of k) i" "steps_alive lk0 static_memory i (mc\<lparr>sys_of := k\<rparr>, {}) (mc', {})" by (rule hello_task)
  have "length hello_rodata > 0" by (simp add: hello_rodata_def asciz_def)
  then have "mem_of (sys_of mc) (0x40410000 + of_nat (RODATA_OFFSET + 0)) = hello_rodata ! 0"
    using h(3) unfolding program_image_def by blast
  then have "mem_of (sys_of mc) (0x40410000 + of_nat 0x1000) = of_char (CHR ''['')"
    by (simp add: RODATA_OFFSET_def hello_rodata_def asciz_def chars_def hello_msg_def)
  moreover have "unat (0x2000 :: u64) \<le> 0x8000" "0x1000 < unat (0x2000 :: u64)" by simp_all
  from program_intact [OF h(1) this(1) h(2,4-7) this(2) disjI1 [OF refl]]
  obtain x where "reaches el0_allows Read (USER_PROG_BASE + of_nat 0x1000)
      (table_walk (mem_of (sys_of mc')) 4 0 (t_page_table (tk (sched_of (sys_of mc')) i)) (USER_PROG_BASE + of_nat 0x1000)) = Some x"
    "mem_of (sys_of mc') x = mem_of (sys_of mc) (0x40410000 + of_nat 0x1000)" by blast
  ultimately show ?thesis by (intro exI [of _ mc'] exI [of _ i] exI [of _ x] conjI) simp_all
qed

theorem user_hello_prints_witness:
  "\<exists>mc i mc'. user_live (sched_of (sys_of mc)) i \<and>
     user_hello meant_translation (\<lambda>_. 0) (msg_addr 0) (msg_addr (length (asciz hello_msg))) mc = Some (Switched mc') \<and>
     \<not> live (sched_of (sys_of mc')) i"
proof -
  obtain mc i k mc' where h: "sys_inv lk0 static_memory (mc, {})" "\<forall>j < unat (0x2000 :: u64). 0x40410000 + of_nat j \<in> static_memory"
    "program_image (mem_of (sys_of mc)) 0x40410000 0x2000 hello_rodata" "find_slot (sched_of (sys_of mc)) 0 MAX_TASKS = Some i"
    "task_create_user lk0 ''user-hello'' 0x40410000 0x2000 10 (sys_of mc) = Some (next_task_id (sched_of (sys_of mc)), k)"
    "user_live (sched_of k) i" "steps_alive lk0 static_memory i (mc\<lparr>sys_of := k\<rparr>, {}) (mc', {})"
    "rr_rel (sched_of (sys_of mc')) (i, True, 10, [0])" by (rule hello_task)
  have "user_live (sched_of (sys_of mc')) i"
    using h(7,6) unfolding steps_alive_def by cases auto
  moreover have "unat (0x2000 :: u64) \<le> 0x8000" "[0 :: nat] \<noteq> []" by simp_all
  from user_hello_prints [OF h(1) this(1) h(2-8) this(2), of "\<lambda>_. 0"] obtain mc'' where
    "user_hello meant_translation (\<lambda>_. 0) (msg_addr 0) (msg_addr (length (asciz hello_msg))) mc' = Some (Switched mc'')"
    "\<not> live (sched_of (sys_of mc'')) i" by (elim exE conjE)
  ultimately show ?thesis by (intro exI conjI)
qed

end
