(* ===== verification/Spec2Isabelle.thy ===== *)
theory Spec2Isabelle
  imports Kstring Uart Switch Programs
begin

text \<open>
  A model of the AArch64 kernel under \<^verbatim>\<open>src/kernel\<close>, with the theorems that make it correct.

  \<^bold>\<open>The program.\<close> One processor boots through \<^verbatim>\<open>arch/aarch64/entry.S\<close> into \<^verbatim>\<open>kernel_main\<close>
  (\<^verbatim>\<open>core/main.c\<close>), which sets up the page allocator, the page tables, the heap, the interrupt
  controller, the timer and the scheduler, makes some tasks, and waits in a \<^verbatim>\<open>wfi\<close> loop. From then on the
  kernel runs when an exception is taken: a timer interrupt counts a tick and calls \<^verbatim>\<open>schedule\<close>, which
  may switch to the next task of the ready queue; an \<^verbatim>\<open>svc\<close> goes to the system call dispatcher, an
  \<^verbatim>\<open>hvc\<close> to the hypervisor's. Creating a task takes frames from the page allocator for its stacks,
  its program and, for a user task, pages of the table space for its own page tables; ending it
  gives the stacks back.

  \<^bold>\<open>The state.\<close> Every component has a record with the static variables of its file, and operations
  that return the updated record. They are joined in \<open>sys\<close> (allocator, page tables, memory, console, scheduler,
  processor) and \<open>machine\<close> (\<open>sys\<close>, heap, interrupt table, timer, statistics, device accesses,
  system registers). Memory is one map from 64-bit addresses to bytes: page tables, heap headers and
  free lists, program images, strings and saved exception frames all live in it, at the offsets of
  the C structures. Pointers into a static array (\<^verbatim>\<open>struct page *\<close>, \<^verbatim>\<open>struct task *\<close>) are optional indices, all other
  pointers are addresses. Integers are words of the width the code has.

  \<^bold>\<open>Results.\<close> An operation that may not return to its caller has type \<open>option\<close>: \<open>None\<close> is an endless loop, a halt
  or an undefined access. An operation that may leave by a context switch returns an
  \<open>outcome\<close>: \<open>Returned\<close>, \<open>Switched\<close> or \<open>Halted\<close>. Error codes of the C code are values.

  \<^bold>\<open>Theories and code.\<close>
  \<^item> \<open>Prelude\<close>, \<open>Memory\<close>: words, linked lists as segments; little-endian loads and stores of byte memory.
  \<^item> \<open>Kstring\<close>: \<^verbatim>\<open>core/string.c\<close>. \<open>Mmio\<close>, \<open>Uart\<close>, \<open>Gic\<close>: \<^verbatim>\<open>drivers/uart.c\<close> and \<^verbatim>\<open>drivers/gic.c\<close> as the
    sequence of register accesses they make on an arbitrary device.
  \<^item> \<open>Allocator_Spec\<close>, \<open>Pmm\<close>: the contract of a frame allocator (locale \<open>frame_allocator\<close>) and \<^verbatim>\<open>mm/pmm.c\<close>,
    which meets it (\<open>pmm0\<close>).
  \<^item> \<open>Mmu\<close>, \<open>Page_Tables\<close>, \<open>Address_Spaces\<close>: \<^verbatim>\<open>mm/mmu.c\<close>; its tables as a forest that refines a function
    from pages to entries; whole ranges through the interface \<open>page_mapper\<close>, which the kernel's and the
    user's mapping loop both meet (\<open>kernel_map\<close>, \<open>user_map\<close>).
  \<^item> \<open>Context\<close>, \<open>Switch\<close>: the saved context of a task; \<^verbatim>\<open>sched/switch.S\<close> instruction by instruction on the byte memory, which
    does to the processor and to the contexts what \<open>switch_tasks\<close> does in the scheduler's model. \<open>Sched\<close>, \<open>Tasks\<close>, \<open>User_Tasks\<close>: \<^verbatim>\<open>sched/sched.c\<close>; the doubly linked queue meets
    the interface \<open>ready_queue\<close> (\<open>rq\<close>), and \<^verbatim>\<open>schedule\<close> refines round robin on lists.
  \<^item> \<open>Heap_Spec\<close>, \<open>Kmalloc\<close>, \<open>Kmalloc_Correct\<close>: the contract of a heap (\<open>heap_interface\<close>) and \<^verbatim>\<open>mm/kmalloc.c\<close>,
    which meets it (\<open>kh\<close>).
  \<^item> \<open>Machine\<close>, \<open>Irq\<close>, \<open>Timer\<close>, \<open>Syscall\<close>, \<open>Hypervisor\<close>: the whole state; \<^verbatim>\<open>core/irq.c\<close>, \<^verbatim>\<open>drivers/timer.c\<close>,
    \<^verbatim>\<open>core/syscall.c\<close>, \<^verbatim>\<open>core/hypervisor.c\<close>.
  \<^item> \<open>Exceptions\<close>, \<open>Vectors\<close>: \<^verbatim>\<open>core/exception.c\<close> with the vector tables and the entries of \<^verbatim>\<open>entry.S\<close>; the
    exception frame is 272 bytes of the stack, and the report of an unexpected exception the text on the console.
  \<^item> \<open>Kernel_Main\<close>, \<open>Reset\<close>: \<^verbatim>\<open>core/main.c\<close>, with what it prints sent through the UART driver's polling loop; the reset code of \<^verbatim>\<open>entry.S\<close> and the layout of \<^verbatim>\<open>linker.ld\<close>.
  \<^item> \<open>System\<close>, \<open>Boot\<close>: the step relation \<open>kernel_step\<close> of the whole kernel, its invariant, and the proof that
    the boot establishes it.
  \<^item> \<open>Translation\<close>: the translation of the architecture (levels, descriptors, permissions, TCR and SCTLR fields) applied to the
    tables and register values of \<^verbatim>\<open>mm/mmu.c\<close>.
  \<^item> \<open>Demo\<close>: the wrappers of \<^verbatim>\<open>include/syscall.h\<close>, the demonstration tasks of \<^verbatim>\<open>main.c\<close> and the programs under \<^verbatim>\<open>user/\<close>.
  \<^item> \<open>Programs\<close>: the loaded bytes of a user program over the life of its task, the messages of the two programs
    at the places \<^verbatim>\<open>user.ld\<close> gives them, and \<^verbatim>\<open>user_hello\<close> from the image to the console.

  \<^bold>\<open>What is shown.\<close>
  \<^item> Allocation: a block of an order is taken lowest first if there is one, nothing else changes, and releasing it
    restores the state; any sequence of calls keeps the frames held apart. A double free breaks this.
  \<^item> Page tables: mapping, unmapping and ranges are updates of a function from pages to entries; the boot maps
    exactly DRAM and the devices; running out of tables is characterised exactly.
  \<^item> Scheduling: \<^verbatim>\<open>schedule\<close> is one step of round robin; a ready task runs after a bounded number of
    ticks; a switch restores the context and the address space of the chosen task. Creation and exit of tasks on every
    branch, with the frames taken and given back.
  \<^item> Heap: blocks handed out are large enough, disjoint from each other and from all bookkeeping, and survive any
    sequence of calls and of writes to blocks in use; sizes that overflow are characterised.
  \<^item> Exceptions: the save and restore macros are inverse up to the result in \<^verbatim>\<open>x0\<close>; a system call or
    hypervisor call returns to its caller with all other registers; what halts, with every register in the report,
    and which calls do not return. The context switch resumes a task with its registers.
  \<^item> Devices: the UART driver sends what the console holds, at the pace the device allows; after \<^verbatim>\<open>gic_init\<close> the last
    call of the driver for a peripheral interrupt decides whether it is enabled.
  \<^item> System: after \<^verbatim>\<open>_start\<close> at EL2, with a UART that makes progress, the invariant \<open>sys_inv\<close> holds and every step keeps it, so in every reachable state the page
    tables, stacks, programs, heap and free frames are apart, and a user task reaches only its own
    frames.
  \<^item> Translation: walked from level 0, a user task's tables let EL0 read and execute its program, read and write its stack,
    and nothing else; the kernel's tables map DRAM and the devices to themselves. With the TCR the kernel sets, the walk starts at level 1 and
    grants nothing.
  \<^item> Programs: a program stays as loaded and stays mapped while its task lives, so \<^verbatim>\<open>user_hello\<close> prints exactly its messages.

  \<^bold>\<open>Bounds and loops.\<close> Loops over a count are structural recursion on it: the block search gets the number of
    candidates plus one, as the \<^verbatim>\<open><=\<close> of the code does. Loops that may not end (polling a device, waiting for the
    clock, strings without an end, a cyclic free list, the range loops, the clearing loop of the reset code) are \<open>partial_function\<close>s
    with theorems that say when they return. \<open>order_for\<close> stops at shift 64, which C leaves undefined. The identity map needs 38 tables and a user task 6 of
    the 64 that the linker script reserves; two user tasks at boot leave 14.

  \<^bold>\<open>Parameters and hypotheses.\<close> The address translation of the processor (\<open>xlate\<close>), the readings of the tick
  counter in a busy wait (\<open>clock\<close>), the caller-saved registers after C code (\<open>regs\<close>), the devices (\<open>dev\<close>), the functions called
  through the interrupt table (\<open>call\<close>), what a write to the enable registers does to the software-generated interrupts
  (\<open>sgi\<close>) and the addresses that the linker chooses (\<open>image\<close>, \<open>symbols\<close>) are arguments. \<open>linked\<close> and \<open>programs_ok\<close>
  say where the linker puts the image and the embedded programs; \<open>link_kernel_linked\<close> and \<open>programs_in_image\<close> derive them from the sizes
  of the sections and from the bounds of the image. For the user programs \<open>xlate\<close> is \<open>meant_translation\<close>, the walk through the
  current task's tables from level 0.

  \<^bold>\<open>Limits of the steps.\<close> \<open>kernel_step\<close> takes programs of at most 32 KB from the static memory \<open>K\<close>, and sizes for \<^verbatim>\<open>kmalloc\<close>
  that do not wrap around with the header. The static variables of the C files are records, not bytes: \<open>K\<close> does not contain them, so a step
  of a task is code that leaves them alone.

  \<^bold>\<open>Not modelled.\<close>
  \<^item> The kernel's own accesses go to physical memory; caches and the TLB are outside the model. Barriers and TLB
    maintenance are recorded in a log. As the findings of the manifest say, \<^verbatim>\<open>mmu_enable\<close> leaves TTBR0 empty
    while the kernel runs at low addresses, and the TCR does not fit the tables (\<open>translation_grants_nothing\<close>): on hardware the
    model describes a kernel that starts at EL2, or one with that repaired.
  \<^item> Tasks are followed through a switch only as far as the saved context says; between two kernel entries a
    task is an arbitrary change of the memory it may write (\<open>may_write\<close>), of registers and of the console. A user program's
    stack is addressed by its physical frame.
  \<^item> Outside the boot sequence and the driver's own theory, printing appends to the console and the polling of the UART is left out:
    it delays, and with a UART that makes progress it ends (\<open>uart_refines_console\<close>).
  \<^item> Nested interrupts in the kernel: handlers run with interrupts masked. The boot code after
    \<^verbatim>\<open>unmask\<close> is followed without an interrupt.
  \<^item> The idle task and the loop at the end of \<^verbatim>\<open>kernel_main\<close> have no state: the steps of \<open>kernel_step\<close> are what interrupts
    them. Undefined values (registers at entry) are arbitrary. Instruction words are the assembler's output: a user program is
    followed by its calls and its data, its code bytes are arbitrary.
  \<^item> Without a counterpart, because no code of the kernel uses them: the constants of stage-2 translation in
    \<^verbatim>\<open>hypervisor.h\<close>, the GIC, TCR and SCTLR fields that nothing writes, the macros \<^verbatim>\<open>ALIGN_UP\<close>,
    \<^verbatim>\<open>ALIGN_DOWN\<close> and \<^verbatim>\<open>ARRAY_SIZE\<close>; and prototypes, assembler directives and the build files.
\<close>

end
